(* ===== verification/Prelude.thy ===== *)
theory Prelude
  imports Main "HOL-Library.Word"
begin

text \<open>
  Shared material of the development: the integer types of libs/types
  (\<^verbatim>\<open>std::u8\<close> ... \<^verbatim>\<open>std::u64\<close>) as machine words, the lemma collections that the
  component theories add to, and the generic facts on words, lists and finite maps that
  more than one component needs.  Pointers are 32-bit words, as on i386.
\<close>

unbundle bit_operations_syntax

type_synonym u8 = "8 word"
type_synonym u16 = "16 word"
type_synonym u32 = "32 word"
type_synonym u64 = "64 word"
type_synonym i32 = "32 word"
type_synonym addr = "32 word"

named_theorems mem_simps \<open>reading memory after writing it\<close>
named_theorems kernel_frames \<open>state fields an operation leaves alone\<close>
named_theorems inv_intros \<open>operations keep the invariant of their component\<close>

subsection \<open>Offsets from a base address\<close>

lemma unat_of_nat_small [simp]: "i < 2 ^ 32 \<Longrightarrow> unat (of_nat i :: u32) = i"
  by (simp add: unat_of_nat take_bit_eq_mod)

lemma unat_lt_2p32: "unat (x :: u32) < 2 ^ 32"
proof -
  have "unat x < 2 ^ LENGTH(32)" by (rule unsigned_less)
  then show ?thesis by simp
qed

lemma unat_diff_eq_iff:
  fixes x a :: addr
  assumes "i < 2 ^ 32"
  shows "unat (x - a) = i \<longleftrightarrow> x = a + of_nat i"
proof
  assume "unat (x - a) = i"
  then have "of_nat i = x - a" by (metis of_nat_unat ucast_id)
  then show "x = a + of_nat i" by simp
next
  assume "x = a + of_nat i"
  then have "x - a = of_nat i" by simp
  then show "unat (x - a) = i" using assms by simp
qed

lemma add_of_nat_inj:
  fixes a :: addr
  assumes "i < 2 ^ 32" "j < 2 ^ 32"
  shows "a + of_nat i = a + of_nat j \<longleftrightarrow> i = j"
  using assms by (metis unat_diff_eq_iff)

lemma unat_add_of_nat:
  fixes a :: addr
  assumes "unat a + i < 2 ^ 32"
  shows "unat (a + of_nat i) = unat a + i"
  using assms by (simp add: unat_word_ariths)

lemma and_3_mod:
  fixes x :: u32
  shows "x AND 3 = x mod 4"
  using take_bit_eq_mask [of 2 x] take_bit_eq_mod [of 2 x] by (simp add: mask_eq_exp_minus_1)

lemma unat_and_3:
  fixes x :: u32
  shows "unat (x AND 3) = unat x mod 4"
  by (simp add: and_3_mod unat_mod)

lemma and_not_mask_eq:
  fixes x :: u32
  shows "x AND NOT (mask n) = push_bit n (drop_bit n x)"
  by (rule bit_word_eqI) (auto simp: bit_simps)

lemma mask_12: "(mask 12 :: u32) = 0xFFF"
  by (simp add: mask_eq_exp_minus_1)

lemma unat_and_not_mask:
  fixes x :: u32
  shows "unat (x AND NOT (mask n)) = 2 ^ n * (unat x div 2 ^ n)"
proof -
  have "unat (x AND NOT (mask n)) = (2 ^ n * (unat x div 2 ^ n)) mod 2 ^ 32"
    by (simp only: and_not_mask_eq unsigned_push_bit_eq unat_drop_bit_eq)
      (simp add: take_bit_eq_mod push_bit_eq_mult drop_bit_eq_div mult.commute)
  moreover have "2 ^ n * (unat x div 2 ^ n) \<le> unat x" by simp
  then have "2 ^ n * (unat x div 2 ^ n) < 2 ^ 32" using unat_lt_2p32 [of x] by (rule le_less_trans)
  ultimately show ?thesis by simp
qed

lemma unat_and_0xFFF:
  fixes x :: u32
  shows "unat (x AND 0xFFF) = unat x mod 4096"
proof -
  have "x AND 0xFFF = take_bit 12 x" by (simp only: take_bit_eq_mask mask_12)
  then show ?thesis by (simp add: unsigned_take_bit_eq) (simp add: take_bit_eq_mod)
qed

lemma word_or_eq_0 [simp]: "(x :: 'a::len word) OR y = 0 \<longleftrightarrow> x = 0 \<and> y = 0"
  by (auto simp: bit_eq_iff bit_or_iff)

lemma and_1_bit: "(x :: 'a::len word) AND 1 \<noteq> 0 \<longleftrightarrow> bit x 0"
  using and_exp_eq_0_iff_not_bit [of x 0] unfolding power_0 by blast

subsection \<open>Lists\<close>

lemma upt_conv_snoc: "[0..<Suc n] = [0..<n] @ [n]"
  by simp

end
