(* ===== verification/Memory.thy ===== *)
theory Memory
  imports Prelude
begin

text \<open>
  Byte-addressed memory and the routines of libs/mem/src/mem.cpp on it:
  \<^verbatim>\<open>mem::copy\<close>, \<^verbatim>\<open>mem::move\<close>, \<^verbatim>\<open>mem::set\<close> and \<^verbatim>\<open>mem::compare\<close>, each with its aligned
  four-bytes-at-a-time path and its byte path, as the loops of the source.  The
  specifications are \<open>store_bytes\<close> and \<open>load_bytes\<close>: a block is written at
  once with the bytes read before anything is written.
\<close>

unbundle bit_operations_syntax

type_synonym bmem = "addr \<Rightarrow> u8"

section \<open>Loads and stores\<close>

definition byte_of :: "u32 \<Rightarrow> nat \<Rightarrow> u8" where
  "byte_of w i = ucast (drop_bit (8 * i) w)"

definition load32 :: "bmem \<Rightarrow> addr \<Rightarrow> u32" where
  "load32 m a = ucast (m a) OR push_bit 8 (ucast (m (a + 1)))
     OR push_bit 16 (ucast (m (a + 2))) OR push_bit 24 (ucast (m (a + 3)))"

definition store32 :: "bmem \<Rightarrow> addr \<Rightarrow> u32 \<Rightarrow> bmem" where
  "store32 m a w = m(a := byte_of w 0, a + 1 := byte_of w 1, a + 2 := byte_of w 2,
     a + 3 := byte_of w 3)"

definition load_bytes :: "bmem \<Rightarrow> addr \<Rightarrow> nat \<Rightarrow> u8 list" where
  "load_bytes m a n = map (\<lambda>i. m (a + of_nat i)) [0..<n]"

definition store_bytes :: "bmem \<Rightarrow> addr \<Rightarrow> u8 list \<Rightarrow> bmem" where
  "store_bytes m a bs = (\<lambda>x. if unat (x - a) < length bs then bs ! unat (x - a) else m x)"

section \<open>mem::copy\<close>

text \<open>The byte loop \<^verbatim>\<open>for (i = 0; i < n; i++) d[i] = s[i]\<close>.\<close>

fun copy_fwd :: "bmem \<Rightarrow> addr \<Rightarrow> addr \<Rightarrow> nat \<Rightarrow> bmem" where
  "copy_fwd m d s 0 = m"
| "copy_fwd m d s (Suc n) = copy_fwd (m(d := m s)) (d + 1) (s + 1) n"

text \<open>The loop that aligns both pointers: it returns the memory, both pointers and \<open>n\<close>.\<close>

fun align_copy :: "bmem \<Rightarrow> addr \<Rightarrow> addr \<Rightarrow> nat \<Rightarrow> bmem \<times> addr \<times> addr \<times> nat" where
  "align_copy m d s 0 = (m, d, s, 0)"
| "align_copy m d s (Suc n) =
     (if d AND 3 \<noteq> 0 then align_copy (m(d := m s)) (d + 1) (s + 1) n else (m, d, s, Suc n))"

fun copy_words :: "bmem \<Rightarrow> addr \<Rightarrow> addr \<Rightarrow> nat \<Rightarrow> bmem" where
  "copy_words m d s 0 = m"
| "copy_words m d s (Suc k) = copy_words (store32 m d (load32 m s)) (d + 4) (s + 4) k"

definition mem_copy :: "bmem \<Rightarrow> addr \<Rightarrow> addr \<Rightarrow> u32 \<Rightarrow> bmem" where
  "mem_copy m d s n =
     (if d AND 3 = s AND 3
      then (case align_copy m d s (unat n) of (m1, d1, s1, n1) \<Rightarrow>
              let words = n1 div 4;
                  m2 = copy_words m1 d1 s1 words
              in copy_fwd m2 (d1 + of_nat (4 * words)) (s1 + of_nat (4 * words)) (n1 mod 4))
      else copy_fwd m d s (unat n))"

section \<open>mem::move\<close>

text \<open>Backward byte loop \<^verbatim>\<open>for (i = n; i > 0; i--) d[i-1] = s[i-1]\<close>.\<close>

fun copy_bwd :: "bmem \<Rightarrow> addr \<Rightarrow> addr \<Rightarrow> nat \<Rightarrow> bmem" where
  "copy_bwd m d s 0 = m"
| "copy_bwd m d s (Suc n) =
     copy_bwd (m(d + of_nat n := m (s + of_nat n))) d s n"

text \<open>
  The loop that aligns the ends: \<open>de\<close> and \<open>se\<close> point one past the blocks; it returns the
  memory, both end pointers and the bytes left.
\<close>

fun align_copy_end :: "bmem \<Rightarrow> addr \<Rightarrow> addr \<Rightarrow> nat \<Rightarrow> bmem \<times> addr \<times> addr \<times> nat" where
  "align_copy_end m de se 0 = (m, de, se, 0)"
| "align_copy_end m de se (Suc n) =
     (if de AND 3 \<noteq> 0
      then align_copy_end (m(de - 1 := m (se - 1))) (de - 1) (se - 1) n
      else (m, de, se, Suc n))"

fun copy_words_bwd :: "bmem \<Rightarrow> addr \<Rightarrow> addr \<Rightarrow> nat \<Rightarrow> bmem" where
  "copy_words_bwd m d s 0 = m"
| "copy_words_bwd m d s (Suc k) =
     copy_words_bwd (store32 m (d + of_nat (4 * k)) (load32 m (s + of_nat (4 * k)))) d s k"

definition mem_move :: "bmem \<Rightarrow> addr \<Rightarrow> addr \<Rightarrow> u32 \<Rightarrow> bmem" where
  "mem_move m d s n =
     (if d < s then mem_copy m d s n
      else if d > s then
        (if (d + n) AND 3 = (s + n) AND 3
         then (case align_copy_end m (d + n) (s + n) (unat n) of (m1, de, se, n1) \<Rightarrow>
                 let words = n1 div 4;
                     d32 = de - of_nat (4 * words);
                     s32 = se - of_nat (4 * words);
                     m2 = copy_words_bwd m1 d32 s32 words;
                     r = n1 mod 4
                 in copy_bwd m2 (d32 - of_nat r) (s32 - of_nat r) r)
         else copy_bwd m d s (unat n))
      else m)"

section \<open>mem::set and mem::compare\<close>

fun set_fwd :: "bmem \<Rightarrow> addr \<Rightarrow> u8 \<Rightarrow> nat \<Rightarrow> bmem" where
  "set_fwd m d v 0 = m"
| "set_fwd m d v (Suc n) = set_fwd (m(d := v)) (d + 1) v n"

fun align_set :: "bmem \<Rightarrow> addr \<Rightarrow> u8 \<Rightarrow> nat \<Rightarrow> bmem \<times> addr \<times> nat" where
  "align_set m d v 0 = (m, d, 0)"
| "align_set m d v (Suc n) =
     (if d AND 3 \<noteq> 0 then align_set (m(d := v)) (d + 1) v n else (m, d, Suc n))"

fun set_words :: "bmem \<Rightarrow> addr \<Rightarrow> u32 \<Rightarrow> nat \<Rightarrow> bmem" where
  "set_words m d w 0 = m"
| "set_words m d w (Suc k) = set_words (store32 m d w) (d + 4) w k"

definition splat32 :: "u8 \<Rightarrow> u32" where
  "splat32 v = ucast v OR push_bit 8 (ucast v) OR push_bit 16 (ucast v) OR push_bit 24 (ucast v)"

definition mem_set :: "bmem \<Rightarrow> addr \<Rightarrow> i32 \<Rightarrow> u32 \<Rightarrow> bmem" where
  "mem_set m d val n =
     (let v = ucast val :: u8 in
      case align_set m d v (unat n) of (m1, d1, n1) \<Rightarrow>
        let words = n1 div 4;
            m2 = set_words m1 d1 (splat32 v) words
        in set_fwd m2 (d1 + of_nat (4 * words)) v (n1 mod 4))"

fun compare_loop :: "bmem \<Rightarrow> addr \<Rightarrow> addr \<Rightarrow> nat \<Rightarrow> int" where
  "compare_loop m a b 0 = 0"
| "compare_loop m a b (Suc n) =
     (if m a \<noteq> m b then (if m a < m b then -1 else 1)
      else compare_loop m (a + 1) (b + 1) n)"

definition mem_compare :: "bmem \<Rightarrow> addr \<Rightarrow> addr \<Rightarrow> u32 \<Rightarrow> int" where
  "mem_compare m a b n = compare_loop m a b (unat n)"

section \<open>Block stores\<close>

lemma length_load_bytes [simp]: "length (load_bytes m a n) = n"
  by (simp add: load_bytes_def)

lemma load_bytes_0 [simp]: "load_bytes m a 0 = []"
  by (simp add: load_bytes_def)

lemma load_bytes_Suc: "load_bytes m a (Suc n) = load_bytes m a n @ [m (a + of_nat n)]"
  by (simp add: load_bytes_def)

lemma nth_load_bytes [simp]: "i < n \<Longrightarrow> load_bytes m a n ! i = m (a + of_nat i)"
  by (simp add: load_bytes_def)

lemma store_bytes_Nil [simp]: "store_bytes m a [] = m"
  by (simp add: store_bytes_def)

lemma store_bytes_snoc:
  assumes "length bs < 2 ^ 32"
  shows "store_bytes m a (bs @ [b]) = (store_bytes m a bs)(a + of_nat (length bs) := b)"
proof
  fix x
  show "store_bytes m a (bs @ [b]) x = ((store_bytes m a bs)(a + of_nat (length bs) := b)) x"
    using unat_diff_eq_iff [OF assms, of x a]
    by (auto simp: store_bytes_def nth_append)
qed

lemma store_bytes_same [mem_simps]:
  assumes "length bs \<le> 2 ^ 32" "i < length bs"
  shows "store_bytes m a bs (a + of_nat i) = bs ! i"
  using assms by (simp add: store_bytes_def)

lemma load_store_bytes [mem_simps]:
  assumes "length bs \<le> 2 ^ 32"
  shows "load_bytes (store_bytes m a bs) a (length bs) = bs"
  using assms by (auto intro!: nth_equalityI simp: store_bytes_same)

lemma store_bytes_other [mem_simps]:
  "(\<And>i. i < length bs \<Longrightarrow> x \<noteq> a + of_nat i) \<Longrightarrow> store_bytes m a bs x = m x"
  by (metis add.commute diff_add_cancel of_nat_unat store_bytes_def ucast_id)

section \<open>The forward loop\<close>

text \<open>A forward copy is safe when no byte is read after it has been overwritten.\<close>

definition fwd_safe :: "addr \<Rightarrow> addr \<Rightarrow> nat \<Rightarrow> bool" where
  "fwd_safe d s n \<longleftrightarrow> n \<le> 2 ^ 32 \<and> (\<forall>i j. i < j \<longrightarrow> j < n \<longrightarrow> d + of_nat i \<noteq> s + of_nat j)"

definition bwd_safe :: "addr \<Rightarrow> addr \<Rightarrow> nat \<Rightarrow> bool" where
  "bwd_safe d s n \<longleftrightarrow> n \<le> 2 ^ 32 \<and> (\<forall>i j. i < j \<longrightarrow> j < n \<longrightarrow> d + of_nat j \<noteq> s + of_nat i)"

lemma fwd_safe_mono: "fwd_safe d s n \<Longrightarrow> k \<le> n \<Longrightarrow> fwd_safe d s k"
  by (auto simp: fwd_safe_def)

lemma bwd_safe_mono: "bwd_safe d s n \<Longrightarrow> k \<le> n \<Longrightarrow> bwd_safe d s k"
  by (auto simp: bwd_safe_def)

lemma fwd_safe_shift:
  assumes "fwd_safe d s (k + n)"
  shows "fwd_safe (d + of_nat k) (s + of_nat k) n"
  unfolding fwd_safe_def
proof (intro conjI allI impI)
  show "n \<le> 2 ^ 32" using assms by (simp add: fwd_safe_def)
next
  fix i j assume "i < j" "j < n"
  then have "d + of_nat (k + i) \<noteq> s + of_nat (k + j)"
    using assms unfolding fwd_safe_def by (meson add_strict_left_mono)
  then show "d + of_nat k + of_nat i \<noteq> s + of_nat k + of_nat j"
    by (simp add: add.assoc)
qed

lemma copy_fwd_add:
  "copy_fwd m d s (k + n) = copy_fwd (copy_fwd m d s k) (d + of_nat k) (s + of_nat k) n"
  by (induction k arbitrary: m d s) (simp_all add: add.assoc)

lemma copy_fwd_snoc:
  "copy_fwd m d s (Suc n)
     = (let m' = copy_fwd m d s n in m'(d + of_nat n := m' (s + of_nat n)))"
  using copy_fwd_add [of m d s n 1] by (simp add: Let_def)

lemma copy_fwd_spec:
  "fwd_safe d s n \<Longrightarrow> copy_fwd m d s n = store_bytes m d (load_bytes m s n)"
proof (induction n)
  case 0
  then show ?case by (simp add: load_bytes_def)
next
  case (Suc n)
  then have IH: "copy_fwd m d s n = store_bytes m d (load_bytes m s n)"
    by (meson fwd_safe_mono le_SucI order_refl)
  have "s + of_nat n \<noteq> d + of_nat i" if "i < n" for i
    using Suc.prems that unfolding fwd_safe_def by (metis lessI)
  then have "store_bytes m d (load_bytes m s n) (s + of_nat n) = m (s + of_nat n)"
    using store_bytes_other [of "load_bytes m s n" "s + of_nat n" d m] by simp
  then show ?case
    using Suc.prems
    unfolding copy_fwd_snoc IH Let_def load_bytes_Suc
    by (subst store_bytes_snoc) (auto simp: fwd_safe_def)
qed

section \<open>Bytes and words\<close>

lemma byte_of_load32 [simp]:
  "byte_of (load32 m a) 0 = m a"
  "byte_of (load32 m a) 1 = m (a + 1)"
  "byte_of (load32 m a) 2 = m (a + 2)"
  "byte_of (load32 m a) 3 = m (a + 3)"
  unfolding byte_of_def load32_def
  by (rule bit_word_eqI; auto simp: bit_simps dest: bit_imp_le_length)+

lemma load32_byte_of:
  "ucast (byte_of w 0) OR push_bit 8 (ucast (byte_of w 1)) OR push_bit 16 (ucast (byte_of w 2))
     OR push_bit 24 (ucast (byte_of w 3)) = (w :: u32)"
proof (rule bit_word_eqI)
  fix n assume "n < LENGTH(32)"
  then consider "n < 8" | "8 \<le> n" "n < 16" | "16 \<le> n" "n < 24" | "24 \<le> n" "n < 32"
    by fastforce
  then show "bit (ucast (byte_of w 0) OR push_bit 8 (ucast (byte_of w 1))
     OR push_bit 16 (ucast (byte_of w 2)) OR push_bit 24 (ucast (byte_of w 3)) :: u32) n = bit w n"
    by cases (auto simp: byte_of_def bit_simps)
qed

lemma word_small_neq [simp]:
  fixes a :: addr
  shows "a + 1 \<noteq> a" "a + 2 \<noteq> a" "a + 3 \<noteq> a" "a + 2 \<noteq> a + 1" "a + 3 \<noteq> a + 1" "a + 3 \<noteq> a + 2"
    "a \<noteq> a + 1" "a \<noteq> a + 2" "a \<noteq> a + 3" "a + 1 \<noteq> a + 2" "a + 1 \<noteq> a + 3" "a + 2 \<noteq> a + 3"
  by simp_all

lemma load32_store32 [mem_simps]: "load32 (store32 m a w) a = w"
  using load32_byte_of [of w] by (simp add: load32_def store32_def)

lemma store32_other [mem_simps]:
  "x \<noteq> a \<Longrightarrow> x \<noteq> a + 1 \<Longrightarrow> x \<noteq> a + 2 \<Longrightarrow> x \<noteq> a + 3 \<Longrightarrow> store32 m a w x = m x"
  by (simp add: store32_def)

lemma store32_bytes:
  "store32 m a w = store_bytes m a [byte_of w 0, byte_of w 1, byte_of w 2, byte_of w 3]"
proof -
  have "store_bytes m a ((([] @ [byte_of w 0]) @ [byte_of w 1]) @ [byte_of w 2] @ [byte_of w 3])
     = store32 m a w"
    unfolding append_assoc [symmetric]
    by (subst store_bytes_snoc, simp)+ (simp add: store32_def)
  then show ?thesis by simp
qed

section \<open>mem::copy is a block copy\<close>

lemma copy_word_fwd:
  assumes "fwd_safe d s 4"
  shows "store32 m d (load32 m s) = copy_fwd m d s 4"
proof -
  have "load_bytes m s 4 = [m s, m (s + 1), m (s + 2), m (s + 3)]"
    by (simp add: load_bytes_def numeral_eq_Suc)
  then show ?thesis by (simp only: copy_fwd_spec [OF assms] store32_bytes byte_of_load32)
qed

lemma copy_words_fwd:
  "fwd_safe d s (4 * k) \<Longrightarrow> copy_words m d s k = copy_fwd m d s (4 * k)"
proof (induction k arbitrary: m d s)
  case 0
  then show ?case by simp
next
  case (Suc k)
  have safe: "fwd_safe d s (4 + 4 * k)" using Suc.prems by simp
  then have "fwd_safe d s 4" by (rule fwd_safe_mono) simp
  moreover have "fwd_safe (d + 4) (s + 4) (4 * k)"
    using fwd_safe_shift [OF safe] by simp
  moreover have "4 * Suc k = 4 + 4 * k" by simp
  ultimately show ?case
    by (simp only: copy_words.simps copy_word_fwd Suc.IH copy_fwd_add of_nat_numeral)
qed

lemma align_copy_fwd:
  "align_copy m d s n = (m1, d1, s1, n1) \<Longrightarrow>
     \<exists>k. n = k + n1 \<and> m1 = copy_fwd m d s k \<and> d1 = d + of_nat k \<and> s1 = s + of_nat k"
proof (induction m d s n rule: align_copy.induct)
  case (1 m d s)
  then show ?case by simp
next
  case (2 m d s n)
  show ?case
  proof (cases "d AND 3 = 0")
    case True
    with "2.prems" show ?thesis by (intro exI [of _ 0]) simp
  next
    case False
    with "2" obtain k where "n = k + n1" "m1 = copy_fwd (m(d := m s)) (d + 1) (s + 1) k"
      "d1 = d + 1 + of_nat k" "s1 = s + 1 + of_nat k" by (auto simp: fun_upd_def)
    then show ?thesis by (intro exI [of _ "Suc k"]) (simp add: add.assoc)
  qed
qed

lemma mem_copy_fwd:
  assumes "fwd_safe d s (unat n)"
  shows "mem_copy m d s n = copy_fwd m d s (unat n)"
proof (cases "d AND 3 = s AND 3")
  case False
  then show ?thesis by (simp add: mem_copy_def)
next
  case True
  obtain m1 d1 s1 n1 where al: "align_copy m d s (unat n) = (m1, d1, s1, n1)"
    by (cases "align_copy m d s (unat n)") auto
  from align_copy_fwd [OF al] obtain k where k: "unat n = k + n1" "m1 = copy_fwd m d s k"
    "d1 = d + of_nat k" "s1 = s + of_nat k" by blast
  let ?w = "n1 div 4"
  have "fwd_safe d1 s1 n1" using fwd_safe_shift assms k by metis
  then have "copy_words m1 d1 s1 ?w = copy_fwd m1 d1 s1 (4 * ?w)"
    by (intro copy_words_fwd) (rule fwd_safe_mono, auto)
  then have "mem_copy m d s n = copy_fwd m1 d1 s1 (4 * ?w + n1 mod 4)"
    using True by (simp only: mem_copy_def al Let_def copy_fwd_add prod.case if_True simp_thms)
  also have "\<dots> = copy_fwd m1 d1 s1 n1" by simp
  finally show ?thesis by (simp add: k copy_fwd_add)
qed

theorem mem_copy_spec:
  "fwd_safe d s (unat n) \<Longrightarrow> mem_copy m d s n = store_bytes m d (load_bytes m s (unat n))"
  by (simp add: mem_copy_fwd copy_fwd_spec)

section \<open>mem::move is a block copy, overlapping or not\<close>

lemma store_bytes_upd_after:
  assumes "length bs < 2 ^ 32"
  shows "store_bytes (m(a + of_nat (length bs) := v)) a bs = store_bytes m a (bs @ [v])"
  unfolding store_bytes_snoc [OF assms]
  using assms by (auto simp: fun_eq_iff store_bytes_def)

lemma copy_bwd_spec:
  "bwd_safe d s n \<Longrightarrow> copy_bwd m d s n = store_bytes m d (load_bytes m s n)"
proof (induction n arbitrary: m)
  case 0
  then show ?case by (simp add: load_bytes_def)
next
  case (Suc n)
  let ?m = "m(d + of_nat n := m (s + of_nat n))"
  have "bwd_safe d s n" using Suc.prems by (rule bwd_safe_mono) simp
  then have "copy_bwd ?m d s n = store_bytes ?m d (load_bytes ?m s n)" by (rule Suc.IH)
  moreover have "load_bytes ?m s n = load_bytes m s n"
    using Suc.prems by (auto intro!: nth_equalityI simp: bwd_safe_def) (metis lessI)
  moreover have "length (load_bytes m s n) < 2 ^ 32" using Suc.prems by (simp add: bwd_safe_def)
  ultimately show ?case
    using store_bytes_upd_after [of "load_bytes m s n" m d "m (s + of_nat n)"]
    by (simp add: load_bytes_Suc)
qed

lemma bwd_safe_shift:
  assumes "bwd_safe d s (k + n)"
  shows "bwd_safe (d + of_nat k) (s + of_nat k) n"
  unfolding bwd_safe_def
proof (intro conjI allI impI)
  show "n \<le> 2 ^ 32" using assms by (simp add: bwd_safe_def)
next
  fix i j assume "i < j" "j < n"
  then have "d + of_nat (k + j) \<noteq> s + of_nat (k + i)"
    using assms unfolding bwd_safe_def by (meson add_strict_left_mono)
  then show "d + of_nat k + of_nat j \<noteq> s + of_nat k + of_nat i"
    by (simp add: add.assoc)
qed

lemma copy_bwd_add:
  "copy_bwd m d s (k + n) = copy_bwd (copy_bwd m (d + of_nat k) (s + of_nat k) n) d s k"
  by (induction n arbitrary: m) (simp_all add: add.assoc)

lemma copy_word_bwd:
  assumes "bwd_safe d s 4"
  shows "store32 m d (load32 m s) = copy_bwd m d s 4"
proof -
  have "load_bytes m s 4 = [m s, m (s + 1), m (s + 2), m (s + 3)]"
    by (simp add: load_bytes_def numeral_eq_Suc)
  then show ?thesis by (simp only: copy_bwd_spec [OF assms] store32_bytes byte_of_load32)
qed

lemma copy_words_bwd_eq:
  "bwd_safe d s (4 * k) \<Longrightarrow> copy_words_bwd m d s k = copy_bwd m d s (4 * k)"
proof (induction k arbitrary: m)
  case 0
  then show ?case by simp
next
  case (Suc k)
  have safe: "bwd_safe d s (4 * k + 4)" using Suc.prems by (simp add: add.commute)
  then have "bwd_safe d s (4 * k)" by (rule bwd_safe_mono) simp
  moreover have "bwd_safe (d + of_nat (4 * k)) (s + of_nat (4 * k)) 4"
    using safe by (rule bwd_safe_shift)
  moreover have "4 * Suc k = 4 * k + 4" by simp
  ultimately show ?case
    by (simp only: copy_words_bwd.simps copy_word_bwd Suc.IH copy_bwd_add)
qed

lemma align_copy_end_bwd:
  "align_copy_end m (d + of_nat n) (s + of_nat n) n = (m1, de, se, n1) \<Longrightarrow>
     \<exists>k. n = n1 + k \<and> m1 = copy_bwd m (d + of_nat n1) (s + of_nat n1) k \<and>
       de = d + of_nat n1 \<and> se = s + of_nat n1"
proof (induction n arbitrary: m)
  case 0
  then show ?case by simp
next
  case (Suc n)
  show ?case
  proof (cases "(d + of_nat (Suc n)) AND 3 = 0")
    case True
    with Suc.prems show ?thesis by (intro exI [of _ 0]) auto
  next
    case False
    with Suc.prems
    have "align_copy_end (m(d + of_nat n := m (s + of_nat n))) (d + of_nat n) (s + of_nat n) n
        = (m1, de, se, n1)" by (simp add: add.commute add.left_commute)
    from Suc.IH [OF this] obtain k where "n = n1 + k"
      "m1 = copy_bwd (m(d + of_nat n := m (s + of_nat n))) (d + of_nat n1) (s + of_nat n1) k"
      "de = d + of_nat n1" "se = s + of_nat n1" by blast
    then show ?thesis by (intro exI [of _ "Suc k"]) (simp add: add.assoc)
  qed
qed

lemma mem_move_down:
  assumes "d > s" "bwd_safe d s (unat n)"
  shows "mem_move m d s n = copy_bwd m d s (unat n)"
proof (cases "(d + n) AND 3 = (s + n) AND 3")
  case False
  with assms show ?thesis by (auto simp: mem_move_def)
next
  case True
  obtain m1 de se n1 where al: "align_copy_end m (d + n) (s + n) (unat n) = (m1, de, se, n1)"
    by (cases "align_copy_end m (d + n) (s + n) (unat n)") auto
  from align_copy_end_bwd [of m d "unat n" s] al obtain k where
    k: "unat n = n1 + k" "m1 = copy_bwd m (d + of_nat n1) (s + of_nat n1) k"
      "de = d + of_nat n1" "se = s + of_nat n1" by auto
  let ?w = "n1 div 4" and ?r = "n1 mod 4"
  have n1: "n1 = ?r + 4 * ?w" by simp
  have base: "de - of_nat (4 * ?w) = d + of_nat ?r" "se - of_nat (4 * ?w) = s + of_nat ?r"
    unfolding k by (subst (1) n1, simp only: of_nat_add, simp)+
  have "bwd_safe d s (?r + 4 * ?w)" using assms(2) by (rule bwd_safe_mono) (simp add: k)
  then have "bwd_safe (d + of_nat ?r) (s + of_nat ?r) (4 * ?w)" by (rule bwd_safe_shift)
  then have "mem_move m d s n
      = copy_bwd (copy_bwd m1 (d + of_nat ?r) (s + of_nat ?r) (4 * ?w)) d s ?r"
    using True assms(1)
    by (auto simp: mem_move_def al Let_def base [simplified] copy_words_bwd_eq)
  then have "mem_move m d s n = copy_bwd m1 d s n1"
    using copy_bwd_add [of m1 d s ?r "4 * ?w"] by simp
  then show ?thesis by (simp add: k copy_bwd_add)
qed

lemma fwd_safe_if_below:
  assumes "unat d + n \<le> 2 ^ 32" "unat s + n \<le> 2 ^ 32" "d \<le> s"
  shows "fwd_safe d s n"
  unfolding fwd_safe_def
proof (intro conjI allI impI)
  show "n \<le> 2 ^ 32" using assms by simp
next
  fix i j assume "i < j" "j < n"
  then have "unat (d + of_nat i) < unat (s + of_nat j)"
    using assms by (simp add: unat_add_of_nat word_le_nat_alt)
  then show "d + of_nat i \<noteq> s + of_nat j" by auto
qed

lemma bwd_safe_if_above:
  assumes "unat d + n \<le> 2 ^ 32" "unat s + n \<le> 2 ^ 32" "s \<le> d"
  shows "bwd_safe d s n"
  unfolding bwd_safe_def
proof (intro conjI allI impI)
  show "n \<le> 2 ^ 32" using assms by simp
next
  fix i j assume "i < j" "j < n"
  then have "unat (s + of_nat i) < unat (d + of_nat j)"
    using assms by (simp add: unat_add_of_nat word_le_nat_alt)
  then show "d + of_nat j \<noteq> s + of_nat i" by auto
qed

lemma store_load_same: "store_bytes m a (load_bytes m a n) = m"
  by (auto simp: store_bytes_def fun_eq_iff)

text \<open>
  C1. \<^verbatim>\<open>mem::move\<close> has the contract of memmove: whatever the overlap and the alignment of
  the two blocks, the destination ends up with the bytes the source held before the call,
  and nothing else changes.  The only condition is that neither block wraps around the
  address space.
\<close>

theorem mem_move_block:
  assumes "unat d + unat n \<le> 2 ^ 32" "unat s + unat n \<le> 2 ^ 32"
  shows "mem_move m d s n = store_bytes m d (load_bytes m s (unat n))"
proof -
  consider "d < s" | "s < d" | "d = s" by fastforce
  then show ?thesis
  proof cases
    case 1
    then show ?thesis
      using fwd_safe_if_below [OF assms] by (simp add: mem_move_def mem_copy_spec)
  next
    case 2
    then show ?thesis
      using bwd_safe_if_above [OF assms] by (simp add: mem_move_down copy_bwd_spec)
  next
    case 3
    then show ?thesis by (simp add: mem_move_def store_load_same)
  qed
qed

theorem mem_move_block_witness:
  "mem_move (\<lambda>a. ucast a) 5 3 6
     = store_bytes (\<lambda>a. ucast a) 5 (load_bytes (\<lambda>a. ucast a) 3 6)"
  using mem_move_block [of 5 6 3 "\<lambda>a. ucast a"] by simp

section \<open>mem::set fills a block, mem::compare finds the first difference\<close>

lemma set_fwd_add:
  "set_fwd m d v (k + n) = set_fwd (set_fwd m d v k) (d + of_nat k) v n"
  by (induction k arbitrary: m d) (simp_all add: add.assoc)

lemma set_fwd_spec: "n \<le> 2 ^ 32 \<Longrightarrow> set_fwd m d v n = store_bytes m d (replicate n v)"
proof (induction n)
  case 0
  then show ?case by simp
next
  case (Suc n)
  have "replicate (Suc n) v = replicate n v @ [v]" by (simp add: replicate_append_same)
  with Suc show ?case
    using set_fwd_add [of m d v n 1] by (simp add: store_bytes_snoc del: replicate_Suc)
qed

lemma byte_of_splat32 [simp]:
  "byte_of (splat32 v) 0 = v" "byte_of (splat32 v) 1 = v"
  "byte_of (splat32 v) 2 = v" "byte_of (splat32 v) 3 = v"
  unfolding byte_of_def splat32_def
  by (rule bit_word_eqI; auto simp: bit_simps dest: bit_imp_le_length)+

lemma set_words_fwd: "4 * k \<le> 2 ^ 32 \<Longrightarrow> set_words m d (splat32 v) k = set_fwd m d v (4 * k)"
proof (induction k arbitrary: m d)
  case 0
  then show ?case by simp
next
  case (Suc k)
  have "[v, v, v, v] = replicate 4 v" by (simp add: numeral_eq_Suc)
  then have "store32 m d (splat32 v) = set_fwd m d v 4"
    by (simp only: store32_bytes byte_of_splat32) (simp_all add: set_fwd_spec)
  moreover have "4 * Suc k = 4 + 4 * k" by simp
  ultimately show ?case
    using Suc by (simp only: set_words.simps set_fwd_add of_nat_numeral)
qed

lemma align_set_fwd:
  "align_set m d v n = (m1, d1, n1) \<Longrightarrow> \<exists>k. n = k + n1 \<and> m1 = set_fwd m d v k \<and> d1 = d + of_nat k"
proof (induction m d v n rule: align_set.induct)
  case (1 m d v)
  then show ?case by simp
next
  case (2 m d v n)
  show ?case
  proof (cases "d AND 3 = 0")
    case True
    with "2.prems" show ?thesis by (intro exI [of _ 0]) simp
  next
    case False
    with "2" obtain k where "n = k + n1" "m1 = set_fwd (m(d := v)) (d + 1) v k"
      "d1 = d + 1 + of_nat k" by (auto simp: fun_upd_def)
    then show ?thesis by (intro exI [of _ "Suc k"]) (simp add: add.assoc)
  qed
qed

lemma mem_set_spec:
  "mem_set m d val n = store_bytes m d (replicate (unat n) (ucast val))"
proof -
  let ?v = "ucast val :: u8"
  obtain m1 d1 n1 where al: "align_set m d ?v (unat n) = (m1, d1, n1)"
    by (cases "align_set m d ?v (unat n)") auto
  from align_set_fwd [OF al] obtain k where
    k: "unat n = k + n1" "m1 = set_fwd m d ?v k" "d1 = d + of_nat k" by blast
  have "n1 \<le> 2 ^ 32" using k unat_lt_2p32 [of n] by simp
  then have "set_words m1 d1 (splat32 ?v) (n1 div 4) = set_fwd m1 d1 ?v (4 * (n1 div 4))"
    by (intro set_words_fwd) simp
  then have "mem_set m d val n = set_fwd m1 d1 ?v (4 * (n1 div 4) + n1 mod 4)"
    by (simp only: mem_set_def al Let_def set_fwd_add prod.case)
  also have "\<dots> = set_fwd m d ?v (k + n1)" by (simp add: k set_fwd_add)
  finally show ?thesis using unat_lt_2p32 [of n] by (simp add: k(1) [symmetric] set_fwd_spec)
qed

text \<open>
  \<^verbatim>\<open>mem::set\<close> writes the low byte of its value to exactly the \<open>n\<close> bytes from \<open>dst\<close>,
  through the alignment loop, the word loop and the tail loop, for every address and length.
\<close>

theorem mem_set_fills:
  "mem_set m d val n x =
     (if unat (x - d) < unat n then ucast val else m x)"
  by (simp add: mem_set_spec store_bytes_def)

lemma load_bytes_Cons: "load_bytes m a (Suc n) = m a # load_bytes m (a + 1) n"
  by (simp add: load_bytes_def upt_rec [of 0 "Suc n"] del: upt_Suc)
     (simp add: map_Suc_upt [symmetric] add.assoc o_def del: upt_Suc)

lemma compare_loop_eq: "compare_loop m a b n = 0 \<longleftrightarrow> load_bytes m a n = load_bytes m b n"
  by (induction n arbitrary: a b) (simp_all add: load_bytes_Cons)

lemma compare_loop_lexord:
  "compare_loop m a b n = -1 \<longleftrightarrow>
     (load_bytes m a n, load_bytes m b n) \<in> lexord {(x, y). x < y}"
  by (induction n arbitrary: a b) (auto simp: load_bytes_Cons)

lemma mem_compare_eq: "mem_compare m a b n = 0 \<longleftrightarrow> load_bytes m a (unat n) = load_bytes m b (unat n)"
  by (simp add: mem_compare_def compare_loop_eq)

end
