(* ===== verification/Linked_List.thy ===== *)
theory Linked_List
  imports Prelude
begin

text \<open>
  The intrusive singly-linked list of libs/collections (\<^verbatim>\<open>std::collections::LinkedList\<close>).
  The list object holds \<open>head\<close>, \<open>tail\<close> and \<open>count\<close>; the \<open>next\<close> pointers live in the nodes,
  here a map from node address to address, with address 0 for \<^verbatim>\<open>nullptr\<close>.  The interface
  that the process table, the IPC queues and the nameserver rely on is the locale
  \<open>node_queue\<close>, whose laws are about the sequence of nodes the structure represents; it is
  interpreted on the pointer operations and on plain sequences, so a component may work
  with the sequence.
\<close>

section \<open>State and operations\<close>

record linked_list =
  head :: addr
  tail :: addr
  count :: u32

type_synonym next_map = "addr \<Rightarrow> addr"

definition empty_list :: linked_list where
  "empty_list = \<lparr>head = 0, tail = 0, count = 0\<rparr>"

definition pushBack :: "addr \<Rightarrow> next_map \<times> linked_list \<Rightarrow> next_map \<times> linked_list" where
  "pushBack node q =
     (let nx = (fst q)(node := 0);
          l = snd q;
          nx' = (if tail l \<noteq> 0 then nx(tail l := node) else nx);
          l' = (if tail l \<noteq> 0 then l else l\<lparr>head := node\<rparr>)
      in (nx', l'\<lparr>tail := node, count := count l + 1\<rparr>))"

definition pushFront :: "addr \<Rightarrow> next_map \<times> linked_list \<Rightarrow> next_map \<times> linked_list" where
  "pushFront node q =
     (let l = snd q;
          nx = (fst q)(node := head l);
          l' = (if head l = 0 then l\<lparr>tail := node\<rparr> else l)
      in (nx, l'\<lparr>head := node, count := count l + 1\<rparr>))"

definition popFront :: "next_map \<times> linked_list \<Rightarrow> addr \<times> next_map \<times> linked_list" where
  "popFront q =
     (let l = snd q; node = head l in
      if node = 0 then (0, q)
      else let l' = l\<lparr>head := fst q node\<rparr>;
               l'' = (if head l' = 0 then l'\<lparr>tail := 0\<rparr> else l')
           in (node, fst q, l''\<lparr>count := count l - 1\<rparr>))"

text \<open>The body of \<^verbatim>\<open>remove\<close> once \<open>p\<close> is the target and \<open>prev\<close> its predecessor (or null).\<close>

definition unlink :: "addr \<Rightarrow> addr \<Rightarrow> next_map \<times> linked_list \<Rightarrow> next_map \<times> linked_list" where
  "unlink prev p q =
     (let nx = fst q; l = snd q;
          nx' = (if prev \<noteq> 0 then nx(prev := nx p) else nx);
          l' = (if prev \<noteq> 0 then l else l\<lparr>head := nx p\<rparr>);
          l'' = (if p = tail l' then l'\<lparr>tail := prev\<rparr> else l')
      in (nx', l''\<lparr>count := count l - 1\<rparr>))"

text \<open>
  \<^verbatim>\<open>remove\<close> walks the chain with two pointers; on a cyclic chain that misses the target the
  loop never ends, which is the value \<open>None\<close>.
\<close>

partial_function (option) remove_loop ::
  "addr \<Rightarrow> next_map \<times> linked_list \<Rightarrow> addr \<Rightarrow> addr \<Rightarrow> (bool \<times> next_map \<times> linked_list) option" where
  "remove_loop target q prev p =
     (if p = 0 then Some (False, q)
      else if p = target then Some (True, unlink prev p q)
      else remove_loop target q p (fst q p))"

definition removeNode :: "addr \<Rightarrow> next_map \<times> linked_list \<Rightarrow> (bool \<times> next_map \<times> linked_list) option" where
  "removeNode target q = remove_loop target q 0 (head (snd q))"

definition getHead :: "next_map \<times> linked_list \<Rightarrow> addr" where
  "getHead q = head (snd q)"

definition getTail :: "next_map \<times> linked_list \<Rightarrow> addr" where
  "getTail q = tail (snd q)"

definition getCount :: "next_map \<times> linked_list \<Rightarrow> u32" where
  "getCount q = count (snd q)"

definition isEmpty :: "next_map \<times> linked_list \<Rightarrow> bool" where
  "isEmpty q \<longleftrightarrow> head (snd q) = 0"

section \<open>The interface\<close>

locale node_queue =
  fixes rep :: "'q \<Rightarrow> addr list \<Rightarrow> bool"
    and push_back :: "addr \<Rightarrow> 'q \<Rightarrow> 'q"
    and push_front :: "addr \<Rightarrow> 'q \<Rightarrow> 'q"
    and pop_front :: "'q \<Rightarrow> addr \<times> 'q"
    and remove_node :: "addr \<Rightarrow> 'q \<Rightarrow> (bool \<times> 'q) option"
    and size_of :: "'q \<Rightarrow> u32"
  assumes rep_nodes: "rep q xs \<Longrightarrow> distinct xs \<and> 0 \<notin> set xs"
    and rep_push_back: "rep q xs \<Longrightarrow> x \<noteq> 0 \<Longrightarrow> x \<notin> set xs \<Longrightarrow> rep (push_back x q) (xs @ [x])"
    and rep_push_front: "rep q xs \<Longrightarrow> x \<noteq> 0 \<Longrightarrow> x \<notin> set xs \<Longrightarrow> rep (push_front x q) (x # xs)"
    and pop_front_empty: "rep q [] \<Longrightarrow> pop_front q = (0, q)"
    and pop_front_node: "rep q (x # xs) \<Longrightarrow> fst (pop_front q) = x \<and> rep (snd (pop_front q)) xs"
    and remove_rep: "rep q xs \<Longrightarrow>
          \<exists>q'. remove_node x q = Some (x \<in> set xs, q') \<and> rep q' (remove1 x xs)"
    and size_rep: "rep q xs \<Longrightarrow> size_of q = of_nat (length xs)"
begin

fun pushes :: "addr list \<Rightarrow> 'q \<Rightarrow> 'q" where
  "pushes [] q = q"
| "pushes (x # xs) q = pushes xs (push_back x q)"

fun pops :: "nat \<Rightarrow> 'q \<Rightarrow> addr list \<times> 'q" where
  "pops 0 q = ([], q)"
| "pops (Suc n) q = (let (x, q1) = pop_front q; (xs, q2) = pops n q1 in (x # xs, q2))"

lemma rep_pushes:
  "rep q xs \<Longrightarrow> distinct (xs @ ys) \<Longrightarrow> 0 \<notin> set ys \<Longrightarrow> rep (pushes ys q) (xs @ ys)"
proof (induction ys arbitrary: q xs)
  case Nil
  then show ?case by simp
next
  case (Cons y ys)
  then have "rep (push_back y q) (xs @ [y])" by (intro rep_push_back) auto
  with Cons show ?case using Cons.IH [of "push_back y q" "xs @ [y]"] by simp
qed

lemma pops_rep: "rep q (xs @ ys) \<Longrightarrow> fst (pops (length xs) q) = xs \<and> rep (snd (pops (length xs) q)) ys"
proof (induction xs arbitrary: q)
  case Nil
  then show ?case by simp
next
  case (Cons x xs)
  then have "fst (pop_front q) = x \<and> rep (snd (pop_front q)) (xs @ ys)"
    using pop_front_node by simp
  with Cons.IH show ?case by (auto simp: split_beta Let_def)
qed

text \<open>First in, first out: what was pushed at the back is popped in the same order.\<close>

lemma fifo:
  assumes "rep q []" "distinct xs" "0 \<notin> set xs"
  shows "fst (pops (length xs) (pushes xs q)) = xs"
  using rep_pushes [of q "[]" xs] pops_rep [of "pushes xs q" xs "[]"] assms by simp

end

section \<open>The pointer structure represents a sequence\<close>

fun chain :: "next_map \<Rightarrow> addr \<Rightarrow> addr list \<Rightarrow> bool" where
  "chain nx p [] \<longleftrightarrow> p = 0"
| "chain nx p (x # xs) \<longleftrightarrow> p = x \<and> x \<noteq> 0 \<and> chain nx (nx x) xs"

definition list_rep :: "next_map \<times> linked_list \<Rightarrow> addr list \<Rightarrow> bool" where
  "list_rep q xs \<longleftrightarrow> chain (fst q) (head (snd q)) xs \<and> distinct xs \<and>
     tail (snd q) = (if xs = [] then 0 else last xs) \<and> count (snd q) = of_nat (length xs)"

lemma chain_nonzero: "chain nx p xs \<Longrightarrow> 0 \<notin> set xs"
  by (induction xs arbitrary: p) auto

lemma chain_upd [simp]: "a \<notin> set xs \<Longrightarrow> chain (nx(a := b)) p xs = chain nx p xs"
  by (induction xs arbitrary: p) auto

lemma chain_snoc:
  "chain nx p xs \<Longrightarrow> distinct xs \<Longrightarrow> x \<noteq> 0 \<Longrightarrow> x \<notin> set xs \<Longrightarrow> xs \<noteq> [] \<Longrightarrow>
     chain (nx(x := 0, last xs := x)) p (xs @ [x])"
proof (induction xs arbitrary: p)
  case Nil
  then show ?case by simp
next
  case (Cons y ys)
  show ?case
  proof (cases "ys = []")
    case True
    with Cons.prems show ?thesis by auto
  next
    case False
    with Cons.prems have "last ys \<noteq> y" using last_in_set by force
    with False Cons show ?thesis by auto
  qed
qed

lemma chain_next_last: "chain nx p xs \<Longrightarrow> xs \<noteq> [] \<Longrightarrow> nx (last xs) = 0"
  by (induction xs arbitrary: p) auto

lemma list_rep_pushBack:
  assumes "list_rep q xs" "x \<noteq> 0" "x \<notin> set xs"
  shows "list_rep (pushBack x q) (xs @ [x])"
proof (cases "xs = []")
  case True
  with assms show ?thesis by (simp add: list_rep_def pushBack_def Let_def)
next
  case False
  moreover from False assms have "last xs \<noteq> 0" using chain_nonzero last_in_set
    by (metis list_rep_def)
  ultimately show ?thesis
    using assms chain_snoc [of "fst q" "head (snd q)" xs x]
    by (simp add: list_rep_def pushBack_def Let_def)
qed

lemma list_rep_pushFront:
  assumes "list_rep q xs" "x \<noteq> 0" "x \<notin> set xs"
  shows "list_rep (pushFront x q) (x # xs)"
  using assms by (cases xs) (auto simp: list_rep_def pushFront_def Let_def)

lemma list_rep_popFront:
  assumes "list_rep q (x # xs)"
  shows "fst (popFront q) = x \<and> list_rep (snd (popFront q)) xs"
  using assms by (cases xs) (auto simp: list_rep_def popFront_def Let_def)

lemma list_rep_popFront_Nil: "list_rep q [] \<Longrightarrow> popFront q = (0, q)"
  by (simp add: list_rep_def popFront_def)

lemma chain_unlink:
  "chain nx p (ys @ z # zs) \<Longrightarrow> distinct (ys @ z # zs) \<Longrightarrow> ys \<noteq> [] \<Longrightarrow>
     chain (nx(last ys := nx z)) p (ys @ zs)"
proof (induction ys arbitrary: p)
  case Nil
  then show ?case by simp
next
  case (Cons y ys)
  show ?case
  proof (cases "ys = []")
    case True
    with Cons.prems have "p = y" "y \<noteq> 0" "nx y = z" "y \<notin> set zs" "chain nx (nx z) zs" by auto
    then have "chain (nx(y := nx z)) (nx z) zs" by (metis chain_upd)
    then have "chain (nx(y := nx z)) ((nx(y := nx z)) y) zs" by (simp only: fun_upd_same)
    with \<open>p = y\<close> \<open>y \<noteq> 0\<close> show ?thesis by (simp add: True del: fun_upd_apply)
  next
    case False
    with Cons.prems have "last ys \<noteq> y" using last_in_set by force
    with False Cons show ?thesis by auto
  qed
qed

lemma chain_append: "chain nx p (ys @ zs) \<Longrightarrow> chain nx (if ys = [] then p else nx (last ys)) zs"
  by (induction ys arbitrary: p) (auto split: if_splits)

lemma list_rep_unlink:
  assumes rep: "list_rep (nx, l) (ys @ z # zs)"
  shows "list_rep (unlink (if ys = [] then 0 else last ys) z (nx, l)) (ys @ zs)"
proof (cases "ys = []")
  case True
  with rep show ?thesis by (cases zs) (auto simp: list_rep_def unlink_def Let_def)
next
  case False
  from rep False have "last ys \<noteq> 0"
    using chain_nonzero [of nx "head l" "ys @ z # zs"] last_in_set [OF False]
    by (metis Un_iff fst_conv list_rep_def set_append snd_conv)
  moreover have "z \<noteq> last zs" if "zs \<noteq> []"
    using rep that last_in_set [of zs] by (auto simp: list_rep_def)
  moreover have "chain (nx(last ys := nx z)) (head l) (ys @ zs)"
    using rep False chain_unlink by (auto simp: list_rep_def)
  ultimately show ?thesis
    using rep False by (auto simp: list_rep_def unlink_def Let_def)
qed

lemma remove_loop_rep:
  assumes "list_rep (nx, l) (ys @ zs)" "target \<notin> set ys" "chain nx p zs"
  shows "\<exists>q'. remove_loop target (nx, l) (if ys = [] then 0 else last ys) p
      = Some (target \<in> set zs, q') \<and> list_rep q' (ys @ remove1 target zs)"
  using assms
proof (induction zs arbitrary: ys p)
  case Nil
  then show ?case by (subst remove_loop.simps) simp
next
  case (Cons z zs)
  then have p: "p = z" "z \<noteq> 0" and ch: "chain nx (nx z) zs" by auto
  show ?case
  proof (cases "z = target")
    case True
    with p list_rep_unlink [OF Cons.prems(1)] show ?thesis
      by (subst remove_loop.simps) simp
  next
    case False
    have "\<exists>q'. remove_loop target (nx, l) (if ys @ [z] = [] then 0 else last (ys @ [z])) (nx z)
      = Some (target \<in> set zs, q') \<and> list_rep q' ((ys @ [z]) @ remove1 target zs)"
      using Cons.prems False ch by (intro Cons.IH) auto
    with False p show ?thesis by (subst remove_loop.simps) auto
  qed
qed

lemma list_rep_remove:
  "list_rep q xs \<Longrightarrow> \<exists>q'. removeNode x q = Some (x \<in> set xs, q') \<and> list_rep q' (remove1 x xs)"
  using remove_loop_rep [of "fst q" "snd q" "[]" xs x "head (snd q)"]
  by (auto simp: removeNode_def list_rep_def)

lemma list_rep_empty: "list_rep (nx, empty_list) []"
  by (simp add: list_rep_def empty_list_def)

interpretation ll: node_queue list_rep pushBack pushFront popFront removeNode getCount
proof unfold_locales
  show "list_rep q xs \<Longrightarrow> distinct xs \<and> 0 \<notin> set xs" for q xs
    using chain_nonzero by (auto simp: list_rep_def)
  show "list_rep q xs \<Longrightarrow> getCount q = of_nat (length xs)" for q xs
    by (simp add: list_rep_def getCount_def)
qed (use list_rep_pushBack list_rep_pushFront list_rep_popFront list_rep_popFront_Nil
       list_rep_remove in auto)

section \<open>The sequence view\<close>

text \<open>
  The same operations on the sequence of nodes itself.  The kernel's process table and IPC
  queues are written over this view; \<open>list_rep\<close> relates it to the pointers.
\<close>

definition seq_rep :: "addr list \<Rightarrow> addr list \<Rightarrow> bool" where
  "seq_rep q xs \<longleftrightarrow> q = xs \<and> distinct xs \<and> 0 \<notin> set xs"

definition seq_push_back :: "addr \<Rightarrow> addr list \<Rightarrow> addr list" where
  "seq_push_back x q = q @ [x]"

definition seq_push_front :: "addr \<Rightarrow> addr list \<Rightarrow> addr list" where
  "seq_push_front x q = x # q"

definition seq_pop_front :: "addr list \<Rightarrow> addr \<times> addr list" where
  "seq_pop_front q = (case q of [] \<Rightarrow> (0, []) | x # xs \<Rightarrow> (x, xs))"

definition seq_remove :: "addr \<Rightarrow> addr list \<Rightarrow> (bool \<times> addr list) option" where
  "seq_remove x q = Some (x \<in> set q, remove1 x q)"

definition seq_count :: "addr list \<Rightarrow> u32" where
  "seq_count q = of_nat (length q)"

interpretation sq: node_queue seq_rep seq_push_back seq_push_front seq_pop_front seq_remove
    seq_count
  by unfold_locales
     (auto simp: seq_rep_def seq_push_back_def seq_push_front_def seq_pop_front_def
        seq_remove_def seq_count_def distinct_remove1 dest: notin_set_remove1)

section \<open>Properties\<close>


definition two_nodes :: "next_map \<times> linked_list" where
  "two_nodes = pushBack 8 (pushBack 4 ((\<lambda>_. 0), empty_list))"

lemma two_nodes_rep: "list_rep two_nodes [4, 8]"
  using ll.rep_push_back [OF ll.rep_push_back [OF list_rep_empty, of 4], of 8]
  by (simp add: two_nodes_def)


end
