(* ===== verification/Allocator.thy ===== *)
theory Allocator
  imports Prelude
begin

text \<open>
  The heap allocator of libs/alloc (\<^verbatim>\<open>std::alloc::HeapAllocator\<close>), used by the kernel heap
  and by every userspace heap.  Block headers are kept in a typed store, a map from header
  address to header, and the free list is the chain of their \<open>next\<close> pointers, as in the
  code.  The abstract view is the sequence of blocks that tiles the region
  (\<open>heap_inv\<close>), with first fit and merging as functions on it.  The locale
  \<open>heap_allocator\<close> is what the callers of \<^verbatim>\<open>new\<close> and \<^verbatim>\<open>delete\<close> rely on.
\<close>

unbundle bit_operations_syntax

section \<open>State\<close>

record block_header =
  bsize :: u32
  bfree :: bool
  bnext :: addr

record allocator =
  hdr :: "addr \<Rightarrow> block_header"
  ahead :: addr
  regionStart :: addr
  regionEnd :: addr

text \<open>\<^verbatim>\<open>sizeof(BlockHeader)\<close> on i386: a u32, a bool padded to four bytes, a pointer.\<close>

abbreviation (input) HDR :: u32 where "HDR \<equiv> 12"

definition MIN_BLOCK_SIZE :: u32 where
  "MIN_BLOCK_SIZE = HDR + 4"

section \<open>Operations\<close>

definition HeapAllocator_ctor :: "(addr \<Rightarrow> block_header) \<Rightarrow> addr \<Rightarrow> u32 \<Rightarrow> allocator" where
  "HeapAllocator_ctor h base sz =
     (if base = 0 \<or> sz \<le> HDR
      then \<lparr>hdr = h, ahead = 0, regionStart = 0, regionEnd = 0\<rparr>
      else \<lparr>hdr = h(base := \<lparr>bsize = sz - HDR, bfree = True, bnext = 0\<rparr>),
            ahead = base, regionStart = base, regionEnd = base + sz\<rparr>)"

definition align4 :: "u32 \<Rightarrow> u32" where
  "align4 sz = (sz + 3) AND NOT 3"

text \<open>The block at \<open>cur\<close> fits: split it when the remainder can hold a block, mark it used.\<close>

definition take_block :: "u32 \<Rightarrow> addr \<Rightarrow> allocator \<Rightarrow> addr \<times> allocator" where
  "take_block sz cur a =
     (let b = hdr a cur;
          remainder = bsize b - sz;
          nb = cur + HDR + sz;
          h = (if remainder \<ge> MIN_BLOCK_SIZE
               then (hdr a)(nb := \<lparr>bsize = remainder - HDR, bfree = True, bnext = bnext b\<rparr>,
                            cur := b\<lparr>bsize := sz, bnext := nb\<rparr>)
               else hdr a)
      in (cur + HDR, a\<lparr>hdr := h(cur := (h cur)\<lparr>bfree := False\<rparr>)\<rparr>))"

text \<open>Loops over the chain; \<open>None\<close> is a loop that never ends (a cyclic chain).\<close>

partial_function (option) alloc_scan :: "u32 \<Rightarrow> addr \<Rightarrow> allocator \<Rightarrow> (addr \<times> allocator) option" where
  "alloc_scan sz cur a =
     (if cur = 0 then Some (0, a)
      else if bfree (hdr a cur) \<and> bsize (hdr a cur) \<ge> sz then Some (take_block sz cur a)
      else alloc_scan sz (bnext (hdr a cur)) a)"

definition allocate :: "u32 \<Rightarrow> allocator \<Rightarrow> (addr \<times> allocator) option" where
  "allocate sz a = (if sz = 0 then Some (0, a) else alloc_scan (align4 sz) (ahead a) a)"

partial_function (option) coalesce :: "addr \<Rightarrow> allocator \<Rightarrow> allocator option" where
  "coalesce cur a =
     (if cur = 0 then Some a
      else (let b = hdr a cur; n = bnext b in
        if bfree b \<and> n \<noteq> 0 \<and> bfree (hdr a n)
        then coalesce cur (a\<lparr>hdr := (hdr a)(cur :=
               b\<lparr>bsize := bsize b + (HDR + bsize (hdr a n)), bnext := bnext (hdr a n)\<rparr>)\<rparr>)
        else coalesce n a))"

definition heap_free :: "addr \<Rightarrow> allocator \<Rightarrow> allocator option" where
  "heap_free p a =
     (if p = 0 then Some a
      else if p < regionStart a + HDR \<or> p \<ge> regionEnd a then Some a
      else (let blk = p - HDR in
        if bfree (hdr a blk) then Some a
        else coalesce (ahead a) (a\<lparr>hdr := (hdr a)(blk := (hdr a blk)\<lparr>bfree := True\<rparr>)\<rparr>)))"

partial_function (option) last_block :: "addr \<Rightarrow> allocator \<Rightarrow> addr option" where
  "last_block cur a =
     (if bnext (hdr a cur) = 0 then Some cur else last_block (bnext (hdr a cur)) a)"

definition extend :: "u32 \<Rightarrow> allocator \<Rightarrow> allocator option" where
  "extend additionalSize a =
     (if additionalSize \<le> HDR \<or> ahead a = 0 then Some a
      else (case last_block (ahead a) a of None \<Rightarrow> None | Some l \<Rightarrow>
        (let b = hdr a l;
             nb = l + HDR + bsize b;
             h = (if bfree b then (hdr a)(l := b\<lparr>bsize := bsize b + additionalSize\<rparr>)
                  else (hdr a)(nb := \<lparr>bsize = additionalSize - HDR, bfree = True, bnext = 0\<rparr>,
                               l := b\<lparr>bnext := nb\<rparr>))
         in Some (a\<lparr>hdr := h, regionEnd := regionEnd a + additionalSize\<rparr>))))"

section \<open>The abstract view: a sequence of blocks\<close>

type_synonym block = "addr \<times> u32 \<times> bool"

fun blocks :: "(addr \<Rightarrow> block_header) \<Rightarrow> addr \<Rightarrow> block list \<Rightarrow> bool" where
  "blocks h p [] \<longleftrightarrow> p = 0"
| "blocks h p ((q, n, f) # bs) \<longleftrightarrow>
     p = q \<and> q \<noteq> 0 \<and> bsize (h q) = n \<and> bfree (h q) = f \<and> blocks h (bnext (h q)) bs"

fun layout :: "nat \<Rightarrow> block list \<Rightarrow> nat \<Rightarrow> bool" where
  "layout s [] e \<longleftrightarrow> s = e"
| "layout s ((q, n, f) # bs) e \<longleftrightarrow> unat q = s \<and> layout (s + 12 + unat n) bs e"

definition heap_inv :: "allocator \<Rightarrow> block list \<Rightarrow> bool" where
  "heap_inv a bs \<longleftrightarrow> blocks (hdr a) (ahead a) bs \<and> bs \<noteq> [] \<and> ahead a = regionStart a \<and>
     layout (unat (regionStart a)) bs (unat (regionEnd a))"

text \<open>First fit and merging, as functions on the sequence.\<close>

fun first_fit :: "u32 \<Rightarrow> block list \<Rightarrow> addr \<times> block list" where
  "first_fit sz [] = (0, [])"
| "first_fit sz ((p, n, f) # bs) =
     (if f \<and> sz \<le> n
      then (p + HDR,
            (if n - sz \<ge> MIN_BLOCK_SIZE
             then [(p, sz, False), (p + HDR + sz, n - sz - HDR, True)]
             else [(p, n, False)]) @ bs)
      else (let (r, bs') = first_fit sz bs in (r, (p, n, f) # bs')))"

definition spec_alloc :: "u32 \<Rightarrow> block list \<Rightarrow> addr \<times> block list" where
  "spec_alloc sz bs = (if sz = 0 then (0, bs) else first_fit (align4 sz) bs)"

fun merge :: "block list \<Rightarrow> block list" where
  "merge ((p, n, True) # (q, k, True) # bs) = merge ((p, n + (HDR + k), True) # bs)"
| "merge (b # bs) = b # merge bs"
| "merge [] = []"

fun release :: "addr \<Rightarrow> block list \<Rightarrow> block list" where
  "release q [] = []"
| "release q ((p, n, f) # bs) = (if p = q then (p, n, True) # bs else (p, n, f) # release q bs)"

definition spec_free :: "addr \<Rightarrow> block list \<Rightarrow> block list" where
  "spec_free p bs = merge (release (p - HDR) bs)"

section \<open>Facts on layouts and chains\<close>

definition addrs :: "block list \<Rightarrow> addr set" where
  "addrs bs = fst ` set bs"

lemma addrs_simps [simp]:
  "addrs [] = {}" "addrs ((q, n, f) # bs) = insert q (addrs bs)" "addrs (xs @ ys) = addrs xs \<union> addrs ys"
  by (auto simp: addrs_def)

lemma layout_append:
  "layout s (xs @ ys) e \<longleftrightarrow> (\<exists>m. layout s xs m \<and> layout m ys e)"
  by (induction xs arbitrary: s) auto

lemma layout_le: "layout s bs e \<Longrightarrow> s \<le> e"
  by (induction bs arbitrary: s) fastforce+

lemma layout_block:
  "layout s bs e \<Longrightarrow> (q, n, f) \<in> set bs \<Longrightarrow> s \<le> unat q \<and> unat q + 12 + unat n \<le> e"
proof (induction bs arbitrary: s)
  case Nil
  then show ?case by simp
next
  case (Cons b bs)
  obtain p k g where b: "b = (p, k, g)" by (cases b)
  from Cons.prems(1) have l: "layout (s + 12 + unat k) bs e" and p: "unat p = s" by (auto simp: b)
  show ?case
  proof (cases "(q, n, f) = b")
    case True
    with b p layout_le [OF l] show ?thesis by simp
  next
    case False
    with Cons.prems have "(q, n, f) \<in> set bs" by auto
    from Cons.IH [OF l this] show ?thesis by simp
  qed
qed

lemma layout_addr_ge: "layout s bs e \<Longrightarrow> q \<in> addrs bs \<Longrightarrow> s \<le> unat q"
  using layout_block by (fastforce simp: addrs_def)

lemma layout_hd_notin: "layout s ((q, n, f) # bs) e \<Longrightarrow> q \<notin> addrs bs"
  using layout_addr_ge [of "s + 12 + unat n" bs e q] by fastforce

lemma layout_disjoint:
  "layout s bs e \<Longrightarrow> (p, n, f) \<in> set bs \<Longrightarrow> (q, k, g) \<in> set bs \<Longrightarrow> (p, n, f) \<noteq> (q, k, g) \<Longrightarrow>
     unat p + 12 + unat n \<le> unat q \<or> unat q + 12 + unat k \<le> unat p"
proof (induction bs arbitrary: s)
  case Nil
  then show ?case by simp
next
  case (Cons b bs)
  obtain r j h where b: "b = (r, j, h)" by (cases b)
  from Cons.prems(1) have l: "layout (s + 12 + unat j) bs e" and r: "unat r = s" by (auto simp: b)
  consider "(p, n, f) \<in> set bs" "(q, k, g) \<in> set bs" | "(p, n, f) = b" "(q, k, g) \<in> set bs"
    | "(p, n, f) \<in> set bs" "(q, k, g) = b" using Cons.prems by auto
  then show ?case
  proof cases
    case 1
    then show ?thesis using Cons.IH [OF l] Cons.prems(4) by blast
  next
    case 2
    then show ?thesis using layout_block [OF l] r b by fastforce
  next
    case 3
    then show ?thesis using layout_block [OF l] r b by fastforce
  qed
qed

lemma blocks_upd [simp]: "q \<notin> addrs bs \<Longrightarrow> blocks (h(q := b)) p bs = blocks h p bs"
  by (induction bs arbitrary: p) auto

lemma blocks_upd_if [simp]:
  "q \<notin> addrs bs \<Longrightarrow> blocks (\<lambda>a. if a = q then b else h a) p bs = blocks h p bs"
  using blocks_upd [of q bs h b p] by (simp add: fun_upd_def)

lemma layout_replace:
  assumes "layout s (xs @ (q, n, f) # ys) e" "layout (unat q) zs (unat q + 12 + unat n)"
  shows "layout s (xs @ zs @ ys) e"
  using assms by (auto simp: layout_append)

lemma layout_mid_notin:
  assumes "layout s (xs @ (q, n, f) # ys) e" "r \<in> addrs xs \<union> addrs ys"
  shows "unat r < unat q \<or> unat q + 12 + unat n \<le> unat r"
  using assms(2)
proof
  assume "r \<in> addrs ys"
  moreover from assms(1) have "layout (unat q + 12 + unat n) ys e" by (auto simp: layout_append)
  ultimately show ?thesis using layout_addr_ge by blast
next
  assume "r \<in> addrs xs"
  then obtain k g where "(r, k, g) \<in> set xs" by (auto simp: addrs_def)
  moreover from assms(1) have "layout s xs (unat q)" by (auto simp: layout_append)
  ultimately show ?thesis using layout_block [of s xs "unat q" r k g] by simp
qed

lemma blocks_cong: "(\<And>r. r \<in> addrs bs \<Longrightarrow> h' r = h r) \<Longrightarrow> blocks h' p bs = blocks h p bs"
  by (induction bs arbitrary: p) auto

lemma blocks_replace:
  "blocks h p (xs @ (q, n, f) # ys) \<Longrightarrow> (\<And>r. r \<in> addrs xs \<Longrightarrow> h' r = h r) \<Longrightarrow>
     blocks h' q zs \<Longrightarrow> blocks h' p (xs @ zs)"
  by (induction xs arbitrary: p) auto

lemma blocks_mid:
  "blocks h p (xs @ (q, n, f) # ys) \<Longrightarrow>
     q \<noteq> 0 \<and> bsize (h q) = n \<and> bfree (h q) = f \<and> blocks h (bnext (h q)) ys"
proof (induction xs arbitrary: p)
  case Nil
  then show ?case by simp
next
  case (Cons x xs)
  then show ?case by (cases x) (metis append_Cons blocks.simps(2))
qed

lemma blocks_hd: "blocks h p bs \<Longrightarrow> bs \<noteq> [] \<Longrightarrow> p = fst (hd bs) \<and> p \<noteq> 0"
  by (cases bs) auto

lemma blocks_unique: "blocks h p bs \<Longrightarrow> blocks h p bs' \<Longrightarrow> bs = bs'"
proof (induction bs arbitrary: p bs')
  case Nil
  then show ?case by (cases bs') auto
next
  case (Cons b bs)
  then show ?case by (cases b; cases bs') auto
qed

lemma heap_inv_unique: "heap_inv a bs \<Longrightarrow> heap_inv a bs' \<Longrightarrow> bs = bs'"
  by (auto simp: heap_inv_def dest: blocks_unique)

section \<open>First fit\<close>

text \<open>Taking the block at the head of the rest of the chain.\<close>

lemma take_block_rep:
  assumes bl: "blocks (hdr a) p (xs @ (q, n, True) # ys)"
    and lay: "layout s (xs @ (q, n, True) # ys) e" and e: "e < 2 ^ 32" and fit: "sz \<le> n"
  shows "fst (take_block sz q a) = q + HDR \<and>
    blocks (hdr (snd (take_block sz q a))) p
      (xs @ (if n - sz \<ge> MIN_BLOCK_SIZE
             then [(q, sz, False), (q + HDR + sz, n - sz - HDR, True)]
             else [(q, n, False)]) @ ys) \<and>
    layout s (xs @ (if n - sz \<ge> MIN_BLOCK_SIZE
             then [(q, sz, False), (q + HDR + sz, n - sz - HDR, True)]
             else [(q, n, False)]) @ ys) e"
proof -
  let ?nb = "q + HDR + sz" and ?t = "take_block sz q a"
  note mid = blocks_mid [OF bl] and notin = layout_mid_notin [OF lay]
  have qe: "unat q + 12 + unat n \<le> e" using layout_block [OF lay, of q n True] by simp
  have sz: "unat sz \<le> unat n" using fit by (simp add: word_le_nat_alt)
  have nb: "unat ?nb = unat q + 12 + unat sz"
    using qe e sz unat_add_of_nat [of q 12] unat_add_of_nat [of "q + 12" "unat sz"] by simp
  have q: "q \<notin> addrs xs" "q \<notin> addrs ys" using notin [of q] by auto
  show ?thesis
  proof (cases "n - sz \<ge> MIN_BLOCK_SIZE")
    case False
    have "blocks (hdr (snd ?t)) q ((q, n, False) # ys)"
      using mid False q by (simp add: take_block_def Let_def)
    then have "blocks (hdr (snd ?t)) p (xs @ (q, n, False) # ys)"
      by (rule blocks_replace [OF bl, rotated]) (use q False mid in \<open>auto simp: take_block_def Let_def\<close>)
    moreover have "layout s (xs @ (q, n, False) # ys) e"
      using layout_replace [OF lay, of "[(q, n, False)]"] by simp
    ultimately show ?thesis using False by (simp add: take_block_def Let_def)
  next
    case True
    have rem: "unat (n - sz) = unat n - unat sz" using fit by (simp add: unat_sub)
    with True have r16: "16 \<le> unat n - unat sz"
      by (simp add: MIN_BLOCK_SIZE_def word_le_nat_alt)
    have "unat ?nb \<noteq> unat 0" "unat ?nb \<noteq> unat q" using nb by simp_all
    then have "?nb \<noteq> q" "?nb \<noteq> 0" "?nb \<notin> addrs xs" "?nb \<notin> addrs ys"
      using nb notin [of ?nb] r16 by (metis, metis, auto)
    moreover have "unat (n - sz - HDR) = unat n - unat sz - 12"
      using rem r16 by (subst unat_sub) (auto simp: word_le_nat_alt)
    ultimately have "blocks (hdr (snd ?t)) q ([(q, sz, False), (?nb, n - sz - HDR, True)] @ ys)"
      and "layout s (xs @ [(q, sz, False), (?nb, n - sz - HDR, True)] @ ys) e"
      using True mid q nb r16
      by (simp_all add: take_block_def Let_def)
        (rule layout_replace [OF lay, of "[(q, sz, False), (?nb, n - sz - HDR, True)]", simplified],
         simp add: nb)
    moreover have "hdr (snd ?t) r = hdr a r" if "r \<in> addrs xs" for r
      using that q \<open>?nb \<notin> addrs xs\<close> True mid by (auto simp: take_block_def Let_def)
    ultimately show ?thesis
      using True blocks_replace [OF bl, of "hdr (snd ?t)"] by (simp add: take_block_def Let_def)
  qed
qed

lemma alloc_scan_rep:
  assumes "blocks (hdr a) p (xs @ ys)" "layout s (xs @ ys) e" "e < 2 ^ 32" "blocks (hdr a) cur ys"
  shows "\<exists>a'. alloc_scan sz cur a = Some (fst (first_fit sz ys), a') \<and>
    blocks (hdr a') p (xs @ snd (first_fit sz ys)) \<and> layout s (xs @ snd (first_fit sz ys)) e \<and>
    ahead a' = ahead a \<and> regionStart a' = regionStart a \<and> regionEnd a' = regionEnd a"
  using assms
proof (induction ys arbitrary: xs cur)
  case Nil
  then show ?case by (subst alloc_scan.simps) simp
next
  case (Cons b ys)
  obtain q n f where b: "b = (q, n, f)" by (cases b)
  from Cons.prems(4) have cur: "cur = q" "q \<noteq> 0" "bsize (hdr a q) = n" "bfree (hdr a q) = f"
    "blocks (hdr a) (bnext (hdr a q)) ys" by (auto simp: b)
  show ?case
  proof (cases "f \<and> sz \<le> n")
    case True
    with Cons.prems b have "fst (take_block sz q a) = q + HDR" using take_block_rep by simp
    with True Cons.prems cur b take_block_rep [of a p xs q n ys s e sz] show ?thesis
      by (subst alloc_scan.simps) (cases "take_block sz q a", auto simp: take_block_def Let_def)
  next
    case False
    with Cons.IH [of "xs @ [b]" "bnext (hdr a q)"] Cons.prems cur show ?thesis
      by (subst alloc_scan.simps) (auto simp: b split: prod.splits)
  qed
qed

lemma first_fit_Nil_iff [simp]: "snd (first_fit sz bs) = [] \<longleftrightarrow> bs = []"
  by (induction sz bs rule: first_fit.induct) (auto split: prod.splits)

lemma allocate_rep:
  assumes "heap_inv a bs"
  shows "\<exists>a'. allocate sz a = Some (fst (spec_alloc sz bs), a') \<and> heap_inv a' (snd (spec_alloc sz bs)) \<and>
    regionStart a' = regionStart a \<and> regionEnd a' = regionEnd a"
proof (cases "sz = 0")
  case True
  with assms show ?thesis by (simp add: allocate_def spec_alloc_def)
next
  case False
  with assms alloc_scan_rep [of a "ahead a" "[]" bs "unat (regionStart a)" "unat (regionEnd a)"
      "ahead a" "align4 sz"] unat_lt_2p32 [of "regionEnd a"]
  show ?thesis by (auto simp: allocate_def spec_alloc_def heap_inv_def)
qed

section \<open>Freeing and merging\<close>

lemma coalesce_skip:
  assumes "cur \<noteq> 0"
    "\<not> (bfree (hdr a cur) \<and> bnext (hdr a cur) \<noteq> 0 \<and> bfree (hdr a (bnext (hdr a cur))))"
  shows "coalesce cur a = coalesce (bnext (hdr a cur)) a"
  using assms by (subst coalesce.simps) (auto simp: Let_def)

lemma coalesce_join:
  assumes "cur \<noteq> 0" "bfree (hdr a cur)" "n = bnext (hdr a cur)" "n \<noteq> 0" "bfree (hdr a n)"
  shows "coalesce cur a = coalesce cur (a\<lparr>hdr := (hdr a)(cur := (hdr a cur)
     \<lparr>bsize := bsize (hdr a cur) + (HDR + bsize (hdr a n)), bnext := bnext (hdr a n)\<rparr>)\<rparr>)"
  using assms by (subst coalesce.simps) (simp add: Let_def)

lemma layout_join:
  assumes "layout s (xs @ (q, n, f) # (r, k, g) # ys) e" "e < 2 ^ 32"
  shows "layout s (xs @ (q, n + (HDR + k), f) # ys) e"
proof -
  have l: "layout (unat q) ((q, n, f) # (r, k, g) # ys) e" using assms(1) by (auto simp: layout_append)
  then have "unat q + 12 + unat n + 12 + unat k \<le> e" using layout_le by fastforce
  then have "unat (n + (HDR + k)) = unat n + (12 + unat k)"
    using assms(2) by (simp add: unat_word_ariths)
  with l assms(1) show ?thesis by (auto simp: layout_append add.assoc)
qed

lemma merge_skip:
  "\<not> (\<exists>r k us. f \<and> zs = (r, k, True) # us) \<Longrightarrow> merge ((q, n, f) # zs) = (q, n, f) # merge zs"
  by (cases "(q, n, f) # zs" rule: merge.cases) auto

lemma coalesce_rep:
  assumes "blocks (hdr a) p (xs @ ys)" "layout s (xs @ ys) e" "e < 2 ^ 32" "blocks (hdr a) cur ys"
  shows "\<exists>h. coalesce cur a = Some (a\<lparr>hdr := h\<rparr>) \<and> blocks h p (xs @ merge ys) \<and>
    layout s (xs @ merge ys) e"
  using assms
proof (induction "length ys" arbitrary: xs ys cur a rule: less_induct)
  case less
  show ?case
  proof (cases ys)
    case Nil
    with less.prems show ?thesis
      by (subst coalesce.simps) (auto intro!: exI [of _ "hdr a"])
  next
    case (Cons b zs)
    obtain q n f where b: "b = (q, n, f)" by (cases b)
    from less.prems(4) Cons b have cur: "cur = q" "q \<noteq> 0" "bsize (hdr a q) = n" "bfree (hdr a q) = f"
      and zs: "blocks (hdr a) (bnext (hdr a q)) zs" by auto
    show ?thesis
    proof (cases "\<exists>r k us. f \<and> zs = (r, k, True) # us")
      case False
      then have m: "merge ys = b # merge zs" unfolding Cons b by (rule merge_skip)
      have "\<not> (bfree (hdr a q) \<and> bnext (hdr a q) \<noteq> 0 \<and> bfree (hdr a (bnext (hdr a q))))"
        using False zs cur by (cases zs) auto
      then have "coalesce cur a = coalesce (bnext (hdr a q)) a" using coalesce_skip cur by blast
      moreover have "length zs < length ys" by (simp add: Cons)
      ultimately show ?thesis
        using less.hyps [of zs a "xs @ [b]" "bnext (hdr a q)"] less.prems zs m by (simp add: Cons)
    next
      case True
      then obtain r k us where f: f and us: "zs = (r, k, True) # us" by blast
      let ?h = "(hdr a)(q := (hdr a q)\<lparr>bsize := n + (HDR + k), bnext := bnext (hdr a r)\<rparr>)"
      from zs us have r: "bnext (hdr a q) = r" "r \<noteq> 0" "bfree (hdr a r)" "bsize (hdr a r) = k"
        "blocks (hdr a) (bnext (hdr a r)) us" by auto
      have step: "coalesce cur a = coalesce cur (a\<lparr>hdr := ?h\<rparr>)"
        using coalesce_join [of cur a r] cur f r by simp
      have lay: "layout s (xs @ (q, n, True) # (r, k, True) # us) e"
        using less.prems(2) f by (simp add: Cons b us)
      then have q: "q \<notin> addrs xs" "q \<notin> addrs us" using layout_mid_notin [OF lay, of q] by auto
      have tl: "blocks ?h q ((q, n + (HDR + k), True) # us)" using cur f r q by simp
      have "blocks (hdr a) p (xs @ (q, n, True) # (r, k, True) # us)"
        using less.prems(1) f by (simp add: Cons b us)
      then have "blocks ?h p (xs @ (q, n + (HDR + k), True) # us)"
        by (rule blocks_replace) (use q tl in auto)
      moreover have "layout s (xs @ (q, n + (HDR + k), True) # us) e"
        using layout_join [OF lay less.prems(3)] .
      ultimately show ?thesis
        using less.hyps [of "(q, n + (HDR + k), True) # us" "a\<lparr>hdr := ?h\<rparr>" xs cur]
          less.prems(3) tl cur f step by (simp add: Cons b us)
    qed
  qed
qed

lemma release_rep:
  "blocks h p bs \<Longrightarrow> q \<in> addrs bs \<Longrightarrow> layout s bs e \<Longrightarrow> blocks (h(q := (h q)\<lparr>bfree := True\<rparr>)) p (release q bs)"
proof (induction bs arbitrary: p s)
  case Nil
  then show ?case by simp
next
  case (Cons b bs)
  obtain r n f where b: "b = (r, n, f)" by (cases b)
  have "r \<notin> addrs bs" using layout_hd_notin Cons.prems(3) b by blast
  with Cons b show ?case by (cases "r = q") auto
qed

lemma layout_release: "layout s (release q bs) e = layout s bs e"
  by (induction q bs arbitrary: s rule: release.induct) (auto split: if_splits)

lemma merge_Nil_iff [simp]: "merge bs = [] \<longleftrightarrow> bs = []"
  by (induction bs rule: merge.induct) auto

lemma release_Nil_iff [simp]: "release q bs = [] \<longleftrightarrow> bs = []"
  by (cases "(q, bs)" rule: release.cases) auto

lemma heap_free_rep:
  assumes "heap_inv a bs" "(q, n, False) \<in> set bs" "n \<noteq> 0"
  shows "\<exists>a'. heap_free (q + HDR) a = Some a' \<and> heap_inv a' (spec_free (q + HDR) bs) \<and>
    regionStart a' = regionStart a \<and> regionEnd a' = regionEnd a"
proof -
  let ?a = "a\<lparr>hdr := (hdr a)(q := (hdr a q)\<lparr>bfree := True\<rparr>)\<rparr>"
  from assms have inv: "blocks (hdr a) (ahead a) bs" "layout (unat (ahead a)) bs (unat (regionEnd a))"
    "ahead a = regionStart a" "bs \<noteq> []" by (metis heap_inv_def)+
  note bnd = layout_block [OF inv(2) assms(2)] and e = unat_lt_2p32 [of "regionEnd a"]
  have "0 < unat n" using assms(3) by (simp add: unat_gt_0)
  then have u: "unat (q + HDR) = unat q + 12" using bnd e unat_add_of_nat [of q 12] by simp
  have "unat (regionStart a + HDR) = unat (regionStart a) + 12"
    using bnd e inv(3) unat_add_of_nat [of "regionStart a" 12] by simp
  then have rng: "\<not> (q + HDR < regionStart a + HDR)" "\<not> regionEnd a \<le> q + HDR"
    using bnd u \<open>0 < unat n\<close> inv(3) by (simp_all add: word_less_nat_alt word_le_nat_alt)
  have "unat (q + HDR) \<noteq> unat 0" using u by simp
  then have nz: "q + HDR \<noteq> 0" by metis
  obtain xs ys where bs: "bs = xs @ (q, n, False) # ys" using split_list [OF assms(2)] by blast
  have used: "\<not> bfree (hdr a q)" using blocks_mid inv(1) bs by blast
  have "q \<in> addrs bs" using bs by simp
  then have "blocks (hdr ?a) (ahead a) (release q bs)" using release_rep inv(1,2) by simp
  moreover have "layout (unat (ahead a)) (release q bs) (unat (regionEnd a))"
    using inv(2) by (simp add: layout_release)
  ultimately obtain h where "coalesce (ahead a) ?a = Some (?a\<lparr>hdr := h\<rparr>)"
    "blocks h (ahead a) (merge (release q bs))"
    "layout (unat (ahead a)) (merge (release q bs)) (unat (regionEnd a))"
    using coalesce_rep [of ?a "ahead a" "[]" "release q bs" "unat (ahead a)" "unat (regionEnd a)"
        "ahead a"] e
    by auto
  with rng nz used inv show ?thesis
    by (simp add: heap_free_def Let_def spec_free_def heap_inv_def)
qed

section \<open>Growing the region\<close>

lemma last_block_rep:
  assumes "blocks (hdr a) cur bs" "bs \<noteq> []"
  shows "last_block cur a = Some (fst (last bs))"
  using assms
proof (induction bs arbitrary: cur)
  case Nil
  then show ?case by simp
next
  case (Cons b bs)
  then show ?case
    by (subst last_block.simps) (cases b; cases bs; auto)
qed

text \<open>What \<^verbatim>\<open>extend\<close> does to the sequence: grow a free last block, or append a new one.\<close>

definition spec_extend :: "u32 \<Rightarrow> block list \<Rightarrow> block list" where
  "spec_extend k bs = (case last bs of (q, n, f) \<Rightarrow>
     if f then butlast bs @ [(q, n + k, True)]
     else bs @ [(q + HDR + n, k - HDR, True)])"

lemma extend_rep:
  assumes inv: "heap_inv a bs" and k: "HDR < k" and fits: "unat (regionEnd a) + unat k < 2 ^ 32"
  shows "\<exists>a'. extend k a = Some a' \<and> heap_inv a' (spec_extend k bs) \<and>
    unat (regionEnd a') = unat (regionEnd a) + unat k"
proof -
  from inv have bl: "blocks (hdr a) (ahead a) bs" and ne: "bs \<noteq> []" and hd: "ahead a = regionStart a"
    and lay: "layout (unat (regionStart a)) bs (unat (regionEnd a))" by (metis heap_inv_def)+
  obtain xs q n f where bs: "bs = xs @ [(q, n, f)]"
    using ne by (metis append_butlast_last_id prod_cases3)
  have last: "last_block (ahead a) a = Some q" using last_block_rep [OF bl ne] bs by simp
  have nz: "ahead a \<noteq> 0" using blocks_hd [OF bl ne] by blast
  have bl': "blocks (hdr a) (ahead a) (xs @ (q, n, f) # [])" using bl bs by simp
  note mid = blocks_mid [OF bl']
  have e: "unat q + 12 + unat n = unat (regionEnd a)" using lay bs by (auto simp: layout_append)
  have q: "q \<notin> addrs xs"
    using layout_mid_notin [of _ xs q n f "[]"] lay bs by fastforce
  have end': "unat (regionEnd a + k) = unat (regionEnd a) + unat k"
    using unat_add_of_nat [OF fits] by simp
  have k12: "12 < unat k" "\<not> k \<le> HDR" using k by (simp add: word_less_nat_alt, simp add: not_le)
  show ?thesis
  proof (cases f)
    case True
    let ?h = "(hdr a)(q := (hdr a q)\<lparr>bsize := n + k\<rparr>)"
    have "blocks ?h (ahead a) (xs @ [(q, n + k, True)])"
      by (rule blocks_replace [OF bl']) (use mid q True in auto)
    moreover have "unat (n + k) = unat n + unat k"
      using e fits unat_add_of_nat [of n "unat k"] by simp
    then have "layout (unat (regionStart a)) (xs @ [(q, n + k, True)]) (unat (regionEnd a + k))"
      using lay e end' by (auto simp: bs layout_append)
    ultimately show ?thesis
      using True last nz k12 mid end' bs hd
      by (simp add: extend_def spec_extend_def heap_inv_def Let_def)
  next
    case False
    let ?nb = "q + HDR + n"
    let ?h = "(hdr a)(?nb := \<lparr>bsize = k - HDR, bfree = True, bnext = 0\<rparr>, q := (hdr a q)\<lparr>bnext := ?nb\<rparr>)"
    have nb: "unat ?nb = unat q + 12 + unat n"
      using e unat_lt_2p32 [of "regionEnd a"] unat_add_of_nat [of q 12]
        unat_add_of_nat [of "q + 12" "unat n"] by simp
    then have "unat ?nb \<noteq> unat q" "unat ?nb \<noteq> unat 0" by simp_all
    then have "?nb \<noteq> q" "?nb \<noteq> 0" by metis+
    moreover have "?nb \<notin> addrs xs"
      using layout_mid_notin [of _ xs q n f "[]"] lay bs nb layout_block [of _ xs "unat q"]
        layout_addr_ge by (fastforce simp: layout_append addrs_def)
    moreover have "blocks ?h q [(q, n, False), (?nb, k - HDR, True)]"
      using mid False calculation by simp
    ultimately have "blocks ?h (ahead a) (xs @ [(q, n, False), (?nb, k - HDR, True)])"
      by (intro blocks_replace [OF bl']) (use q in auto)
    moreover have "unat (k - HDR) = unat k - 12" using k by (simp add: unat_sub)
    then have "layout (unat (regionStart a)) (xs @ [(q, n, False), (?nb, k - HDR, True)])
        (unat (regionEnd a + k))"
      using lay e end' nb k12 by (auto simp: bs layout_append)
    ultimately show ?thesis
      using False last nz k12 mid end' bs hd
      by (simp add: extend_def spec_extend_def heap_inv_def Let_def)
  qed
qed

lemma ctor_rep:
  assumes "base \<noteq> 0" "HDR < sz" "unat base + unat sz < 2 ^ 32"
  shows "heap_inv (HeapAllocator_ctor h base sz) [(base, sz - HDR, True)]"
proof -
  have "unat (sz - HDR) = unat sz - 12" "12 < unat sz" "\<not> sz \<le> HDR"
    using assms(2) by (simp_all add: unat_sub word_less_nat_alt word_le_nat_alt)
  moreover have "unat (base + sz) = unat base + unat sz" using unat_add_of_nat [OF assms(3)] by simp
  ultimately show ?thesis using assms by (simp add: HeapAllocator_ctor_def heap_inv_def)
qed

section \<open>The interface of new and delete\<close>

text \<open>The addresses handed out and not yet freed.\<close>

definition live_of :: "block list \<Rightarrow> addr set" where
  "live_of bs = {q + HDR | q n. (q, n, False) \<in> set bs \<and> n \<noteq> 0}"

definition live :: "allocator \<Rightarrow> addr set" where
  "live a = {p. \<exists>bs. heap_inv a bs \<and> p \<in> live_of bs}"

definition heap_ok :: "allocator \<Rightarrow> bool" where
  "heap_ok a \<longleftrightarrow> (\<exists>bs. heap_inv a bs)"

locale heap_allocator =
  fixes ok :: "'h \<Rightarrow> bool"
    and owned :: "'h \<Rightarrow> addr set"
    and alloc :: "u32 \<Rightarrow> 'h \<Rightarrow> (addr \<times> 'h) option"
    and dealloc :: "addr \<Rightarrow> 'h \<Rightarrow> 'h option"
  assumes alloc_total: "ok h \<Longrightarrow> \<exists>r h'. alloc n h = Some (r, h')"
    and alloc_ok: "ok h \<Longrightarrow> alloc n h = Some (r, h') \<Longrightarrow> ok h'"
    and alloc_null: "ok h \<Longrightarrow> alloc n h = Some (0, h') \<Longrightarrow> owned h' = owned h"
    and alloc_fresh: "ok h \<Longrightarrow> 0 < n \<Longrightarrow> n \<le> 0xFFFFFFFC \<Longrightarrow> alloc n h = Some (r, h') \<Longrightarrow> r \<noteq> 0 \<Longrightarrow>
           r \<notin> owned h \<and> owned h' = insert r (owned h)"
    and dealloc_owned: "ok h \<Longrightarrow> p \<in> owned h \<Longrightarrow>
           \<exists>h'. dealloc p h = Some h' \<and> ok h' \<and> owned h' = owned h - {p}"
    and null_not_owned: "ok h \<Longrightarrow> 0 \<notin> owned h"
begin

lemma dealloc_alloc:
  assumes "ok h" "0 < n" "n \<le> 0xFFFFFFFC" "alloc n h = Some (r, h')" "r \<noteq> 0"
  shows "\<exists>h''. dealloc r h' = Some h'' \<and> ok h'' \<and> owned h'' = owned h"
  using alloc_fresh [OF assms] alloc_ok [OF assms(1,4)] dealloc_owned [of h' r] by auto

lemma alloc_twice_distinct:
  assumes "ok h" "0 < n" "n \<le> 0xFFFFFFFC" "0 < k" "k \<le> 0xFFFFFFFC"
    and "alloc n h = Some (r, h1)" "r \<noteq> 0" "alloc k h1 = Some (q, h2)" "q \<noteq> 0"
  shows "r \<noteq> q \<and> {r, q} \<subseteq> owned h2"
  using alloc_fresh [OF assms(1-3,6,7)] alloc_ok [OF assms(1,6)]
    alloc_fresh [of h1 k q h2] assms by auto

end

lemma live_eq: "heap_inv a bs \<Longrightarrow> live a = live_of bs"
  by (auto simp: live_def dest: heap_inv_unique)

lemma live_of_Cons: "live_of ((q, n, f) # bs) =
    (if \<not> f \<and> n \<noteq> 0 then insert (q + HDR) (live_of bs) else live_of bs)"
  by (auto simp: live_of_def)

lemma live_of_append: "live_of (xs @ ys) = live_of xs \<union> live_of ys"
  by (auto simp: live_of_def)

lemma live_of_Nil [simp]: "live_of [] = {}"
  by (simp add: live_of_def)

lemma live_merge [simp]: "live_of (merge bs) = live_of bs"
  by (induction bs rule: merge.induct) (auto simp: live_of_Cons)

lemma live_of_notin: "layout s ((q, n, f) # bs) e \<Longrightarrow> q + HDR \<notin> live_of bs"
  using layout_hd_notin [of s q n f bs e] by (force simp: live_of_def addrs_def)

lemma live_release:
  "layout s bs e \<Longrightarrow> (q, n, False) \<in> set bs \<Longrightarrow> live_of (release q bs) = live_of bs - {q + HDR}"
proof (induction bs arbitrary: s)
  case Nil
  then show ?case by simp
next
  case (Cons b bs)
  obtain r k f where b: "b = (r, k, f)" by (cases b)
  note out = live_of_notin [OF Cons.prems(1) [unfolded b]]
  show ?case
  proof (cases "r = q")
    case True
    with out b show ?thesis by (auto simp: live_of_Cons)
  next
    case False
    with Cons b show ?thesis by (auto simp: live_of_Cons)
  qed
qed

lemma first_fit_fst:
  "fst (first_fit sz bs) = 0 \<or>
     (\<exists>q n. (q, n, True) \<in> set bs \<and> fst (first_fit sz bs) = q + HDR \<and> sz \<le> n)"
  by (induction sz bs rule: first_fit.induct) (auto split: prod.splits, blast)

lemma layout_hdr_nz: "layout s bs e \<Longrightarrow> e < 2 ^ 32 \<Longrightarrow> (q, n, f) \<in> set bs \<Longrightarrow> q + HDR \<noteq> 0"
proof -
  assume "layout s bs e" "e < 2 ^ 32" "(q, n, f) \<in> set bs"
  then have "unat (q + HDR) = unat q + 12"
    using layout_block [of s bs e q n f] unat_add_of_nat [of q 12] by simp
  then have "unat (q + HDR) \<noteq> unat 0" by simp
  then show ?thesis by metis
qed

lemma first_fit_null:
  "layout s bs e \<Longrightarrow> e < 2 ^ 32 \<Longrightarrow> fst (first_fit sz bs) = 0 \<Longrightarrow> snd (first_fit sz bs) = bs"
proof (induction sz bs arbitrary: s rule: first_fit.induct)
  case (2 sz p n f bs)
  have "p + HDR \<noteq> 0" by (rule layout_hdr_nz [OF "2.prems"(1,2), of p n f]) simp
  with 2 show ?case by (fastforce split: prod.splits if_splits)
qed simp

lemma first_fit_fst_tail:
  assumes "layout s ((p, n, f) # bs) e" "p + HDR \<noteq> 0"
  shows "p + HDR \<noteq> fst (first_fit sz bs)"
  using first_fit_fst [of sz bs] layout_hd_notin [OF assms(1)] assms(2)
  by (force simp: addrs_def)

lemma first_fit_live:
  assumes "layout s bs e" "e < 2 ^ 32" "sz \<noteq> 0"
  shows "if fst (first_fit sz bs) = 0 then snd (first_fit sz bs) = bs
    else fst (first_fit sz bs) \<notin> live_of bs \<and>
      live_of (snd (first_fit sz bs)) = insert (fst (first_fit sz bs)) (live_of bs)"
  using assms
proof (induction sz bs arbitrary: s rule: first_fit.induct)
  case (1 sz)
  then show ?case by simp
next
  case (2 sz p n f bs)
  have nz: "p + HDR \<noteq> 0" by (rule layout_hdr_nz [OF "2.prems"(1,2), of p n f]) simp
  note out = live_of_notin [OF "2.prems"(1)]
  show ?case
  proof (cases "f \<and> sz \<le> n")
    case True
    with "2.prems"(3) have "n \<noteq> 0" by auto
    with True nz out "2.prems"(3) show ?thesis by (auto simp: live_of_Cons live_of_append)
  next
    case False
    from "2.prems" have "layout (s + 12 + unat n) bs e" by simp
    from "2.IH" [OF False this "2.prems"(2,3)] False
    have ih: "if fst (first_fit sz bs) = 0 then snd (first_fit sz bs) = bs
      else fst (first_fit sz bs) \<notin> live_of bs \<and>
        live_of (snd (first_fit sz bs)) = insert (fst (first_fit sz bs)) (live_of bs)" by simp
    have "p + HDR \<noteq> fst (first_fit sz bs)" by (rule first_fit_fst_tail [OF "2.prems"(1) nz])
    with ih False show ?thesis by (auto simp: live_of_Cons split: prod.splits if_splits)
  qed
qed

lemma align4_nat: "sz \<le> 0xFFFFFFFC \<Longrightarrow> unat (align4 sz) = 4 * ((unat sz + 3) div 4)"
proof -
  assume "sz \<le> 0xFFFFFFFC"
  then have s: "unat (sz + 3) = unat sz + 3"
    using unat_add_of_nat [of sz 3] by (simp add: word_le_nat_alt)
  have "(3 :: u32) = mask 2" by (simp add: mask_eq_exp_minus_1)
  then have "align4 sz = (sz + 3) AND NOT (mask 2)" by (metis align4_def)
  then show ?thesis using unat_and_not_mask [of "sz + 3" 2] s by simp
qed

lemma align4_pos: "0 < sz \<Longrightarrow> sz \<le> 0xFFFFFFFC \<Longrightarrow> align4 sz \<noteq> 0 \<and> sz \<le> align4 sz"
proof -
  assume "0 < sz" "sz \<le> 0xFFFFFFFC"
  then have "unat sz \<le> unat (align4 sz)" "0 < unat sz"
    using align4_nat by (simp, simp add: unat_gt_0)
  then show ?thesis by (auto simp: word_le_nat_alt)
qed

interpretation ha: heap_allocator heap_ok live allocate heap_free
proof unfold_locales
  show "\<exists>r h'. allocate n h = Some (r, h')" if "heap_ok h" for h n
    using that allocate_rep unfolding heap_ok_def by blast
  show "heap_ok h'" if "heap_ok h" "allocate n h = Some (r, h')" for h h' n r
    using that allocate_rep [of h _ n] unfolding heap_ok_def by force
  show "0 \<notin> live h" if "heap_ok h" for h
  proof
    assume "0 \<in> live h"
    then obtain bs q n where "heap_inv h bs" "(q, n, False) \<in> set bs" "q + HDR = 0"
      by (fastforce simp: live_def live_of_def)
    then show False
      using layout_hdr_nz [OF _ unat_lt_2p32] unfolding heap_inv_def by blast
  qed
  show "live h' = live h" if "heap_ok h" "allocate n h = Some (0, h')" for h h' n
  proof -
    from that(1) obtain bs where inv: "heap_inv h bs" by (auto simp: heap_ok_def)
    from allocate_rep [OF inv, of n] that(2) have "fst (spec_alloc n bs) = 0"
      and inv': "heap_inv h' (snd (spec_alloc n bs))" by auto
    then have "snd (spec_alloc n bs) = bs"
      using first_fit_null [OF _ unat_lt_2p32] inv
      by (auto simp: spec_alloc_def heap_inv_def split: if_splits)
    with inv inv' show ?thesis by (simp add: live_eq)
  qed
  show "r \<notin> live h \<and> live h' = insert r (live h)"
    if "heap_ok h" "0 < n" "n \<le> 0xFFFFFFFC" "allocate n h = Some (r, h')" "r \<noteq> 0" for h n r h'
  proof -
    from that(1) obtain bs where inv: "heap_inv h bs" by (auto simp: heap_ok_def)
    have "n \<noteq> 0" using that(2) by auto
    with allocate_rep [OF inv, of n] that(4) have r: "r = fst (first_fit (align4 n) bs)"
      and inv': "heap_inv h' (snd (first_fit (align4 n) bs))" by (auto simp: spec_alloc_def)
    have "layout (unat (regionStart h)) bs (unat (regionEnd h))" using inv by (metis heap_inv_def)
    from first_fit_live [OF this unat_lt_2p32, of "align4 n"] align4_pos [OF that(2,3)] that(5) r
    show ?thesis using live_eq [OF inv] live_eq [OF inv'] by (simp split: if_splits)
  qed
  show "\<exists>h'. heap_free p h = Some h' \<and> heap_ok h' \<and> live h' = live h - {p}"
    if "heap_ok h" "p \<in> live h" for h p
  proof -
    from that obtain bs q n where inv: "heap_inv h bs" and q: "(q, n, False) \<in> set bs" "n \<noteq> 0"
      and p: "p = q + HDR" by (auto simp: live_def live_of_def)
    from heap_free_rep [OF inv q] obtain h' where h': "heap_free p h = Some h'"
      "heap_inv h' (spec_free p bs)" by (auto simp: p)
    have "live_of (spec_free p bs) = live_of bs - {p}"
      using live_release [of _ bs _ q n] inv q by (auto simp: spec_free_def p heap_inv_def)
    with inv h' show ?thesis by (auto simp: live_eq heap_ok_def)
  qed
qed

section \<open>Properties\<close>

lemma first_fit_block:
  assumes "layout s bs e" "e < 2 ^ 32" "fst (first_fit sz bs) \<noteq> 0"
  shows "\<exists>n. (fst (first_fit sz bs) - HDR, n, False) \<in> set (snd (first_fit sz bs)) \<and> sz \<le> n"
  using assms
  by (induction sz bs arbitrary: s rule: first_fit.induct) (force split: prod.splits)+

lemma first_fit_keeps_used:
  "(q, k, False) \<in> set bs \<Longrightarrow> (q, k, False) \<in> set (snd (first_fit sz bs))"
  by (induction sz bs rule: first_fit.induct) (auto split: prod.splits)

lemma allocate_Some:
  assumes "heap_inv a bs" "allocate sz a = Some (r, a')" "0 < sz"
  shows "r = fst (first_fit (align4 sz) bs) \<and> heap_inv a' (snd (first_fit (align4 sz) bs)) \<and>
    regionStart a' = regionStart a \<and> regionEnd a' = regionEnd a"
proof -
  have "sz \<noteq> 0" using assms(3) by auto
  with allocate_rep [OF assms(1), of sz] assms(2) show ?thesis by (auto simp: spec_alloc_def)
qed


definition demo_heap :: allocator where
  "demo_heap = HeapAllocator_ctor (\<lambda>_. \<lparr>bsize = 0, bfree = False, bnext = 0\<rparr>) 4096 256"

lemma demo_heap_inv: "heap_inv demo_heap [(4096, 244, True)]"
  using ctor_rep [of 4096 256] by (simp add: demo_heap_def)

lemma demo_heap_alloc:
  "fst (the (allocate 10 demo_heap)) = 4108" "allocate 10 demo_heap \<noteq> None"
  by (simp_all add: allocate_def alloc_scan.simps demo_heap_def HeapAllocator_ctor_def align4_def
      take_block_def MIN_BLOCK_SIZE_def Let_def)


fun coalesced :: "block list \<Rightarrow> bool" where
  "coalesced ((p, n, True) # (q, k, True) # bs) \<longleftrightarrow> False"
| "coalesced (b # bs) \<longleftrightarrow> coalesced bs"
| "coalesced [] \<longleftrightarrow> True"

lemma coalesced_Cons:
  "coalesced ((q, n, f) # zs) \<longleftrightarrow> \<not> (\<exists>r k us. f \<and> zs = (r, k, True) # us) \<and> coalesced zs"
  by (cases "(q, n, f) # zs" rule: coalesced.cases) auto

lemma merge_hd_used: "zs = [] \<or> \<not> snd (snd (hd zs)) \<Longrightarrow> merge zs = [] \<or> \<not> snd (snd (hd (merge zs)))"
  by (cases zs rule: merge.cases) auto

lemma coalesced_merge: "coalesced (merge bs)"
proof (induction "length bs" arbitrary: bs rule: less_induct)
  case less
  show ?case
  proof (cases bs)
    case Nil
    then show ?thesis by simp
  next
    case (Cons b zs)
    obtain q n f where b: "b = (q, n, f)" by (cases b)
    show ?thesis
    proof (cases "\<exists>r k us. f \<and> zs = (r, k, True) # us")
      case True
      then obtain r k us where "f" "zs = (r, k, True) # us" by blast
      with less.hyps [of "(q, n + (HDR + k), True) # us"] show ?thesis by (simp add: Cons b)
    next
      case False
      have "\<not> (\<exists>r k us. f \<and> merge zs = (r, k, True) # us)"
        using False merge_hd_used [of zs] by (cases zs) auto
      with merge_skip [OF False, of q n] less.hyps [of zs] show ?thesis
        by (simp add: Cons b coalesced_Cons del: merge.simps)
    qed
  qed
qed

lemma merge_coalesced: "coalesced bs \<Longrightarrow> merge bs = bs"
proof (induction bs)
  case (Cons b zs)
  obtain q n f where b: "b = (q, n, f)" by (cases b)
  from Cons.prems have "\<not> (\<exists>r k us. f \<and> zs = (r, k, True) # us)" "coalesced zs"
    unfolding b coalesced_Cons by blast+
  with merge_skip [OF this(1), of q n] Cons.IH show ?case by (simp add: b)
qed simp

lemma merge_idem: "merge (merge bs) = merge bs"
  by (rule merge_coalesced [OF coalesced_merge])

lemma merge_tail: "merge (b # zs) = merge (b # merge zs)"
proof (induction "length zs" arbitrary: b zs rule: less_induct)
  case less
  obtain q n f where b: "b = (q, n, f)" by (cases b)
  show ?case
  proof (cases "\<exists>r k us. f \<and> zs = (r, k, True) # us")
    case False
    have "\<not> (\<exists>r k us. f \<and> merge zs = (r, k, True) # us)"
      using False merge_hd_used [of zs] by (cases zs) auto
    from merge_skip [OF this, of q n] merge_skip [OF False, of q n] show ?thesis
      by (simp add: b merge_idem)
  next
    case True
    then obtain r k us where f: f and zs: "zs = (r, k, True) # us" by blast
    show ?thesis
    proof (cases "\<exists>p j vs. us = (p, j, True) # vs")
      case True
      then obtain p j vs where us: "us = (p, j, True) # vs" by blast
      from less.hyps [of "(r, k + (HDR + j), True) # vs" b] f show ?thesis
        by (simp add: b zs us add.assoc)
    next
      case False
      have "merge zs = (r, k, True) # merge us" unfolding zs by (rule merge_skip) (use False in auto)
      with less.hyps [of us "(q, n + (HDR + k), True)"] f show ?thesis by (simp add: b zs)
    qed
  qed
qed

lemma first_fit_roundtrip:
  assumes "layout s bs e" "e < 2 ^ 32" "coalesced bs" "fst (first_fit sz bs) \<noteq> 0"
  shows "merge (release (fst (first_fit sz bs) - HDR) (snd (first_fit sz bs))) = bs"
  using assms
proof (induction sz bs arbitrary: s rule: first_fit.induct)
  case (2 sz p n f bs)
  show ?case
  proof (cases "f \<and> sz \<le> n")
    case True
    then have "f = True" by simp
    with merge_coalesced [OF "2.prems"(3)] True show ?thesis by (simp add: algebra_simps)
  next
    case False
    obtain r bs' where ff: "first_fit sz bs = (r, bs')" by force
    with False have eq: "first_fit sz ((p, n, f) # bs) = (r, (p, n, f) # bs')" by auto
    from "2.prems" have lay: "layout (s + 12 + unat n) bs e" and p: "unat p = s" by auto
    have co: "coalesced bs" using "2.prems"(3) coalesced_Cons by blast
    have r: "r \<noteq> 0" using "2.prems"(4) eq by simp
    have "r - HDR \<in> addrs bs" using first_fit_fst [of sz bs] r ff by (force simp: addrs_def)
    then have ne: "p \<noteq> r - HDR" using layout_addr_ge [OF lay, of "r - HDR"] p by auto
    have "merge (release (r - HDR) bs') = bs" using "2.IH" [OF False lay "2.prems"(2) co] r ff by simp
    with merge_tail [of "(p, n, f)" "release (r - HDR) bs'"] ne merge_coalesced [OF "2.prems"(3)]
    show ?thesis unfolding eq by simp
  qed
qed simp

text \<open>
  C4. \<^verbatim>\<open>free\<close> of a live block always terminates; it gives back exactly that block,
  leaves no two adjacent free blocks behind and keeps the managed region as it was.
\<close>

theorem heap_free_coalesces:
  assumes "heap_ok a" "p \<in> live a"
  shows "\<exists>a' bs'. heap_free p a = Some a' \<and> heap_inv a' bs' \<and> coalesced bs' \<and>
    live a' = live a - {p} \<and> regionStart a' = regionStart a \<and> regionEnd a' = regionEnd a"
proof -
  from assms obtain bs q n where inv: "heap_inv a bs" and q: "(q, n, False) \<in> set bs" "n \<noteq> 0"
    and p: "p = q + HDR" by (auto simp: live_def live_of_def)
  from heap_free_rep [OF inv q] ha.dealloc_owned [OF assms] show ?thesis
    unfolding p using coalesced_merge spec_free_def by fastforce
qed

text \<open>
  Allocating a block and freeing it again restores the free list block for block, if it
  had no adjacent free blocks before; so no sequence of such pairs fragments the heap.
\<close>

theorem heap_alloc_free_roundtrip:
  assumes "heap_inv a bs" "coalesced bs" "0 < sz" "sz \<le> 0xFFFFFFFC"
    and "allocate sz a = Some (r, a')" "r \<noteq> 0"
  shows "\<exists>a''. heap_free r a' = Some a'' \<and> heap_inv a'' bs"
proof -
  note al = allocate_Some [OF assms(1,5,3)]
  have lay: "layout (unat (regionStart a)) bs (unat (regionEnd a))" using assms(1) by (metis heap_inv_def)
  from first_fit_block [OF lay unat_lt_2p32] al assms(6) obtain n where
    n: "(r - HDR, n, False) \<in> set (snd (first_fit (align4 sz) bs))" "align4 sz \<le> n" by blast
  have "n \<noteq> 0" using align4_pos [OF assms(3,4)] n(2) by auto
  have "heap_inv a' (snd (first_fit (align4 sz) bs))" using al by blast
  from heap_free_rep [OF this n(1) \<open>n \<noteq> 0\<close>] show ?thesis
    using first_fit_roundtrip [OF lay unat_lt_2p32 assms(2)] al assms(6) by (auto simp: spec_free_def)
qed

section \<open>Witnesses\<close>

lemma demo_alloc:
  obtains a' where "allocate 10 demo_heap = Some (4108, a')"
  using demo_heap_alloc by fastforce

theorem heap_alloc_free_roundtrip_witness:
  "\<exists>a''. heap_free 4108 (snd (the (allocate 10 demo_heap))) = Some a'' \<and> heap_inv a'' [(4096, 244, True)]"
proof -
  obtain a' where al: "allocate 10 demo_heap = Some (4108, a')" by (rule demo_alloc)
  show ?thesis using heap_alloc_free_roundtrip [OF demo_heap_inv _ _ _ al] by (simp add: al)
qed

theorem heap_free_coalesces_witness:
  "\<exists>a' bs'. heap_free 4108 (snd (the (allocate 10 demo_heap))) = Some a' \<and> heap_inv a' bs' \<and> coalesced bs'"
proof -
  obtain a' where al: "allocate 10 demo_heap = Some (4108, a')" by (rule demo_alloc)
  have ok: "heap_ok demo_heap" using demo_heap_inv heap_ok_def by blast
  have "heap_ok a'" "4108 \<in> live a'"
    using ha.alloc_ok [OF ok al] ha.alloc_fresh [OF ok _ _ al] by simp_all
  from heap_free_coalesces [OF this] show ?thesis by (auto simp: al)
qed

text \<open>The request is rounded up modulo 2^32: the largest requests become a request for nothing.\<close>

lemma align4_wraps: "0xFFFFFFFC < sz \<Longrightarrow> align4 sz = 0"
proof -
  assume "0xFFFFFFFC < sz"
  then have "sz = 0xFFFFFFFD \<or> sz = 0xFFFFFFFE \<or> sz = 0xFFFFFFFF"
    using unat_lt_2p32 [of sz] unfolding word_less_nat_alt word_unat_eq_iff
    by (simp del: unsigned_less) presburger
  then show ?thesis by (auto simp: align4_def)
qed

theorem allocate_huge_hands_out_nothing:
  "fst (the (allocate 0xFFFFFFFF demo_heap)) = 4108 \<and>
   bsize (hdr (snd (the (allocate 0xFFFFFFFF demo_heap))) 4096) = 0"
  by (simp add: allocate_def alloc_scan.simps demo_heap_def HeapAllocator_ctor_def align4_def
      take_block_def MIN_BLOCK_SIZE_def Let_def)

end
