(* ===== verification/Physical.thy ===== *)
theory Physical
  imports Memory
begin

text \<open>
  The physical frame allocator of kernel/src/memory/physical.cpp: a bitmap with one bit per
  4 KiB frame of the 4 GiB physical space, a set bit meaning in use.  The operations are on
  the bitmap bytes as in the code; the abstract view is the set of free frame numbers
  (\<open>free_frames\<close>).  \<open>pmm_init\<close> walks the multiboot memory map in memory.
\<close>

unbundle bit_operations_syntax

section \<open>State\<close>

abbreviation (input) FRAME_SIZE :: u32 where "FRAME_SIZE \<equiv> 4096"
abbreviation (input) KERNEL_VBASE :: u32 where "KERNEL_VBASE \<equiv> 0xC0000000"

definition BITMAP_SIZE :: nat where
  "BITMAP_SIZE = 131072"

record phys_mgr =
  bitmap :: "nat \<Rightarrow> u8"
  totalFrames :: u32

definition pmm_ctor :: phys_mgr where
  "pmm_ctor = \<lparr>bitmap = (\<lambda>_. 0xFF), totalFrames = 0\<rparr>"

section \<open>Operations\<close>

definition bit_clear :: "phys_mgr \<Rightarrow> nat \<Rightarrow> nat \<Rightarrow> bool" where
  "bit_clear p i b \<longleftrightarrow> bitmap p i AND push_bit b 1 = 0"

definition mark_frame :: "nat \<Rightarrow> phys_mgr \<Rightarrow> phys_mgr" where
  "mark_frame f p =
     (if f div 8 < BITMAP_SIZE
      then p\<lparr>bitmap := (bitmap p)(f div 8 := bitmap p (f div 8) OR push_bit (f mod 8) 1)\<rparr>
      else p)"

definition clear_frame :: "nat \<Rightarrow> phys_mgr \<Rightarrow> phys_mgr" where
  "clear_frame f p =
     (if f div 8 < BITMAP_SIZE
      then p\<lparr>bitmap := (bitmap p)(f div 8 := bitmap p (f div 8) AND NOT (push_bit (f mod 8) 1))\<rparr>
      else p)"

definition markRegionUsed :: "u32 \<Rightarrow> u32 \<Rightarrow> phys_mgr \<Rightarrow> phys_mgr" where
  "markRegionUsed base len p =
     (let startFrame = base div FRAME_SIZE;
          endFrame = (base + len + FRAME_SIZE - 1) div FRAME_SIZE
      in fold mark_frame [unat startFrame..<unat endFrame] p)"

definition markRegionFree :: "u32 \<Rightarrow> u32 \<Rightarrow> phys_mgr \<Rightarrow> phys_mgr" where
  "markRegionFree base len p =
     (let startFrame = (base + FRAME_SIZE - 1) div FRAME_SIZE;
          endFrame = (base + len) div FRAME_SIZE
      in fold clear_frame [unat startFrame..<unat endFrame] p)"

text \<open>The two nested loops of \<^verbatim>\<open>allocFrame\<close>; the inner one returns from the function.\<close>

fun alloc_bits :: "nat \<Rightarrow> nat list \<Rightarrow> phys_mgr \<Rightarrow> (u32 \<times> phys_mgr) option" where
  "alloc_bits i [] p = None"
| "alloc_bits i (b # bits) p =
     (if bit_clear p i b
      then Some (of_nat (i * 8 + b) * FRAME_SIZE,
                 p\<lparr>bitmap := (bitmap p)(i := bitmap p i OR push_bit b 1)\<rparr>)
      else alloc_bits i bits p)"

function alloc_bytes :: "nat \<Rightarrow> phys_mgr \<Rightarrow> u32 \<times> phys_mgr" where
  "alloc_bytes i p =
     (if i < BITMAP_SIZE
      then (if bitmap p i = 0xFF then alloc_bytes (i + 1) p
            else (case alloc_bits i [0..<8] p of Some r \<Rightarrow> r | None \<Rightarrow> alloc_bytes (i + 1) p))
      else (0, p))"
  by pat_completeness auto
termination by (relation "measure (\<lambda>(i, p). BITMAP_SIZE - i)") auto

definition allocFrame :: "phys_mgr \<Rightarrow> u32 \<times> phys_mgr" where
  "allocFrame p = alloc_bytes 0 p"

definition freeFrame :: "u32 \<Rightarrow> phys_mgr \<Rightarrow> phys_mgr" where
  "freeFrame a p = clear_frame (unat (a div FRAME_SIZE)) p"

definition isFrameUsed :: "u32 \<Rightarrow> phys_mgr \<Rightarrow> bool" where
  "isFrameUsed a p =
     (let frame = unat (a div FRAME_SIZE); byteIndex = frame div 8; bitIndex = frame mod 8
      in if byteIndex \<ge> BITMAP_SIZE then True else \<not> bit_clear p byteIndex bitIndex)"

definition getFreeFrames :: "phys_mgr \<Rightarrow> u32" where
  "getFreeFrames p =
     fold (\<lambda>i n. fold (\<lambda>b n. if bit_clear p i b then n + 1 else n) [0..<8] n) [0..<BITMAP_SIZE] 0"

definition getTotalFrames :: "phys_mgr \<Rightarrow> u32" where
  "getTotalFrames p = totalFrames p"

definition getUsedFrames :: "phys_mgr \<Rightarrow> u32" where
  "getUsedFrames p = totalFrames p - getFreeFrames p"

section \<open>The multiboot memory map\<close>

text \<open>
  The kernel reads physical memory through the direct map: the virtual address
  \<open>P + KERNEL_VBASE\<close> is the physical address \<open>P\<close>.
\<close>

definition kload :: "bmem \<Rightarrow> addr \<Rightarrow> u32" where
  "kload m va = load32 m (va - KERNEL_VBASE)"

definition kload64 :: "bmem \<Rightarrow> addr \<Rightarrow> u64" where
  "kload64 m va = ucast (kload m va) OR push_bit 32 (ucast (kload m (va + 4)))"

record mmap_entry =
  me_size :: u32
  me_base_addr :: u64
  me_length :: u64
  me_type :: u32

definition read_mmap_entry :: "bmem \<Rightarrow> addr \<Rightarrow> mmap_entry" where
  "read_mmap_entry m va = \<lparr>me_size = kload m va, me_base_addr = kload64 m (va + 4),
     me_length = kload64 m (va + 12), me_type = kload m (va + 20)\<rparr>"

text \<open>The entries the walk visits; \<open>None\<close> is a walk that never reaches the end.\<close>

partial_function (option) mmap_entries :: "bmem \<Rightarrow> addr \<Rightarrow> addr \<Rightarrow> mmap_entry list option" where
  "mmap_entries m mmapAddr mmapEnd =
     (if mmapAddr < mmapEnd
      then (let e = read_mmap_entry m mmapAddr in
        Option.bind (mmap_entries m (mmapAddr + (me_size e + 4)) mmapEnd) (\<lambda>es. Some (e # es)))
      else Some [])"

definition MULTIBOOT_MMAP_AVAILABLE :: u32 where "MULTIBOOT_MMAP_AVAILABLE = 1"
definition MULTIBOOT_FLAG_MMAP :: u32 where "MULTIBOOT_FLAG_MMAP = push_bit 6 1"

definition free_entry :: "mmap_entry \<Rightarrow> phys_mgr \<Rightarrow> phys_mgr" where
  "free_entry e p =
     (if me_type e = MULTIBOOT_MMAP_AVAILABLE
      then (let base = ucast (me_base_addr e);
                len = (if me_base_addr e + me_length e > 0xFFFFFFFF then 0xFFFFFFFF - base
                       else ucast (me_length e))
            in markRegionFree base len p)
      else p)"

text \<open>
  Offsets in \<^verbatim>\<open>MultibootInfo\<close>: flags 0, mmap_length 44, mmap_addr 48.  The addresses of the
  linker symbols and of the bitmap are arguments.
\<close>

definition pmm_init :: "u32 \<Rightarrow> u32 \<Rightarrow> u32 \<Rightarrow> bmem \<Rightarrow> addr \<Rightarrow> phys_mgr \<Rightarrow> phys_mgr option" where
  "pmm_init kernel_start_sym kernel_end_sym bitmap_sym m mbi p =
     (if kload m mbi AND MULTIBOOT_FLAG_MMAP = 0 then Some p
      else (let mmapAddr = kload m (mbi + 48) + KERNEL_VBASE;
                mmapEnd = mmapAddr + kload m (mbi + 44)
            in case mmap_entries m mmapAddr mmapEnd of None \<Rightarrow> None | Some es \<Rightarrow>
      (let p1 = fold free_entry es p;
           p2 = p1\<lparr>totalFrames := getFreeFrames p1\<rparr>;
           kernelStart = kernel_start_sym - KERNEL_VBASE;
           kernelEnd = kernel_end_sym - KERNEL_VBASE;
           p3 = markRegionUsed kernelStart (kernelEnd - kernelStart) p2;
           p4 = markRegionUsed (bitmap_sym - KERNEL_VBASE) (of_nat BITMAP_SIZE) p3
       in Some (markRegionUsed 0 FRAME_SIZE p4))))"

section \<open>The set of free frames\<close>

definition free_frames :: "phys_mgr \<Rightarrow> nat set" where
  "free_frames p = {f. f < 8 * BITMAP_SIZE \<and> bit_clear p (f div 8) (f mod 8)}"

declare push_bit_of_1 [simp del]

lemma bit_clear_iff: "b < 8 \<Longrightarrow> bit_clear p i b \<longleftrightarrow> \<not> bit (bitmap p i) b"
  using and_exp_eq_0_iff_not_bit [of "bitmap p i" b] by (simp add: bit_clear_def push_bit_of_1)

lemma bit_or_bit: "n < 8 \<Longrightarrow> bit ((w :: u8) OR push_bit b 1) n \<longleftrightarrow> bit w n \<or> n = b"
  by (auto simp: bit_simps)

lemma bit_and_not_bit: "n < 8 \<Longrightarrow> bit ((w :: u8) AND NOT (push_bit b 1)) n \<longleftrightarrow> bit w n \<and> n \<noteq> b"
  by (auto simp: bit_simps)

lemma free_frames_iff: "f \<in> free_frames p \<longleftrightarrow> f < 8 * BITMAP_SIZE \<and> \<not> bit (bitmap p (f div 8)) (f mod 8)"
  by (simp add: free_frames_def bit_clear_iff)

lemma div_mod_eq_iff: "f div 8 = g div 8 \<and> f mod 8 = g mod 8 \<longleftrightarrow> f = (g :: nat)"
  by (metis div_mult_mod_eq)

lemma finite_free_frames [simp]: "finite (free_frames p)"
  by (rule finite_subset [of _ "{..<8 * BITMAP_SIZE}"]) (auto simp: free_frames_def)

lemma free_mark_frame [simp]: "free_frames (mark_frame f p) = free_frames p - {f}"
proof (rule set_eqI)
  show "g \<in> free_frames (mark_frame f p) \<longleftrightarrow> g \<in> free_frames p - {f}" for g
    using div_mod_eq_iff [of g f] by (auto simp: free_frames_iff mark_frame_def bit_or_bit)
qed

lemma free_clear_frame [simp]:
  "free_frames (clear_frame f p) = (if f < 8 * BITMAP_SIZE then insert f (free_frames p) else free_frames p)"
proof (rule set_eqI)
  show "g \<in> free_frames (clear_frame f p) \<longleftrightarrow>
      g \<in> (if f < 8 * BITMAP_SIZE then insert f (free_frames p) else free_frames p)" for g
    using div_mod_eq_iff [of g f] by (auto simp: free_frames_iff clear_frame_def bit_and_not_bit)
qed

lemma totalFrames_mark [simp]: "totalFrames (mark_frame f p) = totalFrames p"
  by (simp add: mark_frame_def)

lemma totalFrames_clear [simp]: "totalFrames (clear_frame f p) = totalFrames p"
  by (simp add: clear_frame_def)

lemma fold_mark: "free_frames (fold mark_frame fs p) = free_frames p - set fs"
  by (induction fs arbitrary: p) auto

lemma fold_mark_total [simp]: "totalFrames (fold mark_frame fs p) = totalFrames p"
  by (induction fs arbitrary: p) auto

lemma fold_clear: "\<forall>f \<in> set fs. f < 8 * BITMAP_SIZE \<Longrightarrow>
    free_frames (fold clear_frame fs p) = free_frames p \<union> set fs"
  by (induction fs arbitrary: p) auto

section \<open>allocFrame takes the lowest free frame\<close>

lemma byte_full_iff: "(w :: u8) = 0xFF \<longleftrightarrow> (\<forall>b < 8. bit w b)"
proof -
  have "w = 0xFF \<longleftrightarrow> w = mask 8" by (simp add: mask_eq_exp_minus_1)
  also have "\<dots> \<longleftrightarrow> (\<forall>b < 8. bit w b)" by (auto simp: bit_eq_iff bit_mask_iff)
  finally show ?thesis .
qed

lemma alloc_bits_first:
  assumes "k \<le> b" "b < 8" "bit_clear p i b" "\<forall>j. k \<le> j \<and> j < b \<longrightarrow> \<not> bit_clear p i j"
  shows "alloc_bits i [k..<8] p = Some (of_nat (i * 8 + b) * FRAME_SIZE,
     p\<lparr>bitmap := (bitmap p)(i := bitmap p i OR push_bit b 1)\<rparr>)"
  using assms
proof (induction "b - k" arbitrary: k)
  case 0
  then show ?case by (simp add: upt_conv_Cons fun_upd_def)
next
  case (Suc n)
  then have "\<not> bit_clear p i k" "alloc_bits i [Suc k..<8] p = Some (of_nat (i * 8 + b) * FRAME_SIZE,
     p\<lparr>bitmap := (bitmap p)(i := bitmap p i OR push_bit b 1)\<rparr>)" by auto
  with Suc.prems show ?case by (simp add: upt_conv_Cons)
qed

lemma free_in_byte: "i < BITMAP_SIZE \<Longrightarrow> b < 8 \<Longrightarrow> i * 8 + b \<in> free_frames p \<longleftrightarrow> bit_clear p i b"
  by (simp add: free_frames_def)

lemma alloc_bytes_lowest:
  "\<forall>f \<in> free_frames p. i * 8 \<le> f \<Longrightarrow> alloc_bytes i p =
     (if free_frames p = {} then (0, p)
      else (of_nat (Min (free_frames p)) * FRAME_SIZE, mark_frame (Min (free_frames p)) p))"
proof (induction i p rule: alloc_bytes.induct)
  case (1 i p)
  have below: "i * 8 \<le> f" if "f \<in> free_frames p" for f using "1.prems" that by blast
  show ?case
  proof (cases "i < BITMAP_SIZE")
    case False
    then have "free_frames p = {}" using below by (force simp: free_frames_def)
    then show ?thesis using False by (simp add: alloc_bytes.simps [of i p])
  next
    case i: True
    show ?thesis
    proof (cases "bitmap p i = 0xFF")
      case True
      have "(i + 1) * 8 \<le> f" if "f \<in> free_frames p" for f
      proof (rule ccontr)
        assume "\<not> (i + 1) * 8 \<le> f"
        then have "f div 8 = i" using below [OF that] by simp
        then show False using that True byte_full_iff [of "bitmap p i"] by (simp add: free_frames_iff)
      qed
      then show ?thesis using "1.IH"(1) [OF i True] i True by (simp add: alloc_bytes.simps [of i p])
    next
      case False
      define b where "b = (LEAST b. bit_clear p i b)"
      obtain c where c: "c < 8" "bit_clear p i c"
        using False byte_full_iff [of "bitmap p i"] by (auto simp: bit_clear_iff)
      then have b: "bit_clear p i b" "b < 8"
        using Least_le [of "bit_clear p i" c] LeastI [of "bit_clear p i" c] by (auto simp: b_def)
      have nb: "\<not> bit_clear p i j" if "j < b" for j using that not_less_Least by (auto simp: b_def)
      have in_free: "i * 8 + b \<in> free_frames p" using b i by (simp add: free_in_byte)
      have "Min (free_frames p) = i * 8 + b"
      proof (rule Min_eqI)
        show "i * 8 + b \<le> f" if f: "f \<in> free_frames p" for f
        proof (rule ccontr)
          assume less: "\<not> i * 8 + b \<le> f"
          then have "f = i * 8 + (f - i * 8)" "f - i * 8 < b" using below [OF f] by auto
          then show False using nb f free_in_byte [OF i, of "f - i * 8" p] b(2) by auto
        qed
      qed (use in_free in auto)
      moreover have "alloc_bits i [0..<8] p = Some (of_nat (i * 8 + b) * FRAME_SIZE, mark_frame (i * 8 + b) p)"
        using alloc_bits_first [of 0 b p i] b nb i by (simp add: mark_frame_def)
      ultimately show ?thesis using i False in_free by (auto simp: alloc_bytes.simps [of i p])
    qed
  qed
qed

lemma allocFrame_lowest:
  "allocFrame p =
     (if free_frames p = {} then (0, p)
      else (of_nat (Min (free_frames p)) * FRAME_SIZE, mark_frame (Min (free_frames p)) p))"
  unfolding allocFrame_def by (rule alloc_bytes_lowest) simp

lemma frame_addr: "f < 8 * BITMAP_SIZE \<Longrightarrow> unat (of_nat f * FRAME_SIZE) = f * 4096"
  by (simp add: BITMAP_SIZE_def unat_word_ariths)

lemma frame_number: "f < 8 * BITMAP_SIZE \<Longrightarrow> unat (of_nat f * FRAME_SIZE div FRAME_SIZE) = f"
  by (simp add: unat_div frame_addr)

lemma frame_of_lt: "unat ((a :: u32) div FRAME_SIZE) < 8 * BITMAP_SIZE"
  using unat_lt_2p32 [of a] by (simp add: unat_div BITMAP_SIZE_def)

lemma isFrameUsed_iff: "isFrameUsed a p \<longleftrightarrow> unat (a div FRAME_SIZE) \<notin> free_frames p"
  using frame_of_lt [of a] by (auto simp: isFrameUsed_def Let_def free_frames_def)

lemma free_freeFrame [simp]: "free_frames (freeFrame a p) = insert (unat (a div FRAME_SIZE)) (free_frames p)"
  using frame_of_lt [of a] by (simp add: freeFrame_def)

lemma bit_restore: "\<not> bit (w :: u8) b \<Longrightarrow> (w OR push_bit b 1) AND NOT (push_bit b 1) = w"
  by (rule bit_eqI) (auto simp: bit_simps)

lemma clear_mark_frame: "f \<in> free_frames p \<Longrightarrow> clear_frame f (mark_frame f p) = p"
  by (cases p) (auto simp: clear_frame_def mark_frame_def free_frames_iff bit_restore)

lemma Min_free: "free_frames p \<noteq> {} \<Longrightarrow> Min (free_frames p) \<in> free_frames p"
  by simp

lemma allocFrame_fits: "unat (fst (allocFrame p)) mod 4096 = 0"
  using Min_free [of p] by (auto simp: allocFrame_lowest free_frames_def frame_addr)

text \<open>What the clients of the frame allocator rely on.\<close>

locale frame_source =
  fixes free :: "'s \<Rightarrow> nat set"
    and get :: "'s \<Rightarrow> u32 \<times> 's"
    and put :: "u32 \<Rightarrow> 's \<Rightarrow> 's"
  assumes get_null: "fst (get s) = 0 \<Longrightarrow> free (snd (get s)) \<subseteq> free s"
    and get_frame: "get s = (a, s') \<Longrightarrow> a \<noteq> 0 \<Longrightarrow>
           \<exists>f \<in> free s. unat a = f * 4096 \<and> (\<forall>g \<in> free s. f \<le> g) \<and> free s' = free s - {f}"
    and put_frame: "free (put a s) = insert (unat a div 4096) (free s)"
begin

lemma get_shrinks: "free (snd (get s)) \<subseteq> free s"
  using get_null [of s] get_frame [of s "fst (get s)" "snd (get s)"] by auto

lemma get_gone: "get s = (a, s') \<Longrightarrow> a \<noteq> 0 \<Longrightarrow> unat a div 4096 \<notin> free s'"
  using get_frame [of s a s'] by auto

lemma get_get_distinct:
  "get s = (a, s1) \<Longrightarrow> a \<noteq> 0 \<Longrightarrow> get s1 = (b, s2) \<Longrightarrow> b \<noteq> 0 \<Longrightarrow> a \<noteq> b"
  using get_gone [of s a s1] get_frame [of s1 b s2] by auto

lemma get_put_free: "get s = (a, s') \<Longrightarrow> a \<noteq> 0 \<Longrightarrow> free (put a s') = free s"
  using get_frame [of s a s'] put_frame [of a s'] by auto

end

interpretation fs: frame_source free_frames allocFrame freeFrame
proof
  show "free_frames (snd (allocFrame p)) \<subseteq> free_frames p" if "fst (allocFrame p) = 0" for p
    by (auto simp: allocFrame_lowest)
  show "\<exists>f \<in> free_frames p. unat a = f * 4096 \<and> (\<forall>g \<in> free_frames p. f \<le> g) \<and>
      free_frames p' = free_frames p - {f}" if "allocFrame p = (a, p')" "a \<noteq> 0" for p a p'
  proof -
    define f where "f = Min (free_frames p)"
    from that have ne: "free_frames p \<noteq> {}" and a: "a = of_nat f * FRAME_SIZE" and p': "p' = mark_frame f p"
      by (auto simp: allocFrame_lowest f_def split: if_splits)
    have f: "f \<in> free_frames p" "\<forall>g \<in> free_frames p. f \<le> g" using Min_free [OF ne] by (auto simp: f_def)
    then have "unat a = f * 4096" unfolding a by (intro frame_addr) (simp add: free_frames_def)
    with f p' show ?thesis by auto
  qed
  show "free_frames (freeFrame a p) = insert (unat a div 4096) (free_frames p)" for a p
    by (simp add: unat_div)
qed

section \<open>Counting\<close>

lemma fold_count: "fold (\<lambda>b n. if P b then n + 1 else n) bs (n :: u32) = n + of_nat (length (filter P bs))"
  by (induction bs arbitrary: n) (auto simp: algebra_simps)

lemma fold_add: "fold (\<lambda>i n. n + of_nat (g i)) xs (n :: u32) = n + of_nat (sum_list (map g xs))"
  by (induction xs arbitrary: n) (auto simp: algebra_simps)

lemma card_by_bytes:
  "card {f. f < 8 * n \<and> P (f div 8) (f mod 8)} = sum_list (map (\<lambda>i. length (filter (P i) [0..<8])) [0..<n])"
proof (induction n)
  case 0
  then show ?case by simp
next
  case (Suc n)
  let ?A = "{f. f < 8 * n \<and> P (f div 8) (f mod 8)}" and ?B = "(\<lambda>b. 8 * n + b) ` {b. b < 8 \<and> P n b}"
  have "{f. f < 8 * Suc n \<and> P (f div 8) (f mod 8)} = ?A \<union> ?B"
  proof (rule set_eqI)
    fix f
    show "f \<in> {f. f < 8 * Suc n \<and> P (f div 8) (f mod 8)} \<longleftrightarrow> f \<in> ?A \<union> ?B"
    proof (cases "f < 8 * n")
      case True
      then show ?thesis by auto
    next
      case False
      then obtain r where "f = 8 * n + r" by (metis le_Suc_ex not_less)
      then have "f < 8 * Suc n \<Longrightarrow> f div 8 = n \<and> f mod 8 = f - 8 * n" by simp
      with False show ?thesis by (auto intro!: image_eqI [of f _ "f - 8 * n"])
    qed
  qed
  moreover have "card (?A \<union> ?B) = card ?A + card ?B" by (rule card_Un_disjoint) auto
  moreover have "card ?B = card {b. b < 8 \<and> P n b}" by (rule card_image) (auto simp: inj_on_def)
  moreover have "card {b. b < 8 \<and> P n b} = length (filter (P n) [0..<8])"
    using distinct_card [of "filter (P n) [0..<8]"] by (simp add: Collect_conj_eq [symmetric] conj_commute lessThan_def)
  ultimately show ?case using Suc.IH by simp
qed

lemma getFreeFrames_card: "getFreeFrames p = of_nat (card (free_frames p))"
  unfolding getFreeFrames_def free_frames_def card_by_bytes fold_count by (simp add: fold_add)

section \<open>Regions\<close>

definition covered_frames :: "nat \<Rightarrow> nat \<Rightarrow> nat set" where
  "covered_frames base len = {f. base \<le> 4096 * f \<and> 4096 * (f + 1) \<le> base + len}"

definition touched_frames :: "nat \<Rightarrow> nat \<Rightarrow> nat set" where
  "touched_frames base len = {f. 4096 * f < base + len \<and> base < 4096 * (f + 1)}"

lemma markRegionUsed_free:
  assumes "unat base + unat len \<le> 0xFFFFF000"
  shows "free_frames (markRegionUsed base len p) = free_frames p - touched_frames (unat base) (unat len)"
proof -
  have "unat (base + len + FRAME_SIZE - 1) = unat base + unat len + 4095"
    using assms unat_add_of_nat [of base "unat len"] unat_add_of_nat [of "base + len" 4095]
    by (simp add: add.commute)
  then have "unat (base div FRAME_SIZE) = unat base div 4096"
    "unat ((base + len + FRAME_SIZE - 1) div FRAME_SIZE) = (unat base + unat len + 4095) div 4096"
    by (simp_all only: unat_div) simp_all
  moreover have "set [unat base div 4096..<(unat base + unat len + 4095) div 4096] =
      touched_frames (unat base) (unat len)" by (auto simp: touched_frames_def)
  ultimately show ?thesis by (simp only: markRegionUsed_def Let_def fold_mark)
qed

lemma markRegionFree_free:
  assumes "unat base + unat len \<le> 0xFFFFFFFF" "unat base \<le> 0xFFFFF000"
  shows "free_frames (markRegionFree base len p) = free_frames p \<union> covered_frames (unat base) (unat len)"
proof -
  have "unat (base + FRAME_SIZE - 1) = unat base + 4095"
    using assms(2) unat_add_of_nat [of base 4095] by (simp add: add.commute)
  moreover have "unat (base + len) = unat base + unat len"
    using assms unat_add_of_nat [of base "unat len"] by simp
  ultimately have "unat ((base + FRAME_SIZE - 1) div FRAME_SIZE) = (unat base + 4095) div 4096"
    "unat ((base + len) div FRAME_SIZE) = (unat base + unat len) div 4096"
    by (simp_all only: unat_div) simp_all
  moreover have S: "set [(unat base + 4095) div 4096..<(unat base + unat len) div 4096] =
      covered_frames (unat base) (unat len)" by (auto simp: covered_frames_def)
  moreover have "\<forall>f \<in> set [(unat base + 4095) div 4096..<(unat base + unat len) div 4096].
      f < 8 * BITMAP_SIZE" using assms unfolding S by (auto simp: covered_frames_def BITMAP_SIZE_def)
  ultimately show ?thesis by (simp only: markRegionFree_def Let_def fold_clear)
qed

lemma free_pmm_ctor [simp]: "free_frames pmm_ctor = {}"
proof -
  have "bit (0xFF :: u8) b" if "b < 8" for b using byte_full_iff [of "0xFF"] that by blast
  then show ?thesis by (auto simp: free_frames_iff pmm_ctor_def)
qed

lemma free_totalFrames_upd [simp]: "free_frames (p\<lparr>totalFrames := t\<rparr>) = free_frames p"
  by (simp add: free_frames_iff set_eq_iff)

lemma markRegionUsed_total [simp]: "totalFrames (markRegionUsed base len p) = totalFrames p"
  by (simp add: markRegionUsed_def Let_def)

text \<open>A region that the walk handles without wrap-around, and the frames it makes available.\<close>

definition entry_fits :: "mmap_entry \<Rightarrow> bool" where
  "entry_fits e \<longleftrightarrow> unat (me_base_addr e) + unat (me_length e) \<le> 0xFFFFFFFF \<and>
     unat (me_base_addr e) \<le> 0xFFFFF000"

definition entry_frames :: "mmap_entry \<Rightarrow> nat set" where
  "entry_frames e = (if me_type e = MULTIBOOT_MMAP_AVAILABLE
     then covered_frames (unat (me_base_addr e)) (unat (me_length e)) else {})"

lemma unat_ucast_low: "unat (x :: u64) < 2 ^ 32 \<Longrightarrow> unat (ucast x :: u32) = unat x"
  by (simp add: unsigned_ucast_eq take_bit_eq_mod)

lemma free_entry_free:
  assumes "entry_fits e"
  shows "free_frames (free_entry e p) = free_frames p \<union> entry_frames e"
proof -
  from assms have fits: "unat (me_base_addr e) + unat (me_length e) \<le> 0xFFFFFFFF"
    "unat (me_base_addr e) \<le> 0xFFFFF000" by (metis entry_fits_def)+
  have "unat (me_base_addr e + me_length e) = unat (me_base_addr e) + unat (me_length e)"
    using fits by (simp add: unat_word_ariths)
  then have "\<not> me_base_addr e + me_length e > 0xFFFFFFFF" using fits by (simp add: word_less_nat_alt)
  moreover have "unat (ucast (me_base_addr e) :: u32) = unat (me_base_addr e)"
    "unat (ucast (me_length e) :: u32) = unat (me_length e)"
    using fits by (auto intro!: unat_ucast_low)
  ultimately show ?thesis
    using fits markRegionFree_free [of "ucast (me_base_addr e)" "ucast (me_length e)" p]
    by (simp add: free_entry_def entry_frames_def Let_def)
qed

lemma free_entries_free:
  "\<forall>e \<in> set es. entry_fits e \<Longrightarrow>
     free_frames (fold free_entry es p) = free_frames p \<union> (\<Union>e \<in> set es. entry_frames e)"
  by (induction es arbitrary: p) (auto simp: free_entry_free)

lemma touched_first_frame: "touched_frames 0 4096 = {0}"
  by (auto simp: touched_frames_def)

section \<open>Properties\<close>

text \<open>
  C5. \<^verbatim>\<open>allocFrame\<close> hands out the lowest free frame, marks exactly that frame used, and
  returns null without changing anything only when no frame is free.
\<close>

theorem allocFrame_takes_lowest:
  "if free_frames p = {} then allocFrame p = (0, p)
   else (\<exists>f \<in> free_frames p. (\<forall>g \<in> free_frames p. f \<le> g) \<and> unat (fst (allocFrame p)) = f * 4096 \<and>
     free_frames (snd (allocFrame p)) = free_frames p - {f} \<and>
     totalFrames (snd (allocFrame p)) = totalFrames p)"
proof (cases "free_frames p = {}")
  case False
  let ?f = "Min (free_frames p)"
  from Min_free [OF False] have "unat (of_nat ?f * FRAME_SIZE) = ?f * 4096"
    by (intro frame_addr) (simp add: free_frames_def)
  with Min_free [OF False] False show ?thesis
    by (simp add: allocFrame_lowest)
qed (simp add: allocFrame_lowest)

text \<open>
  A frame that \<^verbatim>\<open>allocFrame\<close> returns was free before and is in use after, is page
  aligned, and freeing it restores the bitmap bit for bit.
\<close>

theorem alloc_free_frame_roundtrip:
  assumes "allocFrame p = (a, p')" "a \<noteq> 0"
  shows "\<not> isFrameUsed a p \<and> isFrameUsed a p' \<and> unat a mod 4096 = 0 \<and> freeFrame a p' = p"
proof -
  define f where "f = Min (free_frames p)"
  from assms have ne: "free_frames p \<noteq> {}" and a: "a = of_nat f * FRAME_SIZE" and p': "p' = mark_frame f p"
    by (auto simp: allocFrame_lowest f_def split: if_splits)
  have f: "f \<in> free_frames p" using Min_free [OF ne] by (simp add: f_def)
  then have lt: "f < 8 * BITMAP_SIZE" by (simp add: free_frames_def)
  with f show ?thesis
    by (simp add: isFrameUsed_iff a p' frame_number frame_addr freeFrame_def clear_mark_frame)
qed

text \<open>
  The counters agree with the set of free frames: \<^verbatim>\<open>getFreeFrames\<close> counts it, so an
  allocation lowers it by one and freeing a used frame raises it by one.
\<close>

theorem free_count_correct:
  "unat (getFreeFrames p) = card (free_frames p) \<and>
   (isFrameUsed a p \<longrightarrow> unat (getFreeFrames (freeFrame a p)) = unat (getFreeFrames p) + 1) \<and>
   (fst (allocFrame p) \<noteq> 0 \<longrightarrow> unat (getFreeFrames (snd (allocFrame p))) + 1 = unat (getFreeFrames p))"
proof -
  have n: "unat (getFreeFrames q) = card (free_frames q)" for q
  proof -
    have "card (free_frames q) \<le> card {..<8 * BITMAP_SIZE}"
      by (rule card_mono) (auto simp: free_frames_def)
    then show ?thesis by (simp add: getFreeFrames_card BITMAP_SIZE_def)
  qed
  have "card (free_frames (snd (allocFrame p))) + 1 = card (free_frames p)" if "fst (allocFrame p) \<noteq> 0"
  proof -
    have "free_frames p \<noteq> {}" using that by (auto simp: allocFrame_lowest)
    from Min_free [OF this] this card_gt_0_iff [of "free_frames p"] show ?thesis
      by (simp add: allocFrame_lowest card_Diff_singleton)
  qed
  then show ?thesis by (auto simp: n isFrameUsed_iff)
qed


section \<open>Witnesses\<close>

text \<open>A memory map with one available region, from 1 MiB to 2 MiB.\<close>

definition demo_mb :: bmem where
  "demo_mb = (\<lambda>_. 0)(0x1000 := 64, 0x102C := 24, 0x1031 := 0x20,
     0x2000 := 20, 0x2006 := 0x10, 0x200E := 0x10, 0x2014 := 1)"

definition demo_entry :: mmap_entry where
  "demo_entry = \<lparr>me_size = 20, me_base_addr = 0x100000, me_length = 0x100000, me_type = 1\<rparr>"

lemma demo_mb_entries: "mmap_entries demo_mb 0xC0002000 0xC0002018 = Some [demo_entry]"
  by (simp add: mmap_entries.simps read_mmap_entry_def kload_def kload64_def load32_def demo_mb_def
      demo_entry_def Let_def push_bit_of_1)


definition demo_pmm :: phys_mgr where
  "demo_pmm = \<lparr>bitmap = (\<lambda>_. 0xFF)(1 := 0xF7), totalFrames = 1\<rparr>"

lemma demo_pmm_alloc: "allocFrame demo_pmm = (0xB000, mark_frame 11 demo_pmm)"
  by (simp add: allocFrame_def alloc_bytes.simps [of 0] alloc_bytes.simps [of 1] BITMAP_SIZE_def demo_pmm_def upt_rec
      bit_clear_def mark_frame_def push_bit_of_1)

theorem allocFrame_takes_lowest_witness:
  "\<exists>f \<in> free_frames demo_pmm. unat (fst (allocFrame demo_pmm)) = f * 4096"
proof -
  have "11 \<in> free_frames demo_pmm"
    by (simp add: free_frames_def demo_pmm_def bit_clear_def BITMAP_SIZE_def push_bit_of_1)
  then show ?thesis using allocFrame_takes_lowest [of demo_pmm] by (auto split: if_splits)
qed

theorem alloc_free_frame_roundtrip_witness:
  "\<not> isFrameUsed 0xB000 demo_pmm \<and> freeFrame 0xB000 (mark_frame 11 demo_pmm) = demo_pmm"
  using alloc_free_frame_roundtrip [OF demo_pmm_alloc] by simp

theorem free_count_correct_witness:
  "unat (getFreeFrames (freeFrame 0xA000 demo_pmm)) = unat (getFreeFrames demo_pmm) + 1"
proof -
  have "isFrameUsed 0xA000 demo_pmm"
    by (simp add: isFrameUsed_def demo_pmm_def bit_clear_def BITMAP_SIZE_def push_bit_of_1)
  then show ?thesis using free_count_correct [where p = demo_pmm and a = "0xA000"] by blast
qed

text \<open>
  A region above 4 GiB is truncated to 32 bits instead of being skipped: the frames below it
  become free although the map does not call them available.
\<close>

definition high_entry :: mmap_entry where
  "high_entry = \<lparr>me_size = 20, me_base_addr = 0x100000000, me_length = 0x100000, me_type = 1\<rparr>"

theorem pmm_frees_low_memory_for_high_region: "1 \<in> free_frames (free_entry high_entry pmm_ctor)"
proof -
  have z: "(0x100000000 :: u32) = 0" by (rule word_uint_eqI) simp
  have "free_entry high_entry pmm_ctor = markRegionFree 0 0xFFFFFFFF pmm_ctor"
    by (simp add: free_entry_def high_entry_def MULTIBOOT_MMAP_AVAILABLE_def z)
  moreover have "1 \<in> covered_frames 0 0xFFFFFFFF" by (simp add: covered_frames_def)
  ultimately show ?thesis using markRegionFree_free [of 0 "0xFFFFFFFF" pmm_ctor] by simp
qed

declare push_bit_of_1 [simp]

end
