(* ===== verification/Paging.thy ===== *)
theory Paging
  imports Physical
begin

text \<open>
  Two-level i386 paging, kernel/src/memory/paging.cpp.  Page directories and page tables
  live in byte-addressed physical memory and are read and written as 32-bit words there,
  through the direct map (\<^verbatim>\<open>P + KERNEL_VBASE\<close> reaches the physical address \<open>P\<close>).
  \<open>translate\<close> is the walk the processor performs with a given directory; the properties
  state what each operation does to it.
\<close>

unbundle bit_operations_syntax

section \<open>State\<close>

record machine =
  pmem :: bmem
  pmm :: phys_mgr
  kdir :: addr

abbreviation (input) PAGE_PRESENT :: u32 where "PAGE_PRESENT \<equiv> 1"
abbreviation (input) PAGE_READWRITE :: u32 where "PAGE_READWRITE \<equiv> 2"
abbreviation (input) PAGE_USER :: u32 where "PAGE_USER \<equiv> 4"
abbreviation (input) FRAME_MASK :: u32 where "FRAME_MASK \<equiv> 0xFFFFF000"

definition pd_index :: "addr \<Rightarrow> u32" where
  "pd_index va = drop_bit 22 va"

definition pt_index :: "addr \<Rightarrow> u32" where
  "pt_index va = drop_bit 12 va AND 0x3FF"

text \<open>Element \<open>i\<close> of the \<^verbatim>\<open>u32\<close> array at physical address \<open>a\<close>.\<close>

definition entry :: "bmem \<Rightarrow> addr \<Rightarrow> u32 \<Rightarrow> u32" where
  "entry m a i = load32 m (a + 4 * i)"

definition set_entry :: "addr \<Rightarrow> u32 \<Rightarrow> u32 \<Rightarrow> bmem \<Rightarrow> bmem" where
  "set_entry a i w m = store32 m (a + 4 * i) w"

section \<open>Operations\<close>

text \<open>\<open>Inl\<close> is the early return when no frame is left for a page table.\<close>

definition ensure_kernel_table :: "u32 \<Rightarrow> machine \<Rightarrow> machine + machine" where
  "ensure_kernel_table pdIndex s =
     (if entry (pmem s) (kdir s) pdIndex AND PAGE_PRESENT = 0
      then (let (frame, pmm') = allocFrame (pmm s) in
            if frame = 0 then Inl (s\<lparr>pmm := pmm'\<rparr>)
            else Inr (s\<lparr>pmm := pmm',
                        pmem := set_entry (kdir s) pdIndex (frame OR PAGE_PRESENT OR PAGE_READWRITE)
                                  (mem_set (pmem s) frame 0 4096)\<rparr>))
      else Inr s)"

definition write_pte :: "addr \<Rightarrow> u32 \<Rightarrow> u32 \<Rightarrow> u32 \<Rightarrow> machine \<Rightarrow> machine" where
  "write_pte pd pdIndex ptIndex w s =
     s\<lparr>pmem := set_entry (entry (pmem s) pd pdIndex AND FRAME_MASK) ptIndex w (pmem s)\<rparr>"

definition pte_value :: "addr \<Rightarrow> u16 \<Rightarrow> u32" where
  "pte_value physicalAddr flags = (physicalAddr AND FRAME_MASK) OR ucast (flags AND 0xFFF)"

definition mapPage :: "addr \<Rightarrow> addr \<Rightarrow> u16 \<Rightarrow> machine \<Rightarrow> machine" where
  "mapPage virtualAddr physicalAddr flags s =
     (case ensure_kernel_table (pd_index virtualAddr) s of
        Inl s1 \<Rightarrow> s1
      | Inr s1 \<Rightarrow> write_pte (kdir s1) (pd_index virtualAddr) (pt_index virtualAddr)
                    (pte_value physicalAddr flags) s1)"

definition unmapPage :: "addr \<Rightarrow> machine \<Rightarrow> machine" where
  "unmapPage virtualAddr s =
     (if entry (pmem s) (kdir s) (pd_index virtualAddr) AND PAGE_PRESENT = 0 then s
      else write_pte (kdir s) (pd_index virtualAddr) (pt_index virtualAddr) 0 s)"

definition createAddressSpace :: "machine \<Rightarrow> addr \<times> machine" where
  "createAddressSpace s =
     (let (frame, pmm') = allocFrame (pmm s) in
      if frame = 0 then (0, s\<lparr>pmm := pmm'\<rparr>)
      else (let m1 = mem_set (pmem s) frame 0 (768 * 4);
                m2 = mem_copy m1 (frame + 4 * 768) (kdir s + 4 * 768) (256 * 4)
            in (frame, s\<lparr>pmm := pmm', pmem := m2\<rparr>)))"

text \<open>The loop of \<^verbatim>\<open>mapUserPage\<close> that clears the new page table word by word.\<close>

definition clear_table :: "addr \<Rightarrow> bmem \<Rightarrow> bmem" where
  "clear_table a m = fold (\<lambda>i. set_entry a (of_nat i) 0) [0..<1024] m"

definition ensure_user_table :: "addr \<Rightarrow> u32 \<Rightarrow> machine \<Rightarrow> machine + machine" where
  "ensure_user_table pd pdIndex s =
     (if entry (pmem s) pd pdIndex AND PAGE_PRESENT = 0
      then (let (ptFrame, pmm') = allocFrame (pmm s) in
            if ptFrame = 0 then Inl (s\<lparr>pmm := pmm'\<rparr>)
            else Inr (s\<lparr>pmm := pmm',
                        pmem := set_entry pd pdIndex
                                  (ptFrame OR PAGE_PRESENT OR PAGE_READWRITE OR PAGE_USER)
                                  (clear_table ptFrame (pmem s))\<rparr>))
      else Inr s)"

definition mapUserPage :: "addr \<Rightarrow> addr \<Rightarrow> addr \<Rightarrow> u16 \<Rightarrow> machine \<Rightarrow> machine" where
  "mapUserPage pdPhysical virtualAddr physicalAddr flags s =
     (case ensure_user_table pdPhysical (pd_index virtualAddr) s of
        Inl s1 \<Rightarrow> s1
      | Inr s1 \<Rightarrow> write_pte pdPhysical (pd_index virtualAddr) (pt_index virtualAddr)
                    (pte_value physicalAddr flags) s1)"

definition free_pte :: "bmem \<Rightarrow> addr \<Rightarrow> nat \<Rightarrow> phys_mgr \<Rightarrow> phys_mgr" where
  "free_pte m pageTable j p =
     (let pte = entry m pageTable (of_nat j); frame = pte AND FRAME_MASK in
      if pte AND PAGE_PRESENT \<noteq> 0 \<and> frame \<ge> 0x100000 then freeFrame frame p else p)"

definition free_pde :: "bmem \<Rightarrow> addr \<Rightarrow> nat \<Rightarrow> phys_mgr \<Rightarrow> phys_mgr" where
  "free_pde m pd i p =
     (let pde = entry m pd (of_nat i); ptPhysical = pde AND FRAME_MASK in
      if pde AND PAGE_PRESENT = 0 then p
      else freeFrame ptPhysical (fold (free_pte m ptPhysical) [0..<1024] p))"

definition destroyAddressSpace :: "addr \<Rightarrow> machine \<Rightarrow> machine" where
  "destroyAddressSpace pdPhysical s =
     s\<lparr>pmm := freeFrame pdPhysical (fold (free_pde (pmem s) pdPhysical) [0..<768] (pmm s))\<rparr>"

text \<open>
  \<^verbatim>\<open>init\<close>: the direct map of every available region, then of the VGA memory.  The map is
  walked in the memory that the page tables are written to.
\<close>

definition map_direct :: "addr \<Rightarrow> addr \<Rightarrow> machine \<Rightarrow> machine" where
  "map_direct base end s =
     fold (\<lambda>k. mapPage (base + of_nat (4096 * k) + KERNEL_VBASE) (base + of_nat (4096 * k)) 3)
       [0..<(unat end - unat base + 4095) div 4096] s"

definition map_entry :: "mmap_entry \<Rightarrow> machine \<Rightarrow> machine" where
  "map_entry e s =
     (if me_type e = MULTIBOOT_MMAP_AVAILABLE
      then (let base = ucast (me_base_addr e) AND FRAME_MASK;
                end0 = (if me_base_addr e + me_length e > 0xFFFFFFFF then 0xFFFFF000
                        else ucast (me_base_addr e + me_length e));
                end1 = (end0 + FRAME_SIZE - 1) AND FRAME_MASK
            in map_direct base end1 s)
      else s)"

partial_function (option) map_entries :: "addr \<Rightarrow> addr \<Rightarrow> machine \<Rightarrow> machine option" where
  "map_entries mmapAddr mmapEnd s =
     (if mmapAddr < mmapEnd
      then (let s1 = map_entry (read_mmap_entry (pmem s) mmapAddr) s
            in map_entries (mmapAddr + (me_size (read_mmap_entry (pmem s1) mmapAddr) + 4)) mmapEnd s1)
      else Some s)"

definition paging_init :: "addr \<Rightarrow> machine \<Rightarrow> machine option" where
  "paging_init mbi s =
     (if kload (pmem s) mbi AND MULTIBOOT_FLAG_MMAP = 0 then Some s
      else (let mmapAddr = kload (pmem s) (mbi + 48) + KERNEL_VBASE;
                mmapEnd = mmapAddr + kload (pmem s) (mbi + 44)
            in map_option (map_direct 0xB8000 0xC0000) (map_entries mmapAddr mmapEnd s)))"

section \<open>The walk of the processor\<close>

text \<open>
  What an access through directory \<open>pd\<close> reaches: the physical address, and whether the page
  is open to user mode and to writes (both levels must allow it).
\<close>

definition pte_of :: "bmem \<Rightarrow> addr \<Rightarrow> addr \<Rightarrow> (u32 \<times> u32) option" where
  "pte_of m pd va =
     (let pde = entry m pd (pd_index va) in
      if pde AND PAGE_PRESENT = 0 then None
      else (let pte = entry m (pde AND FRAME_MASK) (pt_index va) in
            if pte AND PAGE_PRESENT = 0 then None else Some (pde, pte)))"

definition translate :: "bmem \<Rightarrow> addr \<Rightarrow> addr \<Rightarrow> addr option" where
  "translate m pd va =
     map_option (\<lambda>(pde, pte). (pte AND FRAME_MASK) OR (va AND 0xFFF)) (pte_of m pd va)"

definition user_access :: "bmem \<Rightarrow> addr \<Rightarrow> addr \<Rightarrow> bool" where
  "user_access m pd va =
     (case pte_of m pd va of None \<Rightarrow> False | Some (pde, pte) \<Rightarrow> pde AND pte AND PAGE_USER \<noteq> 0)"

section \<open>Arrays in frames\<close>

definition aligned :: "addr \<Rightarrow> bool" where
  "aligned a \<longleftrightarrow> unat a mod 4096 = 0"

lemma alignedE:
  assumes "aligned a"
  obtains q where "unat a = 4096 * q" "q < 0x100000"
proof
  show a: "unat a = 4096 * (unat a div 4096)" using mult_div_mod_eq [of 4096 "unat a"] assms unfolding aligned_def by simp
  show "unat a div 4096 < 0x100000" using unat_lt_2p32 [of a] by simp
qed

lemma aligned_off:
  assumes "aligned a" "k < 4096"
  shows "unat (a + of_nat k) = unat a + k"
proof -
  obtain q where "unat a = 4096 * q" "q < 0x100000" using alignedE [OF assms(1)] .
  then have "unat a + k < 2 ^ 32" using assms(2) by simp
  then show ?thesis by (rule unat_add_of_nat)
qed

lemma aligned_div: "aligned a \<Longrightarrow> k < 4096 \<Longrightarrow> unat (a + of_nat k) div 4096 = unat a div 4096"
  using aligned_off [of a k] by (auto elim!: alignedE)

lemma aligned_off_eq:
  assumes "aligned a" "aligned b" "j < 4096" "k < 4096"
  shows "a + of_nat j = b + of_nat k \<longleftrightarrow> a = b \<and> j = k"
proof
  assume "a + of_nat j = b + of_nat k"
  then have eq: "unat a + j = unat b + k" using aligned_off assms by metis
  obtain q where q: "unat a = 4096 * q" using alignedE [OF assms(1)] .
  obtain r where r: "unat b = 4096 * r" using alignedE [OF assms(2)] .
  have "q = (4096 * q + j) div 4096" "r = (4096 * r + k) div 4096" using assms(3,4) by simp_all
  then have "q = r" using eq q r by simp
  moreover from this have "j = k" using eq q r by simp
  ultimately show "a = b \<and> j = k" using q r by (simp add: word_unat_eq_iff)
qed simp

lemma idx_off: "unat i < 1024 \<Longrightarrow> a + 4 * i = a + of_nat (4 * unat i)"
  by (metis of_nat_mult of_nat_numeral of_nat_unat ucast_id)

lemma entry_bytes:
  assumes "\<And>k. k < 4 \<Longrightarrow> m' (a + of_nat (4 * unat i + k)) = m (b + of_nat (4 * unat j + k))"
  shows "entry m' a i = entry m b j"
proof -
  have e: "c + of_nat (4 * unat x + k) = c + 4 * x + of_nat k" for c x :: addr and k by simp
  show ?thesis
    using assms [of 0] assms [of 1] assms [of 2] assms [of 3]
    unfolding entry_def load32_def e by simp
qed

lemma entry_set_same [simp]: "entry (set_entry a i w m) a i = w"
  by (simp add: entry_def set_entry_def load32_store32)

lemma store32_off: "aligned a \<Longrightarrow> unat i < 1024 \<Longrightarrow> aligned b \<Longrightarrow> k < 4096 \<Longrightarrow>
    b \<noteq> a \<or> k div 4 \<noteq> unat i \<Longrightarrow> set_entry a i w m (b + of_nat k) = m (b + of_nat k)"
proof -
  assume a: "aligned a" "unat i < 1024" "aligned b" "k < 4096" "b \<noteq> a \<or> k div 4 \<noteq> unat i"
  have "b + of_nat k \<noteq> a + 4 * i + of_nat n" if "n < 4" for n
  proof -
    have "4 * unat i + n < 4096" "b \<noteq> a \<or> k \<noteq> 4 * unat i + n" using a(2,5) that by auto
    then have "b + of_nat k \<noteq> a + of_nat (4 * unat i + n)" using aligned_off_eq [OF a(3,1) a(4)] by metis
    then show ?thesis by (simp add: add.assoc)
  qed
  from this [of 0] this [of 1] this [of 2] this [of 3] show ?thesis
    by (simp add: set_entry_def store32_other)
qed

lemma entry_set_other:
  assumes "aligned a" "aligned b" "unat i < 1024" "unat j < 1024" "a \<noteq> b \<or> i \<noteq> j"
  shows "entry (set_entry a i w m) b j = entry m b j"
proof (rule entry_bytes)
  fix k :: nat
  assume "k < 4"
  moreover have "unat i \<noteq> unat j \<or> a \<noteq> b" using assms(5) by (metis word_unat_eq_iff)
  ultimately show "set_entry a i w m (b + of_nat (4 * unat j + k)) = m (b + of_nat (4 * unat j + k))"
    using assms by (intro store32_off) auto
qed

lemma mem_set_zero_byte: "mem_set m a 0 n x = (if unat (x - a) < unat n then 0 else m x)"
  by (simp add: mem_set_spec store_bytes_def)

lemma off_diff: "aligned a \<Longrightarrow> aligned b \<Longrightarrow> k < 4096 \<Longrightarrow> unat ((b + of_nat k) - a) < 4096 \<longleftrightarrow> a = b"
proof
  assume a: "aligned a" "aligned b" "k < 4096" and "unat ((b + of_nat k) - a) < 4096"
  then obtain j where "unat ((b + of_nat k) - a) = j" "j < 4096" by blast
  then have "b + of_nat k = a + of_nat j" using unat_diff_eq_iff [of j "b + of_nat k" a] by simp
  then show "a = b" using aligned_off_eq [OF a(2,1) a(3) \<open>j < 4096\<close>] by simp
qed simp

lemma entry_zero: "(\<And>k. k < 4 \<Longrightarrow> m (a + of_nat (4 * unat i + k)) = 0) \<Longrightarrow> entry m a i = 0"
proof -
  assume "\<And>k. k < 4 \<Longrightarrow> m (a + of_nat (4 * unat i + k)) = 0"
  then have "entry m a i = entry (\<lambda>_. 0) 0 0"
    using entry_bytes [of m a i "\<lambda>_. 0" 0 0] by simp
  then show "entry m a i = 0" by (simp only: entry_def load32_def) simp
qed

lemma entry_mem_set:
  assumes "aligned a" "aligned b" "unat j < 1024"
  shows "entry (mem_set m a 0 4096) b j = (if a = b then 0 else entry m b j)"
proof (cases "a = b")
  case True
  have "mem_set m a 0 4096 (b + of_nat (4 * unat j + k)) = 0" if "k < 4" for k
    using that assms(3) off_diff [of a b "4 * unat j + k"] assms True by (simp add: mem_set_zero_byte)
  with True show ?thesis by (simp add: entry_zero)
next
  case False
  have "mem_set m a 0 4096 (b + of_nat (4 * unat j + k)) = m (b + of_nat (4 * unat j + k))" if "k < 4" for k
    using that assms(3) off_diff [of a b "4 * unat j + k"] assms(1,2) False
    by (simp add: mem_set_zero_byte del: of_nat_add of_nat_mult)
  then have "entry (mem_set m a 0 4096) b j = entry m b j" by (rule entry_bytes)
  with False show ?thesis by simp
qed

lemma unat_idx [simp]: "i < 1024 \<Longrightarrow> unat (of_nat i :: u32) = i"
  by simp

lemma entry_clear_table:
  assumes "aligned a" "aligned b" "unat j < 1024"
  shows "entry (clear_table a m) b j = (if a = b then 0 else entry m b j)"
proof -
  have "n \<le> 1024 \<Longrightarrow> entry (fold (\<lambda>i. set_entry a (of_nat i) 0) [0..<n] m) b j =
      (if a = b \<and> unat j < n then 0 else entry m b j)" for n
  proof (induction n)
    case (Suc n)
    have "unat j = n \<longleftrightarrow> j = of_nat n" using Suc.prems by (metis of_nat_unat ucast_id unat_idx Suc_le_lessD)
    with Suc assms show ?case
      by (cases "a = b \<and> j = of_nat n") (auto simp: entry_set_other less_Suc_eq)
  qed simp
  from this [of 1024] assms(3) show ?thesis by (simp add: clear_table_def)
qed

subsection \<open>Entry bits\<close>

lemma FRAME_MASK_eq: "FRAME_MASK = NOT (mask 12)"
  by (simp add: mask_eq_exp_minus_1)

lemma aligned_masked [simp]: "aligned (x AND FRAME_MASK)"
  unfolding FRAME_MASK_eq aligned_def by (simp del: mask_numeral add: unat_and_not_mask)

lemma aligned_mask_id: "aligned a \<Longrightarrow> a AND FRAME_MASK = a"
  unfolding FRAME_MASK_eq
  by (rule iffD2 [OF word_unat_eq_iff]) (auto simp del: mask_numeral simp: unat_and_not_mask elim!: alignedE)

lemma pde_frame: "aligned a \<Longrightarrow> f AND FRAME_MASK = 0 \<Longrightarrow> (a OR f) AND FRAME_MASK = a"
  by (simp add: word_ao_dist aligned_mask_id)

lemma low_flags: "(ucast ((fl :: u16) AND 0xFFF) :: u32) AND FRAME_MASK = 0"
proof -
  have "(0xFFF :: u16) = mask 12" by (simp add: mask_eq_exp_minus_1)
  then show ?thesis unfolding FRAME_MASK_eq
    by (simp del: mask_numeral) (auto simp: bit_eq_iff bit_simps simp del: mask_numeral)
qed

lemma page_frame: "((pa AND FRAME_MASK) OR ucast ((fl :: u16) AND 0xFFF)) AND FRAME_MASK = pa AND FRAME_MASK"
  by (rule pde_frame) (simp_all only: aligned_masked low_flags)

section \<open>Address spaces\<close>

definition present :: "bmem \<Rightarrow> addr \<Rightarrow> u32 \<Rightarrow> bool" where
  "present m d i \<longleftrightarrow> entry m d i AND PAGE_PRESENT \<noteq> 0"

definition table :: "bmem \<Rightarrow> addr \<Rightarrow> u32 \<Rightarrow> addr" where
  "table m d i = entry m d i AND FRAME_MASK"

definition frame_no :: "addr \<Rightarrow> nat" where
  "frame_no a = unat a div 4096"

text \<open>
  The page tables in use: those of the user half (directory entries below 768) of every
  live directory and all those of the kernel directory, whose upper half the live
  directories share.
\<close>

definition tables_of :: "machine \<Rightarrow> addr set \<Rightarrow> (addr \<times> u32) set" where
  "tables_of s D = {(d, i). present (pmem s) d i \<and> (d \<in> D \<and> i < 768 \<or> d = kdir s \<and> i < 1024)}"

definition space_inv :: "machine \<Rightarrow> addr set \<Rightarrow> bool" where
  "space_inv s D \<longleftrightarrow> kdir s \<notin> D \<and>
     (\<forall>d \<in> insert (kdir s) D. aligned d \<and> frame_no d \<notin> free_frames (pmm s)) \<and>
     (\<forall>d \<in> D. \<forall>i. 768 \<le> i \<and> i < 1024 \<longrightarrow> entry (pmem s) d i = entry (pmem s) (kdir s) i) \<and>
     (\<forall>(d, i) \<in> tables_of s D. table (pmem s) d i \<notin> insert (kdir s) D \<and>
        frame_no (table (pmem s) d i) \<notin> free_frames (pmm s)) \<and>
     inj_on (\<lambda>(d, i). table (pmem s) d i) (tables_of s D)"

lemma pte_of_alt:
  "pte_of m d x =
     (if present m d (pd_index x) \<and> entry m (table m d (pd_index x)) (pt_index x) AND PAGE_PRESENT \<noteq> 0
      then Some (entry m d (pd_index x), entry m (table m d (pd_index x)) (pt_index x)) else None)"
  by (simp add: pte_of_def present_def table_def Let_def)

lemma pd_index_lt: "pd_index x < 1024"
  using unat_lt_2p32 [of x] by (simp add: pd_index_def word_less_nat_alt drop_bit_eq_div unat_div)

lemma pt_index_lt: "pt_index x < 1024"
proof -
  have "(0x3FF :: u32) = mask 10" by (simp add: mask_eq_exp_minus_1)
  then have "pt_index x = take_bit 10 (drop_bit 12 x)" by (simp add: pt_index_def take_bit_eq_mask del: mask_numeral)
  then have "unat (pt_index x) = (unat x div 2 ^ 12) mod 2 ^ 10"
    by (simp add: unsigned_take_bit_eq unat_drop_bit_eq) (simp add: drop_bit_eq_div take_bit_eq_mod)
  then show ?thesis by (simp add: word_less_nat_alt)
qed

lemma idx_nat: "i < (1024 :: u32) \<Longrightarrow> unat i < 1024"
  by (simp add: word_less_nat_alt)

lemma aligned_table [simp]: "aligned (table m d i)"
  by (simp only: table_def aligned_masked)

lemma frame_no_inj: "aligned a \<Longrightarrow> aligned b \<Longrightarrow> frame_no a = frame_no b \<longleftrightarrow> a = b"
  unfolding frame_no_def word_unat_eq_iff by (auto elim!: alignedE)

lemma space_invD:
  assumes "space_inv s D"
  shows "kdir s \<notin> D" "d \<in> insert (kdir s) D \<Longrightarrow> aligned d"
    "d \<in> insert (kdir s) D \<Longrightarrow> frame_no d \<notin> free_frames (pmm s)"
    "d \<in> D \<Longrightarrow> 768 \<le> i \<Longrightarrow> i < 1024 \<Longrightarrow> entry (pmem s) d i = entry (pmem s) (kdir s) i"
    "(d, i) \<in> tables_of s D \<Longrightarrow> table (pmem s) d i \<notin> insert (kdir s) D"
    "(d, i) \<in> tables_of s D \<Longrightarrow> frame_no (table (pmem s) d i) \<notin> free_frames (pmm s)"
    "(d, i) \<in> tables_of s D \<Longrightarrow> (d', j) \<in> tables_of s D \<Longrightarrow>
       table (pmem s) d i = table (pmem s) d' j \<Longrightarrow> d = d' \<and> i = j"
  using assms unfolding space_inv_def inj_on_def by (blast, blast, blast, blast, blast, blast, fastforce)

text \<open>The tables a walk through \<open>d\<close> uses, named by the directory that owns them.\<close>

definition owner :: "machine \<Rightarrow> addr \<Rightarrow> u32 \<Rightarrow> addr" where
  "owner s d i = (if i < 768 then d else kdir s)"

lemma owner_entry:
  "space_inv s D \<Longrightarrow> d \<in> insert (kdir s) D \<Longrightarrow> i < 1024 \<Longrightarrow>
     entry (pmem s) (owner s d i) i = entry (pmem s) d i"
  using space_invD(4) [of s D d i] by (auto simp: owner_def not_less)

lemma owner_table:
  assumes "space_inv s D" "d \<in> insert (kdir s) D" "i < 1024" "present (pmem s) d i"
  shows "(owner s d i, i) \<in> tables_of s D \<and> table (pmem s) (owner s d i) i = table (pmem s) d i"
  using assms owner_entry [OF assms(1-3)] by (auto simp: tables_of_def present_def table_def owner_def)

lemma table_notin_dirs:
  assumes "space_inv s D" "d \<in> insert (kdir s) D" "i < 1024" "present (pmem s) d i"
  shows "table (pmem s) d i \<notin> insert (kdir s) D" "frame_no (table (pmem s) d i) \<notin> free_frames (pmm s)"
  using owner_table [OF assms] space_invD(5,6) [OF assms(1)] by metis+

text \<open>A fresh frame becomes an empty page table at an absent entry of the user half.\<close>

lemma fresh_table:
  assumes inv: "space_inv s D" and d: "d \<in> D" "i < 768" and np: "\<not> present (pmem s) d i"
    and F: "aligned F" "frame_no F \<in> free_frames (pmm s)" and f: "f AND FRAME_MASK = 0" "f AND PAGE_PRESENT \<noteq> 0"
    and free: "free_frames q = free_frames (pmm s) - {frame_no F}"
    and m: "\<And>b j. aligned b \<Longrightarrow> j < 1024 \<Longrightarrow> entry m b j =
        (if b = d \<and> j = i then F OR f else if b = F then 0 else entry (pmem s) b j)"
    and s1: "s1 = s\<lparr>pmm := q, pmem := m\<rparr>"
  shows "space_inv s1 D" and "(d, i) \<in> tables_of s1 D"
    and "d' \<in> insert (kdir s) D \<Longrightarrow> pte_of m d' x = pte_of (pmem s) d' x"
proof -
  have i: "i < 1024" using d(2) by (simp add: word_less_nat_alt)
  have Fd: "F \<notin> insert (kdir s) D" using space_invD(3) [OF inv, of F] F(2) by blast
  have ent: "entry m b j = (if b = d \<and> j = i then F OR f else entry (pmem s) b j)"
    if "b \<in> insert (kdir s) D" "j < 1024" for b j
    using m [OF space_invD(2) [OF inv that(1)] that(2)] that Fd by auto
  have di: "present m d i" "table m d i = F"
    using ent [of d i] d i f pde_frame [OF F(1) f(1)] by (auto simp: present_def table_def word_ao_dist)
  have same: "present m b j = present (pmem s) b j" "table m b j = table (pmem s) b j"
    if "b \<in> insert (kdir s) D" "j < 1024" "(b, j) \<noteq> (d, i)" for b j
    using ent [OF that(1,2)] that(3) by (auto simp: present_def table_def)
  have kd: "kdir s1 = kdir s" "pmem s1 = m" "pmm s1 = q" by (simp_all add: s1)
  have tabs: "tables_of s1 D = insert (d, i) (tables_of s D)"
  proof (rule set_eqI, clarify)
    fix b j
    show "(b, j) \<in> tables_of s1 D \<longleftrightarrow> (b, j) \<in> insert (d, i) (tables_of s D)"
    proof (cases "(b, j) = (d, i)")
      case True
      then show ?thesis using di d by (simp add: tables_of_def kd)
    next
      case False
      have "b \<in> insert (kdir s) D \<and> j < 1024" if "b \<in> D \<and> j < 768 \<or> b = kdir s \<and> j < 1024"
        using that by (auto simp: word_less_nat_alt)
      with False same(1) [of b j] show ?thesis by (auto simp: tables_of_def kd)
    qed
  qed
  show "(d, i) \<in> tables_of s1 D" by (simp add: tabs)
  have rng: "b \<in> insert (kdir s) D" "j < 1024" if "(b, j) \<in> tables_of s D" for b j
    using that by (auto simp: tables_of_def word_less_nat_alt)
  have notdi: "(d, i) \<notin> tables_of s D" using np by (simp add: tables_of_def)
  have old: "table m b j = table (pmem s) b j" "table (pmem s) b j \<noteq> F" if "(b, j) \<in> tables_of s D" for b j
    using same(2) [OF rng [OF that]] notdi that space_invD(6) [OF inv that] F(2) by (auto simp del: aligned_table)
  show "space_inv s1 D"
    unfolding space_inv_def kd tabs
  proof (intro conjI)
    show "kdir s \<notin> D" using space_invD(1) [OF inv] .
    show "\<forall>d \<in> insert (kdir s) D. aligned d \<and> frame_no d \<notin> free_frames q"
      using space_invD(2,3) [OF inv] free by blast
    show "\<forall>b \<in> D. \<forall>j. 768 \<le> j \<and> j < 1024 \<longrightarrow> entry m b j = entry m (kdir s) j"
    proof (intro ballI allI impI)
      fix b j
      assume b: "b \<in> D" and j: "768 \<le> j \<and> j < (1024 :: u32)"
      then have "j \<noteq> i" using d(2) by auto
      then show "entry m b j = entry m (kdir s) j"
        using ent [of b j] ent [of "kdir s" j] b j space_invD(4) [OF inv b] by simp
    qed
    show "\<forall>(b, j) \<in> insert (d, i) (tables_of s D). table m b j \<notin> insert (kdir s) D \<and>
        frame_no (table m b j) \<notin> free_frames q"
    proof (rule ballI, clarify)
      fix b j
      assume "(b, j) \<in> insert (d, i) (tables_of s D)"
      then consider "b = d" "j = i" | "(b, j) \<in> tables_of s D" by blast
      then show "table m b j \<notin> insert (kdir s) D \<and> frame_no (table m b j) \<notin> free_frames q"
        by cases (use di(2) Fd free in simp, use old(1) space_invD(5,6) [OF inv] free in auto)
    qed
    show "inj_on (\<lambda>(b, j). table m b j) (insert (d, i) (tables_of s D))"
    proof (rule inj_onI, clarify)
      fix b j b' j'
      assume "(b, j) \<in> insert (d, i) (tables_of s D)" "(b', j') \<in> insert (d, i) (tables_of s D)"
        and eq: "table m b j = table m b' j'"
      then show "b = b' \<and> j = j'"
        using di(2) old space_invD(7) [OF inv, of b j b' j'] by (metis insert_iff prod.inject)
    qed
  qed
  show "pte_of m d' x = pte_of (pmem s) d' x" if d': "d' \<in> insert (kdir s) D"
  proof (cases "(d', pd_index x) = (d, i)")
    case True
    then have "entry m (table m d' (pd_index x)) (pt_index x) = 0"
      using m [OF F(1) pt_index_lt, of x] di(2) Fd d(1) by auto
    with True np show ?thesis by (simp add: pte_of_alt)
  next
    case False
    note sm = same [OF d' pd_index_lt False]
    have "entry m (table (pmem s) d' (pd_index x)) (pt_index x) =
        entry (pmem s) (table (pmem s) d' (pd_index x)) (pt_index x)"
      if "present (pmem s) d' (pd_index x)"
    proof -
      note t = table_notin_dirs [OF inv d' pd_index_lt that]
      then have "table (pmem s) d' (pd_index x) \<noteq> F" "table (pmem s) d' (pd_index x) \<noteq> d"
        using F(2) d(1) by auto
      then show ?thesis using m [OF aligned_table pt_index_lt, of "pmem s" d' "pd_index x" x] by simp
    qed
    then show ?thesis using sm ent [OF d' pd_index_lt, of x] False by (auto simp: pte_of_alt)
  qed
qed

lemma write_pte_frames [simp]: "pmm (write_pte d i j w s) = pmm s" "kdir (write_pte d i j w s) = kdir s"
  by (simp_all add: write_pte_def)

lemma write_pte_entry:
  assumes "aligned b" "k < 1024" "j < 1024"
  shows "entry (pmem (write_pte d i j w s)) b k =
    (if b = table (pmem s) d i \<and> k = j then w else entry (pmem s) b k)"
proof (cases "b = table (pmem s) d i \<and> k = j")
  case True
  then show ?thesis by (simp add: write_pte_def table_def)
next
  case False
  then have "entry (set_entry (table (pmem s) d i) j w (pmem s)) b k = entry (pmem s) b k"
    using assms by (intro entry_set_other) (auto simp: word_less_nat_alt)
  with False show ?thesis by (auto simp: write_pte_def table_def)
qed

lemma write_pte_dir:
  assumes "space_inv s D" "d \<in> insert (kdir s) D" "i < 1024" "present (pmem s) d i" "j < 1024"
    and "b \<in> insert (kdir s) D" "k < 1024"
  shows "entry (pmem (write_pte d i j w s)) b k = entry (pmem s) b k"
  using write_pte_entry [OF space_invD(2) [OF assms(1,6)] assms(7,5)] table_notin_dirs [OF assms(1-4)] assms(6)
  by auto

lemma write_pte_inv:
  assumes "space_inv s D" "d \<in> insert (kdir s) D" "i < 1024" "present (pmem s) d i" "j < 1024"
  shows "space_inv (write_pte d i j w s) D"
proof -
  let ?s = "write_pte d i j w s"
  note dir = write_pte_dir [OF assms]
  have same: "present (pmem ?s) b k = present (pmem s) b k" "table (pmem ?s) b k = table (pmem s) b k"
    if "b \<in> insert (kdir s) D" "k < 1024" for b k
    using dir [OF that] by (simp_all add: present_def table_def)
  have rng: "b \<in> insert (kdir s) D \<and> k < 1024" if "b \<in> D \<and> k < 768 \<or> b = kdir s \<and> k < 1024" for b and k :: u32
    using that by (auto simp: word_less_nat_alt)
  have tabs: "tables_of ?s D = tables_of s D"
    using same(1) rng by (auto simp: tables_of_def)
  have tab: "table (pmem ?s) b k = table (pmem s) b k" if "(b, k) \<in> tables_of s D" for b k
    using same(2) rng [of b k] that by (auto simp: tables_of_def)
  show ?thesis
    unfolding space_inv_def tabs write_pte_frames
  proof (intro conjI)
    show "kdir s \<notin> D" by (rule space_invD(1) [OF assms(1)])
    show "\<forall>d \<in> insert (kdir s) D. aligned d \<and> frame_no d \<notin> free_frames (pmm s)"
      using space_invD(2,3) [OF assms(1)] by blast
    show "\<forall>d \<in> D. \<forall>k. 768 \<le> k \<and> k < 1024 \<longrightarrow> entry (pmem ?s) d k = entry (pmem ?s) (kdir s) k"
      using dir space_invD(4) [OF assms(1)] by simp
    show "\<forall>(d, k) \<in> tables_of s D. table (pmem ?s) d k \<notin> insert (kdir s) D \<and>
        frame_no (table (pmem ?s) d k) \<notin> free_frames (pmm s)"
      using tab space_invD(5,6) [OF assms(1)] by auto
    show "inj_on (\<lambda>(d, k). table (pmem ?s) d k) (tables_of s D)"
      using space_invD(7) [OF assms(1)] tab by (auto simp: inj_on_def)
  qed
qed

lemma write_pte_walk:
  assumes inv: "space_inv s D" and d: "d \<in> insert (kdir s) D" "i < 1024" "present (pmem s) d i"
    and j: "j < 1024" and d': "d' \<in> insert (kdir s) D"
  shows "pte_of (pmem (write_pte d i j w s)) d' x =
    (if owner s d' i = owner s d i \<and> pd_index x = i \<and> pt_index x = j
     then (if w AND PAGE_PRESENT = 0 then None else Some (entry (pmem s) d i, w))
     else pte_of (pmem s) d' x)"
proof -
  let ?i = "pd_index x" and ?j = "pt_index x"
  note dir = write_pte_dir [OF inv d j d' pd_index_lt, of w x]
  then have same: "present (pmem (write_pte d i j w s)) d' ?i = present (pmem s) d' ?i"
    "table (pmem (write_pte d i j w s)) d' ?i = table (pmem s) d' ?i"
    by (simp_all add: present_def table_def)
  note e = write_pte_entry [OF aligned_table pt_index_lt j, of d i w s "pmem s" d' ?i x]
  show ?thesis
  proof (cases "owner s d' i = owner s d i \<and> ?i = i")
    case True
    then have ed: "entry (pmem s) d' i = entry (pmem s) d i"
      using owner_entry [OF inv d(1,2)] owner_entry [OF inv d' d(2)] by metis
    then have "present (pmem s) d' i" "table (pmem s) d' i = table (pmem s) d i"
      using d(3) by (simp_all add: present_def table_def)
    then show ?thesis using True same e dir ed by (auto simp: pte_of_alt)
  next
    case False
    have "table (pmem s) d' ?i \<noteq> table (pmem s) d i" if p: "present (pmem s) d' ?i"
    proof
      assume eq: "table (pmem s) d' ?i = table (pmem s) d i"
      note o = owner_table [OF inv d] owner_table [OF inv d' pd_index_lt p]
      with eq have "owner s d' ?i = owner s d i \<and> ?i = i"
        using space_invD(7) [OF inv] by metis
      with False show False by (metis owner_def)
    qed
    then show ?thesis using False same e dir by (auto simp: pte_of_alt)
  qed
qed

lemma pte_value_frame: "pte_value pa fl AND FRAME_MASK = pa AND FRAME_MASK"
  unfolding pte_value_def by (rule page_frame)

lemma alloc_aligned:
  assumes "allocFrame p = (F, q)" "F \<noteq> 0"
  shows "aligned F" "frame_no F \<in> free_frames p" "free_frames q = free_frames p - {frame_no F}"
  using fs.get_frame [OF assms] by (auto simp: aligned_def frame_no_def)

lemma ensure_user_table_ok:
  assumes inv: "space_inv s D" and d: "d \<in> D" "i < 768" and e: "ensure_user_table d i s = Inr s1"
  shows "space_inv s1 D \<and> (d, i) \<in> tables_of s1 D \<and> kdir s1 = kdir s \<and>
    free_frames (pmm s1) \<subseteq> free_frames (pmm s) \<and>
    (\<forall>d' \<in> insert (kdir s) D. \<forall>x. pte_of (pmem s1) d' x = pte_of (pmem s) d' x)"
proof (cases "present (pmem s) d i")
  case True
  with e have "s1 = s" by (simp add: ensure_user_table_def present_def)
  with True inv d show ?thesis by (simp add: tables_of_def)
next
  case False
  obtain F q where al: "allocFrame (pmm s) = (F, q)" by (cases "allocFrame (pmm s)")
  define m where "m = set_entry d i (F OR 1 OR 2 OR 4) (clear_table F (pmem s))"
  have F0: "F \<noteq> 0" and s1: "s1 = s\<lparr>pmm := q, pmem := m\<rparr>"
    using e False al by (auto simp: ensure_user_table_def present_def m_def split: if_splits)
  note F = alloc_aligned [OF al F0]
  have ad: "aligned d" using space_invD(2) [OF inv] d(1) by blast
  have "F \<noteq> d" using space_invD(3) [OF inv, of d] d(1) F(2) by auto
  then have ent: "entry m b j = (if b = d \<and> j = i then F OR 7 else if b = F then 0 else entry (pmem s) b j)"
    if "aligned b" "j < 1024" for b j
    using that ad F(1) d(2) entry_set_other [of d b i j "F OR 7" "clear_table F (pmem s)"]
    by (auto simp: m_def or.assoc word_less_nat_alt entry_clear_table)
  have "(7 :: u32) AND FRAME_MASK = 0" "(7 :: u32) AND PAGE_PRESENT \<noteq> 0" by simp_all
  note fresh_table [OF inv d False F(1,2) this F(3) ent s1]
  then show ?thesis using F(3) by (auto simp: s1)
qed

lemma ensure_user_table_room:
  "present (pmem s) d i \<or> fst (allocFrame (pmm s)) \<noteq> 0 \<Longrightarrow> \<exists>s1. ensure_user_table d i s = Inr s1"
  by (cases "allocFrame (pmm s)") (simp add: ensure_user_table_def present_def)

text \<open>Two addresses are on the same page when they agree above the offset.\<close>

lemma same_page: "pd_index x = pd_index y \<and> pt_index x = pt_index y \<longleftrightarrow> x AND FRAME_MASK = y AND FRAME_MASK"
proof -
  have i: "unat (pd_index x) = unat x div 4096 div 1024" "unat (pt_index x) = unat x div 4096 mod 1024" for x
  proof -
    show "unat (pd_index x) = unat x div 4096 div 1024"
      by (simp add: pd_index_def drop_bit_eq_div unat_div div_mult2_eq [symmetric])
    have "(0x3FF :: u32) = mask 10" by (simp add: mask_eq_exp_minus_1)
    then have "pt_index x = take_bit 10 (drop_bit 12 x)"
      by (simp add: pt_index_def take_bit_eq_mask del: mask_numeral)
    then show "unat (pt_index x) = unat x div 4096 mod 1024"
      by (simp add: unsigned_take_bit_eq unat_drop_bit_eq) (simp add: drop_bit_eq_div take_bit_eq_mod)
  qed
  have m: "unat (x AND FRAME_MASK) = 4096 * (unat x div 4096)" for x :: addr
    unfolding FRAME_MASK_eq by (simp del: mask_numeral add: unat_and_not_mask)
  have "unat x div 4096 = unat y div 4096 \<longleftrightarrow>
      unat x div 4096 div 1024 = unat y div 4096 div 1024 \<and> unat x div 4096 mod 1024 = unat y div 4096 mod 1024"
    by (metis div_mult_mod_eq)
  then show ?thesis by (simp add: word_unat_eq_iff i m)
qed

lemma user_index: "unat va < 0xC0000000 \<longleftrightarrow> pd_index va < 768"
  by (simp add: pd_index_def drop_bit_eq_div unat_div word_less_nat_alt div_less_iff_less_mult)

lemma mapUserPage_maps:
  assumes inv: "space_inv s D" and d: "d \<in> D" and va: "unat va < 0xC0000000"
    and room: "present (pmem s) d (pd_index va) \<or> fst (allocFrame (pmm s)) \<noteq> 0"
    and fl: "fl AND 1 \<noteq> 0"
  shows "space_inv (mapUserPage d va pa fl s) D \<and>
    (\<forall>x. x AND FRAME_MASK = va AND FRAME_MASK \<longrightarrow>
       translate (pmem (mapUserPage d va pa fl s)) d x = Some ((pa AND FRAME_MASK) OR (x AND 0xFFF))) \<and>
    (\<forall>d' \<in> insert (kdir s) D. \<forall>x. d' \<noteq> d \<or> x AND FRAME_MASK \<noteq> va AND FRAME_MASK \<longrightarrow>
       pte_of (pmem (mapUserPage d va pa fl s)) d' x = pte_of (pmem s) d' x)"
proof -
  let ?i = "pd_index va" and ?j = "pt_index va"
  have i: "?i < 768" using va user_index by blast
  obtain s1 where s1: "ensure_user_table d ?i s = Inr s1"
    using ensure_user_table_room [OF room] by blast
  from ensure_user_table_ok [OF inv d i s1] have inv1: "space_inv s1 D" and t: "(d, ?i) \<in> tables_of s1 D"
    and k: "kdir s1 = kdir s" and w: "\<And>d' x. d' \<in> insert (kdir s) D \<Longrightarrow> pte_of (pmem s1) d' x = pte_of (pmem s) d' x"
    by blast+
  have d1: "d \<in> insert (kdir s1) D" using d by blast
  have p: "present (pmem s1) d ?i" using t by (simp add: tables_of_def)
  have eq: "mapUserPage d va pa fl s = write_pte d ?i ?j (pte_value pa fl) s1"
    by (simp add: mapUserPage_def s1)
  note W = write_pte_walk [OF inv1 d1 pd_index_lt p pt_index_lt [of va], where w = "pte_value pa fl"]
  have pp: "pte_value pa fl AND PAGE_PRESENT \<noteq> 0"
  proof -
    have "bit fl 0" using fl by (simp only: and_1_bit)
    then have "bit (pte_value pa fl) 0" by (simp add: pte_value_def bit_simps)
    then show ?thesis by (simp only: and_1_bit)
  qed
  have "translate (pmem (mapUserPage d va pa fl s)) d x = Some ((pa AND FRAME_MASK) OR (x AND 0xFFF))"
    if "x AND FRAME_MASK = va AND FRAME_MASK" for x
    using W [OF d1, where x = x] pp same_page [of x va] that
    by (simp add: eq translate_def pte_value_frame)
  moreover have "pte_of (pmem (mapUserPage d va pa fl s)) d' x = pte_of (pmem s) d' x"
    if d': "d' \<in> insert (kdir s) D" and ne: "d' \<noteq> d \<or> x AND FRAME_MASK \<noteq> va AND FRAME_MASK" for d' x
  proof -
    have "\<not> (owner s1 d' ?i = owner s1 d ?i \<and> pd_index x = ?i \<and> pt_index x = ?j)"
      using ne same_page [of x va] i by (auto simp: owner_def)
    then show ?thesis using W [of d' x] d' k w [OF d', of x] by (simp only: eq if_False)
  qed
  ultimately show ?thesis
    using write_pte_inv [OF inv1 d1 pd_index_lt p pt_index_lt] by (simp add: eq)
qed

section \<open>Frames outside the paging structures\<close>

text \<open>
  A frame in use that is neither a directory nor a page table: user data, kernel memory.
  No operation on the address spaces writes to it.
\<close>

definition outside :: "machine \<Rightarrow> addr set \<Rightarrow> nat \<Rightarrow> bool" where
  "outside s D f \<longleftrightarrow> f \<notin> free_frames (pmm s) \<and> f \<notin> frame_no ` insert (kdir s) D \<and>
     (\<forall>(d, i) \<in> tables_of s D. f \<noteq> frame_no (table (pmem s) d i))"

lemma aligned_frame_of: "\<exists>b k. x = b + of_nat k \<and> aligned b \<and> k < 4096 \<and> frame_no x = frame_no b"
proof (intro exI conjI)
  let ?b = "x AND FRAME_MASK" and ?k = "unat x mod 4096"
  have u: "unat ?b = 4096 * (unat x div 4096)"
    unfolding FRAME_MASK_eq by (simp del: mask_numeral add: unat_and_not_mask)
  show al: "aligned ?b" by (rule aligned_masked)
  show k: "?k < 4096" by simp
  have "unat (?b + of_nat ?k) = unat x" using aligned_off [OF al k] u by simp
  then show "x = ?b + of_nat ?k" by (simp only: word_unat_eq_iff)
  show "frame_no x = frame_no ?b" by (simp add: frame_no_def u)
qed

lemma set_entry_outside:
  assumes "aligned a" "i < 1024" "frame_no x \<noteq> frame_no a"
  shows "set_entry a i w m x = m x"
proof -
  obtain b k where x: "x = b + of_nat k" "aligned b" "k < 4096" "frame_no x = frame_no b"
    using aligned_frame_of by blast
  then have "b \<noteq> a" using assms(3) by metis
  then show ?thesis using store32_off [OF assms(1) idx_nat [OF assms(2)] x(2,3)] x(1) by blast
qed

lemma clear_table_outside:
  assumes "aligned a" "frame_no x \<noteq> frame_no a"
  shows "clear_table a m x = m x"
proof -
  have "n \<le> 1024 \<Longrightarrow> fold (\<lambda>i. set_entry a (of_nat i) 0) [0..<n] m x = m x" for n
  proof (induction n)
    case (Suc n)
    then have "(of_nat n :: u32) < 1024" by (simp add: word_less_nat_alt)
    with Suc assms show ?case by (simp add: set_entry_outside)
  qed simp
  then show ?thesis by (simp add: clear_table_def)
qed

lemma write_pte_outside:
  assumes "outside s D f" "(d, i) \<in> tables_of s D" "frame_no x = f" "j < 1024"
  shows "pmem (write_pte d i j w s) x = pmem s x"
proof -
  have "frame_no x \<noteq> frame_no (table (pmem s) d i)" using assms(1-3) unfolding outside_def by blast
  then show ?thesis using set_entry_outside [OF aligned_table assms(4)] by (simp add: write_pte_def table_def)
qed

lemma write_pte_tables:
  assumes "space_inv s D" "d \<in> insert (kdir s) D" "i < 1024" "present (pmem s) d i" "j < 1024"
  shows "tables_of (write_pte d i j w s) D = tables_of s D"
    and "(b, k) \<in> tables_of s D \<Longrightarrow> table (pmem (write_pte d i j w s)) b k = table (pmem s) b k"
proof -
  have same: "entry (pmem (write_pte d i j w s)) b k = entry (pmem s) b k"
    if "b \<in> D \<and> k < 768 \<or> b = kdir s \<and> k < 1024" for b k
    using that by (intro write_pte_dir [OF assms]) (auto simp: word_less_nat_alt)
  then show "tables_of (write_pte d i j w s) D = tables_of s D" by (auto simp: tables_of_def present_def)
  show "table (pmem (write_pte d i j w s)) b k = table (pmem s) b k" if "(b, k) \<in> tables_of s D"
    using same [of b k] that by (simp add: tables_of_def table_def)
qed

lemma ensure_user_table_outside:
  assumes inv: "space_inv s D" and d: "d \<in> D" "i < 768" and e: "ensure_user_table d i s = Inr s1"
    and out: "outside s D f"
  shows "outside s1 D f \<and> (\<forall>x. frame_no x = f \<longrightarrow> pmem s1 x = pmem s x)"
proof (cases "present (pmem s) d i")
  case True
  with e have "s1 = s" by (simp add: ensure_user_table_def present_def)
  with out show ?thesis by simp
next
  case False
  obtain F q where al: "allocFrame (pmm s) = (F, q)" by (cases "allocFrame (pmm s)")
  define m where "m = set_entry d i (F OR 1 OR 2 OR 4) (clear_table F (pmem s))"
  have F0: "F \<noteq> 0" and s1: "s1 = s\<lparr>pmm := q, pmem := m\<rparr>"
    using e False al by (auto simp: ensure_user_table_def present_def m_def split: if_splits)
  note F = alloc_aligned [OF al F0]
  have ad: "aligned d" using space_invD(2) [OF inv] d(1) by blast
  have i: "i < 1024" using d(2) by (simp add: word_less_nat_alt)
  have nF: "f \<noteq> frame_no F" and nd: "f \<noteq> frame_no d" using out F(2) d(1) unfolding outside_def by blast+
  have mem: "pmem s1 x = pmem s x" if "frame_no x = f" for x
    using that nF nd set_entry_outside [OF ad i] clear_table_outside [OF F(1)] by (simp add: s1 m_def)
  have Fd: "F \<notin> insert (kdir s) D" using space_invD(3) [OF inv, of F] F(2) by blast
  have ent: "entry m b j = entry (pmem s) b j" if "b \<in> insert (kdir s) D" "j < 1024" "(b, j) \<noteq> (d, i)" for b j
  proof -
    have b: "aligned b" using space_invD(2) [OF inv that(1)] .
    have "b \<noteq> F" using that(1) Fd by auto
    then show ?thesis
      using entry_set_other [OF ad b idx_nat [OF i] idx_nat [OF that(2)]] that(3)
        entry_clear_table [OF F(1) b idx_nat [OF that(2)]] by (auto simp: m_def)
  qed
  have "f \<noteq> frame_no (table m b j)" if t: "(b, j) \<in> tables_of s1 D" for b j
  proof (cases "(b, j) = (d, i)")
    case True
    have "(7 :: u32) AND FRAME_MASK = 0" by simp
    then have "table m d i = F" using pde_frame [OF F(1), of 7] by (simp add: table_def m_def or.assoc)
    then show ?thesis using True nF by simp
  next
    case False
    have "b \<in> insert (kdir s) D" "j < 1024" using t by (auto simp: tables_of_def s1 word_less_nat_alt)
    with ent [OF this False] t out show ?thesis
      by (auto simp: outside_def tables_of_def present_def table_def s1)
  qed
  then show ?thesis using mem out F(3) by (auto simp: outside_def s1)
qed

lemma mapUserPage_outside:
  assumes inv: "space_inv s D" and d: "d \<in> D" and va: "unat va < 0xC0000000" and out: "outside s D f"
  shows "outside (mapUserPage d va pa fl s) D f \<and>
    (\<forall>x. frame_no x = f \<longrightarrow> pmem (mapUserPage d va pa fl s) x = pmem s x)"
proof -
  let ?i = "pd_index va"
  have i: "?i < 768" using va user_index by blast
  show ?thesis
  proof (cases "ensure_user_table d ?i s")
    case (Inl s1)
    then obtain F q where "allocFrame (pmm s) = (F, q)" "F = 0" and s1: "s1 = s\<lparr>pmm := q\<rparr>"
      by (auto simp: ensure_user_table_def split: if_splits prod.splits)
    then have "free_frames q \<subseteq> free_frames (pmm s)" using fs.get_null [of "pmm s"] by simp
    then have "outside s1 D f" using out by (auto simp: outside_def s1 tables_of_def)
    then show ?thesis using Inl s1 by (simp add: mapUserPage_def)
  next
    case (Inr s1)
    from ensure_user_table_ok [OF inv d i Inr] have inv1: "space_inv s1 D" and t: "(d, ?i) \<in> tables_of s1 D"
      and k: "kdir s1 = kdir s" by blast+
    from ensure_user_table_outside [OF inv d i Inr out] have o1: "outside s1 D f"
      and m1: "\<And>x. frame_no x = f \<Longrightarrow> pmem s1 x = pmem s x" by blast+
    have d1: "d \<in> insert (kdir s1) D" and p: "present (pmem s1) d ?i" using d t by (auto simp: tables_of_def)
    let ?s = "write_pte d ?i (pt_index va) (pte_value pa fl) s1"
    have "outside ?s D f"
      using o1 write_pte_tables [OF inv1 d1 pd_index_lt p pt_index_lt] by (auto simp: outside_def)
    moreover have "pmem ?s x = pmem s x" if "frame_no x = f" for x
      using write_pte_outside [OF o1 t that pt_index_lt] m1 [OF that] by simp
    ultimately show ?thesis by (simp add: mapUserPage_def Inr)
  qed
qed

text \<open>Allocating a frame for data: it is outside, and so is everything that was outside before.\<close>

lemma alloc_data_frame:
  assumes inv: "space_inv s D" and al: "allocFrame (pmm s) = (F, q)" "F \<noteq> 0"
  shows "space_inv (s\<lparr>pmm := q\<rparr>) D" "outside (s\<lparr>pmm := q\<rparr>) D (frame_no F)"
    "outside s D f \<Longrightarrow> outside (s\<lparr>pmm := q\<rparr>) D f \<and> f \<noteq> frame_no F"
proof -
  note F = alloc_aligned [OF al]
  have t: "tables_of (s\<lparr>pmm := q\<rparr>) D = tables_of s D" by (simp add: tables_of_def)
  show "space_inv (s\<lparr>pmm := q\<rparr>) D" using inv F(3) by (auto simp: space_inv_def t)
  show "outside (s\<lparr>pmm := q\<rparr>) D (frame_no F)"
    using F(2,3) space_invD(3,6) [OF inv] by (auto simp: outside_def t)
  show "outside (s\<lparr>pmm := q\<rparr>) D f \<and> f \<noteq> frame_no F" if "outside s D f"
    using that F(2,3) by (auto simp: outside_def t)
qed

text \<open>Writing to frames outside the paging structures changes no translation.\<close>

lemma data_write:
  assumes inv: "space_inv s D" and out: "outside s D f"
    and m: "\<And>x. frame_no x \<noteq> f \<Longrightarrow> m x = pmem s x"
  shows "space_inv (s\<lparr>pmem := m\<rparr>) D" "outside s D g \<Longrightarrow> outside (s\<lparr>pmem := m\<rparr>) D g"
    "d \<in> insert (kdir s) D \<Longrightarrow> pte_of m d x = pte_of (pmem s) d x"
proof -
  have ent: "entry m b j = entry (pmem s) b j" if "aligned b" "frame_no b \<noteq> f" "j < 1024" for b j
  proof (rule entry_bytes)
    fix k :: nat
    assume "k < 4"
    then have "4 * unat j + k < 4096" using idx_nat [OF that(3)] by simp
    then have "frame_no (b + of_nat (4 * unat j + k)) = frame_no b"
      unfolding frame_no_def by (rule aligned_div [OF that(1)])
    then show "m (b + of_nat (4 * unat j + k)) = pmem s (b + of_nat (4 * unat j + k))" using m that(2) by metis
  qed
  have dir: "entry m b j = entry (pmem s) b j" if "b \<in> insert (kdir s) D" "j < 1024" for b j
    by (rule ent [OF space_invD(2) [OF inv that(1)] _ that(2)]) (use out that(1) in \<open>auto simp: outside_def\<close>)
  have tab: "entry m (table (pmem s) b i) j = entry (pmem s) (table (pmem s) b i) j"
    if "b \<in> insert (kdir s) D" "i < 1024" "present (pmem s) b i" "j < 1024" for b i j
  proof (rule ent [OF aligned_table _ that(4)])
    show "frame_no (table (pmem s) b i) \<noteq> f"
      using owner_table [OF inv that(1-3)] out unfolding outside_def by (metis (mono_tags, lifting) case_prodD)
  qed
  have same: "present m b j = present (pmem s) b j" "table m b j = table (pmem s) b j"
    if "b \<in> insert (kdir s) D" "j < 1024" for b j
    using dir [OF that] by (simp_all add: present_def table_def)
  show "pte_of m d x = pte_of (pmem s) d x" if "d \<in> insert (kdir s) D"
    using same [OF that pd_index_lt [of x]] dir [OF that pd_index_lt [of x]]
      tab [OF that pd_index_lt [of x] _ pt_index_lt [of x]]
    by (cases "present (pmem s) d (pd_index x)") (simp_all add: pte_of_alt)
  have rng: "b \<in> insert (kdir s) D \<and> k < 1024" if "b \<in> D \<and> k < 768 \<or> b = kdir s \<and> k < 1024" for b and k :: u32
    using that by (auto simp: word_less_nat_alt)
  have tabs: "tables_of (s\<lparr>pmem := m\<rparr>) D = tables_of s D"
    using same(1) rng by (auto simp: tables_of_def)
  have t: "table m b k = table (pmem s) b k" if "(b, k) \<in> tables_of s D" for b k
    using same(2) rng [of b k] that by (auto simp: tables_of_def)
  show "outside (s\<lparr>pmem := m\<rparr>) D g" if "outside s D g"
    using that t by (auto simp: outside_def tabs)
  show "space_inv (s\<lparr>pmem := m\<rparr>) D"
    unfolding space_inv_def tabs
  proof (intro conjI)
    show "kdir (s\<lparr>pmem := m\<rparr>) \<notin> D" using space_invD(1) [OF inv] by simp
    show "\<forall>d \<in> insert (kdir (s\<lparr>pmem := m\<rparr>)) D. aligned d \<and> frame_no d \<notin> free_frames (pmm (s\<lparr>pmem := m\<rparr>))"
      using space_invD(2,3) [OF inv] by simp
    show "\<forall>d \<in> D. \<forall>k. 768 \<le> k \<and> k < 1024 \<longrightarrow>
        entry (pmem (s\<lparr>pmem := m\<rparr>)) d k = entry (pmem (s\<lparr>pmem := m\<rparr>)) (kdir (s\<lparr>pmem := m\<rparr>)) k"
      using dir space_invD(4) [OF inv] by simp
    show "\<forall>(d, k) \<in> tables_of s D. table (pmem (s\<lparr>pmem := m\<rparr>)) d k \<notin> insert (kdir (s\<lparr>pmem := m\<rparr>)) D \<and>
        frame_no (table (pmem (s\<lparr>pmem := m\<rparr>)) d k) \<notin> free_frames (pmm (s\<lparr>pmem := m\<rparr>))"
      using t space_invD(5,6) [OF inv] by auto
    show "inj_on (\<lambda>(d, k). table (pmem (s\<lparr>pmem := m\<rparr>)) d k) (tables_of s D)"
      using space_invD(7) [OF inv] t by (auto simp: inj_on_def)
  qed
qed

section \<open>Properties\<close>


lemma store_in_frame:
  assumes "aligned F" "aligned b" "k < 4096" "off + length bs \<le> 4096"
  shows "store_bytes m (F + of_nat off) bs (b + of_nat k) =
    (if b = F \<and> off \<le> k \<and> k < off + length bs then bs ! (k - off) else m (b + of_nat k))"
proof (cases "unat ((b + of_nat k) - (F + of_nat off)) < length bs")
  case True
  define j where "j = unat ((b + of_nat k) - (F + of_nat off))"
  have j: "j < length bs" using True by (simp only: j_def)
  then have "b + of_nat k = F + of_nat off + of_nat j"
    using unat_diff_eq_iff [of j] assms(4) j_def by simp
  then have "b + of_nat k = F + of_nat (off + j)" by (simp add: add.assoc)
  then have "b = F \<and> k = off + j" using aligned_off_eq [OF assms(2,1,3), of "off + j"] assms(4) j by simp
  moreover have "unat (of_nat j :: u32) = j" using j assms(4) by simp
  ultimately show ?thesis using j by (simp add: store_bytes_def)
next
  case False
  have "\<not> (b = F \<and> off \<le> k \<and> k < off + length bs)"
  proof
    assume a: "b = F \<and> off \<le> k \<and> k < off + length bs"
    then have "of_nat k = of_nat off + (of_nat (k - off) :: u32)" by (metis le_add_diff_inverse of_nat_add)
    with a have "(b + of_nat k) - (F + of_nat off) = (of_nat (k - off) :: u32)" by simp
    moreover have "unat (of_nat (k - off) :: u32) = k - off"
      by (rule unat_of_nat_small) (use assms(3) in simp)
    ultimately have "unat ((b + of_nat k) - (F + of_nat off)) = k - off" by metis
    moreover have "k - off < length bs" using a by auto
    ultimately show False using False by simp
  qed
  with False show ?thesis by (simp only: store_bytes_def if_False)
qed

lemma load_frame_nth: "i < n \<Longrightarrow> load_bytes m (a + of_nat off) n ! i = m (a + of_nat (off + i))"
  by (simp add: add.assoc)

lemma createAddressSpace_entries:
  assumes al: "allocFrame (pmm s) = (F, q)" "F \<noteq> 0" and K: "aligned (kdir s)" "kdir s \<noteq> F"
    and b: "aligned b" "j < 1024"
  shows "entry (pmem (snd (createAddressSpace s))) b j =
    (if b = F then (if j < 768 then 0 else entry (pmem s) (kdir s) j) else entry (pmem s) b j)"
proof -
  note F = alloc_aligned [OF al]
  define m1 where "m1 = mem_set (pmem s) F 0 3072"
  define m2 where "m2 = mem_copy m1 (F + of_nat 3072) (kdir s + of_nat 3072) 1024"
  have m: "pmem (snd (createAddressSpace s)) = m2"
    using al by (simp add: createAddressSpace_def m1_def m2_def)
  have m1: "m1 (c + of_nat k) = (if c = F \<and> k < 3072 then 0 else pmem s (c + of_nat k))"
    if "aligned c" "k < 4096" for c k
    using store_in_frame [OF F(1) that, of 0 "replicate 3072 0"] by (simp add: m1_def mem_set_spec)
  have "fwd_safe (F + of_nat 3072) (kdir s + of_nat 3072) (unat (1024 :: u32))"
    unfolding fwd_safe_def
  proof (intro conjI allI impI)
    fix i j :: nat
    assume "i < j" "j < unat (1024 :: u32)"
    then have "F + of_nat (3072 + i) \<noteq> kdir s + of_nat (3072 + j)"
      using aligned_off_eq [OF F(1) K(1)] by simp
    then show "F + of_nat 3072 + of_nat i \<noteq> kdir s + of_nat 3072 + of_nat j" by (simp add: add.assoc)
  qed simp
  then have m2: "m2 (c + of_nat k) = (if c = F \<and> 3072 \<le> k then m1 (kdir s + of_nat k) else m1 (c + of_nat k))"
    if "aligned c" "k < 4096" for c k
    using store_in_frame [OF F(1) that, of 3072 "load_bytes m1 (kdir s + of_nat 3072) (unat (1024 :: u32))"] that
    by (simp add: m2_def mem_copy_spec load_frame_nth del: of_nat_numeral)
  have j: "unat j < 1024" using b(2) by (rule idx_nat)
  consider "b = F" "j < 768" | "b = F" "\<not> j < 768" | "b \<noteq> F" by blast
  then show ?thesis
  proof cases
    case 1
    then have "unat j < 768" by (simp add: word_less_nat_alt)
    then have "entry m2 b j = 0"
      by (intro entry_zero) (use m1 m2 [OF b(1)] b(1) 1 in \<open>simp del: of_nat_add of_nat_mult\<close>)
    with 1 show ?thesis by (simp add: m)
  next
    case 2
    then have "768 \<le> unat j" by (simp add: word_less_nat_alt not_less)
    then have "entry m2 b j = entry (pmem s) (kdir s) j"
      by (intro entry_bytes) (use m1 [OF K(1)] m2 [OF b(1)] 2 K j in \<open>simp del: of_nat_add of_nat_mult\<close>)
    with 2 show ?thesis by (simp add: m)
  next
    case 3
    then have "entry m2 b j = entry (pmem s) b j"
      by (intro entry_bytes) (use m1 [OF b(1)] m2 [OF b(1)] j in \<open>simp del: of_nat_add of_nat_mult\<close>)
    with 3 show ?thesis by (simp add: m)
  qed
qed

text \<open>
  C8. \<^verbatim>\<open>createAddressSpace\<close> returns a directory that was not in use, maps nothing in the user
  half and shares the kernel half; the translations of all existing address spaces stay as
  they were.  It returns 0 exactly when no frame was available, and then memory is unchanged.
\<close>

theorem createAddressSpace_correct:
  assumes inv: "space_inv s D"
  shows "let (F, s') = createAddressSpace s in
    (F = 0 \<longleftrightarrow> fst (allocFrame (pmm s)) = 0) \<and>
    (F = 0 \<longrightarrow> pmem s' = pmem s) \<and>
    (F \<noteq> 0 \<longrightarrow> F \<notin> insert (kdir s) D \<and> space_inv s' (insert F D) \<and>
       (\<forall>x. pte_of (pmem s') F x = (if unat x < 0xC0000000 then None else pte_of (pmem s) (kdir s) x)) \<and>
       (\<forall>d \<in> insert (kdir s) D. \<forall>x. pte_of (pmem s') d x = pte_of (pmem s) d x))"
proof -
  obtain F q where al: "allocFrame (pmm s) = (F, q)" by (cases "allocFrame (pmm s)")
  show ?thesis
  proof (cases "F = 0")
    case True
    with al show ?thesis by (simp add: createAddressSpace_def)
  next
    case False
    define s' where "s' = snd (createAddressSpace s)"
    have c: "createAddressSpace s = (F, s')" using al False by (simp add: createAddressSpace_def s'_def)
    have k: "kdir s' = kdir s" "pmm s' = q" using al False by (simp_all add: createAddressSpace_def s'_def)
    note F = alloc_aligned [OF al False]
    have K: "aligned (kdir s)" using space_invD(2) [OF inv] by blast
    have Fd: "F \<notin> insert (kdir s) D" using space_invD(3) [OF inv, of F] F(2) by blast
    then have KF: "kdir s \<noteq> F" by blast
    note E = createAddressSpace_entries [OF al False K KF, folded s'_def]
    have dir: "entry (pmem s') d j = entry (pmem s) d j" if "d \<in> insert (kdir s) D" "j < 1024" for d j
      using E [OF space_invD(2) [OF inv that(1)] that(2)] that(1) Fd by auto
    have new: "entry (pmem s') F j = (if j < 768 then 0 else entry (pmem s) (kdir s) j)" if "j < 1024" for j
      using E [OF F(1) that] by simp
    have tab: "entry (pmem s') (table (pmem s) d i) j = entry (pmem s) (table (pmem s) d i) j"
      if "d \<in> insert (kdir s) D" "i < 1024" "present (pmem s) d i" "j < 1024" for d i j
      using E [OF aligned_table that(4)] table_notin_dirs(2) [OF inv that(1-3)] F(2) by auto
    have same: "present (pmem s') d j = present (pmem s) d j" "table (pmem s') d j = table (pmem s) d j"
      if "d \<in> insert (kdir s) D" "j < 1024" for d j
      using dir [OF that] by (simp_all add: present_def table_def)
    have walk: "pte_of (pmem s') d x = pte_of (pmem s) d x" if "d \<in> insert (kdir s) D" for d x
      using same [OF that pd_index_lt [of x]] dir [OF that pd_index_lt [of x]]
        tab [OF that pd_index_lt [of x] _ pt_index_lt [of x]]
      by (cases "present (pmem s) d (pd_index x)") (simp_all add: pte_of_alt)
    have newk: "present (pmem s') F j = present (pmem s) (kdir s) j" "table (pmem s') F j = table (pmem s) (kdir s) j"
      if "768 \<le> j" "j < 1024" for j using new [OF that(2)] that(1) by (simp_all add: present_def table_def not_less [symmetric])
    have "pte_of (pmem s') F x = (if unat x < 0xC0000000 then None else pte_of (pmem s) (kdir s) x)" for x
    proof (cases "pd_index x < 768")
      case True
      then have "\<not> present (pmem s') F (pd_index x)" using new [OF pd_index_lt] by (simp add: present_def)
      then show ?thesis using True user_index by (simp add: pte_of_alt)
    next
      case u: False
      then have "768 \<le> pd_index x" by simp
      from newk [OF this pd_index_lt] show ?thesis
        using u user_index [of x] new [OF pd_index_lt, of x] tab [of "kdir s" "pd_index x" "pt_index x"]
          pd_index_lt pt_index_lt
        by (cases "present (pmem s) (kdir s) (pd_index x)") (simp_all add: pte_of_alt)
    qed
    moreover have "space_inv s' (insert F D)"
    proof -
      have np: "\<not> present (pmem s') F j" if "j < 768" for j
        using new [of j] that by (simp add: present_def word_less_nat_alt)
      have rng: "d \<in> insert (kdir s) D \<and> j < 1024" if "d \<in> D \<and> j < 768 \<or> d = kdir s \<and> j < 1024"
        for d and j :: u32 using that by (auto simp: word_less_nat_alt)
      have tabs: "tables_of s' (insert F D) = tables_of s D"
      proof (rule set_eqI, clarify)
        show "(d, j) \<in> tables_of s' (insert F D) \<longleftrightarrow> (d, j) \<in> tables_of s D" for d j
          using np [of j] same(1) [of d j] rng [of d j] KF by (auto simp: tables_of_def k)
      qed
      have t: "table (pmem s') d j = table (pmem s) d j" if "(d, j) \<in> tables_of s D" for d j
        using same(2) rng [of d j] that by (auto simp: tables_of_def)
      show ?thesis
        unfolding space_inv_def tabs k
      proof (intro conjI)
        show "kdir s \<notin> insert F D" using KF space_invD(1) [OF inv] by blast
        show "\<forall>d \<in> insert (kdir s) (insert F D). aligned d \<and> frame_no d \<notin> free_frames q"
          using space_invD(2,3) [OF inv] F by auto
        show "\<forall>d \<in> insert F D. \<forall>i. 768 \<le> i \<and> i < 1024 \<longrightarrow> entry (pmem s') d i = entry (pmem s') (kdir s) i"
        proof (intro ballI allI impI)
          fix d i
          assume d: "d \<in> insert F D" and i: "768 \<le> i \<and> i < (1024 :: u32)"
          then have "\<not> i < 768" by auto
          then show "entry (pmem s') d i = entry (pmem s') (kdir s) i"
            using d i new [of i] dir [of d i] dir [of "kdir s" i] space_invD(4) [OF inv, of d i] by auto
        qed
        show "\<forall>(d, i) \<in> tables_of s D. table (pmem s') d i \<notin> insert (kdir s) (insert F D) \<and>
            frame_no (table (pmem s') d i) \<notin> free_frames q"
        proof (rule ballI, clarify)
          fix d i
          assume m: "(d, i) \<in> tables_of s D"
          then show "table (pmem s') d i \<notin> insert (kdir s) (insert F D) \<and>
              frame_no (table (pmem s') d i) \<notin> free_frames q"
            using t [OF m] space_invD(5,6) [OF inv m] F by auto
        qed
        show "inj_on (\<lambda>(d, i). table (pmem s') d i) (tables_of s D)"
          using space_invD(7) [OF inv] t by (auto simp: inj_on_def)
      qed
    qed
    ultimately show ?thesis using c al False Fd walk by simp
  qed
qed

text \<open>
  C10. A kernel page that is mapped (or unmapped) through a page table that exists shows up
  in every address space at once, because the upper half is shared; nothing else changes.
\<close>

theorem kernel_mapping_shared:
  assumes inv: "space_inv s D" and va: "0xC0000000 \<le> unat va"
    and t: "present (pmem s) (kdir s) (pd_index va)" and d: "d \<in> insert (kdir s) D"
    and fl: "fl AND 1 \<noteq> 0"
  shows "translate (pmem (mapPage va pa fl s)) d x =
      (if x AND FRAME_MASK = va AND FRAME_MASK then Some ((pa AND FRAME_MASK) OR (x AND 0xFFF))
       else translate (pmem s) d x) \<and>
    translate (pmem (unmapPage va s)) d x =
      (if x AND FRAME_MASK = va AND FRAME_MASK then None else translate (pmem s) d x)"
proof -
  let ?i = "pd_index va"
  have i: "\<not> ?i < 768" using va user_index [of va] by auto
  have k: "kdir s \<in> insert (kdir s) D" by blast
  have m: "mapPage va pa fl s = write_pte (kdir s) ?i (pt_index va) (pte_value pa fl) s"
    "unmapPage va s = write_pte (kdir s) ?i (pt_index va) 0 s"
    using t by (simp_all add: mapPage_def ensure_kernel_table_def unmapPage_def present_def)
  note W = write_pte_walk [OF inv k pd_index_lt t pt_index_lt [of va] d, where x = x]
  have o: "owner s d ?i = owner s (kdir s) ?i" using i by (simp add: owner_def)
  have "bit fl 0" using fl by (simp only: and_1_bit)
  then have "bit (pte_value pa fl) 0" by (simp add: pte_value_def bit_simps)
  then have pp: "pte_value pa fl AND PAGE_PRESENT \<noteq> 0" by (simp only: and_1_bit)
  show ?thesis
    unfolding m translate_def W using o pp same_page [of x va] by (simp add: pte_value_frame)
qed

section \<open>Destroying an address space\<close>

text \<open>The frames a directory maps in its user half, device memory below 1 MiB left out.\<close>

definition leaf_frames :: "bmem \<Rightarrow> addr \<Rightarrow> addr set" where
  "leaf_frames m d = {entry m (table m d i) j AND FRAME_MASK | i j. i < 768 \<and> present m d i \<and>
     j < 1024 \<and> entry m (table m d i) j AND PAGE_PRESENT \<noteq> 0 \<and>
     0x100000 \<le> entry m (table m d i) j AND FRAME_MASK}"

definition user_tables :: "bmem \<Rightarrow> addr \<Rightarrow> addr set" where
  "user_tables m d = {table m d i | i. i < 768 \<and> present m d i}"

lemma freeFrame_frame_no: "free_frames (freeFrame a p) = insert (frame_no a) (free_frames p)"
  by (simp add: frame_no_def unat_div)

lemma free_ptes:
  "free_frames (fold (free_pte m t) js p) = free_frames p \<union>
     frame_no ` {entry m t (of_nat j) AND FRAME_MASK | j. j \<in> set js \<and>
        entry m t (of_nat j) AND PAGE_PRESENT \<noteq> 0 \<and> 0x100000 \<le> entry m t (of_nat j) AND FRAME_MASK}"
proof (induction js arbitrary: p)
  case (Cons j js)
  have e: "free_frames (free_pte m t j p) = free_frames p \<union>
     (if entry m t (of_nat j) AND PAGE_PRESENT \<noteq> 0 \<and> 0x100000 \<le> entry m t (of_nat j) AND FRAME_MASK
      then {frame_no (entry m t (of_nat j) AND FRAME_MASK)} else {})"
    by (simp add: free_pte_def Let_def freeFrame_frame_no del: free_freeFrame)
  show ?case by (auto simp: Cons.IH e split: if_splits)
qed simp

lemma free_pdes:
  "free_frames (fold (free_pde m d) is p) = free_frames p \<union>
     (\<Union>i \<in> {i \<in> set is. present m d (of_nat i)}. insert (frame_no (table m d (of_nat i)))
       (frame_no ` {entry m (table m d (of_nat i)) (of_nat j) AND FRAME_MASK | j. j < 1024 \<and>
          entry m (table m d (of_nat i)) (of_nat j) AND PAGE_PRESENT \<noteq> 0 \<and>
          0x100000 \<le> entry m (table m d (of_nat i)) (of_nat j) AND FRAME_MASK}))"
proof (induction "is" arbitrary: p)
  case (Cons i "is")
  have e: "free_frames (free_pde m d i p) = free_frames p \<union>
     (if present m d (of_nat i) then insert (frame_no (table m d (of_nat i)))
       (frame_no ` {entry m (table m d (of_nat i)) (of_nat j) AND FRAME_MASK | j. j < 1024 \<and>
          entry m (table m d (of_nat i)) (of_nat j) AND PAGE_PRESENT \<noteq> 0 \<and>
          0x100000 \<le> entry m (table m d (of_nat i)) (of_nat j) AND FRAME_MASK}) else {})"
    by (simp add: free_pde_def Let_def free_ptes freeFrame_frame_no present_def table_def del: free_freeFrame)
  show ?case by (simp only: fold_simps Cons.IH e) auto
qed simp

lemma ex_idx: "n \<le> 1024 \<Longrightarrow> (\<exists>i :: u32. i < of_nat n \<and> P i) \<longleftrightarrow> (\<exists>i < n. P (of_nat i))"
proof
  assume n: "n \<le> 1024"
  {
    assume "\<exists>i :: u32. i < of_nat n \<and> P i"
    then obtain i :: u32 where i: "i < of_nat n" "P i" by blast
    then have "unat i < n" using n by (simp add: word_less_nat_alt)
    moreover have "P (of_nat (unat i))" using i(2) by simp
    ultimately show "\<exists>i < n. P (of_nat i)" by blast
  }
  assume "\<exists>i < n. P (of_nat i)"
  then obtain i where "i < n" "P (of_nat i)" by blast
  moreover have "(of_nat i :: u32) < of_nat n" using n \<open>i < n\<close> by (simp add: word_less_nat_alt)
  ultimately show "\<exists>i :: u32. i < of_nat n \<and> P i" by blast
qed

lemma free_destroy:
  "free_frames (pmm (destroyAddressSpace d s)) = free_frames (pmm s) \<union>
     insert (frame_no d) (frame_no ` (user_tables (pmem s) d \<union> leaf_frames (pmem s) d))"
proof (rule set_eqI)
  fix f
  let ?m = "pmem s"
  define Q where "Q i j \<longleftrightarrow> entry ?m (table ?m d i) j AND PAGE_PRESENT \<noteq> 0 \<and>
     0x100000 \<le> entry ?m (table ?m d i) j AND FRAME_MASK \<and>
     f = frame_no (entry ?m (table ?m d i) j AND FRAME_MASK)" for i j
  define P where "P i \<longleftrightarrow> present ?m d i \<and> (f = frame_no (table ?m d i) \<or> (\<exists>j < 1024. Q i j))" for i
  have "f \<in> free_frames (pmm (destroyAddressSpace d s)) \<longleftrightarrow> f \<in> free_frames (pmm s) \<or> f = frame_no d \<or>
     (\<exists>i < 768. present ?m d (of_nat i) \<and> (f = frame_no (table ?m d (of_nat i)) \<or>
        (\<exists>j < 1024. Q (of_nat i) (of_nat j))))"
    by (simp add: destroyAddressSpace_def freeFrame_frame_no free_pdes Q_def image_iff del: free_freeFrame)
       blast
  also have "\<dots> \<longleftrightarrow> f \<in> free_frames (pmm s) \<or> f = frame_no d \<or> (\<exists>i < 768. P i)"
    using ex_idx [of 1024 "Q _"] ex_idx [of 768 P] by (simp add: P_def)
  also have "\<dots> \<longleftrightarrow> f \<in> free_frames (pmm s) \<union>
     insert (frame_no d) (frame_no ` (user_tables ?m d \<union> leaf_frames ?m d))"
    unfolding P_def Q_def user_tables_def leaf_frames_def by blast
  finally show "f \<in> free_frames (pmm (destroyAddressSpace d s)) \<longleftrightarrow> f \<in> free_frames (pmm s) \<union>
     insert (frame_no d) (frame_no ` (user_tables ?m d \<union> leaf_frames ?m d))" .
qed

text \<open>No frame that one address space maps or uses for its structure is free or used by another.\<close>

definition isolated :: "machine \<Rightarrow> addr set \<Rightarrow> bool" where
  "isolated s D \<longleftrightarrow> space_inv s D \<and>
     (\<forall>d \<in> D. \<forall>a \<in> leaf_frames (pmem s) d. frame_no a \<notin> free_frames (pmm s) \<and>
        a \<notin> insert (kdir s) D \<and> (\<forall>(d', i) \<in> tables_of s D. a \<noteq> table (pmem s) d' i)) \<and>
     (\<forall>d \<in> D. \<forall>d' \<in> D. d \<noteq> d' \<longrightarrow> leaf_frames (pmem s) d \<inter> leaf_frames (pmem s) d' = {})"

lemma aligned_leaf: "a \<in> leaf_frames m d \<Longrightarrow> aligned a"
  by (auto simp: leaf_frames_def simp del: aligned_masked intro: aligned_masked)

lemma user_tables_of: "d \<in> D \<Longrightarrow> t \<in> user_tables (pmem s) d \<Longrightarrow>
    \<exists>i < 768. t = table (pmem s) d i \<and> (d, i) \<in> tables_of s D"
  by (auto simp: user_tables_def tables_of_def)

text \<open>The frames \<^verbatim>\<open>destroyAddressSpace\<close> gives back.\<close>

definition owned_frames :: "bmem \<Rightarrow> addr \<Rightarrow> addr set" where
  "owned_frames m d = insert d (user_tables m d \<union> leaf_frames m d)"

lemma owned_disjoint:
  assumes iso: "isolated s D" and d: "d \<in> D" and a: "a \<in> owned_frames (pmem s) d"
  shows "e \<in> insert (kdir s) (D - {d}) \<Longrightarrow> a \<noteq> e"
    and "(e, i) \<in> tables_of s (D - {d}) \<Longrightarrow> a \<noteq> table (pmem s) e i"
    and "e \<in> D - {d} \<Longrightarrow> a \<notin> leaf_frames (pmem s) e"
    and "aligned a"
proof -
  have inv: "space_inv s D" using iso by (simp add: isolated_def)
  have sub: "tables_of s (D - {d}) \<subseteq> tables_of s D" by (auto simp: tables_of_def)
  from a consider "a = d" | i where "i < 768" "a = table (pmem s) d i" "(d, i) \<in> tables_of s D"
    | "a \<in> leaf_frames (pmem s) d"
    using user_tables_of [OF d] by (auto simp: owned_frames_def)
  note cs = this
  show "aligned a" using cs by cases (use space_invD(2) [OF inv] d aligned_leaf in auto)
  show "a \<noteq> e" if "e \<in> insert (kdir s) (D - {d})"
    using cs
  proof cases
    case 1
    then show ?thesis using that d space_invD(1) [OF inv] by auto
  next
    case (2 j)
    then show ?thesis using that space_invD(5) [OF inv] by blast
  next
    case 3
    then show ?thesis using that iso d unfolding isolated_def by blast
  qed
  show "a \<noteq> table (pmem s) e i" if e: "(e, i) \<in> tables_of s (D - {d})"
    using cs
  proof cases
    case 1
    then show ?thesis using space_invD(5) [OF inv, of e i] e sub d by blast
  next
    case (2 j)
    have "e \<noteq> d" using e d space_invD(1) [OF inv] by (auto simp: tables_of_def)
    moreover have "(e, i) \<in> tables_of s D" using e sub by blast
    ultimately show ?thesis using 2(2) space_invD(7) [OF inv 2(3)] by metis
  next
    case 3
    then show ?thesis using e sub iso d unfolding isolated_def by blast
  qed
  show "a \<notin> leaf_frames (pmem s) e" if e: "e \<in> D - {d}"
    using cs
  proof cases
    case 1
    then show ?thesis using e d iso unfolding isolated_def by blast
  next
    case (2 j)
    then show ?thesis using e iso unfolding isolated_def by blast
  next
    case 3
    then show ?thesis using e d iso unfolding isolated_def by blast
  qed
qed

text \<open>
  C9. \<^verbatim>\<open>destroyAddressSpace\<close> gives back exactly the directory, its user page tables and the
  frames from 1 MiB up that they map; memory is left as it is, and every other address
  space keeps its structure and frames, so nothing that is still mapped becomes free.
\<close>

theorem destroyAddressSpace_correct:
  assumes iso: "isolated s D" and d: "d \<in> D"
  shows "isolated (destroyAddressSpace d s) (D - {d}) \<and>
    pmem (destroyAddressSpace d s) = pmem s \<and>
    free_frames (pmm (destroyAddressSpace d s)) =
      free_frames (pmm s) \<union> frame_no ` owned_frames (pmem s) d"
proof -
  let ?s = "destroyAddressSpace d s"
  have inv: "space_inv s D" using iso by (simp add: isolated_def)
  have k: "kdir ?s = kdir s" "pmem ?s = pmem s" by (simp_all add: destroyAddressSpace_def)
  have free: "free_frames (pmm ?s) = free_frames (pmm s) \<union> frame_no ` owned_frames (pmem s) d"
    by (simp add: free_destroy owned_frames_def)
  have tabs: "tables_of ?s (D - {d}) = tables_of s (D - {d})" by (simp add: tables_of_def k)
  have sub: "tables_of s (D - {d}) \<subseteq> tables_of s D" by (auto simp: tables_of_def)
  note O = owned_disjoint [OF iso d]
  have nf: "frame_no b \<notin> frame_no ` owned_frames (pmem s) d"
    if "aligned b" "\<And>a. a \<in> owned_frames (pmem s) d \<Longrightarrow> a \<noteq> b" for b
    using that O(4) frame_no_inj by blast
  have "space_inv ?s (D - {d})"
    unfolding space_inv_def k tabs free
  proof (intro conjI)
    show "kdir s \<notin> D - {d}" using space_invD(1) [OF inv] by blast
    show "\<forall>e \<in> insert (kdir s) (D - {d}). aligned e \<and> frame_no e \<notin> free_frames (pmm s) \<union>
        frame_no ` owned_frames (pmem s) d"
    proof
      fix e
      assume e: "e \<in> insert (kdir s) (D - {d})"
      then have "aligned e" "frame_no e \<notin> free_frames (pmm s)" using space_invD(2,3) [OF inv, of e] by auto
      with nf [of e] O(1) [OF _ e] show "aligned e \<and> frame_no e \<notin> free_frames (pmm s) \<union>
        frame_no ` owned_frames (pmem s) d" by blast
    qed
    show "\<forall>e \<in> D - {d}. \<forall>i. 768 \<le> i \<and> i < 1024 \<longrightarrow> entry (pmem s) e i = entry (pmem s) (kdir s) i"
      using space_invD(4) [OF inv] by blast
    show "\<forall>(e, i) \<in> tables_of s (D - {d}). table (pmem s) e i \<notin> insert (kdir s) (D - {d}) \<and>
        frame_no (table (pmem s) e i) \<notin> free_frames (pmm s) \<union> frame_no ` owned_frames (pmem s) d"
    proof (rule ballI, clarify)
      fix e i
      assume e: "(e, i) \<in> tables_of s (D - {d})"
      then have "(e, i) \<in> tables_of s D" using sub by blast
      then have "table (pmem s) e i \<notin> insert (kdir s) D" "frame_no (table (pmem s) e i) \<notin> free_frames (pmm s)"
        using space_invD(5,6) [OF inv] by blast+
      with nf [OF aligned_table O(2) [OF _ e]]
      show "table (pmem s) e i \<notin> insert (kdir s) (D - {d}) \<and>
        frame_no (table (pmem s) e i) \<notin> free_frames (pmm s) \<union> frame_no ` owned_frames (pmem s) d" by blast
    qed
    show "inj_on (\<lambda>(e, i). table (pmem s) e i) (tables_of s (D - {d}))"
      using sub inv unfolding space_inv_def by (blast intro: inj_on_subset)
  qed
  moreover have "frame_no a \<notin> free_frames (pmm s) \<union> frame_no ` owned_frames (pmem s) d \<and>
      a \<notin> insert (kdir s) (D - {d}) \<and> (\<forall>(d', i) \<in> tables_of s (D - {d}). a \<noteq> table (pmem s) d' i)"
    if e: "e \<in> D - {d}" and a: "a \<in> leaf_frames (pmem s) e" for e a
  proof -
    have "frame_no a \<notin> free_frames (pmm s)" "a \<notin> insert (kdir s) D"
      "\<forall>(d', i) \<in> tables_of s D. a \<noteq> table (pmem s) d' i"
      using iso e a unfolding isolated_def by blast+
    with nf [OF aligned_leaf [OF a]] O(3) [OF _ e] a sub show ?thesis by blast
  qed
  moreover have "\<forall>e \<in> D - {d}. \<forall>e' \<in> D - {d}. e \<noteq> e' \<longrightarrow> leaf_frames (pmem s) e \<inter> leaf_frames (pmem s) e' = {}"
    using iso unfolding isolated_def by blast
  ultimately have "isolated ?s (D - {d})" unfolding isolated_def k tabs free by (intro conjI ballI) simp_all
  then show ?thesis using free k(2) by blast
qed

section \<open>Witnesses\<close>

text \<open>A kernel directory and one address space that share one kernel page table.\<close>

definition demo_vm :: machine where
  "demo_vm = \<lparr>pmem = set_entry 0x1000 768 0x3003 (set_entry 0x2000 768 0x3003 (\<lambda>_. 0)),
     pmm = demo_pmm, kdir = 0x1000\<rparr>"

lemma aligned_demo: "aligned 0x1000" "aligned 0x2000" "aligned 0x3000"
  by (simp_all add: aligned_def)

lemma entry_zero_mem: "entry (\<lambda>_. 0) d i = 0"
  by (simp add: entry_def load32_def)

lemma demo_entry_dir:
  "j < 1024 \<Longrightarrow> entry (pmem demo_vm) 0x1000 j = (if j = 768 then 0x3003 else 0)"
  "j < 1024 \<Longrightarrow> entry (pmem demo_vm) 0x2000 j = (if j = 768 then 0x3003 else 0)"
  using aligned_demo by (simp_all add: demo_vm_def entry_set_other entry_zero_mem word_less_nat_alt)

lemma free_demo_pmm: "free_frames demo_pmm = {11}"
proof -
  have "bit (0xF7 :: u8) b \<longleftrightarrow> b \<noteq> 3" if "b < 8" for b
  proof -
    have "b \<in> {0, 1, 2, 3, 4, 5, 6, 7}" using that by auto
    then show ?thesis by auto
  qed
  moreover have "bit (0xFF :: u8) b" if "b < 8" for b using byte_full_iff [of "0xFF"] that by blast
  ultimately have "f \<in> free_frames demo_pmm \<longleftrightarrow> f = 11" for f
    using div_mod_eq_iff [of f 11] by (auto simp: free_frames_iff demo_pmm_def BITMAP_SIZE_def)
  then show ?thesis by blast
qed

lemma demo_vm_inv: "space_inv demo_vm {0x2000}"
proof -
  have k: "kdir demo_vm = 0x1000" "pmm demo_vm = demo_pmm" by (simp_all add: demo_vm_def)
  have t: "tables_of demo_vm {0x2000} = {(0x1000, 768)}"
    using demo_entry_dir by (auto simp: tables_of_def present_def k word_less_nat_alt split: if_splits)
  have "table (pmem demo_vm) 0x1000 768 = 0x3000" by (simp add: table_def demo_entry_dir)
  then show ?thesis
    unfolding space_inv_def t k using aligned_demo
    by (auto simp: frame_no_def free_demo_pmm demo_entry_dir)
qed


theorem createAddressSpace_correct_witness:
  "fst (createAddressSpace demo_vm) = 0xB000 \<and>
   space_inv (snd (createAddressSpace demo_vm)) {0xB000, 0x2000}"
proof -
  have "fst (createAddressSpace demo_vm) = 0xB000"
    by (simp add: createAddressSpace_def demo_vm_def demo_pmm_alloc)
  then show ?thesis using createAddressSpace_correct [OF demo_vm_inv] by (auto simp: case_prod_beta)
qed

theorem kernel_mapping_shared_witness:
  "translate (pmem (mapPage 0xC0005000 0xB8000 3 demo_vm)) 0x2000 0xC0005040 = Some 0xB8040"
proof -
  have "present (pmem demo_vm) (kdir demo_vm) (pd_index 0xC0005000)"
    using demo_entry_dir by (simp add: present_def pd_index_def demo_vm_def [THEN arg_cong [of _ _ kdir]])
  then show ?thesis
    using kernel_mapping_shared [OF demo_vm_inv, of "0xC0005000" "0x2000" 3 "0xB8000" "0xC0005040"] by simp
qed

theorem destroyAddressSpace_correct_witness:
  "free_frames (pmm (destroyAddressSpace 0x2000 demo_vm)) = {2, 11}"
proof -
  have np: "\<not> present (pmem demo_vm) 0x2000 i" if "i < 768" for i
  proof -
    have "i < 1024" "i \<noteq> 768" using that by (auto simp: word_less_nat_alt)
    then show ?thesis using demo_entry_dir(2) by (simp add: present_def)
  qed
  then have "leaf_frames (pmem demo_vm) 0x2000 = {}" by (auto simp: leaf_frames_def)
  then have "isolated demo_vm {0x2000}" using demo_vm_inv by (simp add: isolated_def)
  moreover have "owned_frames (pmem demo_vm) 0x2000 = {0x2000}"
    using np by (auto simp: owned_frames_def user_tables_def leaf_frames_def)
  ultimately show ?thesis
    using destroyAddressSpace_correct [of demo_vm "{0x2000}" "0x2000"]
    by (simp add: demo_vm_def free_demo_pmm frame_no_def insert_commute)
qed

end
