(* ===== verification/Kernel_Heap.thy ===== *)
theory Kernel_Heap
  imports Physical Allocator
begin

text \<open>
  The kernel heap, kernel/src/memory/heap.cpp and operators.cpp: one region of 256 frames
  taken from the frame allocator at boot and handed to \<^verbatim>\<open>HeapAllocator\<close>.  The loop that
  takes the frames ignores what \<^verbatim>\<open>allocFrame\<close> returns; that the region is
  contiguous rests on the allocator handing out the lowest frame first.
\<close>

definition KERNEL_HEAP_FRAMES :: u32 where "KERNEL_HEAP_FRAMES = 256"
definition KERNEL_HEAP_SIZE :: u32 where "KERNEL_HEAP_SIZE = KERNEL_HEAP_FRAMES * 4096"

text \<open>\<open>None\<close> is the null instance.\<close>

definition KernelHeap_init :: "(addr \<Rightarrow> block_header) \<Rightarrow> phys_mgr \<Rightarrow> allocator option \<times> phys_mgr" where
  "KernelHeap_init h p =
     (let (frame, p1) = allocFrame p; base = frame + KERNEL_VBASE in
      if base = KERNEL_VBASE then (None, p1)
      else (let p2 = fold (\<lambda>_ p. snd (allocFrame p)) [1..<unat KERNEL_HEAP_FRAMES] p1
            in (Some (HeapAllocator_ctor h base KERNEL_HEAP_SIZE), p2)))"

text \<open>\<^verbatim>\<open>operator new\<close> and \<^verbatim>\<open>operator delete\<close>; \<open>None\<close> when the instance is null or the list is cyclic.\<close>

definition kernel_new :: "u32 \<Rightarrow> allocator option \<Rightarrow> (addr \<times> allocator option) option" where
  "kernel_new sz inst = (case inst of None \<Rightarrow> None | Some a \<Rightarrow> map_option (map_prod id Some) (allocate sz a))"

definition kernel_delete :: "addr \<Rightarrow> allocator option \<Rightarrow> allocator option option" where
  "kernel_delete p inst = (case inst of None \<Rightarrow> None | Some a \<Rightarrow> map_option Some (heap_free p a))"

lemma alloc_run:
  "{f..<f + n} \<subseteq> free_frames p \<Longrightarrow> (\<forall>g \<in> free_frames p. f \<le> g) \<Longrightarrow>
     free_frames (fold (\<lambda>_ p. snd (allocFrame p)) [k..<k + n] p) = free_frames p - {f..<f + n}"
proof (induction n arbitrary: f p k)
  case (Suc n)
  have f: "f \<in> free_frames p" using Suc.prems(1) by auto
  have "Min (free_frames p) = f" using f Suc.prems(2) by (intro Min_eqI) auto
  then have e: "free_frames (snd (allocFrame p)) = free_frames p - {f}" using f by (auto simp: allocFrame_lowest)
  have "f + Suc n = Suc f + n" by simp
  then have "{Suc f..<Suc f + n} \<subseteq> free_frames p - {f}" using Suc.prems(1) by auto
  moreover have "\<forall>g \<in> free_frames p - {f}. Suc f \<le> g" using Suc.prems(2) by (auto simp: Suc_le_eq le_neq_implies_less)
  moreover have "[k..<k + Suc n] = k # [Suc k..<Suc k + n]" by (simp add: upt_conv_Cons)
  ultimately show ?case using Suc.IH [of "Suc f" "snd (allocFrame p)" "Suc k"] by (auto simp: e)
qed simp

text \<open>
  When the 256 frames from the lowest free one on are free and within reach of the direct
  map, \<^verbatim>\<open>KernelHeap::init\<close> reserves exactly those frames and the heap over them is
  well formed: one free block that covers them.
\<close>

theorem kernel_heap_init:
  assumes run: "{f..<f + 256} \<subseteq> free_frames p" and low: "\<forall>g \<in> free_frames p. f \<le> g"
    and f: "0 < f" "f < 0x3FF00"
  shows "\<exists>a p'. KernelHeap_init h p = (Some a, p') \<and> free_frames p' = free_frames p - {f..<f + 256} \<and>
    regionStart a = of_nat f * FRAME_SIZE + KERNEL_VBASE \<and>
    heap_inv a [(regionStart a, KERNEL_HEAP_SIZE - 12, True)]"
proof -
  let ?base = "of_nat f * FRAME_SIZE + KERNEL_VBASE :: u32"
  have ff: "f \<in> free_frames p" using run by auto
  have "Min (free_frames p) = f" using ff low by (intro Min_eqI) auto
  then have al: "allocFrame p = (of_nat f * FRAME_SIZE, mark_frame f p)"
    using ff by (auto simp: allocFrame_lowest)
  have u: "unat (of_nat f * FRAME_SIZE :: u32) = f * 4096" using f by (intro frame_addr) (simp add: BITMAP_SIZE_def)
  have b: "unat ?base = f * 4096 + 0xC0000000"
    using u f unat_add_of_nat [of "of_nat f * FRAME_SIZE" "0xC0000000"] by simp
  have "unat ?base \<noteq> unat KERNEL_VBASE" "unat ?base \<noteq> unat 0" using b f by simp_all
  then have nz: "?base \<noteq> KERNEL_VBASE" "?base \<noteq> 0" by metis+
  have "{Suc f..<Suc f + 255} \<subseteq> free_frames (mark_frame f p)" "\<forall>g \<in> free_frames (mark_frame f p). Suc f \<le> g"
    using run low by (auto simp: Suc_le_eq le_neq_implies_less)
  note run1 = alloc_run [OF this, of 1]
  have kf: "unat KERNEL_HEAP_FRAMES = 1 + 255" by (simp add: KERNEL_HEAP_FRAMES_def)
  have "{f} \<union> {Suc f..<Suc f + 255} = {f..<f + 256}" by auto
  then have fr: "free_frames (fold (\<lambda>_ p. snd (allocFrame p)) [1..<unat KERNEL_HEAP_FRAMES] (mark_frame f p)) =
      free_frames p - {f..<f + 256}" unfolding kf run1 free_mark_frame by blast
  have "heap_inv (HeapAllocator_ctor h ?base KERNEL_HEAP_SIZE) [(?base, KERNEL_HEAP_SIZE - 12, True)]"
    by (rule ctor_rep) (use nz b f in \<open>simp_all add: KERNEL_HEAP_SIZE_def KERNEL_HEAP_FRAMES_def\<close>)
  moreover have "regionStart (HeapAllocator_ctor h ?base KERNEL_HEAP_SIZE) = ?base"
    using nz by (simp add: HeapAllocator_ctor_def KERNEL_HEAP_SIZE_def KERNEL_HEAP_FRAMES_def)
  ultimately show ?thesis
    using nz fr by (simp add: KernelHeap_init_def al Let_def)
qed

text \<open>The kernel's \<^verbatim>\<open>new\<close> and \<^verbatim>\<open>delete\<close> keep the heap well formed and undo each other.\<close>

lemma kernel_new_delete:
  assumes "heap_ok a" "0 < n" "n \<le> 0xFFFFFFFC" "kernel_new n (Some a) = Some (r, Some a')" "r \<noteq> 0"
  shows "\<exists>a''. kernel_delete r (Some a') = Some (Some a'') \<and> heap_ok a'' \<and> live a'' = live a"
  using ha.dealloc_alloc [OF assms(1-3) _ assms(5)] assms(4)
  by (fastforce simp: kernel_new_def kernel_delete_def)

definition demo_pmm_run :: phys_mgr where
  "demo_pmm_run = fold clear_frame [256..<512] pmm_ctor"

theorem kernel_heap_init_witness:
  "free_frames (snd (KernelHeap_init (\<lambda>_. \<lparr>bsize = 0, bfree = False, bnext = 0\<rparr>) demo_pmm_run)) = {}"
proof -
  have "free_frames demo_pmm_run = {256..<512}"
    unfolding demo_pmm_run_def
    by (subst fold_clear; simp only: set_upt free_pmm_ctor Un_empty_left) (auto simp: BITMAP_SIZE_def)
  then show ?thesis
    using kernel_heap_init [of 256 demo_pmm_run "\<lambda>_. \<lparr>bsize = 0, bfree = False, bnext = 0\<rparr>"] by auto
qed

end
