(* ===== verification/Gdt.thy ===== *)
theory Gdt
  imports Prelude
begin

text \<open>
  The segment descriptors of kernel/src/core/gdt.cpp: the packed eight-byte format that the
  processor reads, its encoder and decoders, and the table with its task state segment.
\<close>

unbundle bit_operations_syntax

section \<open>Segment descriptors\<close>

text \<open>The descriptor as its eight bytes; \<open>u\<close> is the byte at an index.\<close>

definition SegmentDescriptor :: "u32 \<Rightarrow> u32 \<Rightarrow> u8 \<Rightarrow> u8 list" where
  "SegmentDescriptor base limit flags =
     (let t = replicate 8 0;
          (limit, t) = (if limit \<le> 65536 then (limit, t[6 := 0x40])
             else ((if limit AND 0xFFF \<noteq> 0xFFF then drop_bit 12 limit - 1 else drop_bit 12 limit),
                   t[6 := 0xC0]));
          t = t[0 := ucast (limit AND 0xFF)];
          t = t[1 := ucast (drop_bit 8 limit AND 0xFF)];
          t = t[6 := t ! 6 OR ucast (drop_bit 16 limit AND 0xF)];
          t = t[2 := ucast (base AND 0xFF)];
          t = t[3 := ucast (drop_bit 8 base AND 0xFF)];
          t = t[4 := ucast (drop_bit 16 base AND 0xFF)];
          t = t[7 := ucast (drop_bit 24 base AND 0xFF)]
      in t[5 := flags])"

definition getBase :: "u8 list \<Rightarrow> u32" where
  "getBase t =
     (let result = ucast (t ! 7);
          result = push_bit 8 result + ucast (t ! 4);
          result = push_bit 8 result + ucast (t ! 3)
      in push_bit 8 result + ucast (t ! 2))"

definition getLimit :: "u8 list \<Rightarrow> u32" where
  "getLimit t =
     (let result = ucast (t ! 6 AND 0xF);
          result = push_bit 8 result + ucast (t ! 1);
          result = push_bit 8 result + ucast (t ! 0)
      in if t ! 6 AND 0xC0 = 0xC0 then push_bit 12 result OR 0xFFF else result)"

section \<open>The table\<close>

record tss =
  esp0 :: u32
  ss0 :: u32
  iomap_base :: u16

record gdt =
  nullSegment :: "u8 list"
  codeSegment :: "u8 list"
  dataSegment :: "u8 list"
  userCodeSegment :: "u8 list"
  userDataSegment :: "u8 list"
  tssDescriptor :: "u8 list"
  gtss :: tss

definition TSS_SIZE :: nat where "TSS_SIZE = 104"

text \<open>The address of the embedded task state segment is an argument.\<close>

definition gdt_ctor :: "addr \<Rightarrow> gdt" where
  "gdt_ctor tss_addr =
     (let t = SegmentDescriptor tss_addr (of_nat TSS_SIZE - 1) 0x89 in
      \<lparr>nullSegment = SegmentDescriptor 0 0 0,
       codeSegment = SegmentDescriptor 0 0xFFFFFFFF 0x9A,
       dataSegment = SegmentDescriptor 0 0xFFFFFFFF 0x92,
       userCodeSegment = SegmentDescriptor 0 0xFFFFFFFF 0xFA,
       userDataSegment = SegmentDescriptor 0 0xFFFFFFFF 0xF2,
       tssDescriptor = t[6 := t ! 6 AND 0x0F],
       gtss = \<lparr>esp0 = 0, ss0 = 0x10, iomap_base = of_nat TSS_SIZE\<rparr>\<rparr>)"

definition gdtr_limit :: u16 where "gdtr_limit = 6 * 8"

definition getCodeOffset :: u16 where "getCodeOffset = 1 * 8"
definition getDataOffset :: u16 where "getDataOffset = 2 * 8"
definition getUserCodeOffset :: u16 where "getUserCodeOffset = 3 * 8"
definition getUserDataOffset :: u16 where "getUserDataOffset = 4 * 8"
definition getTssOffset :: u16 where "getTssOffset = 5 * 8"

definition setTssEsp0 :: "u32 \<Rightarrow> gdt \<Rightarrow> gdt" where
  "setTssEsp0 e g = g\<lparr>gtss := (gtss g)\<lparr>esp0 := e\<rparr>\<rparr>"

section \<open>The encoding is faithful\<close>

text \<open>Bytes put together by shifting and adding; the parts do not overlap.\<close>

lemma push_add_or: "push_bit 8 (x :: u32) + ucast (b :: u8) = push_bit 8 x OR ucast b"
  by (rule disjunctive_add) (auto simp: bit_simps dest: bit_imp_le_length)

lemma bytes_join:
  fixes w :: u32
  shows "push_bit 8 (push_bit 8 (push_bit 8 (ucast (ucast (drop_bit 24 w AND 0xFF) :: u8) :: u32)
       OR ucast (ucast (drop_bit 16 w AND 0xFF) :: u8)) OR ucast (ucast (drop_bit 8 w AND 0xFF) :: u8))
       OR ucast (ucast (w AND 0xFF) :: u8) = w"
proof (rule bit_word_eqI)
  fix n
  assume "n < LENGTH(32)"
  then consider "n < 8" | "8 \<le> n" "n < 16" | "16 \<le> n" "n < 24" | "24 \<le> n" "n < 32" by fastforce
  moreover have ff: "(0xFF :: u32) = mask 8" by (simp add: mask_eq_exp_minus_1)
  ultimately show "bit (push_bit 8 (push_bit 8 (push_bit 8 (ucast (ucast (drop_bit 24 w AND 0xFF) :: u8) :: u32)
       OR ucast (ucast (drop_bit 16 w AND 0xFF) :: u8)) OR ucast (ucast (drop_bit 8 w AND 0xFF) :: u8))
       OR ucast (ucast (w AND 0xFF) :: u8)) n = bit w n"
    unfolding ff by cases (auto simp: bit_simps simp del: mask_numeral dest: bit_imp_le_length)
qed

definition enc_limit :: "u32 \<Rightarrow> u32" where
  "enc_limit l = (if l \<le> 65536 then l
     else if l AND 0xFFF \<noteq> 0xFFF then drop_bit 12 l - 1 else drop_bit 12 l)"

definition granularity :: "u32 \<Rightarrow> u8" where
  "granularity l = (if l \<le> 65536 then 0x40 else 0xC0)"

lemma descriptor_bytes:
  "SegmentDescriptor b l f =
     [ucast (enc_limit l AND 0xFF), ucast (drop_bit 8 (enc_limit l) AND 0xFF),
      ucast (b AND 0xFF), ucast (drop_bit 8 b AND 0xFF), ucast (drop_bit 16 b AND 0xFF), f,
      granularity l OR ucast (drop_bit 16 (enc_limit l) AND 0xF), ucast (drop_bit 24 b AND 0xFF)]"
  by (simp add: SegmentDescriptor_def enc_limit_def granularity_def Let_def numeral_eq_Suc)

lemma unat_enc_limit:
  "unat (enc_limit l) =
     (if unat l \<le> 65536 then unat l
      else if l AND 0xFFF = 0xFFF then unat l div 4096 else unat l div 4096 - 1)"
proof -
  have d: "unat (drop_bit 12 l) = unat l div 4096" by (simp add: drop_bit_eq_div unat_div)
  have "unat (drop_bit 12 l - 1) = unat l div 4096 - 1" if "65536 < unat l"
  proof -
    have "1 \<le> unat l div 4096" using that by simp
    then have "(1 :: u32) \<le> drop_bit 12 l" using d by (simp add: word_le_nat_alt)
    then show ?thesis using d by (simp add: unat_sub)
  qed
  then show ?thesis using d by (simp add: enc_limit_def word_le_nat_alt)
qed

lemma enc_limit_20: "unat (enc_limit l) < 2 ^ 20"
  using unat_lt_2p32 [of l] unfolding unat_enc_limit by (auto intro: less_mult_imp_div_less)

lemma limit_join:
  fixes w :: u32
  assumes "unat w < 2 ^ 20"
  shows "push_bit 8 (push_bit 8 (ucast (ucast (drop_bit 16 w AND 0xF) :: u8) :: u32)
       OR ucast (ucast (drop_bit 8 w AND 0xFF) :: u8)) OR ucast (ucast (w AND 0xFF) :: u8) = w"
proof (rule bit_word_eqI)
  fix n
  assume "n < LENGTH(32)"
  then consider "n < 8" | "8 \<le> n" "n < 16" | "16 \<le> n" "n < 20" | "20 \<le> n" "n < 24" | "24 \<le> n" "n < 32" by fastforce
  moreover have ff: "(0xFF :: u32) = mask 8" "(0xF :: u32) = mask 4" by (simp_all add: mask_eq_exp_minus_1)
  moreover have "\<not> bit w n" if "20 \<le> n"
  proof -
    have "unat w div 2 ^ n = 0" using assms that
      by (meson div_less less_le_trans power_increasing one_le_numeral)
    then have "\<not> bit (unat w) n" by (simp add: bit_iff_odd)
    then show ?thesis by (simp add: bit_unsigned_iff)
  qed
  ultimately show "bit (push_bit 8 (push_bit 8 (ucast (ucast (drop_bit 16 w AND 0xF) :: u8) :: u32)
       OR ucast (ucast (drop_bit 8 w AND 0xFF) :: u8)) OR ucast (ucast (w AND 0xFF) :: u8)) n = bit w n"
    unfolding ff by cases (auto simp: bit_simps simp del: mask_numeral dest: bit_imp_le_length)
qed

lemma mask_or_nibble: "((g :: u8) OR ucast ((x :: u32) AND 0xF)) AND 0xF = (g AND 0xF) OR ucast (x AND 0xF)"
proof -
  have ff: "(0xF :: u32) = mask 4" "(0xF :: u8) = mask 4" by (simp_all add: mask_eq_exp_minus_1)
  show ?thesis unfolding ff by (rule bit_word_eqI) (auto simp: bit_simps simp del: mask_numeral)
qed

lemma gran_or_nibble: "(granularity l OR ucast ((x :: u32) AND 0xF)) AND 0xC0 = granularity l"
proof -
  have "((ucast (x AND 0xF) :: u8) AND 0xC0) = 0"
  proof -
    have ff: "(0xF :: u32) = mask 4" "(0xC0 :: u8) = push_bit 6 (mask 2)" by (simp_all add: mask_eq_exp_minus_1)
    show ?thesis unfolding ff by (rule bit_word_eqI) (auto simp: bit_simps simp del: mask_numeral)
  qed
  then show ?thesis by (simp add: word_ao_dist granularity_def)
qed

text \<open>
  C11. A segment descriptor decodes to what was encoded: the base always; the limit exactly
  when it fits in bytes (at most 64 KiB) or ends a page, and otherwise rounded down to the
  last byte before the page it lies in; the access byte is stored as given.
\<close>

theorem descriptor_roundtrip:
  "getBase (SegmentDescriptor b l f) = b \<and>
   getLimit (SegmentDescriptor b l f) =
     (if l \<le> 65536 \<or> l AND 0xFFF = 0xFFF then l else push_bit 12 (drop_bit 12 l - 1) OR 0xFFF) \<and>
   SegmentDescriptor b l f ! 5 = f \<and> length (SegmentDescriptor b l f) = 8"
proof -
  have base: "getBase (SegmentDescriptor b l f) = b"
    unfolding getBase_def descriptor_bytes Let_def push_add_or using bytes_join [of b] by simp
  have g0: "granularity l AND 0xF = 0" by (simp add: granularity_def)
  have dec: "getLimit (SegmentDescriptor b l f) =
      (if granularity l = 0xC0 then push_bit 12 (enc_limit l) OR 0xFFF else enc_limit l)"
  proof -
    have "(0xC0 :: u8) = granularity l \<longleftrightarrow> granularity l = 0xC0" by auto
    then show ?thesis
      unfolding getLimit_def descriptor_bytes Let_def push_add_or
      using limit_join [OF enc_limit_20, of l]
      by (simp add: mask_or_nibble gran_or_nibble g0)
  qed
  have page: "push_bit 12 (drop_bit 12 l) OR 0xFFF = l" if "l AND 0xFFF = 0xFFF"
  proof -
    have "push_bit 12 (drop_bit 12 l) OR (l AND mask 12) = l"
      by (rule bit_word_eqI) (auto simp: bit_simps simp del: mask_numeral)
    with that show ?thesis by (simp add: mask_12)
  qed
  show ?thesis
    using base dec page by (auto simp: granularity_def enc_limit_def descriptor_bytes)
qed

text \<open>
  The descriptors of the table: flat 4 GiB kernel and user segments, a task state
  segment descriptor that decodes to its address and exact size, selectors that are the
  offsets of the descriptors, and the privilege level in the access bytes.
\<close>

theorem gdt_layout:
  "getBase (codeSegment (gdt_ctor t)) = 0 \<and> getLimit (codeSegment (gdt_ctor t)) = 0xFFFFFFFF \<and>
   getBase (userDataSegment (gdt_ctor t)) = 0 \<and> getLimit (userDataSegment (gdt_ctor t)) = 0xFFFFFFFF \<and>
   getBase (tssDescriptor (gdt_ctor t)) = t \<and> getLimit (tssDescriptor (gdt_ctor t)) + 1 = of_nat TSS_SIZE \<and>
   drop_bit 5 (userCodeSegment (gdt_ctor t) ! 5) AND 3 = 3 \<and> drop_bit 5 (codeSegment (gdt_ctor t) ! 5) AND 3 = 0 \<and>
   [getCodeOffset, getDataOffset, getUserCodeOffset, getUserDataOffset, getTssOffset] =
     map (\<lambda>i. of_nat (8 * i)) [1..<6]"
proof -
  let ?d = "SegmentDescriptor t (of_nat TSS_SIZE - 1) 0x89"
  have tss: "getBase (?d[6 := ?d ! 6 AND 0x0F]) = t" "getLimit (?d[6 := ?d ! 6 AND 0x0F]) = 103"
  proof -
    show "getBase (?d[6 := ?d ! 6 AND 0x0F]) = t"
      unfolding getBase_def descriptor_bytes Let_def push_add_or using bytes_join [of t] by simp
    show "getLimit (?d[6 := ?d ! 6 AND 0x0F]) = 103"
      by (simp add: getLimit_def descriptor_bytes Let_def TSS_SIZE_def enc_limit_def granularity_def)
  qed
  then show ?thesis
    by (simp add: gdt_ctor_def Let_def TSS_SIZE_def getBase_def getLimit_def descriptor_bytes enc_limit_def
        granularity_def getCodeOffset_def getDataOffset_def getUserCodeOffset_def getUserDataOffset_def
        getTssOffset_def upt_rec)
qed

end
