(* ===== verification/Elf.thy ===== *)
theory Elf
  imports Paging
begin

text \<open>
  The ELF32 loader, kernel/src/core/elf.cpp.  The image is read from memory at the physical
  address behind the kernel pointer \<^verbatim>\<open>elfData\<close>; every page of a loadable segment gets a
  fresh frame that is mapped into the given address space and filled through the direct map.
  The specification is the virtual memory the program headers describe (\<open>elf_image\<close>).
\<close>

unbundle bit_operations_syntax

section \<open>Headers\<close>

definition load16 :: "bmem \<Rightarrow> addr \<Rightarrow> u16" where
  "load16 m a = ucast (m a) OR push_bit 8 (ucast (m (a + 1)))"

record elf_header =
  e_type :: u16
  e_machine :: u16
  e_entry :: u32
  e_phoff :: u32
  e_phentsize :: u16
  e_phnum :: u16

record elf_phdr =
  p_type :: u32
  p_offset :: u32
  p_vaddr :: u32
  p_filesz :: u32
  p_memsz :: u32

definition read_header :: "bmem \<Rightarrow> addr \<Rightarrow> elf_header" where
  "read_header m a = \<lparr>e_type = load16 m (a + 16), e_machine = load16 m (a + 18),
     e_entry = load32 m (a + 24), e_phoff = load32 m (a + 28),
     e_phentsize = load16 m (a + 42), e_phnum = load16 m (a + 44)\<rparr>"

definition read_phdr :: "bmem \<Rightarrow> addr \<Rightarrow> elf_phdr" where
  "read_phdr m a = \<lparr>p_type = load32 m a, p_offset = load32 m (a + 4), p_vaddr = load32 m (a + 8),
     p_filesz = load32 m (a + 16), p_memsz = load32 m (a + 20)\<rparr>"

abbreviation (input) sizeof_Elf32Header :: u32 where "sizeof_Elf32Header \<equiv> 52"
abbreviation (input) sizeof_Elf32ProgramHeader :: u32 where "sizeof_Elf32ProgramHeader \<equiv> 32"

definition PT_LOAD :: u32 where "PT_LOAD = 1"
definition ET_EXEC :: u16 where "ET_EXEC = 2"
definition EM_386 :: u16 where "EM_386 = 3"

definition header_ok :: "bmem \<Rightarrow> addr \<Rightarrow> bool" where
  "header_ok m a \<longleftrightarrow> m a = 0x7F \<and> m (a + 1) = 0x45 \<and> m (a + 2) = 0x4C \<and> m (a + 3) = 0x46 \<and>
     m (a + 4) = 1 \<and> e_type (read_header m a) = ET_EXEC \<and> e_machine (read_header m a) = EM_386"

record elf_result =
  entryPoint :: u32
  heapStart :: u32
  success :: bool

definition elf_failure :: elf_result where
  "elf_failure = \<lparr>entryPoint = 0, heapStart = 0, success = False\<rparr>"

section \<open>Loading\<close>

text \<open>One byte of a page: from the file below \<^verbatim>\<open>p_filesz\<close>, zero above.\<close>

definition seg_byte :: "bmem \<Rightarrow> addr \<Rightarrow> u32 \<Rightarrow> elf_phdr \<Rightarrow> u32 \<Rightarrow> u8" where
  "seg_byte m a elfSize ph segOffset =
     (if segOffset < p_filesz ph \<and> p_offset ph + segOffset < elfSize
      then m (a + (p_offset ph + segOffset)) else 0)"

definition fill_byte :: "addr \<Rightarrow> u32 \<Rightarrow> elf_phdr \<Rightarrow> u32 \<Rightarrow> addr \<Rightarrow> nat \<Rightarrow> bmem \<Rightarrow> bmem" where
  "fill_byte a elfSize ph pageStart dest b m =
     m(dest + of_nat b := seg_byte m a elfSize ph (pageStart + of_nat b))"

definition fill_page :: "addr \<Rightarrow> u32 \<Rightarrow> elf_phdr \<Rightarrow> u32 \<Rightarrow> addr \<Rightarrow> bmem \<Rightarrow> bmem" where
  "fill_page a elfSize ph pageStart dest m =
     fold (fill_byte a elfSize ph pageStart dest) [0..<4096] m"

definition page_va :: "elf_phdr \<Rightarrow> nat \<Rightarrow> addr" where
  "page_va ph p = (p_vaddr ph AND FRAME_MASK) + of_nat p * FRAME_SIZE"

text \<open>\<open>Inl\<close> is the early return with \<open>success\<close> false.\<close>

fun load_pages :: "addr \<Rightarrow> addr \<Rightarrow> u32 \<Rightarrow> elf_phdr \<Rightarrow> nat list \<Rightarrow> machine \<Rightarrow> machine + machine" where
  "load_pages pd a elfSize ph [] s = Inr s"
| "load_pages pd a elfSize ph (p # ps) s =
     (let (frame, pmm') = allocFrame (pmm s); s = s\<lparr>pmm := pmm'\<rparr> in
      if frame = 0 then Inl s
      else (let s = mapUserPage pd (page_va ph p) frame 7 s;
                s = s\<lparr>pmem := fill_page a elfSize ph (of_nat p * FRAME_SIZE) frame (pmem s)\<rparr>
            in load_pages pd a elfSize ph ps s))"

definition phdr_bad :: "u32 \<Rightarrow> elf_phdr \<Rightarrow> bool" where
  "phdr_bad elfSize ph \<longleftrightarrow> p_offset ph > elfSize \<or> p_filesz ph > elfSize \<or>
     p_offset ph + p_filesz ph < p_offset ph \<or> p_offset ph + p_filesz ph > elfSize"

definition num_pages :: "elf_phdr \<Rightarrow> nat" where
  "num_pages ph = unat ((p_memsz ph + FRAME_SIZE - 1) div FRAME_SIZE)"

definition phdr_offset :: "elf_header \<Rightarrow> nat \<Rightarrow> u32" where
  "phdr_offset h i = e_phoff h + of_nat i * ucast (e_phentsize h)"

fun load_segments ::
  "addr \<Rightarrow> addr \<Rightarrow> u32 \<Rightarrow> elf_header \<Rightarrow> nat list \<Rightarrow> u32 \<Rightarrow> machine \<Rightarrow> machine + (u32 \<times> machine)" where
  "load_segments pd a elfSize h [] highestEnd s = Inr (highestEnd, s)"
| "load_segments pd a elfSize h (i # is) highestEnd s =
     (let offset = phdr_offset h i in
      if offset + sizeof_Elf32ProgramHeader > elfSize then Inl s
      else (let ph = read_phdr (pmem s) (a + offset) in
        if p_type ph \<noteq> PT_LOAD then load_segments pd a elfSize h is highestEnd s
        else if phdr_bad elfSize ph then Inl s
        else (let segEnd = p_vaddr ph + p_memsz ph;
                  highestEnd = (if segEnd > highestEnd then segEnd else highestEnd)
              in case load_pages pd a elfSize ph [0..<num_pages ph] s of
                   Inl s \<Rightarrow> Inl s
                 | Inr s \<Rightarrow> load_segments pd a elfSize h is highestEnd s)))"

definition elf_load :: "addr \<Rightarrow> addr \<Rightarrow> u32 \<Rightarrow> machine \<Rightarrow> elf_result \<times> machine" where
  "elf_load pdPhysical elfData elfSize s =
     (let a = elfData - KERNEL_VBASE in
      if elfSize < sizeof_Elf32Header then (elf_failure, s)
      else if \<not> header_ok (pmem s) a then (elf_failure, s)
      else (let h = read_header (pmem s) a in
        case load_segments pdPhysical a elfSize h [0..<unat (e_phnum h)] 0 s of
          Inl s \<Rightarrow> (elf_failure, s)
        | Inr (highestEnd, s) \<Rightarrow>
            (\<lparr>entryPoint = e_entry (read_header (pmem s) a),
              heapStart = (highestEnd + FRAME_SIZE - 1) AND NOT (FRAME_SIZE - 1), success = True\<rparr>, s)))"

section \<open>The memory an executable describes\<close>

text \<open>The program headers the loader accepts, in order, read from the image.\<close>

definition load_headers :: "bmem \<Rightarrow> addr \<Rightarrow> elf_header \<Rightarrow> nat list \<Rightarrow> elf_phdr list" where
  "load_headers m a h is =
     filter (\<lambda>ph. p_type ph = PT_LOAD) (map (\<lambda>i. read_phdr m (a + phdr_offset h i)) is)"

text \<open>The pages of a segment, in loading order; a later page hides an earlier one.\<close>

definition put_page :: "addr \<Rightarrow> (u32 \<Rightarrow> u8) \<Rightarrow> (addr \<Rightarrow> u8 option) \<Rightarrow> addr \<Rightarrow> u8 option" where
  "put_page va bytes img = (\<lambda>x. if x AND FRAME_MASK = va AND FRAME_MASK then Some (bytes (x AND 0xFFF)) else img x)"

definition put_segment :: "bmem \<Rightarrow> addr \<Rightarrow> u32 \<Rightarrow> elf_phdr \<Rightarrow> (addr \<Rightarrow> u8 option) \<Rightarrow> addr \<Rightarrow> u8 option" where
  "put_segment m a elfSize ph img =
     fold (\<lambda>p. put_page (page_va ph p) (\<lambda>b. seg_byte m a elfSize ph (of_nat p * FRAME_SIZE + b)))
       [0..<num_pages ph] img"

definition elf_image :: "bmem \<Rightarrow> addr \<Rightarrow> u32 \<Rightarrow> addr \<Rightarrow> u8 option" where
  "elf_image m a elfSize =
     (let h = read_header m a in
      fold (put_segment m a elfSize) (load_headers m a h [0..<unat (e_phnum h)]) (\<lambda>_. None))"

section \<open>Filling a page\<close>

lemma fill_byte_apply: "fill_byte a elfSize ph ps F b m x =
    (if x = F + of_nat b then seg_byte m a elfSize ph (ps + of_nat b) else m x)"
  by (simp add: fill_byte_def)

lemma fill_page_spec:
  assumes F: "aligned F" and img: "\<And>off. off < elfSize \<Longrightarrow> frame_no (a + off) \<noteq> frame_no F"
  shows "fill_page a elfSize ph ps F m x =
    (if frame_no x = frame_no F then seg_byte m a elfSize ph (ps + (x AND 0xFFF)) else m x)"
proof -
  have fr: "frame_no (F + of_nat b) = frame_no F" if "b < 4096" for b
    using aligned_div [OF F that] by (simp add: frame_no_def)
  have "n \<le> 4096 \<Longrightarrow> fold (fill_byte a elfSize ph ps F) [0..<n] m x =
     (if \<exists>b < n. x = F + of_nat b then seg_byte m a elfSize ph (ps + (x - F)) else m x)" for n x
  proof (induction n arbitrary: x)
    case (Suc n)
    let ?m = "fold (fill_byte a elfSize ph ps F) [0..<n] m"
    have "?m (a + off) = m (a + off)" if "off < elfSize" for off
    proof -
      have "a + off \<noteq> F + of_nat b" if "b < n" for b
        using fr [of b] img [OF \<open>off < elfSize\<close>] that Suc.prems by auto
      then show ?thesis using Suc.IH [of "a + off"] Suc.prems by auto
    qed
    then have "seg_byte ?m a elfSize ph o' = seg_byte m a elfSize ph o'" for o'
      by (simp add: seg_byte_def)
    then show ?case using Suc.IH [of x] Suc.prems by (auto simp: less_Suc_eq fill_byte_apply [of a elfSize ph ps F n])
  qed simp
  from this [of 4096 x] have *: "fill_page a elfSize ph ps F m x =
     (if \<exists>b < 4096. x = F + of_nat b then seg_byte m a elfSize ph (ps + (x - F)) else m x)"
    by (simp add: fill_page_def)
  obtain b k where x: "x = b + of_nat k" "aligned b" "k < 4096" "frame_no x = frame_no b"
    using aligned_frame_of by blast
  have "(\<exists>j < 4096. x = F + of_nat j) \<longleftrightarrow> b = F"
    using aligned_off_eq [OF x(2) F x(3)] x by auto
  moreover have "frame_no x = frame_no F \<longleftrightarrow> b = F" using frame_no_inj [OF x(2) F] x(4) by simp
  moreover have "x AND 0xFFF = of_nat k"
  proof -
    have "unat (x AND 0xFFF) = unat x mod 4096" by (rule unat_and_0xFFF)
    moreover have "unat x = unat b + k" using aligned_off [OF x(2,3)] x(1) by simp
    ultimately have "unat (x AND 0xFFF) = k" using x(2,3) by (auto elim!: alignedE)
    then show ?thesis using x(3) by (metis of_nat_unat ucast_id)
  qed
  ultimately show ?thesis using * x(1) by auto
qed

section \<open>Loading a page\<close>

lemma frame_plus_offset:
  assumes "aligned F"
  shows "frame_no ((F AND FRAME_MASK) OR (x AND 0xFFF)) = frame_no F"
    "((F AND FRAME_MASK) OR (x AND 0xFFF)) AND 0xFFF = x AND 0xFFF"
proof -
  have m: "(0xFFF :: u32) = mask 12" "FRAME_MASK = NOT (mask 12)" by (simp_all add: mask_eq_exp_minus_1)
  let ?y = "(F AND NOT (mask 12)) OR (x AND mask 12)"
  have "?y AND NOT (mask 12) = F AND NOT (mask 12)" "?y AND mask 12 = x AND mask 12"
    by (rule bit_word_eqI; auto simp: bit_simps simp del: mask_numeral)+
  then have y: "?y AND FRAME_MASK = F AND FRAME_MASK" "?y AND mask 12 = x AND mask 12" by (simp_all add: m del: mask_numeral)
  have "unat (z AND FRAME_MASK) = 4096 * frame_no z" for z :: addr
    unfolding FRAME_MASK_eq frame_no_def by (simp del: mask_numeral add: unat_and_not_mask)
  then have "frame_no ?y = frame_no F" using y(1) by (metis mult_cancel1 zero_neq_numeral)
  then show "frame_no ((F AND FRAME_MASK) OR (x AND 0xFFF)) = frame_no F" unfolding m .
  show "((F AND FRAME_MASK) OR (x AND 0xFFF)) AND 0xFFF = x AND 0xFFF" unfolding m by (rule y(2))
qed

lemma mapUserPage_free: "free_frames (pmm (mapUserPage d va pa fl s)) \<subseteq> free_frames (pmm s)"
proof (cases "present (pmem s) d (pd_index va)")
  case True
  then show ?thesis by (simp add: mapUserPage_def ensure_user_table_def present_def)
next
  case False
  then show ?thesis
    using fs.get_shrinks [of "pmm s"]
    by (cases "allocFrame (pmm s)") (auto simp: mapUserPage_def ensure_user_table_def present_def)
qed

lemma alloc_some: "free_frames p \<noteq> {} \<Longrightarrow> 0 \<notin> free_frames p \<Longrightarrow> fst (allocFrame p) \<noteq> 0"
proof -
  assume a: "free_frames p \<noteq> {}" "0 \<notin> free_frames p"
  let ?f = "Min (free_frames p)"
  have f: "?f \<in> free_frames p" "?f \<noteq> 0" using Min_free [OF a(1)] a(2) by metis+
  then have "unat (of_nat ?f * FRAME_SIZE) = ?f * 4096" by (intro frame_addr) (simp add: free_frames_def)
  then have "unat (of_nat ?f * FRAME_SIZE) \<noteq> unat 0" using f(2) by simp
  then show ?thesis using a(1) by (metis allocFrame_lowest fst_conv)
qed

text \<open>
  What holds between the steps of the loader: the image is intact, and the pages described
  so far are mapped and filled.
\<close>

definition loaded :: "addr set \<Rightarrow> addr \<Rightarrow> bmem \<Rightarrow> addr \<Rightarrow> u32 \<Rightarrow> machine \<Rightarrow> (addr \<Rightarrow> u8 option) \<Rightarrow> bool" where
  "loaded D pd m0 a elfSize s img \<longleftrightarrow> space_inv s D \<and>
     (\<forall>off < elfSize. outside s D (frame_no (a + off)) \<and> pmem s (a + off) = m0 (a + off)) \<and>
     (\<forall>va b. img va = Some b \<longrightarrow> (\<exists>pa. translate (pmem s) pd va = Some pa \<and> pmem s pa = b \<and>
        outside s D (frame_no pa)))"

lemma translate_cong: "pte_of m' d x = pte_of m d x \<Longrightarrow> translate m' d x = translate m d x"
  by (simp add: translate_def)

lemma load_page_step:
  assumes L: "loaded D pd m0 a elfSize s img" and pd: "pd \<in> D" and va: "unat va < 0xC0000000"
    and al: "allocFrame (pmm s) = (F, q)" and F0: "F \<noteq> 0"
    and s1: "s1 = mapUserPage pd va F 7 (s\<lparr>pmm := q\<rparr>)"
    and s2: "s2 = s1\<lparr>pmem := fill_page a elfSize ph ps F (pmem s1)\<rparr>"
    and more: "free_frames (pmm s2) \<noteq> {}" "0 \<notin> free_frames (pmm s)"
  shows "loaded D pd m0 a elfSize s2 (put_page va (\<lambda>b. seg_byte m0 a elfSize ph (ps + b)) img)"
proof -
  let ?s0 = "s\<lparr>pmm := q\<rparr>"
  have inv: "space_inv s D" using L by (simp add: loaded_def)
  note F = alloc_aligned [OF al F0]
  note D0 = alloc_data_frame [OF inv al F0]
  have sub: "free_frames (pmm s1) \<subseteq> free_frames q" unfolding s1 using mapUserPage_free [of pd va F 7 ?s0] by simp
  have "free_frames q \<noteq> {}" using more(1) sub by (auto simp: s2)
  moreover have "0 \<notin> free_frames q" using more(2) F(3) by blast
  ultimately have "fst (allocFrame (pmm ?s0)) \<noteq> 0" using alloc_some by simp
  moreover have "(7 :: u16) AND 1 \<noteq> 0" by simp
  ultimately have M: "space_inv s1 D"
    "\<And>x. x AND FRAME_MASK = va AND FRAME_MASK \<Longrightarrow>
       translate (pmem s1) pd x = Some ((F AND FRAME_MASK) OR (x AND 0xFFF))"
    "\<And>x. x AND FRAME_MASK \<noteq> va AND FRAME_MASK \<Longrightarrow> pte_of (pmem s1) pd x = pte_of (pmem s) pd x"
    using mapUserPage_maps [OF D0(1) pd va, of 7 F] pd unfolding s1 by auto
  note out = mapUserPage_outside [OF D0(1) pd va, of _ F 7, folded s1]
  have oF: "outside s1 D (frame_no F)" using out [OF D0(2)] by blast
  have img: "outside s1 D (frame_no (a + off)) \<and> pmem s1 (a + off) = m0 (a + off) \<and>
      frame_no (a + off) \<noteq> frame_no F" if "off < elfSize" for off
  proof -
    have o: "outside s D (frame_no (a + off))" and m: "pmem s (a + off) = m0 (a + off)"
      using L that by (auto simp: loaded_def)
    from D0(3) [OF o] out [of "frame_no (a + off)"] m show ?thesis by auto
  qed
  have fill: "pmem s2 x = (if frame_no x = frame_no F then seg_byte m0 a elfSize ph (ps + (x AND 0xFFF)) else pmem s1 x)" for x
  proof -
    have "seg_byte (pmem s1) a elfSize ph y = seg_byte m0 a elfSize ph y" for y
      using img by (simp add: seg_byte_def)
    then show ?thesis unfolding s2 using fill_page_spec [OF F(1), of elfSize a] img by simp
  qed
  have s2': "s2 = s1\<lparr>pmem := pmem s2\<rparr>" by (simp add: s2)
  note W = data_write [OF M(1) oF, of "pmem s2", folded s2']
  have W1: "space_inv s2 D" and W2: "\<And>g. outside s1 D g \<Longrightarrow> outside s2 D g"
    and W3: "\<And>x. pte_of (pmem s2) pd x = pte_of (pmem s1) pd x"
    using W fill pd by auto
  show ?thesis
    unfolding loaded_def
  proof (intro conjI allI impI)
    show "space_inv s2 D" by (rule W1)
    show "outside s2 D (frame_no (a + off))" "pmem s2 (a + off) = m0 (a + off)" if "off < elfSize" for off
      using img [OF that] W2 fill by auto
    fix x b
    assume x: "put_page va (\<lambda>b. seg_byte m0 a elfSize ph (ps + b)) img x = Some b"
    show "\<exists>pa. translate (pmem s2) pd x = Some pa \<and> pmem s2 pa = b \<and> outside s2 D (frame_no pa)"
    proof (cases "x AND FRAME_MASK = va AND FRAME_MASK")
      case True
      with x have b: "b = seg_byte m0 a elfSize ph (ps + (x AND 0xFFF))" by (simp add: put_page_def)
      show ?thesis
        using translate_cong [OF W3] M(2) [OF True] frame_plus_offset [OF F(1), of x] fill W2 [OF oF]
        by (intro exI [of _ "(F AND FRAME_MASK) OR (x AND 0xFFF)"]) (simp add: b)
    next
      case False
      with x have "img x = Some b" by (simp add: put_page_def)
      then obtain pa where pa: "translate (pmem s) pd x = Some pa" "pmem s pa = b" "outside s D (frame_no pa)"
        using L unfolding loaded_def by blast
      from D0(3) [OF pa(3)] out [of "frame_no pa"]
      have "outside s1 D (frame_no pa)" "pmem s1 pa = pmem s pa" "frame_no pa \<noteq> frame_no F" by auto
      then show ?thesis
        using pa fill W2 translate_cong [OF W3 [of x]] translate_cong [OF M(3) [OF False]] by auto
    qed
  qed
qed

section \<open>Loading segments\<close>

lemma load_pages_free:
  "load_pages pd a elfSize ph ps s = Inr s' \<Longrightarrow> free_frames (pmm s') \<subseteq> free_frames (pmm s)"
proof (induction ps arbitrary: s)
  case (Cons p ps)
  obtain F q where al: "allocFrame (pmm s) = (F, q)" by (cases "allocFrame (pmm s)")
  let ?s1 = "mapUserPage pd (page_va ph p) F 7 (s\<lparr>pmm := q\<rparr>)"
  have "free_frames (pmm ?s1) \<subseteq> free_frames q" using mapUserPage_free [of pd _ F 7 "s\<lparr>pmm := q\<rparr>"] by simp
  moreover have "free_frames q \<subseteq> free_frames (pmm s)" using fs.get_shrinks [of "pmm s"] al by simp
  ultimately show ?case using Cons.IH Cons.prems al by (fastforce simp: Let_def split: if_splits)
qed simp

lemma load_pages_loaded:
  assumes "loaded D pd m0 a elfSize s img" "pd \<in> D" "load_pages pd a elfSize ph ps s = Inr s'"
    and "\<forall>p \<in> set ps. unat (page_va ph p) < 0xC0000000"
    and "free_frames (pmm s') \<noteq> {}" "0 \<notin> free_frames (pmm s)"
  shows "loaded D pd m0 a elfSize s' (fold (\<lambda>p. put_page (page_va ph p)
     (\<lambda>b. seg_byte m0 a elfSize ph (of_nat p * FRAME_SIZE + b))) ps img)"
  using assms
proof (induction ps arbitrary: s img)
  case (Cons p ps)
  obtain F q where al: "allocFrame (pmm s) = (F, q)" by (cases "allocFrame (pmm s)")
  define s1 where "s1 = mapUserPage pd (page_va ph p) F 7 (s\<lparr>pmm := q\<rparr>)"
  define s2 where "s2 = s1\<lparr>pmem := fill_page a elfSize ph (of_nat p * FRAME_SIZE) F (pmem s1)\<rparr>"
  have F0: "F \<noteq> 0" and rest: "load_pages pd a elfSize ph ps s2 = Inr s'"
    using Cons.prems(3) al by (auto simp: s1_def s2_def Let_def split: if_splits)
  have sub: "free_frames (pmm s') \<subseteq> free_frames (pmm s2)" using load_pages_free [OF rest] .
  have q: "free_frames (pmm s2) \<subseteq> free_frames (pmm s)"
    using mapUserPage_free [of pd "page_va ph p" F 7 "s\<lparr>pmm := q\<rparr>"] fs.get_shrinks [of "pmm s"] al
    by (auto simp: s2_def s1_def)
  have va: "unat (page_va ph p) < 0xC0000000" using Cons.prems(4) by simp
  have "free_frames (pmm s2) \<noteq> {}" using sub Cons.prems(5) by blast
  from load_page_step [OF Cons.prems(1,2) va al F0 s1_def s2_def this Cons.prems(6)]
  have "loaded D pd m0 a elfSize s2 (put_page (page_va ph p)
     (\<lambda>b. seg_byte m0 a elfSize ph (of_nat p * FRAME_SIZE + b)) img)" .
  from Cons.IH [OF this Cons.prems(2) rest _ Cons.prems(5)] show ?case
    using Cons.prems(4,6) q by auto
qed simp

lemma read_phdr_cong:
  assumes "\<And>k. k < 32 \<Longrightarrow> m (x + of_nat k) = m0 (x + of_nat k)"
  shows "read_phdr m x = read_phdr m0 x"
proof -
  have "load32 m (x + of_nat k) = load32 m0 (x + of_nat k)" if "k + 4 \<le> 32" for k
    using assms [of k] assms [of "k + 1"] assms [of "k + 2"] assms [of "k + 3"] that
    by (simp add: load32_def ac_simps)
  from this [of 0] this [of 4] this [of 8] this [of 16] this [of 20] show ?thesis
    by (simp add: read_phdr_def)
qed

text \<open>A header whose offset does not wrap lies inside the image, which the loader leaves alone.\<close>

lemma loaded_phdr:
  assumes "loaded D pd m0 a elfSize s img" "\<not> off + 32 > elfSize" "unat off + 32 \<le> 0xFFFFFFFF"
  shows "read_phdr (pmem s) (a + off) = read_phdr m0 (a + off)"
proof (rule read_phdr_cong)
  fix k :: nat
  assume k: "k < 32"
  have "unat (off + 32) = unat off + 32" using assms(3) unat_add_of_nat [of off 32] by simp
  moreover have "unat (off + of_nat k) = unat off + k" using assms(3) k unat_add_of_nat [of off k] by simp
  ultimately have "off + of_nat k < elfSize" using assms(2) k by (simp add: word_less_nat_alt)
  then have "pmem s (a + (off + of_nat k)) = m0 (a + (off + of_nat k))" using assms(1) by (simp add: loaded_def)
  then show "pmem s (a + off + of_nat k) = m0 (a + off + of_nat k)" by (simp add: add.assoc)
qed

definition seg_end :: "elf_phdr \<Rightarrow> u32" where
  "seg_end ph = p_vaddr ph + p_memsz ph"

lemma load_headers_Cons: "load_headers m a h (i # is) =
    (if p_type (read_phdr m (a + phdr_offset h i)) = PT_LOAD
     then read_phdr m (a + phdr_offset h i) # load_headers m a h is else load_headers m a h is)"
  by (simp add: load_headers_def)

lemma load_segments_free:
  "load_segments pd a elfSize h is hi s = Inr (hi', s') \<Longrightarrow> free_frames (pmm s') \<subseteq> free_frames (pmm s)"
  by (induction "is" arbitrary: hi s)
    (auto simp: Let_def split: if_splits sum.splits dest!: load_pages_free)

lemma load_segments_loaded:
  assumes "loaded D pd m0 a elfSize s img" "pd \<in> D"
    and "load_segments pd a elfSize h is hi s = Inr (hi', s')"
    and "\<forall>i \<in> set is. unat (phdr_offset h i) + 32 \<le> 0xFFFFFFFF"
    and "\<forall>ph \<in> set (load_headers m0 a h is). \<forall>p < num_pages ph. unat (page_va ph p) < 0xC0000000"
    and "free_frames (pmm s') \<noteq> {}" "0 \<notin> free_frames (pmm s)"
  shows "loaded D pd m0 a elfSize s' (fold (put_segment m0 a elfSize) (load_headers m0 a h is) img) \<and>
    hi' = fold max (map seg_end (load_headers m0 a h is)) hi"
  using assms
proof (induction "is" arbitrary: hi s img)
  case (Cons i "is")
  let ?off = "phdr_offset h i" and ?ph = "read_phdr m0 (a + phdr_offset h i)"
  have off: "\<not> ?off + 32 > elfSize" using Cons.prems(3) by (auto simp: Let_def split: if_splits)
  have ph: "read_phdr (pmem s) (a + ?off) = ?ph"
    using loaded_phdr [OF Cons.prems(1) off] Cons.prems(4) by simp
  show ?case
  proof (cases "p_type ?ph = PT_LOAD")
    case False
    with Cons off ph show ?thesis by (simp add: Let_def load_headers_Cons)
  next
    case True
    let ?hi = "if seg_end ?ph > hi then seg_end ?ph else hi"
    obtain s1 where s1: "load_pages pd a elfSize ?ph [0..<num_pages ?ph] s = Inr s1"
      and rest: "load_segments pd a elfSize h is ?hi s1 = Inr (hi', s')"
      using Cons.prems(3) off ph True by (auto simp: Let_def seg_end_def split: if_splits sum.splits)
    have hds: "load_headers m0 a h (i # is) = ?ph # load_headers m0 a h is" using True by (simp add: load_headers_Cons)
    have sub: "free_frames (pmm s') \<subseteq> free_frames (pmm s1)" using load_segments_free [OF rest] .
    have sub1: "free_frames (pmm s1) \<subseteq> free_frames (pmm s)" using load_pages_free [OF s1] .
    have pages: "\<forall>p \<in> set [0..<num_pages ?ph]. unat (page_va ?ph p) < 0xC0000000"
      using Cons.prems(5) hds by simp
    have ne: "free_frames (pmm s1) \<noteq> {}" using sub Cons.prems(6) by blast
    from load_pages_loaded [OF Cons.prems(1,2) s1 pages ne Cons.prems(7)]
    have L: "loaded D pd m0 a elfSize s1 (put_segment m0 a elfSize ?ph img)" by (simp add: put_segment_def)
    have "?hi = max (seg_end ?ph) hi" by (auto simp: max_def)
    then show ?thesis
      using Cons.IH [OF L Cons.prems(2) rest _ _ Cons.prems(6)] Cons.prems(4,5,7) sub1 hds by auto
  qed
qed (simp add: load_headers_def)

section \<open>Properties\<close>


section \<open>Witness\<close>

text \<open>An executable with one segment of one file byte and two memory bytes.\<close>

definition demo_elf_mem :: bmem where
  "demo_elf_mem = (\<lambda>_. 0)(0x5000 := 0x7F, 0x5001 := 0x45, 0x5002 := 0x4C, 0x5003 := 0x46, 0x5004 := 1,
     0x5010 := 2, 0x5012 := 3, 0x501A := 0x40, 0x501C := 52, 0x502A := 32, 0x502C := 1,
     0x5034 := 1, 0x5038 := 84, 0x503E := 0x40, 0x5044 := 1, 0x5048 := 2, 0x5054 := 0xAB)"

definition demo_elf_vm :: machine where
  "demo_elf_vm = \<lparr>pmem = demo_elf_mem, pmm = fold clear_frame [256..<512] pmm_ctor, kdir = 0x1000\<rparr>"

lemma demo_elf_free: "free_frames (pmm demo_elf_vm) = {256..<512}"
  unfolding demo_elf_vm_def machine.select_convs
  by (subst fold_clear; simp only: set_upt free_pmm_ctor Un_empty_left) (auto simp: BITMAP_SIZE_def)

lemma frame_no_5: "off < (0x1000 :: u32) \<Longrightarrow> frame_no (0x5000 + off) = 5"
proof -
  assume "off < 0x1000"
  then have "unat off < 4096" by (simp add: word_less_nat_alt)
  then show ?thesis using unat_add_of_nat [of "0x5000" "unat off"] by (simp add: frame_no_def)
qed

lemma demo_elf_inv: "space_inv demo_elf_vm {0x2000} \<and> outside demo_elf_vm {0x2000} 5"
proof -
  let ?z = "demo_elf_vm\<lparr>pmem := \<lambda>_. 0\<rparr>"
  have t: "tables_of ?z {0x2000} = {}" by (simp add: tables_of_def present_def entry_zero_mem)
  have k: "kdir demo_elf_vm = 0x1000" by (simp add: demo_elf_vm_def)
  have inv: "space_inv ?z {0x2000}"
    using aligned_demo by (simp add: space_inv_def t k demo_elf_free frame_no_def entry_zero_mem)
  have out: "outside ?z {0x2000} 5" by (simp add: outside_def t k demo_elf_free frame_no_def)
  have m: "demo_elf_mem x = 0" if "frame_no x \<noteq> 5" for x
  proof -
    have "x \<noteq> 0x5000 + of_nat n" if "n < 0x1000" for n
      using frame_no_5 [of "of_nat n"] that \<open>frame_no x \<noteq> 5\<close> by (auto simp: word_less_nat_alt)
    from this [of 0] this [of 1] this [of 2] this [of 3] this [of 4] this [of 16] this [of 18] this [of 26]
      this [of 28] this [of 42] this [of 44] this [of 52] this [of 56] this [of 62] this [of 68] this [of 72]
      this [of 84] show ?thesis by (simp add: demo_elf_mem_def)
  qed
  have eq: "?z\<lparr>pmem := demo_elf_mem\<rparr> = demo_elf_vm" by (simp add: demo_elf_vm_def)
  from data_write(1) [OF inv out, of demo_elf_mem] data_write(2) [OF inv out, of demo_elf_mem 5] m out
  show ?thesis unfolding eq by simp
qed

lemma demo_elf_header:
  "read_header demo_elf_mem 0x5000 = \<lparr>e_type = 2, e_machine = 3, e_entry = 0x400000, e_phoff = 52,
     e_phentsize = 32, e_phnum = 1\<rparr>"
  "read_phdr demo_elf_mem 0x5034 = \<lparr>p_type = 1, p_offset = 84, p_vaddr = 0x400000, p_filesz = 1, p_memsz = 2\<rparr>"
  "header_ok demo_elf_mem 0x5000"
proof -
  show h: "read_header demo_elf_mem 0x5000 = \<lparr>e_type = 2, e_machine = 3, e_entry = 0x400000, e_phoff = 52,
     e_phentsize = 32, e_phnum = 1\<rparr>"
    by (simp add: read_header_def load16_def load32_def demo_elf_mem_def)
  show "read_phdr demo_elf_mem 0x5034 = \<lparr>p_type = 1, p_offset = 84, p_vaddr = 0x400000, p_filesz = 1, p_memsz = 2\<rparr>"
    by (simp add: read_phdr_def load32_def demo_elf_mem_def)
  show "header_ok demo_elf_mem 0x5000"
    by (simp add: header_ok_def h ET_EXEC_def EM_386_def) (simp add: demo_elf_mem_def)
qed

lemma mapUserPage_free_one: "\<exists>f. free_frames (pmm s) - {f} \<subseteq> free_frames (pmm (mapUserPage d va pa fl s))"
proof (cases "present (pmem s) d (pd_index va)")
  case True
  then show ?thesis by (auto simp: mapUserPage_def ensure_user_table_def present_def)
next
  case False
  have "\<exists>f. free_frames (pmm s) - {f} \<subseteq> free_frames (snd (allocFrame (pmm s)))"
    by (auto simp: allocFrame_lowest)
  with False show ?thesis
    by (cases "allocFrame (pmm s)") (auto simp: mapUserPage_def ensure_user_table_def present_def)
qed


end
