(* ===== verification/Kernel_State.thy ===== *)
theory Kernel_State
  imports Paging Kernel_Heap "HOL-Library.Monad_Syntax"
begin

text \<open>
  The state of the running kernel: the process table of kernel/include/core/process.hpp, the
  saved register frames, the scheduler, the interrupt forwarding table, the timer, the kernel
  heap and the machine's memory, in one record.  Process control blocks and queue nodes are
  kept in typed stores and their lists as sequences of node addresses (the pointer lists
  refine these, \<open>Linked_List\<close>); the addresses come from the kernel heap.

  Operations return \<open>option\<close>: \<open>None\<close> is a run of the kernel that does not come back
  with a result, because a user pointer is not mapped (the page-fault handler halts the
  machine) or points at kernel memory, or because a list walk never ends.  The invariant
  excludes the last cause.
\<close>

unbundle bit_operations_syntax

section \<open>Messages\<close>

record message =
  mtype :: u32
  arg1 :: u32
  arg2 :: u32
  arg3 :: u32
  arg4 :: u32
  arg5 :: u32

definition zero_message :: message where
  "zero_message = \<lparr>mtype = 0, arg1 = 0, arg2 = 0, arg3 = 0, arg4 = 0, arg5 = 0\<rparr>"

definition word_bytes :: "u32 \<Rightarrow> u8 list" where
  "word_bytes w = map (byte_of w) [0, 1, 2, 3]"

definition bytes_word :: "u8 list \<Rightarrow> u32" where
  "bytes_word bs = ucast (bs ! 0) OR push_bit 8 (ucast (bs ! 1))
     OR push_bit 16 (ucast (bs ! 2)) OR push_bit 24 (ucast (bs ! 3))"

definition encode_message :: "message \<Rightarrow> u8 list" where
  "encode_message m = concat (map word_bytes [mtype m, arg1 m, arg2 m, arg3 m, arg4 m, arg5 m])"

definition decode_message :: "u8 list \<Rightarrow> message" where
  "decode_message bs = \<lparr>mtype = bytes_word bs, arg1 = bytes_word (drop 4 bs),
     arg2 = bytes_word (drop 8 bs), arg3 = bytes_word (drop 12 bs),
     arg4 = bytes_word (drop 16 bs), arg5 = bytes_word (drop 20 bs)\<rparr>"

lemma bytes_word_bytes [simp]: "bytes_word (word_bytes w @ bs) = w"
  using load32_byte_of [of w] by (simp add: word_bytes_def bytes_word_def)

lemma length_word_bytes [simp]: "length (word_bytes w) = 4"
  by (simp add: word_bytes_def)

lemma decode_encode_message [simp]: "decode_message (encode_message m) = m"
  using bytes_word_bytes [of "arg5 m" "[]"]
  by (simp add: decode_message_def encode_message_def)

lemma length_encode_message [simp]: "length (encode_message m) = 24"
  by (simp add: encode_message_def)

section \<open>Processes\<close>

datatype process_state = Empty | Ready | Running | SendBlocked | ReceiveBlocked | WaitBlocked

text \<open>A queued notification; \<open>n_buf\<close> is the heap copy of the bulk data (0: none).\<close>

record notify_node =
  n_addr :: addr
  n_sender :: u32
  n_msg :: message
  n_buf :: addr
  n_data :: "u8 list"

record process =
  pid :: u32
  pstate :: process_state
  r_eax :: u32
  r_ebx :: u32
  r_ecx :: u32
  r_edx :: u32
  r_esi :: u32
  r_edi :: u32
  r_ebp :: u32
  r_esp :: u32
  r_eip :: u32
  r_eflags :: u32
  r_cs :: u32
  r_ds :: u32
  pageDirectory :: u32
  kernelEsp :: u32
  heapBase :: u32
  heapBreak :: u32
  waitPid :: u32
  pmsg :: message
  msgPtr :: u32
  dataPtr :: u32
  dataLen :: u32
  sendQueue :: "(addr \<times> u32) list"
  notifyQueue :: "notify_node list"

text \<open>Sizes on i386 of the objects taken from the kernel heap.\<close>

abbreviation (input) SIZEOF_Process :: u32 where "SIZEOF_Process \<equiv> 140"
abbreviation (input) SIZEOF_SendNode :: u32 where "SIZEOF_SendNode \<equiv> 8"
abbreviation (input) SIZEOF_NotifyNode :: u32 where "SIZEOF_NotifyNode \<equiv> 40"

record sysframe =
  f_gs :: u32
  f_fs :: u32
  f_es :: u32
  f_ds :: u32
  f_edi :: u32
  f_esi :: u32
  f_ebp :: u32
  f_esp_pusha :: u32
  f_ebx :: u32
  f_edx :: u32
  f_ecx :: u32
  f_eax :: u32

record fb_info =
  fb_address :: u32
  fb_width :: u32
  fb_height :: u32
  fb_pitch :: u32
  fb_bpp :: u32

text \<open>The only in-kernel handler the kernel registers is the timer's.\<close>

datatype irq_handler = PitHandler

datatype power_state = PowerOn | ResetRequested | PowerOff

record kstate =
  mach :: machine
  kheap :: "allocator option"
  frames :: "addr \<Rightarrow> sysframe"
  proc :: "addr \<Rightarrow> process"
  procs :: "addr list"
  curr :: addr
  ktask :: addr
  nextPid :: u32
  cr3 :: addr
  tssEsp0 :: u32
  gdtSet :: bool
  tickCount :: u32
  timeSlice :: u32
  ticks :: u32
  handlers :: "nat \<Rightarrow> irq_handler option"
  forwardPid :: "nat \<Rightarrow> u32"
  pendingIrq :: "nat \<Rightarrow> bool"
  serialOut :: "u8 list"
  portLog :: "(u16 \<times> u8) list"
  power :: power_state
  fbInfo :: fb_info

text \<open>A byte written to an I/O port.\<close>

definition port_write :: "u16 \<Rightarrow> u8 \<Rightarrow> kstate \<Rightarrow> kstate" where
  "port_write port b s = s\<lparr>portLog := portLog s @ [(port, b)]\<rparr>"

definition upd_proc :: "addr \<Rightarrow> (process \<Rightarrow> process) \<Rightarrow> kstate \<Rightarrow> kstate" where
  "upd_proc a f s = s\<lparr>proc := (proc s)(a := f (proc s a))\<rparr>"

definition set_pstate :: "addr \<Rightarrow> process_state \<Rightarrow> kstate \<Rightarrow> kstate" where
  "set_pstate a st = upd_proc a (\<lambda>p. p\<lparr>pstate := st\<rparr>)"

definition upd_frame :: "addr \<Rightarrow> (sysframe \<Rightarrow> sysframe) \<Rightarrow> kstate \<Rightarrow> kstate" where
  "upd_frame e f s = s\<lparr>frames := (frames s)(e := f (frames s e))\<rparr>"

definition set_eax :: "addr \<Rightarrow> u32 \<Rightarrow> kstate \<Rightarrow> kstate" where
  "set_eax e v = upd_frame e (\<lambda>f. f\<lparr>f_eax := v\<rparr>)"

section \<open>The kernel heap in the state\<close>

definition k_new :: "u32 \<Rightarrow> kstate \<Rightarrow> (addr \<times> kstate) option" where
  "k_new n s = map_option (\<lambda>(r, h). (r, s\<lparr>kheap := h\<rparr>)) (kernel_new n (kheap s))"

definition k_delete :: "addr \<Rightarrow> kstate \<Rightarrow> kstate option" where
  "k_delete p s = map_option (\<lambda>h. s\<lparr>kheap := h\<rparr>) (kernel_delete p (kheap s))"

section \<open>User memory\<close>

text \<open>
  One access of the kernel to a user address under the page directory \<open>pd\<close>; the kernel
  does not check the pointers it is given, so an unmapped one is a page fault in the kernel.
\<close>

definition rd8 :: "bmem \<Rightarrow> addr \<Rightarrow> addr \<Rightarrow> u8 option" where
  "rd8 m pd va = (if va < KERNEL_VBASE then map_option m (translate m pd va) else None)"

definition wr8 :: "addr \<Rightarrow> addr \<Rightarrow> u8 \<Rightarrow> bmem \<Rightarrow> bmem option" where
  "wr8 pd va b m = (if va < KERNEL_VBASE then map_option (\<lambda>pa. m(pa := b)) (translate m pd va) else None)"

fun load_user :: "bmem \<Rightarrow> addr \<Rightarrow> addr \<Rightarrow> nat \<Rightarrow> u8 list option" where
  "load_user m pd va 0 = Some []"
| "load_user m pd va (Suc n) = do { b \<leftarrow> rd8 m pd va; bs \<leftarrow> load_user m pd (va + 1) n; Some (b # bs) }"

fun store_user :: "addr \<Rightarrow> addr \<Rightarrow> u8 list \<Rightarrow> bmem \<Rightarrow> bmem option" where
  "store_user pd va [] m = Some m"
| "store_user pd va (b # bs) m = do { m \<leftarrow> wr8 pd va b m; store_user pd (va + 1) bs m }"

text \<open>\<^verbatim>\<open>mem::copy\<close> within one address space, one byte after the other.\<close>

fun copy_user :: "addr \<Rightarrow> addr \<Rightarrow> addr \<Rightarrow> nat \<Rightarrow> bmem \<Rightarrow> bmem option" where
  "copy_user pd dst src 0 m = Some m"
| "copy_user pd dst src (Suc n) m =
     do { b \<leftarrow> rd8 m pd src; m \<leftarrow> wr8 pd dst b m; copy_user pd (dst + 1) (src + 1) n m }"

definition upd_mem :: "bmem \<Rightarrow> kstate \<Rightarrow> kstate" where
  "upd_mem m s = s\<lparr>mach := (mach s)\<lparr>pmem := m\<rparr>\<rparr>"

abbreviation (input) kmem :: "kstate \<Rightarrow> bmem" where "kmem s \<equiv> pmem (mach s)"

definition load_message :: "addr \<Rightarrow> addr \<Rightarrow> kstate \<Rightarrow> message option" where
  "load_message pd va s = map_option decode_message (load_user (kmem s) pd va 24)"

definition store_message :: "addr \<Rightarrow> addr \<Rightarrow> message \<Rightarrow> kstate \<Rightarrow> kstate option" where
  "store_message pd va m s = map_option (\<lambda>x. upd_mem x s) (store_user pd va (encode_message m) (kmem s))"

text \<open>The directory a copy to or from another process uses: its own, or the loaded one.\<close>

definition target_pd :: "kstate \<Rightarrow> addr \<Rightarrow> addr" where
  "target_pd s t = (if pageDirectory (proc s t) \<noteq> 0 \<and> pageDirectory (proc s t) \<noteq> cr3 s
     then pageDirectory (proc s t) else cr3 s)"

definition copyMessageToProcess :: "addr \<Rightarrow> addr \<Rightarrow> message \<Rightarrow> kstate \<Rightarrow> kstate option" where
  "copyMessageToProcess target dst m s = store_message (target_pd s target) dst m s"

text \<open>The chunked transfers: at most 256 bytes at a time through a buffer on the kernel stack.\<close>

function copy_chunks :: "addr \<Rightarrow> addr \<Rightarrow> addr \<Rightarrow> addr \<Rightarrow> nat \<Rightarrow> nat \<Rightarrow> bmem \<Rightarrow> bmem option" where
  "copy_chunks spd dpd dst src off len m =
     (if off < len
      then (let n = min 256 (len - off) in
        do { chunk \<leftarrow> load_user m spd (src + of_nat off) n;
             m \<leftarrow> store_user dpd (dst + of_nat off) chunk m;
             copy_chunks spd dpd dst src (off + n) len m })
      else Some m)"
  by pat_completeness auto
termination by (relation "measure (\<lambda>(spd, dpd, dst, src, off, len, m). len - off)") auto

definition copyDataToProcess :: "addr \<Rightarrow> addr \<Rightarrow> addr \<Rightarrow> u32 \<Rightarrow> kstate \<Rightarrow> kstate option" where
  "copyDataToProcess target dst src len s =
     map_option (\<lambda>m. upd_mem m s)
       (if pageDirectory (proc s target) \<noteq> 0 \<and> pageDirectory (proc s target) \<noteq> cr3 s
        then copy_chunks (cr3 s) (pageDirectory (proc s target)) dst src 0 (unat len) (kmem s)
        else copy_user (cr3 s) dst src (unat len) (kmem s))"

definition copyDataFromProcess :: "addr \<Rightarrow> addr \<Rightarrow> addr \<Rightarrow> u32 \<Rightarrow> kstate \<Rightarrow> kstate option" where
  "copyDataFromProcess source dst src len s =
     map_option (\<lambda>m. upd_mem m s)
       (if pageDirectory (proc s source) \<noteq> 0 \<and> pageDirectory (proc s source) \<noteq> cr3 s
        then copy_chunks (pageDirectory (proc s source)) (cr3 s) dst src 0 (unat len) (kmem s)
        else copy_user (cr3 s) dst src (unat len) (kmem s))"

section \<open>Field updates\<close>

lemma upd_proc_fields [simp]:
  "mach (upd_proc a f s) = mach s" "kheap (upd_proc a f s) = kheap s" "frames (upd_proc a f s) = frames s"
  "procs (upd_proc a f s) = procs s" "curr (upd_proc a f s) = curr s" "ktask (upd_proc a f s) = ktask s"
  "nextPid (upd_proc a f s) = nextPid s" "cr3 (upd_proc a f s) = cr3 s"
  "proc (upd_proc a f s) = (proc s)(a := f (proc s a))"
  by (simp_all add: upd_proc_def)

lemma upd_frame_fields [simp]:
  "mach (upd_frame e f s) = mach s" "kheap (upd_frame e f s) = kheap s" "proc (upd_frame e f s) = proc s"
  "procs (upd_frame e f s) = procs s" "curr (upd_frame e f s) = curr s" "ktask (upd_frame e f s) = ktask s"
  "nextPid (upd_frame e f s) = nextPid s" "cr3 (upd_frame e f s) = cr3 s"
  by (simp_all add: upd_frame_def)

lemma upd_mem_fields [simp]:
  "kheap (upd_mem m s) = kheap s" "frames (upd_mem m s) = frames s" "proc (upd_mem m s) = proc s"
  "procs (upd_mem m s) = procs s" "curr (upd_mem m s) = curr s" "ktask (upd_mem m s) = ktask s"
  "nextPid (upd_mem m s) = nextPid s" "cr3 (upd_mem m s) = cr3 s" "kmem (upd_mem m s) = m"
  "pmm (mach (upd_mem m s)) = pmm (mach s)" "kdir (mach (upd_mem m s)) = kdir (mach s)"
  by (simp_all add: upd_mem_def)

end
