(* ===== verification/Processes.thy ===== *)
theory Processes
  imports Kernel_State Linked_List
begin

text \<open>
  The process manager, kernel/src/core/process.cpp: the send and notification queues, creation,
  spawning and destruction of processes, and the lookups.  A null pointer is 0.
\<close>

unbundle bit_operations_syntax

section \<open>Queues\<close>

definition sendQueuePush :: "addr \<Rightarrow> u32 \<Rightarrow> kstate \<Rightarrow> (bool \<times> kstate) option" where
  "sendQueuePush t senderPid s = do {
     (node, s) \<leftarrow> k_new SIZEOF_SendNode s;
     if node = 0 then Some (False, s)
     else Some (True, upd_proc t (\<lambda>p. p\<lparr>sendQueue := sendQueue p @ [(node, senderPid)]\<rparr>) s) }"

definition sendQueuePop :: "addr \<Rightarrow> kstate \<Rightarrow> (u32 \<times> kstate) option" where
  "sendQueuePop t s = (case sendQueue (proc s t) of
       [] \<Rightarrow> Some (0, s)
     | (node, spid) # q \<Rightarrow> do {
         s \<leftarrow> k_delete node (upd_proc t (\<lambda>p. p\<lparr>sendQueue := q\<rparr>) s);
         Some (spid, s) })"

text \<open>The destructor of the node frees the data buffer, then the node itself is freed.\<close>

definition delete_notify :: "notify_node \<Rightarrow> kstate \<Rightarrow> kstate option" where
  "delete_notify n s = do {
     s \<leftarrow> (if n_buf n \<noteq> 0 then k_delete (n_buf n) s else Some s);
     k_delete (n_addr n) s }"

definition notifyPush :: "addr \<Rightarrow> u32 \<Rightarrow> message \<Rightarrow> addr \<Rightarrow> u32 \<Rightarrow> kstate \<Rightarrow> (bool \<times> kstate) option" where
  "notifyPush t senderPid m data len s = do {
     (node, s) \<leftarrow> k_new SIZEOF_NotifyNode s;
     if node = 0 then Some (False, s)
     else if data \<noteq> 0 \<and> len > 0 then do {
       (buf, s) \<leftarrow> k_new len s;
       if buf = 0 then do { s \<leftarrow> k_delete node s; Some (False, s) }
       else do {
         bytes \<leftarrow> load_user (kmem s) (cr3 s) data (unat len);
         Some (True, upd_proc t (\<lambda>p. p\<lparr>notifyQueue := notifyQueue p @
           [\<lparr>n_addr = node, n_sender = senderPid, n_msg = m, n_buf = buf, n_data = bytes\<rparr>]\<rparr>) s) } }
     else Some (True, upd_proc t (\<lambda>p. p\<lparr>notifyQueue := notifyQueue p @
           [\<lparr>n_addr = node, n_sender = senderPid, n_msg = m, n_buf = 0, n_data = []\<rparr>]\<rparr>) s) }"

text \<open>\<^verbatim>\<open>notifyPop\<close>: \<open>None\<close> inside is the result \<^verbatim>\<open>false\<close>, otherwise the sender.\<close>

definition notifyPop :: "addr \<Rightarrow> addr \<Rightarrow> addr \<Rightarrow> u32 \<Rightarrow> kstate \<Rightarrow> (u32 option \<times> kstate) option" where
  "notifyPop t msg dataDst dataCapacity s = (case notifyQueue (proc s t) of
       [] \<Rightarrow> Some (None, s)
     | n # q \<Rightarrow> do {
         s \<leftarrow> Some (upd_proc t (\<lambda>p. p\<lparr>notifyQueue := q\<rparr>) s);
         s \<leftarrow> store_message (cr3 s) msg (n_msg n) s;
         s \<leftarrow> (if n_buf n \<noteq> 0 \<and> n_data n \<noteq> [] \<and> dataDst \<noteq> 0 \<and> dataCapacity > 0
               then map_option (\<lambda>m. upd_mem m s)
                      (store_user (cr3 s) dataDst (take (unat dataCapacity) (n_data n)) (kmem s))
               else Some s);
         s \<leftarrow> delete_notify n s;
         Some (Some (n_sender n), s) })"

section \<open>Lookups\<close>

definition getProc :: "u32 \<Rightarrow> kstate \<Rightarrow> addr" where
  "getProc p s = (case List.find (\<lambda>a. pid (proc s a) = p \<and> pstate (proc s a) \<noteq> Empty) (procs s) of
     None \<Rightarrow> 0 | Some a \<Rightarrow> a)"

definition getProcessCount :: "kstate \<Rightarrow> u32" where
  "getProcessCount s = of_nat (length (procs s))"

definition headProc :: "kstate \<Rightarrow> addr" where
  "headProc s = (case procs s of [] \<Rightarrow> 0 | a # _ \<Rightarrow> a)"

text \<open>The \<open>next\<close> pointer of a node in the list, 0 at the end.\<close>

fun next_in :: "addr list \<Rightarrow> addr \<Rightarrow> addr" where
  "next_in [] a = 0"
| "next_in [b] a = 0"
| "next_in (b # c # xs) a = (if b = a then c else next_in (c # xs) a)"

section \<open>Creation\<close>

definition fresh_process :: process where
  "fresh_process = \<lparr>pid = 0, pstate = Empty, r_eax = 0, r_ebx = 0, r_ecx = 0, r_edx = 0, r_esi = 0,
     r_edi = 0, r_ebp = 0, r_esp = 0, r_eip = 0, r_eflags = 0, r_cs = 0, r_ds = 0, pageDirectory = 0,
     kernelEsp = 0, heapBase = 0, heapBreak = 0, waitPid = 0, pmsg = zero_message, msgPtr = 0,
     dataPtr = 0, dataLen = 0, sendQueue = [], notifyQueue = []\<rparr>"

definition createProcess :: "u32 \<Rightarrow> u32 \<Rightarrow> u32 \<Rightarrow> u32 \<Rightarrow> u32 \<Rightarrow> kstate \<Rightarrow> (addr \<times> kstate) option" where
  "createProcess eip esp cs ds pd s = do {
     (p, s) \<leftarrow> k_new SIZEOF_Process s;
     if p = 0 then Some (0, s)
     else Some (p, s\<lparr>proc := (proc s)(p := fresh_process\<lparr>pid := nextPid s, pstate := Ready, r_eip := eip,
                       r_esp := esp, r_cs := cs, r_ds := ds, r_eflags := 0x202, pageDirectory := pd\<rparr>),
                     nextPid := nextPid s + 1, procs := seq_push_back p (procs s)\<rparr>) }"

definition initial_frame :: "u32 \<Rightarrow> sysframe" where
  "initial_frame ds = \<lparr>f_gs = ds, f_fs = ds, f_es = ds, f_ds = ds, f_edi = 0, f_esi = 0, f_ebp = 0,
     f_esp_pusha = 0, f_ebx = 0, f_edx = 0, f_ecx = 0, f_eax = 0\<rparr>"

text \<open>Nineteen words are pushed: the registers, the vector and error code, and the iret frame.\<close>

definition spawn :: "u32 \<Rightarrow> u32 \<Rightarrow> u32 \<Rightarrow> u32 \<Rightarrow> u32 \<Rightarrow> kstate \<Rightarrow> (addr \<times> kstate) option" where
  "spawn pd entryPt heapStart userCS userDS s =
     (let (userStackFrame, q) = allocFrame (pmm (mach s)); s = s\<lparr>mach := (mach s)\<lparr>pmm := q\<rparr>\<rparr> in
      if userStackFrame = 0 then Some (0, s)
      else (let s = s\<lparr>mach := mapUserPage pd 0xBFFFF000 userStackFrame 7 (mach s)\<rparr>;
                (kernelStackFrame, q) = allocFrame (pmm (mach s)); s = s\<lparr>mach := (mach s)\<lparr>pmm := q\<rparr>\<rparr> in
        if kernelStackFrame = 0 then Some (0, s)
        else (let top = kernelStackFrame + KERNEL_VBASE + FRAME_SIZE; frame = top - 19 * 4;
                  s = s\<lparr>frames := (frames s)(frame := initial_frame userDS)\<rparr>
          in do {
            (p, s) \<leftarrow> createProcess entryPt frame userCS userDS pd s;
            if p = 0 then Some (0, s\<lparr>mach := (mach s)\<lparr>pmm := freeFrame kernelStackFrame (pmm (mach s))\<rparr>\<rparr>)
            else Some (p, upd_proc p (\<lambda>x. x\<lparr>kernelEsp := top, heapBase := heapStart, heapBreak := heapStart\<rparr>) s) })))"

section \<open>Destruction\<close>

text \<open>Wake one sender: its \<^verbatim>\<open>send\<close> returns -1.\<close>

definition fail_sender :: "u32 \<Rightarrow> kstate \<Rightarrow> kstate" where
  "fail_sender spid s =
     (let a = getProc spid s in
      if a \<noteq> 0 \<and> pstate (proc s a) = SendBlocked
      then set_pstate a Ready (if r_esp (proc s a) \<ge> 0xC0000000 then set_eax (r_esp (proc s a)) (- 1) s else s)
      else s)"

fun drain_senders :: "(addr \<times> u32) list \<Rightarrow> kstate \<Rightarrow> kstate option" where
  "drain_senders [] s = Some s"
| "drain_senders ((node, spid) # q) s = do { s \<leftarrow> k_delete node (fail_sender spid s); drain_senders q s }"

definition wake_waiter :: "u32 \<Rightarrow> addr \<Rightarrow> kstate \<Rightarrow> kstate" where
  "wake_waiter p w s =
     (if pstate (proc s w) = WaitBlocked \<and> waitPid (proc s w) = p
      then set_pstate w Ready (if r_esp (proc s w) \<ge> 0xC0000000 then set_eax (r_esp (proc s w)) 0 s else s)
      else s)"

fun drain_notifies :: "notify_node list \<Rightarrow> kstate \<Rightarrow> kstate option" where
  "drain_notifies [] s = Some s"
| "drain_notifies (n # q) s = do { s \<leftarrow> delete_notify n s; drain_notifies q s }"

definition free_space :: "addr \<Rightarrow> kstate \<Rightarrow> kstate" where
  "free_space a s =
     (let s = (if pageDirectory (proc s a) \<noteq> 0
               then upd_proc a (\<lambda>p. p\<lparr>pageDirectory := 0\<rparr>)
                      (s\<lparr>mach := destroyAddressSpace (pageDirectory (proc s a)) (mach s)\<rparr>)
               else s)
      in if kernelEsp (proc s a) \<noteq> 0
         then upd_proc a (\<lambda>p. p\<lparr>kernelEsp := 0\<rparr>)
                (s\<lparr>mach := (mach s)\<lparr>pmm := freeFrame (kernelEsp (proc s a) - KERNEL_VBASE - FRAME_SIZE)
                                             (pmm (mach s))\<rparr>\<rparr>)
         else s)"

definition destroy :: "u32 \<Rightarrow> kstate \<Rightarrow> kstate option" where
  "destroy p s =
     (if p = 0 then Some s
      else (let a = getProc p s in
        if a = 0 then Some s
        else do {
          q \<leftarrow> Some (sendQueue (proc s a));
          s \<leftarrow> drain_senders q (upd_proc a (\<lambda>x. x\<lparr>sendQueue := []\<rparr>) s);
          s \<leftarrow> Some (fold (wake_waiter p) (procs s) s);
          n \<leftarrow> Some (notifyQueue (proc s a));
          s \<leftarrow> drain_notifies n (upd_proc a (\<lambda>x. x\<lparr>notifyQueue := []\<rparr>) s);
          s \<leftarrow> Some (free_space a s);
          (_, ps) \<leftarrow> seq_remove a (procs s);
          k_delete a (s\<lparr>procs := ps\<rparr>) }))"

end
