(* ===== verification/Scheduler.thy ===== *)
theory Scheduler
  imports Processes
begin

text \<open>
  The preemptive round-robin scheduler, kernel/src/core/scheduler.cpp, and the timer that
  drives it, kernel/src/hardware/pit.cpp.  The search for the next ready process is the
  pointer walk of the code, wrapping at the end of the list; it is shown to return on every
  list that contains the current process, and to be the first ready process in cyclic order.
\<close>

unbundle bit_operations_syntax

section \<open>Operations\<close>

definition DEFAULT_TIME_SLICE :: u32 where "DEFAULT_TIME_SLICE = 10"

definition after :: "kstate \<Rightarrow> addr \<Rightarrow> addr" where
  "after s c = (if next_in (procs s) c = 0 then headProc s else next_in (procs s) c)"

partial_function (option) find_ready_loop :: "kstate \<Rightarrow> addr \<Rightarrow> addr \<Rightarrow> addr option" where
  "find_ready_loop s candidate current =
     (if candidate = current then Some current
      else if pstate (proc s candidate) = Ready then Some candidate
      else find_ready_loop s (after s candidate) current)"

definition findNextReady :: "addr \<Rightarrow> kstate \<Rightarrow> addr option" where
  "findNextReady current s = find_ready_loop s (after s current) current"

text \<open>What loading a process does to the processor: the page directory and the kernel stack.\<close>

definition load_tss :: "addr \<Rightarrow> kstate \<Rightarrow> kstate" where
  "load_tss next s = (if gdtSet s \<and> kernelEsp (proc s next) \<noteq> 0
     then s\<lparr>tssEsp0 := kernelEsp (proc s next)\<rparr> else s)"

definition switchTo :: "addr \<Rightarrow> addr \<Rightarrow> u32 \<Rightarrow> kstate \<Rightarrow> u32 \<times> kstate" where
  "switchTo next current currentEsp s =
     (let s = upd_proc current (\<lambda>p. p\<lparr>r_esp := currentEsp\<rparr>) s;
          s = set_pstate next Running s;
          s = (if pageDirectory (proc s next) \<noteq> pageDirectory (proc s current) \<and> pageDirectory (proc s next) \<noteq> 0
               then s\<lparr>cr3 := pageDirectory (proc s next)\<rparr> else s);
          s = load_tss next s
      in (r_esp (proc s next), s\<lparr>curr := next\<rparr>))"

definition schedule :: "u32 \<Rightarrow> kstate \<Rightarrow> (u32 \<times> kstate) option" where
  "schedule currentEsp s =
     (if getProcessCount s \<le> 1 then Some (currentEsp, s)
      else (let s = s\<lparr>tickCount := tickCount s + 1\<rparr> in
        if tickCount s < timeSlice s then Some (currentEsp, s)
        else (let s = s\<lparr>tickCount := 0\<rparr>;
                  current = curr s;
                  s = (if pstate (proc s current) = Running then set_pstate current Ready s else s)
              in map_option (\<lambda>next. switchTo next current currentEsp s) (findNextReady current s))))"

definition reschedule :: "u32 \<Rightarrow> kstate \<Rightarrow> (u32 \<times> kstate) option" where
  "reschedule currentEsp s =
     (if getProcessCount s \<le> 1 then Some (currentEsp, s)
      else map_option (\<lambda>next. switchTo next (curr s) currentEsp (s\<lparr>tickCount := 0\<rparr>)) (findNextReady (curr s) s))"

definition exitCurrent :: "u32 \<Rightarrow> kstate \<Rightarrow> (u32 \<times> kstate) option" where
  "exitCurrent currentEsp s = do {
     next \<leftarrow> findNextReady (curr s) s;
     next \<leftarrow> Some (if next = curr s then headProc s else next);
     s \<leftarrow> destroy (pid (proc s (curr s))) s;
     s \<leftarrow> Some (set_pstate next Running s);
     s \<leftarrow> Some (if pageDirectory (proc s next) \<noteq> 0 then s\<lparr>cr3 := pageDirectory (proc s next)\<rparr> else s);
     s \<leftarrow> Some (load_tss next s);
     Some (r_esp (proc s next), s\<lparr>curr := next, tickCount := 0\<rparr>) }"

definition scheduler_reset :: "kstate \<Rightarrow> kstate" where
  "scheduler_reset s = s\<lparr>tickCount := 0\<rparr>"

definition pit_handleInterrupt :: "u32 \<Rightarrow> kstate \<Rightarrow> (u32 \<times> kstate) option" where
  "pit_handleInterrupt esp s = schedule esp (s\<lparr>ticks := ticks s + 1\<rparr>)"

definition PIT_FREQUENCY :: u32 where "PIT_FREQUENCY = 1000"
definition PIT_DIVISOR :: u16 where "PIT_DIVISOR = 1193182 div 1000"

text \<open>The bytes \<^verbatim>\<open>activate\<close> writes: the command, then the divisor, low byte first.\<close>

definition pit_activate :: "u8 \<times> u8 list" where
  "pit_activate = (0x34, [ucast (PIT_DIVISOR AND 0xFF), ucast (drop_bit 8 PIT_DIVISOR AND 0xFF)])"

text \<open>
  \<^verbatim>\<open>sleep\<close> spins until the tick counter reaches the target; the counter values it reads
  are the argument \<open>reads\<close>, and the result is how many it needed (\<open>None\<close>: not reached).
\<close>

fun spin_until :: "u32 \<Rightarrow> u32 list \<Rightarrow> nat option" where
  "spin_until target [] = None"
| "spin_until target (t # ts) = (if t < target then map_option Suc (spin_until target ts) else Some 0)"

definition sleep_target :: "u32 \<Rightarrow> u32 \<Rightarrow> u32" where
  "sleep_target now ms = now + (ms * PIT_FREQUENCY) div 1000"

definition pit_sleep :: "u32 \<Rightarrow> u32 list \<Rightarrow> nat option" where
  "pit_sleep ms reads = (case reads of [] \<Rightarrow> None | now # ts \<Rightarrow> spin_until (sleep_target now ms) ts)"

section \<open>The walk is round robin\<close>

lemma next_in_mid: "distinct (us @ c # d # vs) \<Longrightarrow> next_in (us @ c # d # vs) c = d"
proof (induction us)
  case (Cons u us)
  then show ?case by (cases us) auto
qed simp

lemma next_in_last: "c \<notin> set us \<Longrightarrow> next_in (us @ [c]) c = 0"
proof (induction us)
  case (Cons u us)
  then show ?case by (cases us) auto
qed simp

lemma after_mid: "procs s = us @ c # d # vs \<Longrightarrow> distinct (procs s) \<Longrightarrow> 0 \<notin> set (procs s) \<Longrightarrow> after s c = d"
  using next_in_mid [of us c d vs] by (auto simp: after_def)

lemma after_last: "procs s = us @ [c] \<Longrightarrow> distinct (procs s) \<Longrightarrow> after s c = hd (procs s)"
  using next_in_last [of c us] by (auto simp: after_def headProc_def split: list.split)

text \<open>The first ready process in a list of candidates.\<close>

definition first_ready :: "kstate \<Rightarrow> addr list \<Rightarrow> addr option" where
  "first_ready s = List.find (\<lambda>a. pstate (proc s a) = Ready)"

lemma first_ready_simps [simp]:
  "first_ready s [] = None"
  "first_ready s (a # as) = (if pstate (proc s a) = Ready then Some a else first_ready s as)"
  by (simp_all add: first_ready_def)

lemma first_ready_append:
  "first_ready s (xs @ ys) = (case first_ready s xs of None \<Rightarrow> first_ready s ys | Some a \<Rightarrow> Some a)"
  by (induction xs) auto

lemma first_ready_Some: "first_ready s as = Some a \<Longrightarrow> a \<in> set as \<and> pstate (proc s a) = Ready"
  by (induction as) (auto split: if_splits)

lemma first_ready_None: "first_ready s as = None \<longleftrightarrow> (\<forall>a \<in> set as. pstate (proc s a) \<noteq> Ready)"
  by (induction as) auto

lemma loop_to_current:
  assumes "procs s = pre @ mid @ current # post" "distinct (procs s)" "0 \<notin> set (procs s)"
  shows "find_ready_loop s (hd (mid @ [current])) current =
    Some (case first_ready s mid of None \<Rightarrow> current | Some a \<Rightarrow> a)"
  using assms
proof (induction mid arbitrary: pre)
  case Nil
  then show ?case by (simp add: find_ready_loop.simps)
next
  case (Cons c mid)
  have ne: "c \<noteq> current" using Cons.prems by auto
  have "after s c = hd (mid @ [current])"
    using after_mid [of s pre c "hd (mid @ [current])" "tl (mid @ [current]) @ post"] Cons.prems
    by (cases mid) auto
  then show ?case
    using Cons.IH [of "pre @ [c]"] Cons.prems ne by (subst find_ready_loop.simps) auto
qed

lemma loop_to_end:
  assumes "procs s = pre @ mid" "mid \<noteq> []" "current \<notin> set mid" "distinct (procs s)" "0 \<notin> set (procs s)"
  shows "find_ready_loop s (hd mid) current =
    (case first_ready s mid of None \<Rightarrow> find_ready_loop s (hd (procs s)) current | Some a \<Rightarrow> Some a)"
  using assms
proof (induction mid arbitrary: pre)
  case (Cons c mid)
  have ne: "c \<noteq> current" using Cons.prems by auto
  show ?case
  proof (cases mid)
    case Nil
    then show ?thesis using ne after_last [of s pre c] Cons.prems by (subst find_ready_loop.simps) auto
  next
    case (Cons d mid')
    then have "after s c = d" using after_mid [of s pre c d mid'] Cons.prems by auto
    then show ?thesis
      using Cons.IH [of "pre @ [c]"] Cons.prems ne Cons by (subst find_ready_loop.simps) auto
  qed
qed simp

lemma findNextReady_cyclic:
  assumes "procs s = us @ current # vs" "distinct (procs s)" "0 \<notin> set (procs s)"
  shows "findNextReady current s =
    Some (case first_ready s (vs @ us) of None \<Rightarrow> current | Some a \<Rightarrow> a)"
proof -
  have wrap: "find_ready_loop s (hd (procs s)) current =
      Some (case first_ready s us of None \<Rightarrow> current | Some a \<Rightarrow> a)"
    using loop_to_current [of s "[]" us current vs] assms by (cases us) auto
  show ?thesis
  proof (cases vs)
    case Nil
    then show ?thesis using wrap after_last [of s us current] assms by (simp add: findNextReady_def)
  next
    case (Cons v vs')
    then have "after s current = hd vs" using after_mid [of s us current v vs'] assms by simp
    moreover have "find_ready_loop s (hd vs) current =
        (case first_ready s vs of None \<Rightarrow> find_ready_loop s (hd (procs s)) current | Some a \<Rightarrow> Some a)"
      using loop_to_end [of s "us @ [current]" vs current] assms Cons by auto
    ultimately show ?thesis using wrap by (auto simp: findNextReady_def first_ready_append split: option.split)
  qed
qed

end
