(* ===== verification/Irq.thy ===== *)
theory Irq
  imports Scheduler
begin

text \<open>
  The interrupt manager, kernel/src/hardware/irq.cpp: in-kernel handlers, end of interrupt,
  and the forwarding of IRQs to user processes as messages, with a pending flag per line when
  the registered process is not waiting.
\<close>

unbundle bit_operations_syntax

definition IRQ_OFFSET :: u8 where "IRQ_OFFSET = 0x20"
definition IrqNotify :: u32 where "IrqNotify = 1"

definition irq_message :: "u8 \<Rightarrow> message" where
  "irq_message irq = zero_message\<lparr>mtype := IrqNotify, arg1 := ucast irq\<rparr>"

text \<open>The writes that remap the two controllers and unmask all lines.\<close>

definition pic_remap :: "kstate \<Rightarrow> kstate" where
  "pic_remap s = fold (\<lambda>(p, b). port_write p b)
     [(0x20, 0x11), (0xA0, 0x11), (0x21, IRQ_OFFSET), (0xA1, IRQ_OFFSET + 8),
      (0x21, 0x04), (0xA1, 0x02), (0x21, 0x01), (0xA1, 0x01), (0x21, 0x00), (0xA1, 0x00)] s"

definition run_handler :: "u8 \<Rightarrow> u32 \<Rightarrow> kstate \<Rightarrow> (u32 \<times> kstate) option" where
  "run_handler irq esp s =
     (if irq < 16 then (case handlers s (unat irq) of
        Some PitHandler \<Rightarrow> pit_handleInterrupt esp s | None \<Rightarrow> Some (esp, s))
      else Some (esp, s))"

definition forward_irq :: "u8 \<Rightarrow> kstate \<Rightarrow> kstate option" where
  "forward_irq irq s =
     (if irq < 16 \<and> forwardPid s (unat irq) \<noteq> 0
      then (let t = getProc (forwardPid s (unat irq)) s in
        if t \<noteq> 0 \<and> pstate (proc s t) = ReceiveBlocked
        then do {
          s \<leftarrow> copyMessageToProcess t (msgPtr (proc s t)) (irq_message irq) s;
          Some (set_pstate t Ready (set_eax (r_esp (proc s t)) 0 s)) }
        else if t \<noteq> 0 then Some (s\<lparr>pendingIrq := (pendingIrq s)(unat irq := True)\<rparr>)
        else Some s)
      else Some s)"

definition handleIrq :: "u8 \<Rightarrow> u32 \<Rightarrow> kstate \<Rightarrow> (u32 \<times> kstate) option" where
  "handleIrq number esp s =
     (let irq = number - IRQ_OFFSET in do {
        (esp, s) \<leftarrow> run_handler irq esp s;
        s \<leftarrow> Some (port_write 0x20 0x20 s);
        s \<leftarrow> Some (if irq \<ge> 8 then port_write 0xA0 0x20 s else s);
        s \<leftarrow> forward_irq irq s;
        Some (esp, s) })"

definition registerForward :: "u8 \<Rightarrow> u32 \<Rightarrow> kstate \<Rightarrow> u32 \<times> kstate" where
  "registerForward irq p s =
     (if irq \<ge> 16 then (- 1, s) else (0, s\<lparr>forwardPid := (forwardPid s)(unat irq := p)\<rparr>))"

text \<open>The first pending line forwarded to the process.\<close>

definition pending_line :: "u32 \<Rightarrow> kstate \<Rightarrow> nat option" where
  "pending_line p s = List.find (\<lambda>i. forwardPid s i = p \<and> pendingIrq s i) [0..<16]"

definition deliverPending :: "u32 \<Rightarrow> addr \<Rightarrow> kstate \<Rightarrow> (bool \<times> kstate) option" where
  "deliverPending p msg s = (case pending_line p s of
       None \<Rightarrow> Some (False, s)
     | Some i \<Rightarrow> do {
         s \<leftarrow> store_message (cr3 s) msg (irq_message (of_nat i)) (s\<lparr>pendingIrq := (pendingIrq s)(i := False)\<rparr>);
         Some (True, s) })"

definition registerHandler :: "u8 \<Rightarrow> irq_handler \<Rightarrow> kstate \<Rightarrow> kstate" where
  "registerHandler irq h s = (if irq < 16 then s\<lparr>handlers := (handlers s)(unat irq := Some h)\<rparr> else s)"

definition unregisterHandler :: "u8 \<Rightarrow> kstate \<Rightarrow> kstate" where
  "unregisterHandler irq s = (if irq < 16 then s\<lparr>handlers := (handlers s)(unat irq := None)\<rparr> else s)"

end
