(* ===== verification/Syscalls.thy ===== *)
theory Syscalls
  imports Irq Elf
begin

text \<open>
  The system calls, kernel/src/core/syscall.cpp: rendezvous message passing (send, receive,
  reply) with optional bulk data, fire-and-forget notifications, device mapping, process
  creation and waiting, the heap break, and the dispatch on the saved register frame.
  Results are the 32-bit values left in EAX.
\<close>

unbundle bit_operations_syntax

section \<open>Message passing\<close>

text \<open>Bulk data moves when both sides name a buffer; the shorter length wins.\<close>

definition deliver_data :: "addr \<Rightarrow> addr \<Rightarrow> u32 \<Rightarrow> kstate \<Rightarrow> kstate option" where
  "deliver_data target data len s =
     (let t = proc s target in
      if data \<noteq> 0 \<and> len > 0 \<and> dataPtr t \<noteq> 0 \<and> dataLen t > 0
      then copyDataToProcess target (dataPtr t) data (if len < dataLen t then len else dataLen t) s
      else Some s)"

definition sys_send :: "u32 \<Rightarrow> addr \<Rightarrow> u32 \<Rightarrow> u32 \<Rightarrow> kstate \<Rightarrow> (u32 \<times> kstate) option" where
  "sys_send targetPid msg data len s =
     (let sender = curr s; target = getProc targetPid s in
      if target = 0 \<or> target = sender then Some (- 1, s)
      else do {
        m \<leftarrow> load_message (cr3 s) msg s;
        s \<leftarrow> Some (upd_proc sender (\<lambda>p. p\<lparr>pmsg := m, msgPtr := msg, dataPtr := data, dataLen := len\<rparr>) s);
        if pstate (proc s target) = ReceiveBlocked
        then do {
          s \<leftarrow> copyMessageToProcess target (msgPtr (proc s target)) m s;
          s \<leftarrow> deliver_data target data len s;
          s \<leftarrow> Some (set_pstate target Ready (set_eax (r_esp (proc s target)) (pid (proc s sender)) s));
          Some (0, set_pstate sender SendBlocked s) }
        else do {
          (ok, s) \<leftarrow> sendQueuePush target (pid (proc s sender)) s;
          if \<not> ok then Some (- 1, s) else Some (0, set_pstate sender SendBlocked s) } })"

definition sys_receive :: "addr \<Rightarrow> u32 \<Rightarrow> u32 \<Rightarrow> kstate \<Rightarrow> (u32 \<times> kstate) option" where
  "sys_receive msg data cap s =
     (let r = curr s in do {
        s \<leftarrow> Some (upd_proc r (\<lambda>p. p\<lparr>dataPtr := data, dataLen := cap\<rparr>) s);
        (irq, s) \<leftarrow> deliverPending (pid (proc s r)) msg s;
        if irq then Some (- 2, s)
        else do {
          (note, s) \<leftarrow> notifyPop r msg data cap s;
          if note \<noteq> None then Some (- 3, s)
          else if sendQueue (proc s r) \<noteq> []
          then do {
            (spid, s) \<leftarrow> sendQueuePop r s;
            sender \<leftarrow> Some (getProc spid s);
            if sender = 0 then Some (- 1, s)
            else do {
              s \<leftarrow> store_message (cr3 s) msg (pmsg (proc s sender)) s;
              sp \<leftarrow> Some (proc s sender);
              s \<leftarrow> (if dataPtr sp \<noteq> 0 \<and> dataLen sp > 0 \<and> data \<noteq> 0 \<and> cap > 0
                    then copyDataFromProcess sender data (dataPtr sp) (if dataLen sp < cap then dataLen sp else cap) s
                    else Some s);
              Some (spid, s) } }
          else Some (0, set_pstate r ReceiveBlocked (upd_proc r (\<lambda>p. p\<lparr>msgPtr := msg\<rparr>) s)) } })"

definition sys_reply :: "u32 \<Rightarrow> addr \<Rightarrow> u32 \<Rightarrow> u32 \<Rightarrow> kstate \<Rightarrow> (u32 \<times> kstate) option" where
  "sys_reply targetPid msg data len s =
     (let target = getProc targetPid s in
      if target = 0 \<or> pstate (proc s target) \<noteq> SendBlocked then Some (- 1, s)
      else do {
        m \<leftarrow> load_message (cr3 s) msg s;
        s \<leftarrow> copyMessageToProcess target (msgPtr (proc s target)) m s;
        s \<leftarrow> deliver_data target data len s;
        Some (0, set_pstate target Ready (set_eax (r_esp (proc s target)) 0 s)) })"

definition sys_notify :: "u32 \<Rightarrow> addr \<Rightarrow> u32 \<Rightarrow> u32 \<Rightarrow> kstate \<Rightarrow> (u32 \<times> kstate) option" where
  "sys_notify targetPid msg data len s =
     (let sender = curr s; target = getProc targetPid s in
      if target = 0 \<or> target = sender then Some (- 1, s)
      else do {
        m \<leftarrow> load_message (cr3 s) msg s;
        if pstate (proc s target) = ReceiveBlocked
        then do {
          s \<leftarrow> copyMessageToProcess target (msgPtr (proc s target)) m s;
          s \<leftarrow> deliver_data target data len s;
          Some (0, set_pstate target Ready (set_eax (r_esp (proc s target)) 0 s)) }
        else do {
          (ok, s) \<leftarrow> notifyPush target (pid (proc s sender)) m data len s;
          if ok then Some (0, s) else Some (- 1, s) } })"

section \<open>Devices, time and information\<close>

definition sys_write :: "u32 \<Rightarrow> addr \<Rightarrow> u32 \<Rightarrow> kstate \<Rightarrow> (u32 \<times> kstate) option" where
  "sys_write fd buf len s =
     (if fd = 2 then do {
        bytes \<leftarrow> load_user (kmem s) (cr3 s) buf (unat len);
        Some (len, s\<lparr>serialOut := serialOut s @ bytes\<rparr>) }
      else Some (- 1, s))"

definition sys_mapDevice :: "u32 \<Rightarrow> u32 \<Rightarrow> u32 \<Rightarrow> kstate \<Rightarrow> u32 \<times> kstate" where
  "sys_mapDevice physical virt pages s =
     (let pd = pageDirectory (proc s (curr s)); size = pages * 0x1000; endVirt = virt + size in
      if curr s = 0 \<or> pd = 0 then (- 1, s)
      else if pages = 0 \<or> pages > 0x10000 then (- 1, s)
      else if physical + size < physical then (- 1, s)
      else if endVirt < virt \<or> endVirt > KERNEL_VBASE then (- 1, s)
      else (0, s\<lparr>mach := fold (\<lambda>i. mapUserPage pd (virt + of_nat i * 0x1000) (physical + of_nat i * 0x1000) 7)
                   [0..<unat pages] (mach s)\<rparr>))"

definition sys_uptime :: "kstate \<Rightarrow> u32" where
  "sys_uptime s = ticks s"

text \<open>\<^verbatim>\<open>sleep\<close> lets other interrupts run; its effect on this state is only the delay.\<close>

definition sys_reboot :: "kstate \<Rightarrow> kstate" where
  "sys_reboot s = port_write 0x64 0xFE s\<lparr>power := ResetRequested\<rparr>"

definition sys_shutdown :: "kstate \<Rightarrow> kstate" where
  "sys_shutdown s = s\<lparr>power := PowerOff\<rparr>"

definition sys_memInfo :: "kstate \<Rightarrow> u32 \<times> u32 \<times> u32" where
  "sys_memInfo s = (getTotalFrames (pmm (mach s)), getUsedFrames (pmm (mach s)), getFreeFrames (pmm (mach s)))"

section \<open>Processes\<close>

definition sys_exec :: "addr \<Rightarrow> u32 \<Rightarrow> kstate \<Rightarrow> (u32 \<times> kstate) option" where
  "sys_exec elfPtr elfSize s =
     (if elfPtr = 0 \<or> elfSize = 0 then Some (0, s)
      else if curr s = 0 then Some (0, s)
      else do {
        (elfBuf, s) \<leftarrow> k_new elfSize s;
        if elfBuf = 0 then Some (0, s)
        else do {
          bytes \<leftarrow> load_user (kmem s) (cr3 s) elfPtr (unat elfSize);
          s \<leftarrow> Some (upd_mem (store_bytes (kmem s) (elfBuf - KERNEL_VBASE) bytes) s);
          (pd, m) \<leftarrow> Some (createAddressSpace (mach s));
          s \<leftarrow> Some (s\<lparr>mach := m\<rparr>);
          if pd = 0 then do { s \<leftarrow> k_delete elfBuf s; Some (0, s) }
          else do {
            (elf, m) \<leftarrow> Some (elf_load pd elfBuf elfSize (mach s));
            s \<leftarrow> k_delete elfBuf (s\<lparr>mach := m\<rparr>);
            if \<not> success elf then Some (0, s\<lparr>mach := destroyAddressSpace pd (mach s)\<rparr>)
            else do {
              (child, s) \<leftarrow> spawn pd (entryPoint elf) (heapStart elf) (r_cs (proc s (curr s))) (r_ds (proc s (curr s))) s;
              if child = 0 then Some (0, s\<lparr>mach := destroyAddressSpace pd (mach s)\<rparr>)
              else Some (pid (proc s child), s) } } } })"

definition sys_waitpid :: "u32 \<Rightarrow> kstate \<Rightarrow> u32 \<times> kstate" where
  "sys_waitpid p s =
     (let target = getProc p s in
      if target = 0 \<or> target = curr s then (- 1, s)
      else (0, set_pstate (curr s) WaitBlocked (upd_proc (curr s) (\<lambda>x. x\<lparr>waitPid := p\<rparr>) s)))"

definition state_code :: "process_state \<Rightarrow> u32" where
  "state_code st = (case st of Empty \<Rightarrow> 0 | Ready \<Rightarrow> 1 | Running \<Rightarrow> 2 | SendBlocked \<Rightarrow> 3
     | ReceiveBlocked \<Rightarrow> 4 | WaitBlocked \<Rightarrow> 5)"

definition heap_size_of :: "process \<Rightarrow> u32" where
  "heap_size_of p = (if heapBreak p > heapBase p then heapBreak p - heapBase p else 0)"

definition proc_entry :: "process \<Rightarrow> u8 list" where
  "proc_entry p = word_bytes (pid p) @ word_bytes (state_code (pstate p)) @ word_bytes (heap_size_of p)"

fun procList_loop :: "addr list \<Rightarrow> addr \<Rightarrow> u32 \<Rightarrow> u32 \<Rightarrow> kstate \<Rightarrow> (u32 \<times> kstate) option" where
  "procList_loop [] buf maxEntries cnt s = Some (cnt, s)"
| "procList_loop (a # as) buf maxEntries cnt s =
     (if \<not> cnt < maxEntries then Some (cnt, s)
      else if pid (proc s a) = 0 then procList_loop as buf maxEntries cnt s
      else do {
        m \<leftarrow> store_user (cr3 s) (buf + 12 * cnt) (proc_entry (proc s a)) (kmem s);
        procList_loop as buf maxEntries (cnt + 1) (upd_mem m s) })"

definition sys_procList :: "addr \<Rightarrow> u32 \<Rightarrow> kstate \<Rightarrow> (u32 \<times> kstate) option" where
  "sys_procList buf maxEntries s = procList_loop (procs s) buf maxEntries 0 s"

abbreviation (input) USER_STACK_BOTTOM :: u32 where "USER_STACK_BOTTOM \<equiv> 0xBFFFF000"

text \<open>The loop of \<^verbatim>\<open>sbrk\<close> over the pages; \<open>False\<close> when no frame is left.\<close>

fun sbrk_loop :: "addr \<Rightarrow> addr list \<Rightarrow> machine \<Rightarrow> bool \<times> machine" where
  "sbrk_loop pd [] m = (True, m)"
| "sbrk_loop pd (a # as) m =
     (let (frame, q) = allocFrame (pmm m); m = m\<lparr>pmm := q\<rparr> in
      if frame = 0 then (False, m) else sbrk_loop pd as (mapUserPage pd a frame 7 m))"

definition sbrk_pages :: "u32 \<Rightarrow> u32 \<Rightarrow> addr list" where
  "sbrk_pages oldBreak newBreak =
     map (\<lambda>i. oldBreak + of_nat i * FRAME_SIZE) [0..<(unat newBreak - unat oldBreak + 4095) div 4096]"

definition sys_sbrk :: "u32 \<Rightarrow> kstate \<Rightarrow> u32 \<times> kstate" where
  "sys_sbrk increment s =
     (let oldBreak = heapBreak (proc s (curr s));
          newBreak = (oldBreak + increment + FRAME_SIZE - 1) AND NOT (FRAME_SIZE - 1) in
      if curr s = 0 \<or> oldBreak = 0 then (0, s)
      else if increment = 0 then (oldBreak, s)
      else if oldBreak + increment < oldBreak then (0, s)
      else if newBreak < oldBreak then (0, s)
      else if newBreak > USER_STACK_BOTTOM then (0, s)
      else (case sbrk_loop (pageDirectory (proc s (curr s))) (sbrk_pages oldBreak newBreak) (mach s) of
          (False, m) \<Rightarrow> (0, s\<lparr>mach := m\<rparr>)
        | (True, m) \<Rightarrow> (oldBreak, upd_proc (curr s) (\<lambda>p. p\<lparr>heapBreak := newBreak\<rparr>) (s\<lparr>mach := m\<rparr>))))"

section \<open>Dispatch\<close>

definition finish :: "u32 \<Rightarrow> u32 \<times> kstate \<Rightarrow> (u32 \<times> kstate) option" where
  "finish esp r = Some (esp, set_eax esp (fst r) (snd r))"

text \<open>A result of 0 means that the caller blocks, otherwise it is the return value.\<close>

definition finish_blocking :: "u32 \<Rightarrow> u32 \<times> kstate \<Rightarrow> (u32 \<times> kstate) option" where
  "finish_blocking esp r = (if fst r = 0 then reschedule esp (snd r) else finish esp r)"

definition handleSyscall :: "u32 \<Rightarrow> kstate \<Rightarrow> (u32 \<times> kstate) option" where
  "handleSyscall esp s =
     (let f = frames s esp; n = f_eax f in
      if n = 0 then do { r \<leftarrow> sys_send (f_ebx f) (f_ecx f) (f_esi f) (f_edi f) s; finish_blocking esp r }
      else if n = 1 then do {
        (r, s) \<leftarrow> sys_receive (f_ebx f) (f_esi f) (f_edi f) s;
        if r = - 2 \<or> r = - 3 then finish esp (0, s) else finish_blocking esp (r, s) }
      else if n = 2 then do { r \<leftarrow> sys_reply (f_ebx f) (f_ecx f) (f_esi f) (f_edi f) s; finish esp r }
      else if n = 3 then finish esp (registerForward (ucast (f_ebx f)) (pid (proc s (curr s))) s)
      else if n = 4 then do { r \<leftarrow> sys_write (f_ebx f) (f_ecx f) (f_edx f) s; finish esp r }
      else if n = 5 then finish esp (0, s)
      else if n = 6 then finish esp (sys_uptime s, s)
      else if n = 7 then Some (esp, sys_reboot s)
      else if n = 8 then Some (esp, sys_shutdown s)
      else if n = 9 then exitCurrent esp (port_write 0xF4 (if f_ebx f = 0 then 0x00 else 0x01) s)
      else if n = 10 then finish esp (sys_mapDevice (f_ebx f) (f_ecx f) (f_edx f) s)
      else if n = 11 then do { r \<leftarrow> sys_notify (f_ebx f) (f_ecx f) (f_esi f) (f_edi f) s; finish esp r }
      else if n = 12 then (case sys_memInfo s of (all, used, unused) \<Rightarrow>
        Some (esp, upd_frame esp (\<lambda>f. f\<lparr>f_eax := all, f_ebx := used, f_ecx := unused\<rparr>) s))
      else if n = 13 then finish esp (sys_sbrk (f_ebx f) s)
      else if n = 14 then do { r \<leftarrow> sys_procList (f_ebx f) (f_ecx f) s; finish esp r }
      else if n = 15 then do { r \<leftarrow> sys_exec (f_ebx f) (f_ecx f) s; finish esp r }
      else if n = 16 then finish_blocking esp (sys_waitpid (f_ebx f) s)
      else if n = 17 then Some (esp, upd_frame esp (\<lambda>f. f\<lparr>f_eax := fb_address (fbInfo s),
        f_ebx := fb_width (fbInfo s), f_ecx := fb_height (fbInfo s), f_edx := fb_pitch (fbInfo s),
        f_esi := fb_bpp (fbInfo s)\<rparr>) s)
      else finish esp (- 1, s))"

end
