(* ===== verification/Kernel_Inv.thy ===== *)
theory Kernel_Inv
  imports Syscalls
begin

text \<open>
  The invariant of the process table: the kernel task heads the list and is ready whenever
  it does not run, the current process is the only running one, identifiers are unique.
  Every operation of the process manager, the scheduler, the interrupt manager and the
  system calls keeps it.
\<close>

unbundle bit_operations_syntax

section \<open>The invariant\<close>

definition pbase :: "kstate \<Rightarrow> bool" where
  "pbase s \<longleftrightarrow> procs s \<noteq> [] \<and> hd (procs s) = ktask s \<and> distinct (procs s) \<and> 0 \<notin> set (procs s) \<and>
     pid (proc s (ktask s)) = 0 \<and>
     (\<forall>a \<in> set (procs s). a \<noteq> ktask s \<longrightarrow> pid (proc s a) \<noteq> 0 \<and> pid (proc s a) < nextPid s) \<and>
     inj_on (\<lambda>a. pid (proc s a)) (set (procs s)) \<and>
     (\<forall>a \<in> set (procs s). pstate (proc s a) \<noteq> Empty) \<and>
     (\<forall>a \<in> set (procs s). a \<noteq> curr s \<longrightarrow> pstate (proc s a) \<noteq> Running) \<and>
     pstate (proc s (ktask s)) \<in> {Ready, Running}"

definition pinv0 :: "kstate \<Rightarrow> bool" where
  "pinv0 s \<longleftrightarrow> pbase s \<and> curr s \<in> set (procs s)"

definition pinv :: "kstate \<Rightarrow> bool" where
  "pinv s \<longleftrightarrow> pinv0 s \<and> pstate (proc s (curr s)) = Running"

text \<open>What the invariant depends on.\<close>

definition pview :: "kstate \<Rightarrow> addr list \<times> addr \<times> addr \<times> u32 \<times> (addr \<Rightarrow> u32) \<times> (addr \<Rightarrow> process_state)" where
  "pview s = (procs s, curr s, ktask s, nextPid s, pid \<circ> proc s, pstate \<circ> proc s)"

lemma pview_eq:
  "pview s' = pview s \<longleftrightarrow> procs s' = procs s \<and> curr s' = curr s \<and> ktask s' = ktask s \<and> nextPid s' = nextPid s \<and>
     (\<forall>a. pid (proc s' a) = pid (proc s a)) \<and> (\<forall>a. pstate (proc s' a) = pstate (proc s a))"
  by (auto simp: pview_def fun_eq_iff)

lemma pbase_cong: "pview s' = pview s \<Longrightarrow> pbase s' = pbase s"
  by (simp add: pview_eq pbase_def)

lemma pinv0_cong: "pview s' = pview s \<Longrightarrow> pinv0 s' = pinv0 s"
  using pbase_cong [of s' s] by (simp add: pview_eq pinv0_def)

lemma pinv_cong: "pview s' = pview s \<Longrightarrow> pinv s' = pinv s"
  using pinv0_cong [of s' s] by (simp add: pinv_def pview_eq)

lemma pview_upd_mem [simp, kernel_frames]: "pview (upd_mem m s) = pview s"
  by (simp add: pview_eq)

lemma pview_upd_frame [simp, kernel_frames]: "pview (upd_frame e f s) = pview s"
  by (simp add: pview_eq)

lemma pview_set_eax [simp, kernel_frames]: "pview (set_eax e v s) = pview s"
  by (simp add: set_eax_def)

lemma pview_port_write [simp, kernel_frames]: "pview (port_write p b s) = pview s"
  by (simp add: pview_eq port_write_def)

lemma pview_upd_proc:
  "(\<And>p. pid (f p) = pid p \<and> pstate (f p) = pstate p) \<Longrightarrow> pview (upd_proc a f s) = pview s"
  by (simp add: pview_eq)

lemma pview_more [simp, kernel_frames]:
  "pview (s\<lparr>mach := m\<rparr>) = pview s" "pview (s\<lparr>kheap := h\<rparr>) = pview s" "pview (s\<lparr>cr3 := c\<rparr>) = pview s"
  "pview (s\<lparr>tssEsp0 := e\<rparr>) = pview s" "pview (s\<lparr>tickCount := t\<rparr>) = pview s" "pview (s\<lparr>ticks := t\<rparr>) = pview s"
  "pview (s\<lparr>forwardPid := fp\<rparr>) = pview s" "pview (s\<lparr>pendingIrq := pn\<rparr>) = pview s"
  "pview (s\<lparr>serialOut := o'\<rparr>) = pview s" "pview (s\<lparr>power := w\<rparr>) = pview s" "pview (s\<lparr>frames := fr\<rparr>) = pview s"
  by (simp_all add: pview_eq)

section \<open>Operations that only touch memory\<close>

lemma store_message_mem: "store_message pd va m s = Some s' \<Longrightarrow> \<exists>x. s' = upd_mem x s"
  by (auto simp: store_message_def)

lemma copyMessage_mem: "copyMessageToProcess t dst m s = Some s' \<Longrightarrow> \<exists>x. s' = upd_mem x s"
  by (simp add: copyMessageToProcess_def store_message_mem)

lemma copyDataTo_mem: "copyDataToProcess t dst src n s = Some s' \<Longrightarrow> \<exists>x. s' = upd_mem x s"
  by (auto simp: copyDataToProcess_def)

lemma copyDataFrom_mem: "copyDataFromProcess t dst src n s = Some s' \<Longrightarrow> \<exists>x. s' = upd_mem x s"
  by (auto simp: copyDataFromProcess_def)

lemma upd_mem_id: "upd_mem (kmem s) s = s"
  by (simp add: upd_mem_def)

lemma deliver_data_mem: "deliver_data t d n s = Some s' \<Longrightarrow> \<exists>x. s' = upd_mem x s"
  by (auto simp: deliver_data_def Let_def split: if_splits dest: copyDataTo_mem intro: upd_mem_id [symmetric])

lemmas mem_only = store_message_mem copyMessage_mem copyDataTo_mem copyDataFrom_mem deliver_data_mem

lemma mem_pview: "\<exists>x. s' = upd_mem x s \<Longrightarrow> pview s' = pview s"
  by auto

lemma k_new_heap: "k_new n s = Some (r, s') \<Longrightarrow> \<exists>h. s' = s\<lparr>kheap := h\<rparr>"
  by (auto simp: k_new_def)

lemma k_delete_heap: "k_delete p s = Some s' \<Longrightarrow> \<exists>h. s' = s\<lparr>kheap := h\<rparr>"
  by (auto simp: k_delete_def)

lemma k_new_pview [kernel_frames]: "k_new n s = Some (r, s') \<Longrightarrow> pview s' = pview s"
  using k_new_heap by fastforce

lemma k_delete_pview [kernel_frames]: "k_delete p s = Some s' \<Longrightarrow> pview s' = pview s"
  using k_delete_heap by fastforce

lemma bind_Some: "Option.bind x f = Some y \<longleftrightarrow> (\<exists>z. x = Some z \<and> f z = Some y)"
  by (cases x) auto

lemma sendQueuePush_pview [kernel_frames]: "sendQueuePush t p s = Some (ok, s') \<Longrightarrow> pview s' = pview s"
  by (auto simp: sendQueuePush_def bind_Some pview_upd_proc split: if_splits dest: k_new_pview)

lemma sendQueuePop_pview [kernel_frames]: "sendQueuePop t s = Some (p, s') \<Longrightarrow> pview s' = pview s"
  by (auto simp: sendQueuePop_def bind_Some pview_upd_proc split: list.splits dest!: k_delete_pview)

lemma delete_notify_pview [kernel_frames]: "delete_notify n s = Some s' \<Longrightarrow> pview s' = pview s"
  by (auto simp: delete_notify_def bind_Some split: if_splits dest!: k_delete_pview)

lemma notifyPush_pview [kernel_frames]: "notifyPush t p m d n s = Some (ok, s') \<Longrightarrow> pview s' = pview s"
  by (auto simp: notifyPush_def bind_Some pview_upd_proc split: if_splits dest!: k_delete_pview k_new_pview)

lemma notifyPop_pview [kernel_frames]: "notifyPop t msg d n s = Some (r, s') \<Longrightarrow> pview s' = pview s"
  by (auto simp: notifyPop_def bind_Some pview_upd_proc split: list.splits if_splits
      dest!: delete_notify_pview store_message_mem)

lemma deliverPending_pview [kernel_frames]: "deliverPending p msg s = Some (r, s') \<Longrightarrow> pview s' = pview s"
  by (auto simp: deliverPending_def bind_Some split: option.splits dest!: store_message_mem)

section \<open>Lookups and state changes\<close>

lemma set_pstate_fields [simp]:
  "procs (set_pstate t st s) = procs s" "curr (set_pstate t st s) = curr s" "ktask (set_pstate t st s) = ktask s"
  "nextPid (set_pstate t st s) = nextPid s" "kheap (set_pstate t st s) = kheap s" "cr3 (set_pstate t st s) = cr3 s"
  "mach (set_pstate t st s) = mach s" "frames (set_pstate t st s) = frames s"
  by (simp_all add: set_pstate_def)

lemma pid_set_pstate [simp]: "pid (proc (set_pstate t st s) a) = pid (proc s a)"
  by (simp add: set_pstate_def)

lemma pstate_set_pstate [simp]: "pstate (proc (set_pstate t st s) a) = (if a = t then st else pstate (proc s a))"
  by (simp add: set_pstate_def)

lemma pbaseD:
  assumes "pbase s"
  shows "procs s \<noteq> []" "hd (procs s) = ktask s" "distinct (procs s)" "0 \<notin> set (procs s)"
    "ktask s \<in> set (procs s)" "ktask s \<noteq> 0" "pid (proc s (ktask s)) = 0" "headProc s = ktask s"
    "\<And>a. a \<in> set (procs s) \<Longrightarrow> a \<noteq> ktask s \<Longrightarrow> pid (proc s a) \<noteq> 0 \<and> pid (proc s a) < nextPid s"
    "\<And>a b. a \<in> set (procs s) \<Longrightarrow> b \<in> set (procs s) \<Longrightarrow> pid (proc s a) = pid (proc s b) \<Longrightarrow> a = b"
    "\<And>a. a \<in> set (procs s) \<Longrightarrow> pstate (proc s a) \<noteq> Empty"
    "\<And>a. a \<in> set (procs s) \<Longrightarrow> a \<noteq> curr s \<Longrightarrow> pstate (proc s a) \<noteq> Running"
    "pstate (proc s (ktask s)) \<in> {Ready, Running}"
proof -
  show "procs s \<noteq> []" "hd (procs s) = ktask s" "distinct (procs s)" "0 \<notin> set (procs s)"
    "pid (proc s (ktask s)) = 0" "pstate (proc s (ktask s)) \<in> {Ready, Running}"
    "\<And>a. a \<in> set (procs s) \<Longrightarrow> a \<noteq> ktask s \<Longrightarrow> pid (proc s a) \<noteq> 0 \<and> pid (proc s a) < nextPid s"
    "\<And>a b. a \<in> set (procs s) \<Longrightarrow> b \<in> set (procs s) \<Longrightarrow> pid (proc s a) = pid (proc s b) \<Longrightarrow> a = b"
    "\<And>a. a \<in> set (procs s) \<Longrightarrow> pstate (proc s a) \<noteq> Empty"
    "\<And>a. a \<in> set (procs s) \<Longrightarrow> a \<noteq> curr s \<Longrightarrow> pstate (proc s a) \<noteq> Running"
    using assms by (auto simp: pbase_def inj_on_def)
  then show "ktask s \<in> set (procs s)" "ktask s \<noteq> 0" "headProc s = ktask s"
    by (metis list.set_sel(1), metis list.set_sel(1), metis headProc_def list.case_eq_if)
qed

lemma pbase_set_pstate [inv_intros]:
  assumes "pbase s" "t \<in> set (procs s)" "st \<noteq> Empty" "t \<noteq> curr s \<Longrightarrow> st \<noteq> Running"
    and "t = ktask s \<Longrightarrow> st \<in> {Ready, Running}"
  shows "pbase (set_pstate t st s)"
  using assms by (auto simp: pbase_def)

lemma pinv0_set_pstate [inv_intros]:
  assumes "pinv0 s" "t \<in> set (procs s)" "st \<noteq> Empty" "t \<noteq> curr s \<Longrightarrow> st \<noteq> Running"
    and "t = ktask s \<Longrightarrow> st \<in> {Ready, Running}"
  shows "pinv0 (set_pstate t st s)"
  using assms pbase_set_pstate [of s t st] by (auto simp: pinv0_def)

lemma getProc_Some:
  "getProc p s = a \<Longrightarrow> a \<noteq> 0 \<Longrightarrow> a \<in> set (procs s) \<and> pid (proc s a) = p \<and> pstate (proc s a) \<noteq> Empty"
  by (auto simp: getProc_def find_Some_iff in_set_conv_nth split: option.splits)

lemma getProc_pid:
  assumes "pbase s" "a \<in> set (procs s)"
  shows "getProc (pid (proc s a)) s = a"
proof (cases "List.find (\<lambda>b. pid (proc s b) = pid (proc s a) \<and> pstate (proc s b) \<noteq> Empty) (procs s)")
  case None
  then show ?thesis using assms pbaseD(11) [OF assms] by (auto simp: find_None_iff)
next
  case (Some b)
  then have "b \<in> set (procs s)" "pid (proc s b) = pid (proc s a)" by (auto simp: find_Some_iff)
  then have "b = a" using pbaseD(10) [OF assms(1) _ assms(2)] by blast
  with Some show ?thesis by (simp add: getProc_def)
qed

lemma getProc_cong: "pview s' = pview s \<Longrightarrow> getProc p s' = getProc p s"
  by (simp add: getProc_def pview_eq)

section \<open>Scheduling\<close>

lemma split_procs:
  assumes "c \<in> set (procs s)" "distinct (procs s)"
  obtains us vs where "procs s = us @ c # vs" "set (vs @ us) = set (procs s) - {c}"
proof -
  obtain us vs where e: "procs s = us @ c # vs" using split_list [OF assms(1)] by blast
  then have "set (vs @ us) = set (procs s) - {c}" using assms(2) by auto
  with e that show thesis by blast
qed

lemma findNextReady_total:
  assumes "pinv0 s"
  shows "\<exists>n \<in> set (procs s). findNextReady (curr s) s = Some n \<and>
    (n = curr s \<and> (\<forall>a \<in> set (procs s) - {curr s}. pstate (proc s a) \<noteq> Ready) \<or>
     n \<noteq> curr s \<and> pstate (proc s n) = Ready)"
proof -
  have b: "pbase s" "curr s \<in> set (procs s)" using assms by (auto simp: pinv0_def)
  obtain us vs where e: "procs s = us @ curr s # vs" and m: "set (vs @ us) = set (procs s) - {curr s}"
    using split_procs [OF b(2) pbaseD(3) [OF b(1)]] .
  note f = findNextReady_cyclic [OF e pbaseD(3,4) [OF b(1)]]
  show ?thesis
  proof (cases "first_ready s (vs @ us)")
    case None
    then have "\<forall>a \<in> set (procs s) - {curr s}. pstate (proc s a) \<noteq> Ready"
      using m by (auto simp: first_ready_None)
    moreover have "findNextReady (curr s) s = Some (curr s)" using f None by simp
    ultimately show ?thesis using b(2) by blast
  next
    case (Some n)
    from first_ready_Some [OF this] m have "n \<in> set (procs s) - {curr s}" "pstate (proc s n) = Ready" by auto
    then show ?thesis using f Some by auto
  qed
qed

text \<open>The kernel task is always there to fall back on.\<close>

lemma findNextReady_other:
  assumes "pinv0 s" "curr s \<noteq> ktask s"
  shows "\<exists>n \<in> set (procs s) - {curr s}. findNextReady (curr s) s = Some n \<and> pstate (proc s n) = Ready"
proof -
  have b: "pbase s" using assms by (simp add: pinv0_def)
  have "pstate (proc s (ktask s)) \<noteq> Running" using pbaseD(12) [OF b pbaseD(5) [OF b]] assms(2) by auto
  then have "pstate (proc s (ktask s)) = Ready" using pbaseD(13) [OF b] by auto
  then show ?thesis using findNextReady_total [OF assms(1)] pbaseD(5) [OF b] assms(2) by auto
qed

lemma load_tss_fields [simp]:
  "pview (load_tss n s) = pview s" "mach (load_tss n s) = mach s" "kheap (load_tss n s) = kheap s"
  "frames (load_tss n s) = frames s" "proc (load_tss n s) = proc s" "cr3 (load_tss n s) = cr3 s"
  "procs (load_tss n s) = procs s" "ktask (load_tss n s) = ktask s" "nextPid (load_tss n s) = nextPid s"
  by (simp_all add: load_tss_def pview_eq)

lemma switchTo_fields:
  "curr (snd (switchTo n c e s)) = n" "procs (snd (switchTo n c e s)) = procs s"
  "ktask (snd (switchTo n c e s)) = ktask s" "nextPid (snd (switchTo n c e s)) = nextPid s"
  "kheap (snd (switchTo n c e s)) = kheap s" "mach (snd (switchTo n c e s)) = mach s"
  "frames (snd (switchTo n c e s)) = frames s"
  "pid (proc (snd (switchTo n c e s)) a) = pid (proc s a)"
  "pstate (proc (snd (switchTo n c e s)) a) = (if a = n then Running else pstate (proc s a))"
  "sendQueue (proc (snd (switchTo n c e s)) a) = sendQueue (proc s a)"
  "notifyQueue (proc (snd (switchTo n c e s)) a) = notifyQueue (proc s a)"
  by (simp_all add: switchTo_def Let_def set_pstate_def upd_proc_def)

lemma switchTo_pinv:
  assumes "pinv0 s" "n \<in> set (procs s)" "n \<noteq> curr s \<Longrightarrow> pstate (proc s (curr s)) \<noteq> Running"
  shows "pinv (snd (switchTo n (curr s) e s))"
  using assms unfolding pinv_def pinv0_def pbase_def switchTo_fields by auto

lemma schedule_pinv:
  assumes "pinv s"
  shows "\<exists>e' s'. schedule e s = Some (e', s') \<and> pinv s' \<and> procs s' = procs s \<and> ktask s' = ktask s \<and>
    nextPid s' = nextPid s \<and> kheap s' = kheap s \<and>
    (\<forall>a. sendQueue (proc s' a) = sendQueue (proc s a) \<and> notifyQueue (proc s' a) = notifyQueue (proc s a))"
proof -
  have inv: "pinv0 s" "pstate (proc s (curr s)) = Running" using assms by (auto simp: pinv_def)
  let ?s1 = "s\<lparr>tickCount := tickCount s + 1\<rparr>" and ?s2 = "set_pstate (curr s) Ready (s\<lparr>tickCount := 0\<rparr>)"
  have "pinv0 (s\<lparr>tickCount := 0\<rparr>)" using inv(1) pinv0_cong [of "s\<lparr>tickCount := 0\<rparr>" s] by simp
  then have i2: "pinv0 ?s2" using inv by (intro pinv0_set_pstate) (auto simp: pinv0_def)
  from findNextReady_total [OF i2] obtain n where n: "n \<in> set (procs s)" "findNextReady (curr s) ?s2 = Some n"
    by auto
  have p: "pinv (snd (switchTo n (curr ?s2) e ?s2))" by (rule switchTo_pinv [OF i2]) (use n in auto)
  have i1: "pinv ?s1" using assms pinv_cong [of ?s1 s] by simp
  consider (one) "getProcessCount s \<le> 1" | (wait) "\<not> getProcessCount s \<le> 1" "tickCount s + 1 < timeSlice s"
    | (switch) "\<not> getProcessCount s \<le> 1" "\<not> tickCount s + 1 < timeSlice s" by blast
  then show ?thesis
  proof cases
    case one
    then show ?thesis using assms by (auto simp: schedule_def)
  next
    case wait
    then show ?thesis using i1 by (auto simp: schedule_def Let_def getProcessCount_def)
  next
    case switch
    then have "schedule e s = Some (switchTo n (curr s) e ?s2)"
      using n inv(2) by (simp add: schedule_def Let_def getProcessCount_def)
    then show ?thesis
      using p by (intro exI [of _ "fst (switchTo n (curr s) e ?s2)"] exI [of _ "snd (switchTo n (curr s) e ?s2)"])
        (simp add: switchTo_fields set_pstate_def)
  qed
qed

end
