(* ===== verification/User_Memory.thy ===== *)
theory User_Memory
  imports Kernel_State
begin

text \<open>
  User buffers seen through the page tables: what the kernel's loads, stores and chunked
  copies do to the bytes of a mapped buffer, and that they leave every address space's
  translations and all other bytes alone.
\<close>

section \<open>Mapped buffers\<close>

text \<open>The buffer at \<open>va\<close> in directory \<open>d\<close> lives at the physical addresses \<open>pas\<close>, in data frames.\<close>

definition ubuf :: "machine \<Rightarrow> addr set \<Rightarrow> addr \<Rightarrow> addr \<Rightarrow> addr list \<Rightarrow> bool" where
  "ubuf s D d va pas \<longleftrightarrow> (\<forall>i < length pas. va + of_nat i < KERNEL_VBASE \<and>
     translate (pmem s) d (va + of_nat i) = Some (pas ! i) \<and> outside s D (frame_no (pas ! i)))"

fun write_all :: "addr list \<Rightarrow> u8 list \<Rightarrow> bmem \<Rightarrow> bmem" where
  "write_all (p # ps) (b # bs) m = write_all ps bs (m(p := b))"
| "write_all ps bs m = m"

lemma ubuf_Cons:
  "ubuf s D d va (p # ps) \<longleftrightarrow> va < KERNEL_VBASE \<and> translate (pmem s) d va = Some p \<and>
     outside s D (frame_no p) \<and> ubuf s D d (va + 1) ps"
  unfolding ubuf_def by (auto simp: less_Suc_eq_0_disj add.assoc)

lemma ubuf_Nil [simp]: "ubuf s D d va []"
  by (simp add: ubuf_def)

lemma ubuf_append: "ubuf s D d va (ps @ qs) \<longleftrightarrow> ubuf s D d va ps \<and> ubuf s D d (va + of_nat (length ps)) qs"
  by (induction ps arbitrary: va) (auto simp: ubuf_Cons add.assoc)

lemma ubuf_slice:
  assumes "ubuf s D d va pas"
  shows "ubuf s D d (va + of_nat (min k (length pas))) (take n (drop k pas))"
proof -
  have "ubuf s D d va (take k pas @ take n (drop k pas) @ drop n (drop k pas))"
    using assms by (metis append_take_drop_id)
  then show ?thesis by (simp add: ubuf_append min.commute)
qed

lemma write_all_other: "x \<notin> set ps \<Longrightarrow> write_all ps bs m x = m x"
  by (induction ps bs m rule: write_all.induct) auto

lemma write_all_nth: "distinct ps \<Longrightarrow> i < length ps \<Longrightarrow> i < length bs \<Longrightarrow> write_all ps bs m (ps ! i) = bs ! i"
proof (induction ps bs m arbitrary: i rule: write_all.induct)
  case (1 p ps b bs m)
  then show ?case by (cases i) (auto simp: write_all_other fun_upd_def)
qed auto

lemma write_all_map: "distinct ps \<Longrightarrow> length bs = length ps \<Longrightarrow> map (write_all ps bs m) ps = bs"
  by (rule nth_equalityI) (simp_all add: write_all_nth)

lemma write_all_map_other: "set qs \<inter> set ps = {} \<Longrightarrow> map (write_all ps bs m) qs = map m qs"
  by (rule map_cong) (auto intro!: write_all_other)

lemma write_all_append:
  "length ps = length bs \<Longrightarrow> write_all (ps @ qs) (bs @ cs) m = write_all qs cs (write_all ps bs m)"
  by (induction ps bs m rule: write_all.induct) auto

section \<open>Loads and stores\<close>

lemma load_user_ubuf:
  "ubuf s D d va pas \<Longrightarrow> load_user (pmem s) d va (length pas) = Some (map (pmem s) pas)"
  by (induction pas arbitrary: va) (auto simp: ubuf_Cons rd8_def)

lemma write_data_frame:
  assumes "space_inv s D" "outside s D (frame_no p)"
  shows "space_inv (s\<lparr>pmem := (pmem s)(p := b)\<rparr>) D" "outside s D g \<Longrightarrow> outside (s\<lparr>pmem := (pmem s)(p := b)\<rparr>) D g"
    "e \<in> insert (kdir s) D \<Longrightarrow> translate ((pmem s)(p := b)) e x = translate (pmem s) e x"
proof -
  have m: "frame_no x \<noteq> frame_no p \<Longrightarrow> ((pmem s)(p := b)) x = pmem s x" for x by auto
  note w = data_write [OF assms m]
  show "space_inv (s\<lparr>pmem := (pmem s)(p := b)\<rparr>) D" by (rule w)
  show "outside s D g \<Longrightarrow> outside (s\<lparr>pmem := (pmem s)(p := b)\<rparr>) D g" by (rule w)
  show "e \<in> insert (kdir s) D \<Longrightarrow> translate ((pmem s)(p := b)) e x = translate (pmem s) e x"
    using w(3) by (simp add: translate_def fun_upd_def)
qed

text \<open>Writing to mapped data keeps the structure, all translations and all other buffers.\<close>

lemma write_all_keeps:
  assumes "space_inv s D" "\<forall>p \<in> set ps. outside s D (frame_no p)"
  shows "space_inv (s\<lparr>pmem := write_all ps bs (pmem s)\<rparr>) D \<and>
    (\<forall>g. outside s D g \<longrightarrow> outside (s\<lparr>pmem := write_all ps bs (pmem s)\<rparr>) D g) \<and>
    (\<forall>e \<in> insert (kdir s) D. \<forall>x. translate (write_all ps bs (pmem s)) e x = translate (pmem s) e x)"
  using assms
proof (induction ps bs "pmem s" arbitrary: s rule: write_all.induct)
  case (1 p ps b bs)
  let ?t = "s\<lparr>pmem := (pmem s)(p := b)\<rparr>"
  note w = write_data_frame [OF "1.prems"(1), where p = p and b = b]
  have t: "space_inv ?t D" "\<forall>q \<in> set ps. outside ?t D (frame_no q)" using w "1.prems" by auto
  from "1.hyps" [of ?t, OF _ t] w "1.prems" show ?case by auto
qed auto

lemma ubuf_write_all:
  assumes "space_inv s D" "\<forall>p \<in> set ps. outside s D (frame_no p)" "d \<in> insert (kdir s) D"
  shows "ubuf s D d va pas \<Longrightarrow> ubuf (s\<lparr>pmem := write_all ps bs (pmem s)\<rparr>) D d va pas"
  using write_all_keeps [OF assms(1,2), of bs] assms(3) by (auto simp: ubuf_def)

lemma ubuf_outside: "ubuf s D d va pas \<Longrightarrow> \<forall>p \<in> set pas. outside s D (frame_no p)"
  by (auto simp: ubuf_def in_set_conv_nth)

lemma store_user_ubuf:
  assumes "space_inv s D" "d \<in> insert (kdir s) D" "ubuf s D d va pas" "length bs = length pas"
  shows "store_user d va bs (pmem s) = Some (write_all pas bs (pmem s))"
  using assms
proof (induction pas arbitrary: va bs s)
  case (Cons p ps)
  then obtain b cs where bs: "bs = b # cs" by (cases bs) auto
  let ?t = "s\<lparr>pmem := (pmem s)(p := b)\<rparr>"
  from Cons.prems(3) have p: "va < KERNEL_VBASE" "translate (pmem s) d va = Some p" "outside s D (frame_no p)"
    "ubuf s D d (va + 1) ps" by (auto simp: ubuf_Cons)
  have "\<forall>q \<in> set [p]. outside s D (frame_no q)" using p(3) by simp
  from ubuf_write_all [OF Cons.prems(1) this Cons.prems(2) p(4), of "[b]"]
  have "ubuf ?t D d (va + 1) ps" by simp
  moreover have "space_inv ?t D" by (rule write_data_frame [OF Cons.prems(1) p(3)])
  ultimately have "store_user d (va + 1) cs (pmem ?t) = Some (write_all ps cs (pmem ?t))"
    using Cons.IH [of ?t "va + 1" cs] Cons.prems(2,4) bs by (simp add: fun_upd_def)
  then show ?case using p(1,2) by (simp add: bs wr8_def fun_upd_def)
qed simp

section \<open>The chunked copy\<close>

lemma take_drop_step: "off + n \<le> length xs \<Longrightarrow> take n (drop off xs) @ drop (off + n) xs = drop off xs"
  by (metis add.commute append_take_drop_id drop_drop)

lemma copy_chunks_ubuf:
  assumes "space_inv s D" "a \<in> insert (kdir s) D" "b \<in> insert (kdir s) D"
    and "ubuf s D a src ps" "ubuf s D b dst qs" "length ps = len" "length qs = len" "set ps \<inter> set qs = {}"
    and "off \<le> len" "len < 2 ^ 32"
  shows "copy_chunks a b dst src off len (pmem s) =
    Some (write_all (drop off qs) (map (pmem s) (drop off ps)) (pmem s))"
  using assms
proof (induction "len - off" arbitrary: off s rule: less_induct)
  case less
  show ?case
  proof (cases "off < len")
    case False
    then show ?thesis using less.prems by simp
  next
    case True
    let ?n = "min 256 (len - off)"
    let ?ps = "take ?n (drop off ps)" and ?qs = "take ?n (drop off qs)"
    have len: "length ?ps = ?n" "length ?qs = ?n" using less.prems(6,7) by simp_all
    have ub: "ubuf s D a (src + of_nat off) ?ps" "ubuf s D b (dst + of_nat off) ?qs"
      using ubuf_slice [OF less.prems(4), of off ?n] ubuf_slice [OF less.prems(5), of off ?n] True less.prems(6,7)
      by (simp_all add: min_def)
    have ld: "load_user (pmem s) a (src + of_nat off) ?n = Some (map (pmem s) ?ps)"
      using load_user_ubuf [OF ub(1)] len by simp
    let ?t = "s\<lparr>pmem := write_all ?qs (map (pmem s) ?ps) (pmem s)\<rparr>"
    have st: "store_user b (dst + of_nat off) (map (pmem s) ?ps) (pmem s) = Some (pmem ?t)"
      using store_user_ubuf [OF less.prems(1,3) ub(2), of "map (pmem s) ?ps"] len by simp
    note out = ubuf_outside [OF ub(2)]
    have keep: "space_inv ?t D" using write_all_keeps [OF less.prems(1) out] by simp
    have "ubuf ?t D a src ps" "ubuf ?t D b dst qs"
      by (rule ubuf_write_all [OF less.prems(1) out]; use less.prems in simp)+
    then have ih: "copy_chunks a b dst src (off + ?n) len (pmem ?t) =
        Some (write_all (drop (off + ?n) qs) (map (pmem ?t) (drop (off + ?n) ps)) (pmem ?t))"
      by (intro less.hyps) (use less.prems True keep in auto)
    have "set (drop (off + ?n) ps) \<inter> set ?qs = {}"
      using less.prems(8) set_drop_subset [of "off + ?n" ps] set_take_subset [of ?n "drop off qs"]
        set_drop_subset [of off qs] by blast
    then have mp: "map (pmem ?t) (drop (off + ?n) ps) = map (pmem s) (drop (off + ?n) ps)"
      by (simp add: write_all_map_other)
    have sp: "?qs @ drop (off + ?n) qs = drop off qs" "?ps @ drop (off + ?n) ps = drop off ps"
      by (rule take_drop_step, use less.prems in simp)+
    have "write_all (?qs @ drop (off + ?n) qs) (map (pmem s) ?ps @ map (pmem s) (drop (off + ?n) ps)) (pmem s) =
        write_all (drop (off + ?n) qs) (map (pmem s) (drop (off + ?n) ps)) (pmem ?t)"
      using write_all_append [of ?qs "map (pmem s) ?ps"] len by simp
    then have "write_all (drop off qs) (map (pmem s) (drop off ps)) (pmem s) =
        write_all (drop (off + ?n) qs) (map (pmem s) (drop (off + ?n) ps)) (pmem ?t)"
      unfolding sp map_append [symmetric] by (simp only: sp)
    moreover have "copy_chunks a b dst src off len (pmem s) = copy_chunks a b dst src (off + ?n) len (pmem ?t)"
      by (subst copy_chunks.simps) (simp only: True if_True Let_def ld st bind.bind_lunit)
    ultimately show ?thesis using ih mp by (simp only:)
  qed
qed

text \<open>The byte-wise copy used within one address space does the same on disjoint buffers.\<close>

lemma copy_user_ubuf:
  assumes "space_inv s D" "a \<in> insert (kdir s) D"
    and "ubuf s D a src ps" "ubuf s D a dst qs" "length ps = length qs" "set ps \<inter> set qs = {}"
  shows "copy_user a dst src (length ps) (pmem s) = Some (write_all qs (map (pmem s) ps) (pmem s))"
  using assms
proof (induction ps arbitrary: qs src dst s)
  case Nil
  then show ?case by simp
next
  case (Cons p ps)
  from Cons.prems(5) obtain q qs' where qs: "qs = q # qs'" by (cases qs) auto
  let ?t = "s\<lparr>pmem := (pmem s)(q := pmem s p)\<rparr>"
  from Cons.prems(3,4) qs have u: "src < KERNEL_VBASE" "translate (pmem s) a src = Some p" "ubuf s D a (src + 1) ps"
    "dst < KERNEL_VBASE" "translate (pmem s) a dst = Some q" "outside s D (frame_no q)" "ubuf s D a (dst + 1) qs'"
    by (auto simp: ubuf_Cons)
  have o: "\<forall>x \<in> set [q]. outside s D (frame_no x)" using u(6) by simp
  have "ubuf ?t D a (src + 1) ps" "ubuf ?t D a (dst + 1) qs'"
    using ubuf_write_all [OF Cons.prems(1) o Cons.prems(2) u(3), of "[pmem s p]"]
      ubuf_write_all [OF Cons.prems(1) o Cons.prems(2) u(7), of "[pmem s p]"] by simp_all
  moreover have "space_inv ?t D" by (rule write_data_frame [OF Cons.prems(1) u(6)])
  ultimately have "copy_user a (dst + 1) (src + 1) (length ps) (pmem ?t) =
      Some (write_all qs' (map (pmem ?t) ps) (pmem ?t))"
    using Cons.IH [of ?t "src + 1" "dst + 1" qs'] Cons.prems qs by (auto simp: fun_upd_def)
  moreover have "map (pmem ?t) ps = map (pmem s) ps" using Cons.prems(6) qs by auto
  ultimately have "copy_user a (dst + 1) (src + 1) (length ps) (pmem ?t) =
      Some (write_all qs' (map (pmem s) ps) (pmem ?t))" by (simp only:)
  then show ?case using u by (simp add: qs rd8_def wr8_def fun_upd_def)
qed

end
