(* ===== verification/Kernel_Own.thy ===== *)
theory Kernel_Own
  imports Kernel_Inv "HOL-Library.Multiset"
begin

text \<open>
  Ownership of the kernel heap: the live blocks are exactly the process control blocks and
  the queue nodes and buffers hanging off them, each owned once.  So every \<^verbatim>\<open>delete\<close> of the
  process manager frees a live block exactly once, nothing leaks, and a new process never
  reuses the address of a live one.
\<close>

section \<open>The owned blocks\<close>

definition notify_own :: "notify_node \<Rightarrow> addr multiset" where
  "notify_own n = {#n_addr n#} + (if n_buf n \<noteq> 0 then {#n_buf n#} else {#})"

definition own :: "process \<Rightarrow> addr multiset" where
  "own p = mset (map fst (sendQueue p)) + \<Sum>\<^sub># (image_mset notify_own (mset (notifyQueue p)))"

definition owned :: "kstate \<Rightarrow> addr multiset" where
  "owned s = mset (tl (procs s)) + (\<Sum>a \<in> set (procs s). own (proc s a))"

definition in_region :: "allocator \<Rightarrow> addr \<Rightarrow> bool" where
  "in_region h p \<longleftrightarrow> unat (regionStart h) \<le> unat p \<and> unat p \<le> unat (regionEnd h)"

text \<open>\<open>X\<close> are the blocks an operation holds on to that are not yet, or no longer, in the table.\<close>

definition hinv :: "addr multiset \<Rightarrow> kstate \<Rightarrow> bool" where
  "hinv X s \<longleftrightarrow> (\<exists>h. kheap s = Some h \<and> heap_ok h \<and> \<not> in_region h (ktask s) \<and>
     mset_set (live h) = owned s + X)"

lemma own_queues [simp]:
  "own (p\<lparr>sendQueue := sq\<rparr>) = mset (map fst sq) + \<Sum>\<^sub># (image_mset notify_own (mset (notifyQueue p)))"
  "own (p\<lparr>notifyQueue := nq\<rparr>) = mset (map fst (sendQueue p)) + \<Sum>\<^sub># (image_mset notify_own (mset nq))"
  by (simp_all add: own_def)

lemma own_fresh: "sendQueue p = [] \<Longrightarrow> notifyQueue p = [] \<Longrightarrow> own p = {#}"
  by (simp add: own_def)

lemma own_cong: "sendQueue p = sendQueue q \<Longrightarrow> notifyQueue p = notifyQueue q \<Longrightarrow> own p = own q"
  by (simp add: own_def)

lemma owned_upd:
  assumes "a \<in> set (procs s)"
  shows "owned (upd_proc a f s) + own (proc s a) = owned s + own (f (proc s a))"
proof -
  have "(\<Sum>b \<in> set (procs s). own (proc (upd_proc a f s) b)) =
      own (f (proc s a)) + (\<Sum>b \<in> set (procs s) - {a}. own (proc s b))"
    using assms by (subst sum.remove [of _ a]) (auto intro: sum.cong)
  moreover have "(\<Sum>b \<in> set (procs s). own (proc s b)) =
      own (proc s a) + (\<Sum>b \<in> set (procs s) - {a}. own (proc s b))"
    using assms by (subst sum.remove [of _ a]) auto
  ultimately show ?thesis by (simp add: owned_def)
qed

lemma owned_cong:
  assumes "procs s' = procs s" "\<And>a. own (proc s' a) = own (proc s a)"
  shows "owned s' = owned s"
  using assms by (simp add: owned_def)

lemma hinv_cong:
  assumes "procs s' = procs s" "kheap s' = kheap s" "ktask s' = ktask s" "\<And>a. own (proc s' a) = own (proc s a)"
  shows "hinv X s' = hinv X s"
  using assms owned_cong [of s' s] by (simp add: hinv_def)

text \<open>Moving blocks between the table and the operation.\<close>

lemma hinv_upd:
  assumes "a \<in> set (procs s)" "X + own (proc s a) = Y + own (f (proc s a))"
  shows "hinv X s = hinv Y (upd_proc a f s)"
proof -
  have "owned (upd_proc a f s) + Y + (own (proc s a) + own (f (proc s a))) =
      (owned (upd_proc a f s) + own (proc s a)) + (Y + own (f (proc s a)))" by (simp only: ac_simps)
  also have "\<dots> = (owned s + own (f (proc s a))) + (X + own (proc s a))"
    by (simp only: owned_upd [OF assms(1)] assms(2))
  also have "\<dots> = owned s + X + (own (proc s a) + own (f (proc s a)))" by (simp only: ac_simps)
  finally have "owned (upd_proc a f s) + Y = owned s + X" by (rule add_right_imp_eq)
  then show ?thesis by (simp add: hinv_def)
qed

lemma hinv_frames [simp, kernel_frames]:
  "hinv X (upd_mem m s) = hinv X s" "hinv X (upd_frame e g s) = hinv X s" "hinv X (set_eax e v s) = hinv X s"
  "hinv X (port_write q b s) = hinv X s" "hinv X (set_pstate a st s) = hinv X s"
  by (rule hinv_cong; simp add: set_eax_def port_write_def set_pstate_def own_def)+

lemma hinv_more [simp, kernel_frames]:
  "hinv X (s\<lparr>mach := m\<rparr>) = hinv X s" "hinv X (s\<lparr>cr3 := c\<rparr>) = hinv X s" "hinv X (s\<lparr>tssEsp0 := e\<rparr>) = hinv X s"
  "hinv X (s\<lparr>tickCount := t\<rparr>) = hinv X s" "hinv X (s\<lparr>ticks := t\<rparr>) = hinv X s"
  "hinv X (s\<lparr>forwardPid := fp\<rparr>) = hinv X s" "hinv X (s\<lparr>pendingIrq := pn\<rparr>) = hinv X s"
  "hinv X (s\<lparr>serialOut := so\<rparr>) = hinv X s" "hinv X (s\<lparr>power := w\<rparr>) = hinv X s"
  "hinv X (s\<lparr>frames := fr\<rparr>) = hinv X s" "hinv X (s\<lparr>curr := cu\<rparr>) = hinv X s"
  by (rule hinv_cong; simp)+

lemma hinv_same_own:
  assumes "\<And>p. sendQueue (f p) = sendQueue p \<and> notifyQueue (f p) = notifyQueue p"
  shows "hinv X (upd_proc a f s) = hinv X s"
  by (rule hinv_cong) (use assms in \<open>auto intro: own_cong\<close>)

section \<open>Allocation and release\<close>

lemma live_region:
  assumes "heap_ok h" "p \<in> live h"
  shows "in_region h p"
proof -
  from assms obtain bs q n where bs: "heap_inv h bs" "(q, n, False) \<in> set bs" "n \<noteq> 0" "p = q + HDR"
    by (auto simp: live_def live_of_def)
  have "layout (unat (regionStart h)) bs (unat (regionEnd h))" using bs(1) by (metis heap_inv_def)
  note b = layout_block [OF this bs(2)]
  have "0 < unat n" using bs(3) by (simp add: unat_gt_0)
  then have "unat p = unat q + 12"
    using b unat_lt_2p32 [of "regionEnd h"] unat_add_of_nat [of q 12] bs(4) by simp
  with b show ?thesis by (simp add: in_region_def)
qed

lemma allocate_region:
  "heap_ok h \<Longrightarrow> allocate n h = Some (r, h') \<Longrightarrow> in_region h' = in_region h"
  unfolding heap_ok_def using allocate_rep [of h _ n] by (force simp: in_region_def fun_eq_iff)

lemma heap_free_region:
  assumes "heap_ok h" "p \<in> live h" "heap_free p h = Some h'"
  shows "in_region h' = in_region h"
proof -
  from assms obtain bs q n where bs: "heap_inv h bs" "(q, n, False) \<in> set bs" "n \<noteq> 0" "p = q + HDR"
    by (auto simp: live_def live_of_def)
  from heap_free_rep [OF bs(1-3)] assms(3) bs(4) show ?thesis by (auto simp: in_region_def fun_eq_iff)
qed

lemma finite_live [simp]: "heap_ok h \<Longrightarrow> finite (live h)"
proof -
  assume "heap_ok h"
  then obtain bs where "heap_inv h bs" by (auto simp: heap_ok_def)
  then have "live h = live_of bs" by (rule live_eq)
  also have "\<dots> \<subseteq> (\<lambda>(q, n, f). q + HDR) ` set bs" by (force simp: live_of_def)
  finally show ?thesis by (rule finite_subset) simp
qed

lemma hinv_new:
  assumes "hinv X s" "0 < n" "n \<le> 0xFFFFFFFC"
  shows "\<exists>r s'. k_new n s = Some (r, s') \<and> (if r = 0 then hinv X s'
    else hinv (add_mset r X) s' \<and> r \<noteq> ktask s \<and> r \<notin># owned s + X)"
proof -
  from assms(1) obtain h where h: "kheap s = Some h" "heap_ok h" "\<not> in_region h (ktask s)"
    "mset_set (live h) = owned s + X" by (auto simp: hinv_def)
  obtain r h' where a: "allocate n h = Some (r, h')" using ha.alloc_total [OF h(2)] by blast
  then have k: "k_new n s = Some (r, s\<lparr>kheap := Some h'\<rparr>)" by (simp add: k_new_def kernel_new_def h(1))
  have ok: "heap_ok h'" and reg: "in_region h' = in_region h"
    using ha.alloc_ok [OF h(2) a] allocate_region [OF h(2) a] by auto
  have o: "owned (s\<lparr>kheap := Some h'\<rparr>) = owned s" by (rule owned_cong) auto
  show ?thesis
  proof (cases "r = 0")
    case True
    with ha.alloc_null h(2) a have "live h' = live h" by blast
    with True k ok reg h o show ?thesis by (auto simp: hinv_def)
  next
    case False
    from ha.alloc_fresh [OF h(2) assms(2,3) a False] have l: "r \<notin> live h" "live h' = insert r (live h)" by auto
    have "r \<in> live h'" using l by simp
    then have "r \<noteq> ktask s" using live_region [OF ok] h(3) reg by metis
    moreover have "r \<notin># owned s + X" using l(1) h(2) unfolding h(4) [symmetric] by simp
    moreover have "mset_set (live h') = owned s + add_mset r X" using l h by simp
    ultimately show ?thesis using False k ok reg h o by (auto simp: hinv_def)
  qed
qed

lemma hinv_delete:
  assumes "hinv (add_mset p X) s"
  shows "\<exists>s'. k_delete p s = Some s' \<and> hinv X s'"
proof -
  from assms obtain h where h: "kheap s = Some h" "heap_ok h" "\<not> in_region h (ktask s)"
    "mset_set (live h) = owned s + add_mset p X" by (auto simp: hinv_def)
  have "p \<in># mset_set (live h)" by (simp add: h(4))
  then have p: "p \<in> live h" using h(2) by simp
  from ha.dealloc_owned [OF h(2) p] obtain h' where h': "heap_free p h = Some h'" "heap_ok h'" "live h' = live h - {p}"
    by blast
  have "mset_set (live h') = mset_set (live h) - {#p#}" using h(2) p by (simp add: h'(3) mset_set_Diff)
  then have "mset_set (live h') = owned s + X" using h(4) by simp
  moreover have "owned (s\<lparr>kheap := Some h'\<rparr>) = owned s" by (rule owned_cong) auto
  moreover have "in_region h' = in_region h" by (rule heap_free_region [OF h(2) p h'(1)])
  ultimately show ?thesis using h h' by (auto simp: k_delete_def kernel_delete_def hinv_def)
qed

lemma hinv_delete_Some: "hinv (add_mset p X) s \<Longrightarrow> k_delete p s = Some s' \<Longrightarrow> hinv X s'"
  using hinv_delete [of p X s] by auto

section \<open>Queues\<close>

text \<open>A read that reaches the kernel half fails, so no user buffer is longer than the user half.\<close>

lemma load_user_nth:
  "load_user m pd va n = Some bs \<Longrightarrow> i < n \<Longrightarrow> va + of_nat i < KERNEL_VBASE"
proof (induction n arbitrary: va bs i)
  case (Suc n)
  then obtain b cs where b: "rd8 m pd va = Some b" "load_user m pd (va + 1) n = Some cs" by (auto simp: bind_Some)
  show ?case
  proof (cases i)
    case 0
    then show ?thesis using b(1) by (auto simp: rd8_def split: if_splits)
  next
    case (Suc j)
    then show ?thesis using Suc.IH [OF b(2), of j] Suc.prems by (simp add: add.assoc)
  qed
qed simp

lemma load_user_len:
  assumes "load_user m pd va n = Some bs"
  shows "n \<le> 0xC0000000"
proof (rule ccontr)
  let ?i = "if va < 0xC0000000 then unat (0xC0000000 - va) else 0"
  assume "\<not> n \<le> 0xC0000000"
  moreover have "unat ((0xC0000000 :: u32) - va) \<le> 0xC0000000" if "va < 0xC0000000"
    using that unat_sub [of va "0xC0000000"] by (simp add: less_imp_le)
  ultimately have "?i < n" by auto
  from load_user_nth [OF assms this] show False by (auto split: if_splits)
qed

lemma load_user_length: "load_user m pd va n = Some bs \<Longrightarrow> length bs = n"
  by (induction n arbitrary: va bs) (auto simp: bind_Some)

lemma hinv_k_new_Some:
  "hinv X s \<Longrightarrow> 0 < n \<Longrightarrow> n \<le> 0xFFFFFFFC \<Longrightarrow> k_new n s = Some (r, s') \<Longrightarrow>
     if r = 0 then hinv X s' else hinv (add_mset r X) s' \<and> r \<noteq> ktask s \<and> r \<notin># owned s + X"
  using hinv_new [of X s n] by auto

definition qinv :: "kstate \<Rightarrow> bool" where
  "qinv s \<longleftrightarrow> (\<forall>a \<in> set (procs s). 0 \<notin> snd ` set (sendQueue (proc s a)))"

lemma k_new_fields: "k_new n s = Some (r, s') \<Longrightarrow> proc s' = proc s \<and> procs s' = procs s \<and> curr s' = curr s"
  using k_new_heap [of n s r s'] by auto

lemma k_delete_fields: "k_delete p s = Some s' \<Longrightarrow> proc s' = proc s \<and> procs s' = procs s \<and> curr s' = curr s"
  using k_delete_heap [of p s s'] by auto

lemma sendQueuePush_hinv:
  assumes "sendQueuePush t p s = Some (ok, s')" "hinv X s" "t \<in> set (procs s)"
  shows "hinv X s'"
proof -
  from assms(1) obtain node s1 where n: "k_new 8 s = Some (node, s1)"
    "if node = 0 then s' = s1 else s' = upd_proc t (\<lambda>x. x\<lparr>sendQueue := sendQueue x @ [(node, p)]\<rparr>) s1"
    by (auto simp: sendQueuePush_def bind_Some split: if_splits)
  note h = hinv_k_new_Some [OF assms(2) _ _ n(1)] and f = k_new_fields [OF n(1)]
  show ?thesis
  proof (cases "node = 0")
    case False
    then have "hinv (add_mset node X) s1" using h by simp
    moreover have "hinv (add_mset node X) s1 = hinv X s'"
      using n(2) False f assms(3) by (simp add: own_def hinv_upd [where Y = X])
    ultimately show ?thesis by simp
  qed (use h n in simp)
qed

lemma sendQueuePop_hinv:
  assumes "hinv X s" "t \<in> set (procs s)"
  shows "\<exists>p s'. sendQueuePop t s = Some (p, s') \<and> hinv X s'"
proof (cases "sendQueue (proc s t)")
  case (Cons x q)
  obtain node p where x: "x = (node, p)" by (cases x)
  have "hinv X s = hinv (add_mset node X) (upd_proc t (\<lambda>x. x\<lparr>sendQueue := q\<rparr>) s)"
    by (rule hinv_upd [OF assms(2)]) (simp add: own_def Cons x)
  with assms(1) have "hinv (add_mset node X) (upd_proc t (\<lambda>x. x\<lparr>sendQueue := q\<rparr>) s)" by simp
  from hinv_delete [OF this] show ?thesis by (auto simp: sendQueuePop_def Cons x)
qed (use assms in \<open>simp add: sendQueuePop_def\<close>)

lemma delete_notify_hinv:
  assumes "hinv (notify_own n + X) s"
  shows "\<exists>s'. delete_notify n s = Some s' \<and> hinv X s'"
proof (cases "n_buf n = 0")
  case True
  then have "hinv (add_mset (n_addr n) X) s" using assms by (simp add: notify_own_def)
  from hinv_delete [OF this] True show ?thesis by (auto simp: delete_notify_def)
next
  case False
  then have "hinv (add_mset (n_buf n) (add_mset (n_addr n) X)) s" using assms by (simp add: notify_own_def add_mset_commute)
  from hinv_delete [OF this] obtain s1 where s1: "k_delete (n_buf n) s = Some s1" "hinv (add_mset (n_addr n) X) s1" by blast
  from hinv_delete [OF s1(2)] s1(1) False show ?thesis by (auto simp: delete_notify_def)
qed

lemma notifyPush_hinv:
  assumes "notifyPush t p m d n s = Some (ok, s')" "hinv X s" "t \<in> set (procs s)"
  shows "hinv X s'"
proof -
  from assms(1) obtain node s1 where k: "k_new 40 s = Some (node, s1)" by (auto simp: notifyPush_def bind_Some)
  note h1 = hinv_k_new_Some [OF assms(2) _ _ k] and f1 = k_new_fields [OF k]
  note def = assms(1) [unfolded notifyPush_def, simplified k bind.bind_lunit prod.case]
  have add: "hinv (notify_own y + X) s2 \<Longrightarrow> procs s2 = procs s \<Longrightarrow>
      hinv X (upd_proc t (\<lambda>x. x\<lparr>notifyQueue := notifyQueue x @ [y]\<rparr>) s2)" for y s2
    using assms(3) hinv_upd [of t s2 "notify_own y + X" X "\<lambda>x. x\<lparr>notifyQueue := notifyQueue x @ [y]\<rparr>"]
    by (simp add: own_def)
  consider (z) "node = 0" | (plain) "node \<noteq> 0" "\<not> (d \<noteq> 0 \<and> n > 0)" | (data) "node \<noteq> 0" "d \<noteq> 0" "n > 0" by blast
  then show ?thesis
  proof cases
    case z
    then show ?thesis using h1 def by simp
  next
    case plain
    let ?y = "\<lparr>n_addr = node, n_sender = p, n_msg = m, n_buf = 0, n_data = []\<rparr>"
    have "s' = upd_proc t (\<lambda>x. x\<lparr>notifyQueue := notifyQueue x @ [?y]\<rparr>) s1" using def plain by (auto split: if_splits)
    then show ?thesis using add [of ?y s1] h1 plain(1) f1 by (simp add: notify_own_def)
  next
    case data
    from def data obtain buf s2 where k2: "k_new n s1 = Some (buf, s2)" by (auto simp: bind_Some)
    note f2 = k_new_fields [OF k2]
    have "n \<le> 0xFFFFFFFC" if "buf \<noteq> 0"
    proof -
      from def data k2 that obtain bs where "load_user (kmem s2) (cr3 s2) d (unat n) = Some bs" by (auto simp: bind_Some)
      from load_user_len [OF this] show ?thesis by (simp add: word_le_nat_alt)
    qed
    have h2: "if buf = 0 then hinv (add_mset node X) s2 else hinv (add_mset buf (add_mset node X)) s2"
    proof (cases "buf = 0")
      case True
      from h1 data obtain h where h: "kheap s1 = Some h" "heap_ok h" "\<not> in_region h (ktask s1)"
        "mset_set (live h) = owned s1 + add_mset node X" by (auto simp: hinv_def)
      from k2 True h(1) obtain h' where a: "allocate n h = Some (0, h')" "s2 = s1\<lparr>kheap := Some h'\<rparr>"
        by (auto simp: k_new_def kernel_new_def)
      from ha.alloc_null [OF h(2) a(1)] ha.alloc_ok [OF h(2) a(1)] allocate_region [OF h(2) a(1)] h a(2) True
      show ?thesis by (simp add: hinv_def owned_def)
    next
      case False
      from \<open>buf \<noteq> 0 \<Longrightarrow> n \<le> 0xFFFFFFFC\<close> [OF False] h1 data hinv_k_new_Some [OF _ data(3) _ k2] False
      show ?thesis by auto
    qed
    show ?thesis
    proof (cases "buf = 0")
      case True
      with def data k2 have "k_delete node s2 = Some s'" by (auto simp: bind_Some)
      with h2 True show ?thesis using hinv_delete_Some by simp
    next
      case False
      with def data k2 obtain bs where "s' = upd_proc t (\<lambda>x. x\<lparr>notifyQueue := notifyQueue x @
          [\<lparr>n_addr = node, n_sender = p, n_msg = m, n_buf = buf, n_data = bs\<rparr>]\<rparr>) s2" by (auto simp: bind_Some)
      then show ?thesis using h2 False f1 f2 add [of _ s2] by (simp add: notify_own_def add_mset_commute)
    qed
  qed
qed

lemma notifyPop_hinv:
  assumes "notifyPop t msg d n s = Some (r, s')" "hinv X s" "t \<in> set (procs s)"
  shows "hinv X s'"
proof (cases "notifyQueue (proc s t)")
  case (Cons y q)
  let ?s1 = "upd_proc t (\<lambda>p. p\<lparr>notifyQueue := q\<rparr>) s"
  have "hinv X s = hinv (notify_own y + X) ?s1"
    by (rule hinv_upd [OF assms(3)]) (simp add: own_def Cons)
  then have h: "hinv (notify_own y + X) ?s1" using assms(2) by simp
  from assms(1) Cons obtain s2 s3 where s: "store_message (cr3 ?s1) msg (n_msg y) ?s1 = Some s2"
    "\<exists>x. s3 = upd_mem x s2" "delete_notify y s3 = Some s'"
    by (auto simp: notifyPop_def bind_Some upd_proc_def split: if_splits intro: upd_mem_id [symmetric])
  from store_message_mem [OF s(1)] s(2) h have "hinv (notify_own y + X) s3" by auto
  from delete_notify_hinv [OF this] s(3) show ?thesis by auto
qed (use assms in \<open>simp add: notifyPop_def\<close>)

end
