(* ===== verification/Destroy.thy ===== *)
theory Destroy
  imports Kernel_Own
begin

text \<open>
  The end of a process, \<^verbatim>\<open>ProcessManager::destroy\<close>: what it does to the other processes (whom
  it wakes, and with which result), that it returns on every reachable state, frees exactly
  what the process owned and keeps the kernel invariant.
\<close>

section \<open>Waking a set of processes\<close>

text \<open>All processes of \<open>A\<close> that satisfy \<open>P\<close> become ready, their system call returning \<open>v\<close>.\<close>

definition wake_set :: "addr set \<Rightarrow> (process \<Rightarrow> bool) \<Rightarrow> u32 \<Rightarrow> kstate \<Rightarrow> kstate" where
  "wake_set A P v s = s\<lparr>
     proc := (\<lambda>b. if b \<in> A \<and> P (proc s b) then (proc s b)\<lparr>pstate := Ready\<rparr> else proc s b),
     frames := (\<lambda>e. if \<exists>b \<in> A. P (proc s b) \<and> r_esp (proc s b) = e \<and> e \<ge> 0xC0000000
                    then (frames s e)\<lparr>f_eax := v\<rparr> else frames s e)\<rparr>"

lemma wake_set_fields [simp]:
  "procs (wake_set A P v s) = procs s" "curr (wake_set A P v s) = curr s" "ktask (wake_set A P v s) = ktask s"
  "nextPid (wake_set A P v s) = nextPid s" "kheap (wake_set A P v s) = kheap s" "cr3 (wake_set A P v s) = cr3 s"
  "mach (wake_set A P v s) = mach s"
  by (simp_all add: wake_set_def)

lemma wake_set_proc: "proc (wake_set A P v s) b =
    (if b \<in> A \<and> P (proc s b) then (proc s b)\<lparr>pstate := Ready\<rparr> else proc s b)"
  by (simp add: wake_set_def)

lemma wake_set_proc_fields [simp]:
  "pid (proc (wake_set A P v s) b) = pid (proc s b)" "own (proc (wake_set A P v s) b) = own (proc s b)"
  "sendQueue (proc (wake_set A P v s) b) = sendQueue (proc s b)"
  "notifyQueue (proc (wake_set A P v s) b) = notifyQueue (proc s b)"
  "pageDirectory (proc (wake_set A P v s) b) = pageDirectory (proc s b)"
  "r_esp (proc (wake_set A P v s) b) = r_esp (proc s b)"
  "waitPid (proc (wake_set A P v s) b) = waitPid (proc s b)"
  by (simp_all add: wake_set_proc own_def)

lemma wake_set_empty [simp]: "wake_set {} P v s = s" "wake_set A (\<lambda>_. False) v s = s"
  by (simp_all add: wake_set_def)

lemma wake_set_union:
  assumes "\<And>x. \<not> P (x\<lparr>pstate := Ready\<rparr>)"
  shows "wake_set A P v (wake_set B P v s) = wake_set (A \<union> B) P v s"
proof -
  have "proc (wake_set A P v (wake_set B P v s)) = proc (wake_set (A \<union> B) P v s)"
    using assms by (auto simp: wake_set_proc fun_eq_iff)
  moreover have "frames (wake_set A P v (wake_set B P v s)) = frames (wake_set (A \<union> B) P v s)"
    using assms by (auto simp: wake_set_def fun_eq_iff split: if_splits)
  ultimately show ?thesis by (simp add: wake_set_def)
qed

lemma wake_set_or:
  assumes "\<And>x. \<not> P (x\<lparr>pstate := Ready\<rparr>)"
  shows "wake_set A P v (wake_set A Q v s) = wake_set A (\<lambda>x. Q x \<or> P x) v s"
proof -
  have "proc (wake_set A P v (wake_set A Q v s)) = proc (wake_set A (\<lambda>x. Q x \<or> P x) v s)"
    using assms by (auto simp: wake_set_proc fun_eq_iff)
  moreover have "frames (wake_set A P v (wake_set A Q v s)) = frames (wake_set A (\<lambda>x. Q x \<or> P x) v s)"
    using assms by (auto simp: wake_set_def fun_eq_iff split: if_splits)
  ultimately show ?thesis by (simp add: wake_set_def)
qed

lemma wake_set_pbase:
  assumes "pbase s" "\<And>x. P x \<Longrightarrow> pstate x \<notin> {Running, Ready, Empty}" "A \<subseteq> set (procs s)"
  shows "pbase (wake_set A P v s)"
proof -
  have st: "pstate (proc (wake_set A P v s) b) = (if b \<in> A \<and> P (proc s b) then Ready else pstate (proc s b))" for b
    by (simp add: wake_set_proc)
  show ?thesis using assms unfolding pbase_def wake_set_fields wake_set_proc_fields st by auto
qed

lemma wake_set_hinv [simp]: "hinv X (wake_set A P v s) = hinv X s"
  by (rule hinv_cong) simp_all

lemma wake_set_heap: "wake_set A P v (s\<lparr>kheap := h\<rparr>) = (wake_set A P v s)\<lparr>kheap := h\<rparr>"
  by (rule kstate.equality) (simp_all add: wake_set_def cong: if_cong)

lemma wake_set_frames:
  assumes "frames s' = frames s" "\<And>b. P (proc s' b) = P (proc s b)" "\<And>b. r_esp (proc s' b) = r_esp (proc s b)"
  shows "frames (wake_set A P v s') = frames (wake_set A P v s)"
  using assms by (simp add: wake_set_def cong: if_cong)

lemma wake_set_none:
  assumes "\<And>b. b \<in> A \<Longrightarrow> \<not> P (proc s b)"
  shows "wake_set A P v s = s"
proof -
  have "(\<lambda>b. if b \<in> A \<and> P (proc s b) then (proc s b)\<lparr>pstate := Ready\<rparr> else proc s b) = proc s"
    using assms by (intro ext) auto
  moreover have "(\<lambda>e. if \<exists>b \<in> A. P (proc s b) \<and> r_esp (proc s b) = e \<and> e \<ge> 0xC0000000
      then (frames s e)\<lparr>f_eax := v\<rparr> else frames s e) = frames s"
    using assms by (intro ext) auto
  ultimately show ?thesis unfolding wake_set_def by simp
qed

section \<open>The steps of destroy\<close>

lemma getProc_eq:
  assumes "pbase s" "b \<in> set (procs s)"
  shows "getProc (pid (proc s b)) s = b"
  using getProc_pid [OF assms] .

lemma getProc_none: "\<forall>b \<in> set (procs s). pid (proc s b) \<noteq> p \<Longrightarrow> getProc p s = 0"
  by (auto simp: getProc_def find_Some_iff split: option.split)

lemma set_pstate_wake:
  assumes "a \<in> A" "P (proc s a)" "\<And>b. b \<in> A \<Longrightarrow> P (proc s b) \<Longrightarrow> b = a"
  shows "set_pstate a Ready (if r_esp (proc s a) \<ge> 0xC0000000 then set_eax (r_esp (proc s a)) v s else s) =
    wake_set A P v s"
proof -
  have iff: "b \<in> A \<and> P (proc s b) \<longleftrightarrow> b = a" for b using assms by blast
  then have ex: "(\<exists>b \<in> A. P (proc s b) \<and> r_esp (proc s b) = e \<and> 0xC0000000 \<le> e) \<longleftrightarrow>
      r_esp (proc s a) = e \<and> 0xC0000000 \<le> e" for e
    using assms(1,2) by (auto dest: assms(3))
  let ?s = "set_pstate a Ready (if r_esp (proc s a) \<ge> 0xC0000000 then set_eax (r_esp (proc s a)) v s else s)"
  have "proc ?s = proc (wake_set A P v s)"
    by (rule ext) (simp add: wake_set_proc iff set_pstate_def set_eax_def)
  moreover have "frames ?s = frames (wake_set A P v s)"
    by (rule ext) (auto simp: wake_set_def ex set_pstate_def set_eax_def upd_proc_def upd_frame_def)
  ultimately show ?thesis
    by (intro kstate.equality)
      (auto simp: wake_set_def set_pstate_def set_eax_def upd_proc_def upd_frame_def)
qed

lemma fail_sender_wake:
  assumes "pbase s"
  shows "fail_sender p s = wake_set (set (procs s)) (\<lambda>x. pstate x = SendBlocked \<and> pid x = p) (- 1) s"
proof (cases "\<exists>b \<in> set (procs s). pid (proc s b) = p")
  case True
  then obtain b where b: "b \<in> set (procs s)" "pid (proc s b) = p" by blast
  then have g: "getProc p s = b" using getProc_eq [OF assms b(1)] by simp
  have nz: "b \<noteq> 0" using b(1) pbaseD(4) [OF assms] by metis
  have u: "c = b" if "c \<in> set (procs s)" "pid (proc s c) = p" for c
    using pbaseD(10) [OF assms that(1) b(1)] that(2) b(2) by simp
  show ?thesis
  proof (cases "pstate (proc s b) = SendBlocked")
    case True
    have "set_pstate b Ready (if r_esp (proc s b) \<ge> 0xC0000000 then set_eax (r_esp (proc s b)) (- 1) s else s) =
        wake_set (set (procs s)) (\<lambda>x. pstate x = SendBlocked \<and> pid x = p) (- 1) s"
      using True b u by (intro set_pstate_wake) blast+
    then show ?thesis using True g nz by (simp add: fail_sender_def)
  next
    case False
    then have "wake_set (set (procs s)) (\<lambda>x. pstate x = SendBlocked \<and> pid x = p) (- 1) s = s"
      using u by (intro wake_set_none) blast
    with False g show ?thesis by (simp add: fail_sender_def)
  qed
next
  case False
  then have "wake_set (set (procs s)) (\<lambda>x. pstate x = SendBlocked \<and> pid x = p) (- 1) s = s"
    by (intro wake_set_none) auto
  moreover have "getProc p s = 0" using False by (intro getProc_none) auto
  ultimately show ?thesis by (simp add: fail_sender_def)
qed

lemma drain_senders_wake:
  assumes "pbase s" "hinv (mset (map fst q) + X) s"
  shows "\<exists>h. drain_senders q s = Some ((wake_set (set (procs s))
      (\<lambda>x. pstate x = SendBlocked \<and> pid x \<in> snd ` set q) (- 1) s)\<lparr>kheap := h\<rparr>) \<and> hinv X (s\<lparr>kheap := h\<rparr>)"
  using assms
proof (induction q arbitrary: s)
  case Nil
  then show ?case by (auto intro!: exI [of _ "kheap s"])
next
  case (Cons x q)
  obtain node p where x: "x = (node, p)" by (cases x)
  let ?P = "\<lambda>x. pstate x = SendBlocked \<and> pid x = p" and ?Q = "\<lambda>x. pstate x = SendBlocked \<and> pid x \<in> snd ` set q"
  let ?s1 = "wake_set (set (procs s)) ?P (- 1) s"
  have p1: "pbase ?s1" by (rule wake_set_pbase [OF Cons.prems(1)]) auto
  have "hinv (add_mset node (mset (map fst q) + X)) ?s1" using Cons.prems(2) by (simp add: x)
  from hinv_delete [OF this] obtain s2 where d: "k_delete node ?s1 = Some s2" "hinv (mset (map fst q) + X) s2" by blast
  from k_delete_heap [OF d(1)] obtain h2 where h2: "s2 = ?s1\<lparr>kheap := h2\<rparr>" by blast
  have p2: "pbase s2" using p1 h2 pbase_cong [of s2 ?s1] by simp
  from Cons.IH [OF p2 d(2)] obtain h where h: "drain_senders q s2 =
      Some ((wake_set (set (procs s2)) ?Q (- 1) s2)\<lparr>kheap := h\<rparr>)" "hinv X (s2\<lparr>kheap := h\<rparr>)" by blast
  have "wake_set (set (procs s2)) ?Q (- 1) s2 = (wake_set (set (procs s)) ?Q (- 1) ?s1)\<lparr>kheap := h2\<rparr>"
    by (simp add: h2 wake_set_heap)
  also have "wake_set (set (procs s)) ?Q (- 1) ?s1 = wake_set (set (procs s)) (\<lambda>x. ?P x \<or> ?Q x) (- 1) s"
    by (rule wake_set_or) simp
  also have "(\<lambda>x. ?P x \<or> ?Q x) = (\<lambda>x. pstate x = SendBlocked \<and> pid x \<in> snd ` set ((node, p) # q))" by auto
  finally have w: "(wake_set (set (procs s2)) ?Q (- 1) s2)\<lparr>kheap := h\<rparr> =
      (wake_set (set (procs s)) (\<lambda>y. pstate y = SendBlocked \<and> pid y \<in> snd ` set (x # q)) (- 1) s)\<lparr>kheap := h\<rparr>"
    using x by simp
  have "hinv X (s\<lparr>kheap := h\<rparr>)" using h(2) hinv_cong [of "s\<lparr>kheap := h\<rparr>" "s2\<lparr>kheap := h\<rparr>"] by (simp add: h2)
  moreover have "drain_senders (x # q) s = drain_senders q s2"
    by (simp add: x fail_sender_wake [OF Cons.prems(1)] d(1))
  ultimately show ?case using h(1) w by auto
qed

lemma wake_waiter_wake:
  "wake_waiter p w s = wake_set {w} (\<lambda>x. pstate x = WaitBlocked \<and> waitPid x = p) 0 s"
proof (cases "pstate (proc s w) = WaitBlocked \<and> waitPid (proc s w) = p")
  case True
  then show ?thesis
    using set_pstate_wake [of w "{w}" "\<lambda>x. pstate x = WaitBlocked \<and> waitPid x = p" s 0] by (simp add: wake_waiter_def)
next
  case False
  have "wake_set {w} (\<lambda>x. pstate x = WaitBlocked \<and> waitPid x = p) 0 s = s"
    by (rule wake_set_none) (use False in auto)
  with False show ?thesis by (auto simp: wake_waiter_def)
qed

lemma wake_waiters_wake:
  "fold (wake_waiter p) ws s = wake_set (set ws) (\<lambda>x. pstate x = WaitBlocked \<and> waitPid x = p) 0 s"
proof (induction ws arbitrary: s)
  case (Cons w ws)
  have "fold (wake_waiter p) (w # ws) s = fold (wake_waiter p) ws (wake_waiter p w s)" by simp
  also have "\<dots> = wake_set (set ws \<union> {w}) (\<lambda>x. pstate x = WaitBlocked \<and> waitPid x = p) 0 s"
    unfolding Cons.IH wake_waiter_wake by (rule wake_set_union) simp
  finally show ?case by simp
qed simp

lemma delete_notify_heap: "delete_notify n s = Some s' \<Longrightarrow> \<exists>h. s' = s\<lparr>kheap := h\<rparr>"
  by (auto simp: delete_notify_def bind_Some split: if_splits dest!: k_delete_heap)

lemma drain_notifies_hinv:
  assumes "hinv (\<Sum>\<^sub># (image_mset notify_own (mset q)) + X) s"
  shows "\<exists>h. drain_notifies q s = Some (s\<lparr>kheap := h\<rparr>) \<and> hinv X (s\<lparr>kheap := h\<rparr>)"
  using assms
proof (induction q arbitrary: s)
  case Nil
  then show ?case by (auto intro!: exI [of _ "kheap s"])
next
  case (Cons n q)
  from Cons.prems have "hinv (notify_own n + (\<Sum>\<^sub># (image_mset notify_own (mset q)) + X)) s" by (simp add: ac_simps)
  from delete_notify_hinv [OF this] obtain s1 where s1: "delete_notify n s = Some s1"
    "hinv (\<Sum>\<^sub># (image_mset notify_own (mset q)) + X) s1" by blast
  from delete_notify_heap [OF s1(1)] obtain h1 where "s1 = s\<lparr>kheap := h1\<rparr>" by blast
  with Cons.IH [OF s1(2)] s1(1) show ?case by auto
qed

lemma free_space_fields [simp]:
  "procs (free_space a s) = procs s" "curr (free_space a s) = curr s" "ktask (free_space a s) = ktask s"
  "nextPid (free_space a s) = nextPid s" "kheap (free_space a s) = kheap s" "cr3 (free_space a s) = cr3 s"
  "frames (free_space a s) = frames s" "own (proc (free_space a s) b) = own (proc s b)"
  "b \<noteq> a \<Longrightarrow> proc (free_space a s) b = proc s b"
  by (auto simp: free_space_def Let_def own_def)

lemma free_space_mach:
  "pageDirectory (proc s' a) = pageDirectory (proc s a) \<Longrightarrow> kernelEsp (proc s' a) = kernelEsp (proc s a) \<Longrightarrow>
   mach s' = mach s \<Longrightarrow> mach (free_space a s') = mach (free_space a s)"
  by (simp add: free_space_def Let_def)

lemma free_space_hinv [simp]: "hinv X (free_space a s) = hinv X s"
  by (rule hinv_cong) simp_all

lemma owned_remove:
  assumes "pbase s" "a \<in> set (procs s)" "a \<noteq> ktask s"
  shows "owned s = owned (s\<lparr>procs := remove1 a (procs s)\<rparr>) + add_mset a (own (proc s a))"
proof -
  obtain k ps where ps: "procs s = k # ps" "k = ktask s" using pbaseD(1,2) [OF assms(1)] by (cases "procs s") auto
  have a: "a \<in> set ps" "a \<noteq> k" using assms(2,3) ps by auto
  have d: "distinct (k # ps)" using pbaseD(3) [OF assms(1)] ps by simp
  have "(\<Sum>b \<in> set (procs s). own (proc s b)) = own (proc s a) + (\<Sum>b \<in> set (procs s) - {a}. own (proc s b))"
    using assms(2) by (subst sum.remove [of _ a]) auto
  moreover have "set (remove1 a (procs s)) = set (procs s) - {a}"
    using d ps by (auto simp: set_remove1_eq)
  moreover have "mset ps = add_mset a (mset ps - {#a#})" using a by simp
  ultimately show ?thesis using ps a by (simp add: owned_def)
qed

text \<open>Which processes the end of \<open>a\<close> wakes, and the state it leaves.\<close>

definition failed_by :: "kstate \<Rightarrow> addr \<Rightarrow> process \<Rightarrow> bool" where
  "failed_by s a x \<longleftrightarrow> pstate x = SendBlocked \<and> pid x \<in> snd ` set (sendQueue (proc s a))"

definition waits_for :: "u32 \<Rightarrow> process \<Rightarrow> bool" where
  "waits_for p x \<longleftrightarrow> pstate x = WaitBlocked \<and> waitPid x = p"

definition woken :: "kstate \<Rightarrow> addr \<Rightarrow> u32 \<Rightarrow> kstate" where
  "woken s a p = wake_set (set (procs s)) (waits_for p) 0 (wake_set (set (procs s)) (failed_by s a) (- 1) s)"

lemma destroy_spec:
  assumes "pbase s" "hinv {#} s" "getProc p s = a" "a \<noteq> 0" "p \<noteq> 0"
  shows "\<exists>s'. destroy p s = Some s' \<and> hinv {#} s' \<and> procs s' = remove1 a (procs s) \<and> curr s' = curr s \<and>
    ktask s' = ktask s \<and> nextPid s' = nextPid s \<and> cr3 s' = cr3 s \<and> frames s' = frames (woken s a p) \<and>
    (\<forall>b. b \<noteq> a \<longrightarrow> proc s' b = proc (woken s a p) b) \<and> mach s' = mach (free_space a s)"
proof -
  from getProc_Some [OF assms(3,4)] have a: "a \<in> set (procs s)" "pid (proc s a) = p" by auto
  have ak: "a \<noteq> ktask s" using a(2) assms(5) pbaseD(7) [OF assms(1)] by auto
  let ?s1 = "upd_proc a (\<lambda>x. x\<lparr>sendQueue := []\<rparr>) s"
  have "hinv {#} s = hinv (mset (map fst (sendQueue (proc s a))) + {#}) ?s1"
    by (rule hinv_upd [OF a(1)]) (simp add: own_def)
  then have h1: "hinv (mset (map fst (sendQueue (proc s a))) + {#}) ?s1" using assms(2) by simp
  have "pview ?s1 = pview s" by (rule pview_upd_proc) simp
  then have p1: "pbase ?s1" using assms(1) pbase_cong by blast
  from drain_senders_wake [OF p1 h1] obtain h where h: "drain_senders (sendQueue (proc s a)) ?s1 =
      Some ((wake_set (set (procs s)) (failed_by s a) (- 1) ?s1)\<lparr>kheap := h\<rparr>)" "hinv {#} (?s1\<lparr>kheap := h\<rparr>)"
    by (auto simp: failed_by_def [abs_def])
  define w where "w = wake_set (set (procs s)) (waits_for p) 0 (wake_set (set (procs s)) (failed_by s a) (- 1) ?s1)"
  have fold: "fold (wake_waiter p) (procs s) ((wake_set (set (procs s)) (failed_by s a) (- 1) ?s1)\<lparr>kheap := h\<rparr>) =
      w\<lparr>kheap := h\<rparr>" by (simp only: wake_waiters_wake wake_set_heap w_def waits_for_def [abs_def])
  have hw: "hinv {#} (w\<lparr>kheap := h\<rparr>)" using h(2) by (simp add: w_def flip: wake_set_heap)
  let ?n = "notifyQueue (proc w a)" and ?s4 = "upd_proc a (\<lambda>x. x\<lparr>notifyQueue := []\<rparr>) (w\<lparr>kheap := h\<rparr>)"
  have "hinv {#} (w\<lparr>kheap := h\<rparr>) = hinv (\<Sum>\<^sub># (image_mset notify_own (mset ?n)) + {#}) ?s4"
    by (rule hinv_upd) (use a(1) in \<open>simp_all add: w_def own_def\<close>)
  then have "hinv (\<Sum>\<^sub># (image_mset notify_own (mset ?n)) + {#}) ?s4" using hw by simp
  from drain_notifies_hinv [OF this] obtain h' where h': "drain_notifies ?n ?s4 = Some (?s4\<lparr>kheap := h'\<rparr>)"
    "hinv {#} (?s4\<lparr>kheap := h'\<rparr>)" by blast
  define s5 where "s5 = free_space a (?s4\<lparr>kheap := h'\<rparr>)"
  have p5: "procs s5 = procs s" "ktask s5 = ktask s" by (simp_all add: s5_def w_def)
  have o5: "own (proc s5 a) = {#}" unfolding s5_def free_space_fields by (simp add: own_def w_def)
  have "owned s5 = owned (s5\<lparr>procs := remove1 a (procs s)\<rparr>) + {#a#}"
  proof -
    let ?z = "s\<lparr>proc := proc s5\<rparr>"
    have "pid (proc s5 b) = pid (proc s b) \<and> (b \<noteq> a \<longrightarrow> pstate (proc s5 b) = pstate (proc w b)) \<and>
        pstate (proc s5 a) = pstate (proc w a)" for b
      by (simp add: s5_def free_space_def Let_def w_def)
    then have v: "pid (proc s5 b) = pid (proc s b)" "pstate (proc s5 b) = pstate (proc w b)" for b
      by (cases "b = a"; simp)+
    have "pbase w" unfolding w_def
      by (intro wake_set_pbase p1) (auto simp: waits_for_def failed_by_def)
    then have "pbase ?z" using pbase_cong [of ?z w] by (simp add: pview_eq v) (simp add: w_def)
    from owned_remove [OF this, of a] a(1) ak p5 o5 show ?thesis by (simp add: owned_def)
  qed
  moreover have "hinv {#} s5" using h'(2) by (simp add: s5_def)
  ultimately have "hinv {#a#} (s5\<lparr>procs := remove1 a (procs s)\<rparr>)" by (simp add: hinv_def)
  from hinv_delete [OF this] obtain s' where d: "k_delete a (s5\<lparr>procs := remove1 a (procs s)\<rparr>) = Some s'" "hinv {#} s'"
    by auto
  have pw: "procs w = procs s" by (simp add: w_def)
  have "destroy p s = k_delete a (s5\<lparr>procs := remove1 a (procs s)\<rparr>)"
    using assms(3-5) h(1) h'(1) fold p5 pw
    by (simp add: destroy_def Let_def seq_remove_def s5_def [symmetric] w_def [symmetric])
  moreover from k_delete_heap [OF d(1)] obtain h2 where "s' = s5\<lparr>procs := remove1 a (procs s), kheap := h2\<rparr>" by auto
  moreover have "frames s5 = frames (woken s a p)"
  proof -
    have "frames w = frames (woken s a p)" unfolding w_def woken_def
      by (intro wake_set_frames) (auto simp: wake_set_proc waits_for_def failed_by_def)
    then show ?thesis by (simp add: s5_def)
  qed
  moreover have "b \<noteq> a \<Longrightarrow> proc s5 b = proc (woken s a p) b" for b
    by (simp add: s5_def w_def woken_def wake_set_proc)
  moreover have "mach s5 = mach (free_space a s)" unfolding s5_def
    by (rule free_space_mach) (simp_all add: w_def wake_set_proc)
  ultimately show ?thesis using d by (auto simp: s5_def w_def)
qed

end
