(* ===== verification/Kernel_Steps.thy ===== *)
theory Kernel_Steps
  imports Destroy
begin

text \<open>
  The kernel as a transition system: a system call of the running process or a hardware
  interrupt is one step.  The kernel invariant (process table, heap ownership, queues) holds
  in every reachable state; a process that blocks is switched away from, and the scheduler
  and the exit of a process always return.
\<close>

section \<open>The kernel invariant\<close>

definition kinv :: "kstate \<Rightarrow> bool" where
  "kinv s \<longleftrightarrow> pinv s \<and> hinv {#} s \<and> qinv s \<and> nextPid s \<noteq> 0"

text \<open>Between the moment the current process blocks and the switch to the next one.\<close>

definition kblocked :: "kstate \<Rightarrow> bool" where
  "kblocked s \<longleftrightarrow> pinv0 s \<and> hinv {#} s \<and> qinv s \<and> nextPid s \<noteq> 0 \<and> curr s \<noteq> ktask s \<and>
     pstate (proc s (curr s)) \<in> {SendBlocked, ReceiveBlocked, WaitBlocked}"

lemma kinvD:
  assumes "kinv s"
  shows "pinv s" "pinv0 s" "pbase s" "hinv {#} s" "qinv s" "nextPid s \<noteq> 0" "curr s \<in> set (procs s)"
    "pstate (proc s (curr s)) = Running"
  using assms by (auto simp: kinv_def pinv_def pinv0_def)

lemma pview_fields:
  assumes "pview s' = pview s"
  shows "procs s' = procs s" "curr s' = curr s" "ktask s' = ktask s" "nextPid s' = nextPid s"
    "pid (proc s' a) = pid (proc s a)" "pstate (proc s' a) = pstate (proc s a)"
  using assms by (auto simp: pview_eq)

lemma qinv_cong: "procs s' = procs s \<Longrightarrow> (\<And>a. sendQueue (proc s' a) = sendQueue (proc s a)) \<Longrightarrow> qinv s' = qinv s"
  by (simp add: qinv_def)

lemma kinvI: "kinv s \<Longrightarrow> pview s' = pview s \<Longrightarrow> hinv {#} s' \<Longrightarrow> qinv s' \<Longrightarrow> kinv s'"
  using pinv_cong [of s' s] by (simp add: kinv_def pview_eq)

lemma kinv_frames [simp]:
  "kinv (upd_mem m s) = kinv s" "kinv (upd_frame e g s) = kinv s" "kinv (set_eax e v s) = kinv s"
  "kinv (port_write q b s) = kinv s"
  unfolding kinv_def
  by (simp_all add: pinv_cong [OF pview_upd_mem] pinv_cong [OF pview_upd_frame] pinv_cong [OF pview_set_eax]
      pinv_cong [OF pview_port_write] qinv_def)
     (simp_all add: set_eax_def port_write_def)

lemma kinv_more [simp]:
  "kinv (s\<lparr>mach := m\<rparr>) = kinv s" "kinv (s\<lparr>cr3 := c\<rparr>) = kinv s"
  "kinv (s\<lparr>tickCount := t\<rparr>) = kinv s" "kinv (s\<lparr>ticks := t\<rparr>) = kinv s"
  "kinv (s\<lparr>forwardPid := fp\<rparr>) = kinv s" "kinv (s\<lparr>pendingIrq := pn\<rparr>) = kinv s"
  "kinv (s\<lparr>serialOut := so\<rparr>) = kinv s" "kinv (s\<lparr>power := w\<rparr>) = kinv s" "kinv (s\<lparr>frames := fr\<rparr>) = kinv s"
  by (simp_all add: kinv_def qinv_def pinv_def pinv0_def pbase_def)

lemma kinv_upd_proc:
  assumes "\<And>p. pid (f p) = pid p \<and> pstate (f p) = pstate p \<and> sendQueue (f p) = sendQueue p \<and> notifyQueue (f p) = notifyQueue p"
  shows "kinv (upd_proc a f s) = kinv s"
proof -
  have pv: "pview (upd_proc a f s) = pview s" by (rule pview_upd_proc) (simp add: assms)
  have "hinv {#} (upd_proc a f s) = hinv {#} s" by (rule hinv_same_own) (simp add: assms)
  moreover have "qinv (upd_proc a f s) = qinv s" by (rule qinv_cong) (simp_all add: assms)
  ultimately show ?thesis using pinv_cong [OF pv] by (simp add: kinv_def)
qed

lemma kinv_mem: "\<exists>x. s' = upd_mem x s \<Longrightarrow> kinv s \<Longrightarrow> kinv s'"
  by auto

lemma kinv_wake:
  assumes "kinv s" "t \<in> set (procs s)" "pstate (proc s t) \<noteq> Running"
  shows "kinv (set_pstate t Ready s)"
proof -
  have "t \<noteq> curr s" using kinvD(8) [OF assms(1)] assms(3) by auto
  moreover have "pinv0 (set_pstate t Ready s)"
    using kinvD(2) [OF assms(1)] assms(2) by (rule pinv0_set_pstate) auto
  moreover have "qinv (set_pstate t Ready s) = qinv s" by (rule qinv_cong) (simp_all add: set_pstate_def)
  ultimately show ?thesis using assms(1) by (simp add: kinv_def pinv_def)
qed

lemma kinv_block:
  assumes "kinv s" "curr s \<noteq> ktask s" "st \<in> {SendBlocked, ReceiveBlocked, WaitBlocked}"
  shows "kblocked (set_pstate (curr s) st s)"
proof -
  have "pinv0 (set_pstate (curr s) st s)"
    using kinvD(2,7) [OF assms(1)] by (rule pinv0_set_pstate) (use assms in auto)
  moreover have "qinv (set_pstate (curr s) st s) = qinv s" by (rule qinv_cong) (simp_all add: set_pstate_def)
  ultimately show ?thesis using assms by (auto simp: kblocked_def kinv_def)
qed

section \<open>Switching\<close>

lemma count_gt_1:
  assumes "pinv0 s" "curr s \<noteq> ktask s"
  shows "1 < getProcessCount s"
proof -
  have b: "pbase s" "curr s \<in> set (procs s)" using assms(1) by (auto simp: pinv0_def)
  have d: "distinct (procs s)" "0 \<notin> set (procs s)" using pbaseD(3,4) [OF b(1)] .
  have "card {ktask s, curr s} \<le> card (set (procs s))"
    using pbaseD(5) [OF b(1)] b(2) by (intro card_mono) auto
  then have two: "2 \<le> length (procs s)" using assms(2) distinct_card [OF d(1)] by (auto simp: eq_commute)
  have "card (set (procs s)) \<le> card (UNIV - {0 :: addr})" using d(2) by (intro card_mono) auto
  also have "\<dots> < 2 ^ 32" by (simp add: card_Diff_singleton card_word)
  finally have "length (procs s) < 2 ^ 32" using distinct_card [OF d(1)] by simp
  then have "unat (getProcessCount s) = length (procs s)" by (simp add: getProcessCount_def)
  then show ?thesis using two by (simp add: word_less_nat_alt)
qed

lemma switchTo_kinv:
  assumes "pinv (snd (switchTo n c e s))" "hinv {#} s" "qinv s" "nextPid s \<noteq> 0"
  shows "kinv (snd (switchTo n c e s))"
proof -
  have "own (proc (snd (switchTo n c e s)) a) = own (proc s a)" for a by (rule own_cong) (simp_all add: switchTo_fields)
  then have "hinv {#} (snd (switchTo n c e s)) = hinv {#} s" by (intro hinv_cong) (simp_all add: switchTo_fields)
  moreover have "qinv (snd (switchTo n c e s)) = qinv s" by (rule qinv_cong) (simp_all add: switchTo_fields)
  ultimately show ?thesis using assms by (simp add: kinv_def switchTo_fields)
qed

lemma reschedule_kinv:
  assumes "kblocked s"
  shows "\<exists>e' s'. reschedule e s = Some (e', s') \<and> kinv s' \<and> nextPid s' = nextPid s \<and> procs s' = procs s \<and>
    ktask s' = ktask s \<and> curr s' \<noteq> curr s \<and> pstate (proc s (curr s')) = Ready \<and>
    pstate (proc s' (curr s)) = pstate (proc s (curr s))"
proof -
  have b: "pinv0 s" "curr s \<noteq> ktask s" "pstate (proc s (curr s)) \<noteq> Running" using assms by (auto simp: kblocked_def)
  from findNextReady_other [OF b(1,2)] obtain n where n: "n \<in> set (procs s)" "n \<noteq> curr s"
    "findNextReady (curr s) s = Some n" "pstate (proc s n) = Ready" by auto
  let ?s = "s\<lparr>tickCount := 0\<rparr>"
  have "\<not> getProcessCount s \<le> 1" using count_gt_1 [OF b(1,2)] by simp
  then have r: "reschedule e s = Some (switchTo n (curr s) e ?s)" using n by (simp add: reschedule_def)
  have "pinv0 ?s" using b(1) pinv0_cong [of ?s s] by simp
  then have "pinv (snd (switchTo n (curr ?s) e ?s))" by (rule switchTo_pinv) (use n b in auto)
  then have "kinv (snd (switchTo n (curr s) e ?s))"
    using assms by (intro switchTo_kinv) (simp_all add: kblocked_def qinv_def)
  with r n show ?thesis
    by (intro exI [of _ "fst (switchTo n (curr s) e ?s)"] exI [of _ "snd (switchTo n (curr s) e ?s)"])
      (simp add: switchTo_fields)
qed

lemma schedule_kinv:
  assumes "kinv s"
  shows "\<exists>e' s'. schedule e s = Some (e', s') \<and> kinv s' \<and> nextPid s' = nextPid s \<and> procs s' = procs s \<and> ktask s' = ktask s"
proof -
  from schedule_pinv [OF kinvD(1) [OF assms], of e] obtain e' s' where s: "schedule e s = Some (e', s')" "pinv s'"
    "procs s' = procs s" "ktask s' = ktask s" "nextPid s' = nextPid s" "kheap s' = kheap s"
    "\<And>a. sendQueue (proc s' a) = sendQueue (proc s a) \<and> notifyQueue (proc s' a) = notifyQueue (proc s a)" by blast
  have "hinv {#} s' = hinv {#} s" using s by (intro hinv_cong own_cong) auto
  moreover have "qinv s' = qinv s" using s by (intro qinv_cong) auto
  ultimately show ?thesis using s assms by (auto simp: kinv_def)
qed

lemma exitCurrent_kinv:
  assumes "kinv s" "curr s \<noteq> ktask s"
  shows "\<exists>e' s'. exitCurrent e s = Some (e', s') \<and> kinv s' \<and> nextPid s' = nextPid s \<and> ktask s' = ktask s \<and>
    procs s' = remove1 (curr s) (procs s) \<and> findNextReady (curr s) s = Some (curr s') \<and> curr s' \<noteq> curr s"
proof -
  note D = kinvD [OF assms(1)] and B = pbaseD [OF kinvD(3) [OF assms(1)]]
  from findNextReady_other [OF D(2) assms(2)] obtain n where n: "n \<in> set (procs s)" "n \<noteq> curr s"
    "findNextReady (curr s) s = Some n" "pstate (proc s n) = Ready" by auto
  let ?a = "curr s" and ?p = "pid (proc s (curr s))"
  have p: "?p \<noteq> 0" "getProc ?p s = ?a" "?a \<noteq> 0" using B(9) [OF D(7) assms(2)] getProc_pid [OF D(3,7)] D(7) B(4) by auto
  from destroy_spec [OF D(3,4) p(2,3,1)] obtain s1 where s1: "destroy ?p s = Some s1" "hinv {#} s1"
    "procs s1 = remove1 ?a (procs s)" "curr s1 = ?a" "ktask s1 = ktask s" "nextPid s1 = nextPid s"
    "\<And>b. b \<noteq> ?a \<Longrightarrow> proc s1 b = proc (woken s ?a ?p) b" by auto
  have W: "pbase (woken s ?a ?p)" unfolding woken_def
    by (intro wake_set_pbase D(3)) (auto simp: waits_for_def failed_by_def)
  have wf: "procs (woken s ?a ?p) = procs s" "ktask (woken s ?a ?p) = ktask s" "nextPid (woken s ?a ?p) = nextPid s"
    "curr (woken s ?a ?p) = curr s" "\<And>b. sendQueue (proc (woken s ?a ?p) b) = sendQueue (proc s b)"
    by (simp_all add: woken_def)
  have set1: "set (procs s1) = set (procs s) - {?a}" using B(3) s1(3) by (simp add: set_remove1_eq)
  define s2 where "s2 = (let t = set_pstate n Running s1; t = (if pageDirectory (proc t n) \<noteq> 0 then t\<lparr>cr3 := pageDirectory (proc t n)\<rparr> else t)
     in (load_tss n t)\<lparr>curr := n, tickCount := 0\<rparr>)"
  have f2: "procs s2 = procs s1" "ktask s2 = ktask s" "nextPid s2 = nextPid s" "curr s2 = n" "kheap s2 = kheap s1"
    "\<And>b. pid (proc s2 b) = pid (proc s1 b)" "\<And>b. pstate (proc s2 b) = (if b = n then Running else pstate (proc s1 b))"
    "\<And>b. sendQueue (proc s2 b) = sendQueue (proc s1 b)" "\<And>b. notifyQueue (proc s2 b) = notifyQueue (proc s1 b)"
    by (simp_all add: s2_def Let_def s1 set_pstate_def)
  define w where "w = proc (woken s ?a ?p)"
  obtain e' where e: "exitCurrent e s = Some (e', s2)"
    using n s1(1) by (auto simp: exitCurrent_def s2_def Let_def)
  have WB: "pid (w (ktask s)) = 0" "pstate (w (ktask s)) \<in> {Ready, Running}"
    "\<And>b. b \<in> set (procs s) \<Longrightarrow> b \<noteq> ktask s \<Longrightarrow> pid (w b) \<noteq> 0 \<and> pid (w b) < nextPid s"
    "inj_on (\<lambda>b. pid (w b)) (set (procs s))" "\<And>b. b \<in> set (procs s) \<Longrightarrow> pstate (w b) \<noteq> Empty"
    "\<And>b. b \<in> set (procs s) \<Longrightarrow> b \<noteq> ?a \<Longrightarrow> pstate (w b) \<noteq> Running"
    using W unfolding pbase_def wf w_def by blast+
  have ps: "procs s = ktask s # tl (procs s)" using B(1,2) by (cases "procs s") auto
  then have hd1: "procs s1 \<noteq> []" "hd (procs s1) = ktask s"
    using assms(2) s1(3) by (metis remove1.simps(2) list.distinct(1), metis remove1.simps(2) list.sel(1))
  have in1: "b \<in> set (procs s1) \<Longrightarrow> b \<in> set (procs s) \<and> b \<noteq> ?a \<and> proc s1 b = w b" for b
    using set1 s1(7) by (auto simp: w_def)
  have kt: "proc s1 (ktask s) = w (ktask s)" using s1(7) assms(2) by (metis w_def)
  have "distinct (procs s1)" using B(3) s1(3) by simp
  have inj: "inj_on (\<lambda>a. pid (proc s2 a)) (set (procs s2))"
  proof (rule inj_onI)
    fix x y assume xy: "x \<in> set (procs s2)" "y \<in> set (procs s2)" "pid (proc s2 x) = pid (proc s2 y)"
    then have "x \<in> set (procs s)" "y \<in> set (procs s)" "pid (w x) = pid (w y)"
      using in1 by (auto simp: f2)
    then show "x = y" using inj_onD [OF WB(4)] by blast
  qed
  have "pid (proc s2 b) \<noteq> 0 \<and> pid (proc s2 b) < nextPid s" if "b \<in> set (procs s2)" "b \<noteq> ktask s" for b
    using in1 [of b] WB(3) [of b] that by (simp add: f2)
  moreover have "pstate (proc s2 b) \<noteq> Empty \<and> (b \<noteq> n \<longrightarrow> pstate (proc s2 b) \<noteq> Running)" if "b \<in> set (procs s2)" for b
    using in1 [of b] WB(5,6) [of b] that by (simp add: f2)
  moreover have "0 \<notin> set (procs s2)" using set1 B(4) f2 by auto
  moreover have "pid (proc s2 (ktask s)) = 0" "pstate (proc s2 (ktask s)) \<in> {Ready, Running}"
    using WB(1,2) kt by (simp_all add: f2)
  ultimately have "pbase s2"
    unfolding pbase_def using inj hd1 \<open>distinct (procs s1)\<close> by (auto simp: f2)
  then have "pinv s2" using n(1,2) set1 by (simp add: pinv_def pinv0_def f2)
  moreover have "hinv {#} s2 = hinv {#} s1" by (intro hinv_cong own_cong) (simp_all add: f2 s1)
  moreover have "qinv s2" unfolding qinv_def
  proof
    fix b assume "b \<in> set (procs s2)"
    then have "b \<in> set (procs s)" "sendQueue (proc s2 b) = sendQueue (proc s b)" using in1 [of b] wf(5) [of b]
      by (simp_all add: f2 w_def)
    then show "0 \<notin> snd ` set (sendQueue (proc s2 b))" using D(5) by (simp add: qinv_def)
  qed
  ultimately show ?thesis using e s1 D(6) n f2 by (auto simp: kinv_def)
qed

section \<open>The system calls keep the invariant\<close>

lemma kinv_not_running: "kinv s \<Longrightarrow> pstate (proc s t) = Running \<Longrightarrow> t \<in> set (procs s) \<Longrightarrow> t = curr s"
  using pbaseD(12) [OF kinvD(3)] by blast

lemma deliver_wake_kinv:
  assumes "kinv s" "t \<in> set (procs s)" "pstate (proc s t) \<in> {SendBlocked, ReceiveBlocked}"
    and "copyMessageToProcess t d m s = Some s1" "deliver_data t x n s1 = Some s2"
  shows "kinv (set_pstate t Ready (set_eax e v s2))" "\<exists>y. s2 = upd_mem y s"
proof -
  from copyMessage_mem [OF assms(4)] deliver_data_mem [OF assms(5)] obtain y where y: "s2 = upd_mem y s"
    by (auto simp: upd_mem_def)
  then show "\<exists>y. s2 = upd_mem y s" by blast
  have "kinv (set_eax e v s2)" using assms(1) y by simp
  then show "kinv (set_pstate t Ready (set_eax e v s2))"
    by (rule kinv_wake) (use assms(2,3) y in \<open>auto simp: set_eax_def\<close>)
qed

lemma getProc_nz: "getProc p s \<noteq> 0 \<Longrightarrow> getProc p s \<in> set (procs s)"
  using getProc_Some by blast

lemma push_fields: "sendQueuePush t p s = Some (ok, s') \<Longrightarrow> procs s' = procs s \<and>
   (\<forall>a. set (sendQueue (proc s' a)) \<subseteq> set (sendQueue (proc s a)) \<union> {x. snd x = p})"
  by (auto simp: sendQueuePush_def bind_Some split: if_splits dest!: k_new_fields)

lemma sys_send_kinv:
  assumes "kinv s" "curr s \<noteq> ktask s" "sys_send tp msg d n s = Some (r, s')"
  shows "(if r = 0 then kblocked s' else kinv s') \<and> nextPid s' = nextPid s"
proof -
  let ?t = "getProc tp s" and ?f = "\<lambda>m p. p\<lparr>pmsg := m, msgPtr := msg, dataPtr := d, dataLen := n\<rparr>"
  let ?s1 = "\<lambda>m. upd_proc (curr s) (?f m) s"
  note D = kinvD [OF assms(1)]
  show ?thesis
  proof (cases "?t = 0 \<or> ?t = curr s")
    case True
    then show ?thesis using assms by (auto simp: sys_send_def)
  next
    case False
    then have t: "?t \<in> set (procs s)" "?t \<noteq> curr s" using getProc_nz by auto
    from assms(3) False obtain m where m: "load_message (cr3 s) msg s = Some m" by (auto simp: sys_send_def bind_Some Let_def)
    have k1: "kinv (?s1 m)" using assms(1) by (simp add: kinv_upd_proc)
    show ?thesis
    proof (cases "pstate (proc s ?t) = ReceiveBlocked")
      case True
      from assms(3) False m True t obtain s2 s3 where c: "copyMessageToProcess ?t (msgPtr (proc s ?t)) m (?s1 m) = Some s2"
        "deliver_data ?t d n s2 = Some s3"
        "r = 0" "s' = set_pstate (curr s) SendBlocked (set_pstate ?t Ready
           (set_eax (r_esp (proc s3 ?t)) (pid (proc s3 (curr s))) s3))"
        by (auto simp: sys_send_def bind_Some Let_def)
      note k2 = deliver_wake_kinv [OF k1 _ _ c(1,2)]
      from k2(2) t True obtain y where y: "s3 = upd_mem y (?s1 m)" by auto
      have "kinv (set_pstate ?t Ready (set_eax (r_esp (proc s3 ?t)) (pid (proc s3 (curr s))) s3))"
        by (rule k2(1)) (use t True in simp_all)
      from kinv_block [OF this] c(3,4) assms(2) show ?thesis by (simp add: y set_eax_def)
    next
      case False2: False
      from assms(3) False m False2 t obtain ok s2 where c: "sendQueuePush ?t (pid (proc s (curr s))) (?s1 m) = Some (ok, s2)"
        by (auto simp: sys_send_def bind_Some Let_def)
      have c23: "r = (if ok then 0 else - 1)" "s' = (if ok then set_pstate (curr s) SendBlocked s2 else s2)"
        using assms(3) False m False2 t c by (auto simp: sys_send_def Let_def split: if_splits)
      note v = sendQueuePush_pview [OF c]
      have h: "hinv {#} s2" by (rule sendQueuePush_hinv [OF c]) (use kinvD(4) [OF k1] t in simp_all)
      have "pid (proc s (curr s)) \<noteq> 0" using pbaseD(9) [OF D(3,7) assms(2)] by simp
      then have q: "qinv s2" using push_fields [OF c] kinvD(5) [OF k1] unfolding qinv_def by fastforce
      have k2: "kinv s2" using k1 v h q by (rule kinvI)
      from kinv_block [OF k2] pview_fields [OF v] c23 assms(2) k2 show ?thesis by auto
    qed
  qed
qed

lemma notifyPop_fields: "notifyPop t msg d n s = Some (r, s') \<Longrightarrow> procs s' = procs s \<and>
   (\<forall>a. sendQueue (proc s' a) = sendQueue (proc s a))"
  by (auto simp: notifyPop_def bind_Some split: list.splits if_splits
      dest!: delete_notify_heap store_message_mem)

lemma notifyPush_fields: "notifyPush t p m d n s = Some (ok, s') \<Longrightarrow> procs s' = procs s \<and>
   (\<forall>a. sendQueue (proc s' a) = sendQueue (proc s a))"
  by (auto simp: notifyPush_def bind_Some split: if_splits dest!: k_new_heap k_delete_heap)

lemma pop_fields: "sendQueuePop t s = Some (p, s') \<Longrightarrow> procs s' = procs s \<and>
   (\<forall>a. set (sendQueue (proc s' a)) \<subseteq> set (sendQueue (proc s a))) \<and>
   (sendQueue (proc s t) \<noteq> [] \<longrightarrow> p \<in> snd ` set (sendQueue (proc s t)))"
  by (auto simp: sendQueuePop_def bind_Some split: list.splits if_splits dest!: k_delete_heap)

lemma deliverPending_kinv: "deliverPending p msg s = Some (b, s') \<Longrightarrow> kinv s \<Longrightarrow> kinv s' \<and> curr s' = curr s \<and>
    ktask s' = ktask s \<and> nextPid s' = nextPid s"
  by (auto simp: deliverPending_def bind_Some split: option.splits dest!: store_message_mem)

lemma notifyPop_kinv:
  assumes "notifyPop t msg d n s = Some (b, s')" "kinv s" "t \<in> set (procs s)"
  shows "kinv s'"
  using assms(2) notifyPop_pview [OF assms(1)]
proof (rule kinvI)
  show "hinv {#} s'" by (rule notifyPop_hinv [OF assms(1) kinvD(4) [OF assms(2)] assms(3)])
  have "qinv s' = qinv s" by (rule qinv_cong) (use notifyPop_fields [OF assms(1)] in auto)
  then show "qinv s'" using kinvD(5) [OF assms(2)] by simp
qed

lemma notifyPush_kinv:
  assumes "notifyPush t p m d n s = Some (b, s')" "kinv s" "t \<in> set (procs s)"
  shows "kinv s'"
  using assms(2) notifyPush_pview [OF assms(1)]
proof (rule kinvI)
  show "hinv {#} s'" by (rule notifyPush_hinv [OF assms(1) kinvD(4) [OF assms(2)] assms(3)])
  have "qinv s' = qinv s" by (rule qinv_cong) (use notifyPush_fields [OF assms(1)] in auto)
  then show "qinv s'" using kinvD(5) [OF assms(2)] by simp
qed

lemma sendQueuePop_kinv:
  assumes "sendQueuePop t s = Some (p, s')" "kinv s" "t \<in> set (procs s)"
  shows "kinv s'"
  using assms(2) sendQueuePop_pview [OF assms(1)]
proof (rule kinvI)
  show "hinv {#} s'" using sendQueuePop_hinv [OF kinvD(4) [OF assms(2)] assms(3)] assms(1) by auto
  show "qinv s'" using pop_fields [OF assms(1)] kinvD(5) [OF assms(2)] unfolding qinv_def by fastforce
qed

lemma sys_receive_kinv:
  assumes "kinv s" "curr s \<noteq> ktask s" "sys_receive msg d n s = Some (r, s')"
  shows "(if r = 0 then kblocked s' else kinv s') \<and> nextPid s' = nextPid s"
proof -
  let ?r = "curr s" and ?s1 = "upd_proc (curr s) (\<lambda>p. p\<lparr>dataPtr := d, dataLen := n\<rparr>) s"
  note D = kinvD [OF assms(1)]
  have k1: "kinv ?s1" using assms(1) by (simp add: kinv_upd_proc)
  from assms(3) obtain irq s2 where p: "deliverPending (pid (proc s ?r)) msg ?s1 = Some (irq, s2)"
    by (auto simp: sys_receive_def bind_Some Let_def)
  note k2 = deliverPending_kinv [OF p k1] and v2 = pview_fields [OF deliverPending_pview [OF p]]
  note rest = assms(3) [unfolded sys_receive_def, simplified Let_def p bind.bind_lunit prod.case upd_proc_fields
      fun_upd_same, simplified p bind.bind_lunit prod.case]
  show ?thesis
  proof (cases irq)
    case True
    with rest p k2 show ?thesis by (auto simp: bind_Some)
  next
    case False
    with rest p obtain nt s3 where q: "notifyPop ?r msg d n s2 = Some (nt, s3)" by (auto simp: bind_Some)
    have r2: "?r \<in> set (procs s2)" using D(7) v2(1) by simp
    have k3: "kinv s3" by (rule notifyPop_kinv [OF q]) (use k2 r2 in simp_all)
    note v3 = pview_fields [OF notifyPop_pview [OF q]]
    consider (note1) "nt \<noteq> None" | (send) "nt = None" "sendQueue (proc s3 ?r) \<noteq> []"
      | (none) "nt = None" "sendQueue (proc s3 ?r) = []" by blast
    then show ?thesis
    proof cases
      case note1
      with rest False q p k3 v3 k2 show ?thesis by (auto simp: bind_Some)
    next
      case none
      let ?b = "upd_proc ?r (\<lambda>p. p\<lparr>msgPtr := msg\<rparr>) s3"
      have "kinv ?b" using k3 by (simp add: kinv_upd_proc)
      from kinv_block [OF this, of ReceiveBlocked] rest False q p none v3 v2 assms(2)
      show ?thesis by (auto simp: bind_Some)
    next
      case send
      with rest False q p obtain sp s4 where s4: "sendQueuePop ?r s3 = Some (sp, s4)" by (auto simp: bind_Some)
      have k4: "kinv s4" by (rule sendQueuePop_kinv [OF s4 k3]) (use r2 v3 in simp)
      have "sp \<in> snd ` set (sendQueue (proc s3 ?r))" using pop_fields [OF s4] send by simp
      then have nz: "sp \<noteq> 0" using kinvD(5) [OF k3] r2 v3(1) unfolding qinv_def by metis
      note v4 = pview_fields [OF sendQueuePop_pview [OF s4]]
      have "(r = - 1 \<and> s' = s4) \<or> (r = sp \<and> (\<exists>x. s' = upd_mem x s4))"
        using rest False q p send s4
        by (auto simp: bind_Some upd_mem_def split: if_splits dest!: store_message_mem copyDataFrom_mem)
      then show ?thesis using nz k4 v4 v3 v2 by auto
    qed
  qed
qed

lemma sys_reply_kinv:
  assumes "kinv s" "sys_reply tp msg d n s = Some (r, s')"
  shows "kinv s' \<and> nextPid s' = nextPid s"
proof (cases "getProc tp s = 0 \<or> pstate (proc s (getProc tp s)) \<noteq> SendBlocked")
  case True
  then show ?thesis using assms by (auto simp: sys_reply_def Let_def)
next
  case False
  then have t: "getProc tp s \<in> set (procs s)" using getProc_nz by auto
  from assms(2) False obtain m s2 s3 e v where c: "copyMessageToProcess (getProc tp s) (msgPtr (proc s (getProc tp s))) m s = Some s2"
    "deliver_data (getProc tp s) d n s2 = Some s3" "s' = set_pstate (getProc tp s) Ready (set_eax e v s3)"
    by (auto simp: sys_reply_def bind_Some Let_def)
  note k = deliver_wake_kinv [OF assms(1) t _ c(1,2)]
  show ?thesis using k False c(3) by (auto simp: set_eax_def)
qed

lemma sys_notify_kinv:
  assumes "kinv s" "sys_notify tp msg d n s = Some (r, s')"
  shows "kinv s' \<and> nextPid s' = nextPid s"
proof (cases "getProc tp s = 0 \<or> getProc tp s = curr s")
  case True
  then show ?thesis using assms by (auto simp: sys_notify_def Let_def)
next
  case False
  then have t: "getProc tp s \<in> set (procs s)" using getProc_nz by auto
  show ?thesis
  proof (cases "pstate (proc s (getProc tp s)) = ReceiveBlocked")
    case True
    with assms(2) False obtain m s2 s3 e v where c: "copyMessageToProcess (getProc tp s) (msgPtr (proc s (getProc tp s))) m s = Some s2"
      "deliver_data (getProc tp s) d n s2 = Some s3" "s' = set_pstate (getProc tp s) Ready (set_eax e v s3)"
      by (auto simp: sys_notify_def bind_Some Let_def)
    note k = deliver_wake_kinv [OF assms(1) t _ c(1,2)]
    show ?thesis using k True c(3) by (auto simp: set_eax_def)
  next
    case False2: False
    with assms(2) False obtain m ok where "notifyPush (getProc tp s) (pid (proc s (curr s))) m d n s = Some (ok, s')"
      by (auto simp: sys_notify_def bind_Some Let_def split: if_splits)
    from notifyPush_kinv [OF this assms(1) t] pview_fields [OF notifyPush_pview [OF this]] show ?thesis by simp
  qed
qed

lemma createProcess_kinv:
  assumes "kinv s" "createProcess eip esp cs ds pd s = Some (a, s')" "nextPid s' \<noteq> 0"
  shows "kinv s' \<and> curr s' = curr s \<and> ktask s' = ktask s \<and>
    (a = 0 \<and> nextPid s' = nextPid s \<or> a \<noteq> 0 \<and> a \<notin> set (procs s) \<and> procs s' = procs s @ [a] \<and> pid (proc s' a) = nextPid s)"
proof -
  note D = kinvD [OF assms(1)]
  note B = pbaseD [OF D(3)]
  from assms(2) obtain s1 where n: "k_new 140 s = Some (a, s1)" by (auto simp: createProcess_def bind_Some split: if_splits)
  note h = hinv_k_new_Some [OF D(4) _ _ n] and v = pview_fields [OF k_new_pview [OF n]] and f = k_new_fields [OF n]
  show ?thesis
  proof (cases "a = 0")
    case True
    have "qinv s1 = qinv s" by (rule qinv_cong) (use f in auto)
    then have "kinv s1" using kinvI [OF assms(1) k_new_pview [OF n]] h True D(5) by simp
    then show ?thesis using assms(2) n True v by (auto simp: createProcess_def)
  next
    case False
    let ?p = "fresh_process\<lparr>pid := nextPid s, pstate := Ready, r_eip := eip, r_esp := esp, r_cs := cs, r_ds := ds,
        r_eflags := 0x202, pageDirectory := pd\<rparr>"
    have s': "s' = s1\<lparr>proc := (proc s)(a := ?p), nextPid := nextPid s + 1, procs := procs s @ [a]\<rparr>"
      using assms(2) n False f v by (simp add: createProcess_def seq_push_back_def)
    have ps: "procs s = ktask s # tl (procs s)" using B(1,2) by (cases "procs s") auto
    have "a \<noteq> ktask s" "a \<notin># owned s" using h False by auto
    then have a: "a \<notin> set (procs s)" by (subst ps) (auto simp: owned_def)
    have "nextPid s + 1 \<noteq> 0" using assms(3) s' by simp
    then have lt: "nextPid s < nextPid s + 1"
      using unatSuc [of "nextPid s"] by (simp add: word_less_nat_alt add.commute)
    have pos: "0 < nextPid s + 1" using \<open>nextPid s + 1 \<noteq> 0\<close> by (simp only: word_neq_0_conv)
    have ac: "a \<noteq> curr s" using a D(7) by auto
    have less: "pid (proc s b) \<noteq> nextPid s \<and> pid (proc s b) < nextPid s + 1" if "b \<in> set (procs s)" for b
      using B(7) B(9) [OF that] D(6) lt pos by (cases "b = ktask s") auto
    have "inj_on (\<lambda>b. pid (proc s' b)) (set (procs s'))"
    proof (rule inj_onI)
      fix x y assume xy: "x \<in> set (procs s')" "y \<in> set (procs s')" and eq: "pid (proc s' x) = pid (proc s' y)"
      have old: "z = a \<or> z \<in> set (procs s) \<and> z \<noteq> a \<and> pid (proc s' z) = pid (proc s z)" if "z \<in> set (procs s')" for z
        using that a by (auto simp: s')
      have new: "pid (proc s' a) = nextPid s" by (simp add: s')
      have neq: "pid (proc s' z) \<noteq> nextPid s" if "z \<in> set (procs s')" "z \<noteq> a" for z
        using old [OF that(1)] that(2) less [of z] by auto
      show "x = y"
      proof (cases "x = a \<or> y = a")
        case True
        then show ?thesis using neq xy new eq by metis
      next
        case False
        then show ?thesis using old [OF xy(1)] old [OF xy(2)] eq B(10) by metis
      qed
    qed
    moreover have "pid (proc s' z) \<noteq> 0 \<and> pid (proc s' z) < nextPid s'" if "z \<in> set (procs s')" "z \<noteq> ktask s" for z
      using that lt D(6) less [of z] B(9) [of z] by (cases "z = a") (auto simp: s')
    moreover have "pstate (proc s' z) \<noteq> Empty \<and> (z \<noteq> curr s \<longrightarrow> pstate (proc s' z) \<noteq> Running)" if "z \<in> set (procs s')" for z
      using that B(11) [of z] B(12) [of z] by (cases "z = a") (auto simp: s')
    moreover have "proc s' (ktask s) = proc s (ktask s)" using \<open>a \<noteq> ktask s\<close> by (simp add: s')
    moreover have "procs s' \<noteq> []" "hd (procs s') = ktask s" "distinct (procs s')" "0 \<notin> set (procs s')"
      using B(1-4) a False by (auto simp: s')
    moreover have "ktask s' = ktask s" "curr s' = curr s" using v by (simp_all add: s')
    ultimately have "pbase s'" using B(7,13) unfolding pbase_def by simp
    moreover have "curr s' = curr s" using v by (simp add: s')
    ultimately have "pinv s'" using D(7,8) a ac by (auto simp: pinv_def pinv0_def s' v)
    moreover have "hinv {#} s'"
    proof -
      have "tl (procs s @ [a]) = tl (procs s) @ [a]" using B(1) by simp
      moreover have "(\<Sum>b \<in> set (procs s @ [a]). own (proc s' b)) = (\<Sum>b \<in> set (procs s). own (proc s b))"
      proof -
        have "own ?p = {#}" by (rule own_fresh) (simp_all add: fresh_process_def)
        moreover have "(\<Sum>b \<in> set (procs s). own (((proc s)(a := ?p)) b)) = (\<Sum>b \<in> set (procs s). own (proc s b))"
          using a by (intro sum.cong) auto
        ultimately show ?thesis using a by (simp add: s')
      qed
      ultimately have "owned s' = owned s1 + {#a#}" using f by (simp add: owned_def s')
      then show ?thesis using h False by (simp add: hinv_def s')
    qed
    moreover have "qinv s'" using D(5) a by (auto simp: qinv_def s' fresh_process_def)
    ultimately show ?thesis using assms(3) False a v by (simp add: kinv_def s')
  qed
qed

lemma kinv_mach: "kinv s \<Longrightarrow> kinv (s\<lparr>mach := m\<rparr>)"
  by simp

lemma spawn_kinv:
  assumes "kinv s" "spawn pd eip hs cs ds s = Some (a, s')" "nextPid s' \<noteq> 0"
  shows "kinv s' \<and> curr s' = curr s \<and> ktask s' = ktask s"
proof -
  obtain fr q where al: "allocFrame (pmm (mach s)) = (fr, q)" by (cases "allocFrame (pmm (mach s))")
  let ?m = "mapUserPage pd 0xBFFFF000 fr 7 ((mach s)\<lparr>pmm := q\<rparr>)"
  obtain kf q2 where al2: "allocFrame (pmm ?m) = (kf, q2)" by (cases "allocFrame (pmm ?m)")
  show ?thesis
  proof (cases "fr = 0 \<or> kf = 0")
    case True
    then show ?thesis using assms al al2 by (cases "fr = 0") (auto simp: spawn_def Let_def)
  next
    case False
    let ?top = "kf + KERNEL_VBASE + FRAME_SIZE"
    let ?s1 = "s\<lparr>mach := ?m\<lparr>pmm := q2\<rparr>, frames := (frames s)(?top - 19 * 4 := initial_frame ds)\<rparr>"
    from assms(2) False al al2 obtain s2 where s2: "createProcess eip (?top - 19 * 4) cs ds pd ?s1 = Some (a, s2)"
      "s' = (if a = 0 then s2\<lparr>mach := (mach s2)\<lparr>pmm := freeFrame kf (pmm (mach s2))\<rparr>\<rparr>
             else upd_proc a (\<lambda>x. x\<lparr>kernelEsp := ?top, heapBase := hs, heapBreak := hs\<rparr>) s2)"
      by (auto simp: spawn_def Let_def bind_Some split: if_splits)
    have k1: "kinv ?s1" using assms(1) by simp
    have "nextPid s2 \<noteq> 0" using assms(3) s2(2) by (auto split: if_splits)
    from createProcess_kinv [OF k1 s2(1) this] s2(2) show ?thesis by (auto simp: kinv_upd_proc)
  qed
qed

lemma exec_kinv:
  assumes "kinv s" "sys_exec p n s = Some (r, s')" "nextPid s' \<noteq> 0"
  shows "kinv s'"
proof (cases "p = 0 \<or> n = 0 \<or> curr s = 0")
  case True
  then show ?thesis using assms by (auto simp: sys_exec_def split: if_splits)
next
  case False
  then have n0: "0 < n" by (simp add: word_neq_0_conv)
  note D = kinvD [OF assms(1)]
  from assms(2) False obtain b s1 where n: "k_new n s = Some (b, s1)" by (auto simp: sys_exec_def bind_Some)
  note f = k_new_fields [OF n] and v = k_new_pview [OF n]
  have q1: "qinv s1" using D(5) qinv_cong [of s1 s] f by simp
  note rest = assms(2) [unfolded sys_exec_def, simplified False n bind.bind_lunit prod.case]
  show ?thesis
  proof (cases "b = 0")
    case True
    from n True obtain h where h: "s1 = s\<lparr>kheap := Some h\<rparr>" "\<exists>g. kheap s = Some g \<and> allocate n g = Some (0, h)"
      by (auto simp: k_new_def kernel_new_def split: option.splits)
    then obtain g where g: "kheap s = Some g" "allocate n g = Some (0, h)" by blast
    have "hinv {#} s1" using D(4) g ha.alloc_null [OF _ g(2)] ha.alloc_ok [OF _ g(2)] allocate_region [OF _ g(2)] h(1)
      by (auto simp: hinv_def owned_def)
    then have "kinv s1" using kinvI [OF assms(1) v _ q1] by simp
    then show ?thesis using rest True False n by auto
  next
    case b: False
    from rest b False n obtain bs where bs: "load_user (kmem s1) (cr3 s1) p (unat n) = Some bs"
      by (auto simp: bind_Some)
    have "n \<le> 0xFFFFFFFC" using load_user_len [OF bs] by (simp add: word_le_nat_alt)
    from hinv_k_new_Some [OF D(4) n0 this n] b have h1: "hinv {#b#} s1" by simp
    have del: "kinv t" if d: "k_delete b (s1\<lparr>mach := m\<rparr>) = Some t" for m t
    proof -
      have "hinv {#} t" using hinv_delete_Some [OF _ d] h1 by simp
      moreover have "pview t = pview s" using k_delete_pview [OF d] v by simp
      moreover have "qinv t" using q1 k_delete_fields [OF d] qinv_cong [of t s1] by simp
      ultimately show ?thesis using kinvI [OF assms(1)] by blast
    qed
    let ?s2 = "upd_mem (store_bytes (kmem s1) (b - KERNEL_VBASE) bs) s1"
    obtain pd m where pd: "createAddressSpace (mach ?s2) = (pd, m)" by (cases "createAddressSpace (mach ?s2)")
    show ?thesis
    proof (cases "pd = 0")
      case True
      then show ?thesis using rest b False n bs pd del [of m] by (auto simp: bind_Some upd_mem_def)
    next
      case pd0: False
      obtain elf m2 where elf: "elf_load pd b n m = (elf, m2)" by (cases "elf_load pd b n m")
      from rest b False n bs pd pd0 elf obtain t where t: "k_delete b (s1\<lparr>mach := m2\<rparr>) = Some t"
        by (auto simp: bind_Some upd_mem_def)
      note kt = del [OF t]
      show ?thesis
      proof (cases "success elf")
        case False2: False
        then show ?thesis using rest b False n bs pd pd0 elf t kt by (auto simp: upd_mem_def)
      next
        case True
        from rest b False n bs pd pd0 elf t True obtain c u where u:
          "spawn pd (entryPoint elf) (heapStart elf) (r_cs (proc t (curr t))) (r_ds (proc t (curr t))) t = Some (c, u)"
          "s' = u \<or> s' = u\<lparr>mach := destroyAddressSpace pd (mach u)\<rparr>"
          by (auto simp: bind_Some upd_mem_def split: if_splits)
        have "nextPid u \<noteq> 0" using u(2) assms(3) by auto
        from spawn_kinv [OF kt u(1) this] u(2) show ?thesis by auto
      qed
    qed
  qed
qed

lemma sys_waitpid_kinv:
  assumes "kinv s" "curr s \<noteq> ktask s"
  shows "if fst (sys_waitpid p s) = 0 then kblocked (snd (sys_waitpid p s)) else kinv (snd (sys_waitpid p s))"
proof -
  have "kinv (upd_proc (curr s) (\<lambda>x. x\<lparr>waitPid := p\<rparr>) s)" using assms(1) by (simp add: kinv_upd_proc)
  from kinv_block [OF this] assms show ?thesis by (simp add: sys_waitpid_def Let_def)
qed

lemma procList_loop_mem: "procList_loop as b k c s = Some (r, s') \<Longrightarrow> \<exists>x. s' = upd_mem x s"
proof (induction as arbitrary: c s)
  case (Cons a as)
  show ?case
  proof (cases "c < k \<and> pid (proc s a) \<noteq> 0")
    case True
    with Cons.prems obtain m where "procList_loop as b k (c + 1) (upd_mem m s) = Some (r, s')" by (auto simp: bind_Some)
    from Cons.IH [OF this] show ?thesis by (auto simp: upd_mem_def)
  next
    case False
    then show ?thesis using Cons by (auto intro: upd_mem_id [symmetric] split: if_splits)
  qed
qed (auto intro: upd_mem_id [symmetric])

lemma sys_sbrk_kinv: "kinv s \<Longrightarrow> kinv (snd (sys_sbrk n s))"
  by (auto simp: sys_sbrk_def Let_def kinv_upd_proc split: prod.split bool.split)

lemma finish_blocking_kinv:
  assumes "if fst r = 0 then kblocked (snd r) else kinv (snd r)" "finish_blocking e r = Some (e', s')"
  shows "kinv s'"
  using assms reschedule_kinv [of "snd r" e] by (auto simp: finish_blocking_def finish_def split: if_splits)

section \<open>The transition system\<close>

lemma finish_kinv: "kinv (snd r) \<Longrightarrow> finish e r = Some (e', s') \<Longrightarrow> kinv s'"
  by (auto simp: finish_def)

lemma finish_nextPid: "finish e r = Some (e', s') \<Longrightarrow> nextPid s' = nextPid (snd r)"
  by (auto simp: finish_def set_eax_def)

lemma registerForward_kinv: "kinv s \<Longrightarrow> kinv (snd (registerForward i p s))"
  by (simp add: registerForward_def)

lemma mapDevice_kinv: "kinv s \<Longrightarrow> kinv (snd (sys_mapDevice p v n s))"
  by (simp add: sys_mapDevice_def Let_def)

lemma handleSyscall_kinv:
  assumes "kinv s" "curr s \<noteq> ktask s" "handleSyscall e s = Some (e', s')" "nextPid s' \<noteq> 0"
  shows "kinv s'"
proof -
  define f where "f = frames s e"
  note H = assms(3) [unfolded handleSyscall_def Let_def, folded f_def]
  have cases: "f_eax f \<in> {0,1,2,3,4,5,6,7,8,9,10,11,12,13,14,15,16,17} \<or>
    f_eax f \<notin> {0,1,2,3,4,5,6,7,8,9,10,11,12,13,14,15,16,17}" by blast
  consider "f_eax f = 0" | "f_eax f = 1" | "f_eax f = 2" | "f_eax f = 4" | "f_eax f = 9" | "f_eax f = 11"
    | "f_eax f = 14" | "f_eax f = 15" | "f_eax f = 16" | "f_eax f \<notin> {0, 1, 2, 4, 9, 11, 14, 15, 16}" by blast
  then show ?thesis
  proof cases
    case 1
    with H obtain r where r: "sys_send (f_ebx f) (f_ecx f) (f_esi f) (f_edi f) s = Some r"
      "finish_blocking e r = Some (e', s')" by (auto simp: bind_Some)
    from sys_send_kinv [OF assms(1,2), of "f_ebx f" "f_ecx f" "f_esi f" "f_edi f" "fst r" "snd r"] r(1)
    show ?thesis using finish_blocking_kinv [OF _ r(2)] by simp
  next
    case 2
    with H obtain r s1 where r: "sys_receive (f_ebx f) (f_esi f) (f_edi f) s = Some (r, s1)"
      "if r = - 2 \<or> r = - 3 then finish e (0, s1) = Some (e', s') else finish_blocking e (r, s1) = Some (e', s')"
      by (auto simp: bind_Some split: if_splits)
    note k = sys_receive_kinv [OF assms(1,2) r(1)]
    show ?thesis
    proof (cases "r = - 2 \<or> r = - 3")
      case True
      then have "r \<noteq> 0" by auto
      with k True r(2) show ?thesis using finish_kinv [of "(0, s1)" e e' s'] by simp
    next
      case False
      then show ?thesis using finish_blocking_kinv [of "(r, s1)" e e' s'] r(2) k by simp
    qed
  next
    case 3
    with H obtain r where r: "sys_reply (f_ebx f) (f_ecx f) (f_esi f) (f_edi f) s = Some r" "finish e r = Some (e', s')"
      by (auto simp: bind_Some)
    from sys_reply_kinv [OF assms(1), of "f_ebx f" "f_ecx f" "f_esi f" "f_edi f" "fst r" "snd r"] r(1)
    show ?thesis using finish_kinv [OF _ r(2)] by simp
  next
    case 4
    with H obtain r where r: "sys_write (f_ebx f) (f_ecx f) (f_edx f) s = Some r" "finish e r = Some (e', s')"
      by (auto simp: bind_Some)
    have "kinv (snd r)" using r(1) assms(1) by (auto simp: sys_write_def bind_Some split: if_splits)
    then show ?thesis using finish_kinv [OF _ r(2)] by simp
  next
    case 5
    let ?t = "port_write 0xF4 (if f_ebx f = 0 then 0x00 else 0x01) s"
    have "exitCurrent e ?t = Some (e', s')" using H 5 by simp
    moreover have "kinv ?t" "curr ?t \<noteq> ktask ?t" using assms(1,2) by simp_all (simp add: port_write_def)
    ultimately show ?thesis using exitCurrent_kinv [of ?t e] by auto
  next
    case 6
    with H obtain r where r: "sys_notify (f_ebx f) (f_ecx f) (f_esi f) (f_edi f) s = Some r" "finish e r = Some (e', s')"
      by (auto simp: bind_Some)
    from sys_notify_kinv [OF assms(1), of "f_ebx f" "f_ecx f" "f_esi f" "f_edi f" "fst r" "snd r"] r(1)
    show ?thesis using finish_kinv [OF _ r(2)] by simp
  next
    case 7
    with H obtain r where r: "sys_procList (f_ebx f) (f_ecx f) s = Some r" "finish e r = Some (e', s')"
      by (auto simp: bind_Some)
    then obtain x where "snd r = upd_mem x s"
      using procList_loop_mem [of "procs s" "f_ebx f" "f_ecx f" 0 s "fst r" "snd r"] by (auto simp: sys_procList_def)
    then show ?thesis using finish_kinv [OF _ r(2)] assms(1) by simp
  next
    case 8
    with H obtain r where r: "sys_exec (f_ebx f) (f_ecx f) s = Some r" "finish e r = Some (e', s')"
      by (auto simp: bind_Some)
    have "nextPid (snd r) \<noteq> 0" using finish_nextPid [OF r(2)] assms(4) by simp
    with exec_kinv [OF assms(1), of "f_ebx f" "f_ecx f" "fst r" "snd r"] r(1)
    show ?thesis using finish_kinv [OF _ r(2)] by simp
  next
    case 9
    with H have r: "finish_blocking e (sys_waitpid (f_ebx f) s) = Some (e', s')" by simp
    from finish_blocking_kinv [OF sys_waitpid_kinv [OF assms(1,2)] r] show ?thesis .
  next
    case 10
    then have "s' = upd_frame e (\<lambda>f. f\<lparr>f_eax := getTotalFrames (pmm (mach s)), f_ebx := getUsedFrames (pmm (mach s)),
          f_ecx := getFreeFrames (pmm (mach s))\<rparr>) s \<or> s' = sys_reboot s \<or> s' = sys_shutdown s \<or>
        finish e (registerForward (ucast (f_ebx f)) (pid (proc s (curr s))) s) = Some (e', s') \<or>
        (\<exists>v. finish e (v, s) = Some (e', s')) \<or> finish e (sys_mapDevice (f_ebx f) (f_ecx f) (f_edx f) s) = Some (e', s') \<or>
        finish e (sys_sbrk (f_ebx f) s) = Some (e', s') \<or> (\<exists>g. s' = upd_frame e g s)"
      using H by (auto simp: sys_memInfo_def split: if_splits)
    then show ?thesis
      using assms(1) finish_kinv [OF registerForward_kinv [OF assms(1)]] finish_kinv [OF mapDevice_kinv [OF assms(1)]]
        finish_kinv [OF sys_sbrk_kinv [OF assms(1)]] finish_kinv [of "(v, s)" e e' s' for v]
      by (auto simp: sys_reboot_def sys_shutdown_def)
  qed
qed

lemma forward_irq_kinv:
  assumes "kinv s" "forward_irq i s = Some s'"
  shows "kinv s' \<and> nextPid s' = nextPid s"
proof (cases "i < 16 \<and> forwardPid s (unat i) \<noteq> 0 \<and> getProc (forwardPid s (unat i)) s \<noteq> 0 \<and>
    pstate (proc s (getProc (forwardPid s (unat i)) s)) = ReceiveBlocked")
  case True
  let ?t = "getProc (forwardPid s (unat i)) s"
  from True assms(2) obtain s1 where s1: "copyMessageToProcess ?t (msgPtr (proc s ?t)) (irq_message i) s = Some s1"
    "s' = set_pstate ?t Ready (set_eax (r_esp (proc s1 ?t)) 0 s1)"
    by (auto simp only: forward_irq_def bind_Some Let_def if_True simp_thms option.inject)
  from copyMessage_mem [OF s1(1)] obtain x where x: "s1 = upd_mem x s" by blast
  have "kinv (set_eax (r_esp (proc s1 ?t)) 0 s1)" using assms(1) x by simp
  moreover have "?t \<in> set (procs s)" using getProc_nz True by blast
  ultimately show ?thesis using kinv_wake [of "set_eax (r_esp (proc s1 ?t)) 0 s1" ?t] True x s1(2) by (simp add: set_eax_def)
next
  case False
  define t where "t = getProc (forwardPid s (unat i)) s"
  have "\<not> (i < 16 \<and> forwardPid s (unat i) \<noteq> 0) \<or> t = 0 \<or> pstate (proc s t) \<noteq> ReceiveBlocked"
    using False unfolding t_def by blast
  then consider "\<not> (i < 16 \<and> forwardPid s (unat i) \<noteq> 0)" | "i < 16 \<and> forwardPid s (unat i) \<noteq> 0" "t = 0"
    | "i < 16 \<and> forwardPid s (unat i) \<noteq> 0" "t \<noteq> 0" "pstate (proc s t) \<noteq> ReceiveBlocked" by blast
  then have "forward_irq i s \<in> {Some s, Some (s\<lparr>pendingIrq := (pendingIrq s)(unat i := True)\<rparr>)}"
    unfolding forward_irq_def Let_def t_def [symmetric] insert_iff by cases (simp_all only: if_True if_False simp_thms)
  then consider "s' = s" | "s' = s\<lparr>pendingIrq := (pendingIrq s)(unat i := True)\<rparr>" using assms(2) by auto
  then show ?thesis using assms(1) by cases simp_all
qed

lemma handleIrq_kinv:
  assumes "kinv s" "handleIrq n e s = Some (e', s')"
  shows "kinv s' \<and> nextPid s' = nextPid s"
proof -
  let ?i = "n - IRQ_OFFSET"
  from assms(2) obtain e1 s1 s2 where r: "run_handler ?i e s = Some (e1, s1)"
    "forward_irq ?i (if ?i \<ge> 8 then port_write 0xA0 0x20 (port_write 0x20 0x20 s1) else port_write 0x20 0x20 s1) = Some s2"
    "s' = s2" by (auto simp: handleIrq_def bind_Some Let_def)
  have "kinv s1 \<and> nextPid s1 = nextPid s"
    using r(1) assms(1) schedule_kinv [of "s\<lparr>ticks := ticks s + 1\<rparr>" e]
    by (auto simp: run_handler_def pit_handleInterrupt_def split: if_splits option.splits irq_handler.splits)
  then have "kinv (if ?i \<ge> 8 then port_write 0xA0 0x20 (port_write 0x20 0x20 s1) else port_write 0x20 0x20 s1)"
    "nextPid (if ?i \<ge> 8 then port_write 0xA0 0x20 (port_write 0x20 0x20 s1) else port_write 0x20 0x20 s1) = nextPid s"
    by (simp_all) (simp add: port_write_def)
  then show ?thesis using forward_irq_kinv [OF _ r(2)] r(3) by simp
qed

text \<open>
  The kernel task only halts the processor, so a system call comes from another process.
  Identifiers are 32 bits wide: runs in which \<^verbatim>\<open>nextPid\<close> wraps to 0 are left out.
\<close>

inductive kstep :: "kstate \<Rightarrow> kstate \<Rightarrow> bool" where
  syscall: "curr s \<noteq> ktask s \<Longrightarrow> handleSyscall e s = Some (e', s') \<Longrightarrow> nextPid s' \<noteq> 0 \<Longrightarrow> kstep s s'"
| interrupt: "handleIrq n e s = Some (e', s') \<Longrightarrow> kstep s s'"

inductive_cases kstepE: "kstep s s'"

inductive kreach :: "kstate \<Rightarrow> kstate \<Rightarrow> bool" where
  start: "kreach s s"
| step: "kreach s t \<Longrightarrow> kstep t u \<Longrightarrow> kreach s u"

lemma kstep_kinv: "kstep s s' \<Longrightarrow> kinv s \<Longrightarrow> kinv s'"
  by (erule kstepE) (auto intro: handleSyscall_kinv dest: handleIrq_kinv)

lemma kreach_kinv: "kreach s t \<Longrightarrow> kinv s \<Longrightarrow> kinv t"
  by (induction rule: kreach.induct) (auto intro: kstep_kinv)

end
