(* ===== verification/Kernel.thy ===== *)
theory Kernel
  imports Kernel_Steps User_Memory
begin

text \<open>
  The kernel as a whole, kernel/src/core/kernel.cpp: the state \<^verbatim>\<open>start\<close> sets up, the boot
  modules it turns into processes, and the properties of the running kernel: the invariant
  in every reachable state, fair scheduling, the message passing primitives, the end of a
  process, the heap break and the forwarding of interrupts.
\<close>

section \<open>Boot\<close>

definition kernel_task :: process where
  "kernel_task = fresh_process\<lparr>pstate := Running, r_cs := 0x08, r_ds := 0x10\<rparr>"

definition boot_state :: "machine \<Rightarrow> allocator \<Rightarrow> addr \<Rightarrow> fb_info \<Rightarrow> kstate" where
  "boot_state m h k fb = \<lparr>mach = m, kheap = Some h, frames = (\<lambda>_. initial_frame 0),
     proc = (\<lambda>_. fresh_process)(k := kernel_task), procs = [k], curr = k, ktask = k, nextPid = 1,
     cr3 = kdir m, tssEsp0 = 0, gdtSet = True, tickCount = 0, timeSlice = DEFAULT_TIME_SLICE, ticks = 0,
     handlers = (\<lambda>_. None)(0 := Some PitHandler), forwardPid = (\<lambda>_. 0), pendingIrq = (\<lambda>_. False),
     serialOut = [], portLog = [], power = PowerOn, fbInfo = fb\<rparr>"

text \<open>One boot module, given by the physical addresses of its start and end.\<close>

definition load_module :: "u32 \<Rightarrow> u32 \<Rightarrow> addr \<times> addr \<Rightarrow> kstate \<Rightarrow> kstate option" where
  "load_module cs ds md s =
     (let elfData = fst md + KERNEL_VBASE; elfSize = snd md - fst md; (pd, m) = createAddressSpace (mach s) in
      if pd = 0 then Some (s\<lparr>mach := m\<rparr>)
      else (let (elf, m) = elf_load pd elfData elfSize m in
        if \<not> success elf then Some (s\<lparr>mach := m\<rparr>)
        else map_option snd (spawn pd (entryPoint elf) (heapStart elf) cs ds (s\<lparr>mach := m\<rparr>))))"

fun load_modules :: "u32 \<Rightarrow> u32 \<Rightarrow> (addr \<times> addr) list \<Rightarrow> kstate \<Rightarrow> kstate option" where
  "load_modules cs ds [] s = Some s"
| "load_modules cs ds (md # mds) s = do { s \<leftarrow> load_module cs ds md s; load_modules cs ds mds s }"

lemma boot_kinv:
  assumes "heap_ok h" "live h = {}" "\<not> in_region h k" "k \<noteq> 0"
  shows "kinv (boot_state m h k fb)"
  using assms
  by (simp add: kinv_def pinv_def pinv0_def pbase_def boot_state_def kernel_task_def fresh_process_def hinv_def qinv_def
      owned_def own_def)

lemma createProcess_mono:
  "createProcess eip esp cs ds pd s = Some (a, s') \<Longrightarrow> nextPid s' = nextPid s \<or> nextPid s' = nextPid s + 1"
  by (auto simp: createProcess_def bind_Some split: if_splits dest!: k_new_heap)

lemma load_module_kinv:
  assumes "kinv s" "load_module cs ds md s = Some s'" "nextPid s' \<noteq> 0"
  shows "kinv s'"
proof -
  obtain pd m where pd: "createAddressSpace (mach s) = (pd, m)" by (cases "createAddressSpace (mach s)")
  obtain elf m2 where elf: "elf_load pd (fst md + KERNEL_VBASE) (snd md - fst md) m = (elf, m2)"
    by (cases "elf_load pd (fst md + KERNEL_VBASE) (snd md - fst md) m")
  show ?thesis
  proof (cases "pd = 0 \<or> \<not> success elf")
    case True
    then show ?thesis using assms pd elf by (cases "pd = 0") (auto simp: load_module_def Let_def)
  next
    case False
    with assms(2) pd elf obtain a where "spawn pd (entryPoint elf) (heapStart elf) cs ds (s\<lparr>mach := m2\<rparr>) = Some (a, s')"
      by (auto simp: load_module_def Let_def)
    from spawn_kinv [OF _ this assms(3)] assms(1) show ?thesis by simp
  qed
qed

text \<open>As long as the identifiers of the processes created so far do not wrap.\<close>

fun modules_ok :: "u32 \<Rightarrow> u32 \<Rightarrow> (addr \<times> addr) list \<Rightarrow> kstate \<Rightarrow> bool" where
  "modules_ok cs ds [] s \<longleftrightarrow> True"
| "modules_ok cs ds (md # mds) s \<longleftrightarrow>
     (case load_module cs ds md s of None \<Rightarrow> False | Some t \<Rightarrow> nextPid t \<noteq> 0 \<and> modules_ok cs ds mds t)"

lemma load_modules_kinv:
  "kinv s \<Longrightarrow> modules_ok cs ds mds s \<Longrightarrow> \<exists>t. load_modules cs ds mds s = Some t \<and> kinv t"
  by (induction mds arbitrary: s) (auto split: option.splits intro: load_module_kinv)


definition demo_kheap :: allocator where
  "demo_kheap = HeapAllocator_ctor (\<lambda>_. \<lparr>bsize = 0, bfree = False, bnext = 0\<rparr>) 0xC0200000 0x100000"

lemma demo_kheap_ok: "heap_ok demo_kheap" "live demo_kheap = {}" "\<not> in_region demo_kheap 0xC0110000"
proof -
  have i: "heap_inv demo_kheap [(0xC0200000, 0x100000 - 12, True)]"
    using ctor_rep [of "0xC0200000" "0x100000"] by (simp add: demo_kheap_def)
  then show "heap_ok demo_kheap" by (auto simp: heap_ok_def)
  show "live demo_kheap = {}" using live_eq [OF i] by (simp add: live_of_def)
  show "\<not> in_region demo_kheap 0xC0110000" by (simp add: in_region_def demo_kheap_def HeapAllocator_ctor_def)
qed

definition no_fb :: fb_info where
  "no_fb = \<lparr>fb_address = 0, fb_width = 0, fb_height = 0, fb_pitch = 0, fb_bpp = 0\<rparr>"

definition demo_kernel :: kstate where
  "demo_kernel = boot_state demo_vm demo_kheap 0xC0110000 no_fb"

lemma demo_kernel_kinv: "kinv demo_kernel"
  unfolding demo_kernel_def by (rule boot_kinv) (use demo_kheap_ok in simp_all)


section \<open>Scheduling\<close>

text \<open>
  C14. The search for the next process is round robin and always ends: it yields the first
  ready process after the current one in the process list, taken cyclically, and the
  current one only when no other is ready.
\<close>

theorem findNextReady_round_robin:
  assumes "kinv s" "procs s = us @ curr s # vs"
  shows "findNextReady (curr s) s =
    Some (case List.find (\<lambda>a. pstate (proc s a) = Ready) (vs @ us) of None \<Rightarrow> curr s | Some a \<Rightarrow> a)"
  using findNextReady_cyclic [OF assms(2) pbaseD(3,4) [OF kinvD(3) [OF assms(1)]]] by (simp add: first_ready_def)

theorem findNextReady_round_robin_witness:
  "findNextReady 0xC0110000 demo_kernel = Some 0xC0110000"
  using findNextReady_round_robin [OF demo_kernel_kinv, of "[]" "[]"]
  by (simp add: demo_kernel_def boot_state_def)

text \<open>\<open>n\<close> timer interrupts in a row, as when every process computes without system calls.\<close>

fun run_ticks :: "nat \<Rightarrow> kstate \<Rightarrow> kstate option" where
  "run_ticks 0 s = Some s"
| "run_ticks (Suc n) s = do { (_, s) \<leftarrow> pit_handleInterrupt 0 s; run_ticks n s }"

lemma run_ticks_add: "run_ticks (m + n) s = Option.bind (run_ticks m s) (run_ticks n)"
proof (induction m arbitrary: s)
  case (Suc m)
  then show ?case by (cases "pit_handleInterrupt 0 s") (auto split: prod.split)
qed simp

text \<open>How far the waiting process is behind the current one in the rotation.\<close>

definition rotation :: "kstate \<Rightarrow> addr list" where
  "rotation s = tl (dropWhile (\<lambda>a. a \<noteq> curr s) (procs s)) @ takeWhile (\<lambda>a. a \<noteq> curr s) (procs s)"

lemma rotation_split: "procs s = us @ curr s # vs \<Longrightarrow> curr s \<notin> set us \<Longrightarrow> rotation s = vs @ us"
proof -
  assume p: "procs s = us @ curr s # vs" and n: "curr s \<notin> set us"
  have "dropWhile (\<lambda>a. a \<noteq> curr s) (us @ curr s # vs) = curr s # vs"
    "takeWhile (\<lambda>a. a \<noteq> curr s) (us @ curr s # vs) = us"
    using n by (auto simp: dropWhile_append takeWhile_append)
  then show ?thesis by (simp add: rotation_def p)
qed

fun behind :: "addr list \<Rightarrow> addr \<Rightarrow> nat" where
  "behind [] a = 0"
| "behind (b # bs) a = (if b = a then 0 else Suc (behind bs a))"

lemma behind_less: "a \<in> set bs \<Longrightarrow> behind bs a < length bs"
  by (induction bs) auto

lemma behind_append: "behind (xs @ ys) a = (if a \<in> set xs then behind xs a else length xs + behind ys a)"
  by (induction xs) auto

lemma first_ready_split:
  "first_ready s bs = Some n \<Longrightarrow> \<exists>xs ys. bs = xs @ n # ys \<and> (\<forall>b \<in> set xs. pstate (proc s b) \<noteq> Ready)"
proof (induction bs)
  case (Cons b bs)
  show ?case
  proof (cases "pstate (proc s b) = Ready")
    case True
    then show ?thesis using Cons.prems by (intro exI [of _ "[]"] exI [of _ bs]) auto
  next
    case False
    with Cons obtain xs ys where "bs = xs @ n # ys" "\<forall>b \<in> set xs. pstate (proc s b) \<noteq> Ready" by auto
    with False show ?thesis by (intro exI [of _ "b # xs"] exI [of _ ys]) auto
  qed
qed simp

lemma cyclic_split:
  assumes "vs @ us = xs @ n # ys"
  obtains us' vs' where "us @ c # vs = us' @ n # vs'" "vs' @ us' = ys @ c # xs"
proof -
  from assms consider zs where "vs = xs @ zs" "zs @ us = n # ys" | zs where "vs @ zs = xs" "us = zs @ n # ys"
    by (auto simp: append_eq_append_conv2)
  then show thesis
  proof cases
    case (1 zs)
    show thesis
    proof (cases zs)
      case Nil
      then show thesis using 1 that [of "[]" "ys @ c # xs"] by simp
    next
      case (Cons z zs')
      then show thesis using 1 that [of "us @ c # xs" zs'] by auto
    qed
  next
    case (2 zs)
    then show thesis using that [of zs "ys @ c # vs"] by simp
  qed
qed

text \<open>A switch lets the first ready process of the rotation run and demotes the current one.\<close>

lemma schedule_switch:
  assumes "kinv s" "a \<in> set (procs s)" "a \<noteq> curr s" "pstate (proc s a) = Ready" "timeSlice s \<le> tickCount s + 1"
  shows "\<exists>e' s'. schedule e s = Some (e', s') \<and> kinv s' \<and> procs s' = procs s \<and> timeSlice s' = timeSlice s \<and>
    tickCount s' = 0 \<and> (curr s' = a \<or> pstate (proc s' a) = Ready \<and> behind (rotation s') a < behind (rotation s) a)"
proof -
  note D = kinvD [OF assms(1)]
  note B = pbaseD [OF D(3)]
  obtain us vs where p: "procs s = us @ curr s # vs" using split_list [OF D(7)] by blast
  then have nu: "curr s \<notin> set us" "curr s \<notin> set vs" using B(3) by auto
  have rot: "rotation s = vs @ us" by (rule rotation_split [OF p nu(1)])
  have cnt: "\<not> getProcessCount s \<le> 1"
  proof -
    have "curr s \<noteq> ktask s \<or> a \<noteq> ktask s" using assms(3) by auto
    then have "2 \<le> length (procs s)" using p assms(2,3) by (cases us; cases vs) auto
    moreover have "card (set (procs s)) < 2 ^ 32"
    proof -
      have "card (set (procs s)) \<le> card (UNIV - {0 :: addr})" using B(4) by (intro card_mono) auto
      also have "\<dots> < 2 ^ 32" by (simp add: card_Diff_singleton card_word)
      finally show ?thesis .
    qed
    ultimately show ?thesis using distinct_card [OF B(3)]
      by (simp add: getProcessCount_def word_le_nat_alt)
  qed
  let ?s = "set_pstate (curr s) Ready (s\<lparr>tickCount := 0\<rparr>)"
  have st: "pstate (proc ?s b) = Ready \<longleftrightarrow> b = curr s \<or> pstate (proc s b) = Ready" for b by simp
  have f: "findNextReady (curr s) ?s = Some (case first_ready ?s (vs @ us) of None \<Rightarrow> curr s | Some b \<Rightarrow> b)"
    by (rule findNextReady_cyclic) (use p B(3,4) in auto)
  have mem: "a \<in> set (vs @ us)" using assms(2,3) p by auto
  then have "first_ready ?s (vs @ us) \<noteq> None" using assms(4) st by (auto simp: first_ready_None)
  then obtain n where n: "first_ready ?s (vs @ us) = Some n" by blast
  from first_ready_split [OF this] obtain xs ys where xy: "vs @ us = xs @ n # ys"
    "\<forall>b \<in> set xs. pstate (proc ?s b) \<noteq> Ready" by blast
  have sch: "schedule e s = Some (switchTo n (curr s) e ?s)"
    using cnt leD [OF assms(5)] D(8) f n by (simp add: schedule_def Let_def getProcessCount_def)
  from schedule_kinv [OF assms(1), of e] obtain e' s' where es: "schedule e s = Some (e', s')" "kinv s'" by blast
  have k: "kinv (snd (switchTo n (curr s) e ?s))" 
  proof -
    have "switchTo n (curr s) e ?s = (e', s')" using es(1) unfolding sch by (rule option.inject [THEN iffD1])
    then show ?thesis using es(2) by (simp only: snd_conv)
  qed
  let ?t = "snd (switchTo n (curr s) e ?s)"
  have "n \<in> set (vs @ us)" unfolding xy(1) by simp
  then have nps: "n \<in> set (procs s)" "n \<noteq> curr s" using p nu by auto
  show ?thesis
  proof (cases "n = a")
    case True
    then show ?thesis using sch k by (intro exI [of _ "fst (switchTo n (curr s) e ?s)"] exI [of _ ?t])
      (simp add: switchTo_fields, simp add: switchTo_def Let_def load_tss_def set_pstate_def upd_proc_def)
  next
    case False
    have "a \<notin> set xs" using xy(2) assms(4) st by blast
    then have ay: "a \<in> set ys" using mem xy(1) False by auto
    from cyclic_split [OF xy(1)] p obtain us' vs' where q: "procs s = us' @ n # vs'" "vs' @ us' = ys @ curr s # xs"
      by metis
    have nus: "n \<notin> set us'" using q(1) B(3) by auto
    have rt: "rotation ?t = vs' @ us'" by (rule rotation_split) (use q(1) nus in \<open>simp_all add: switchTo_fields\<close>)
    have "behind (vs' @ us') a < behind (vs @ us) a"
      using ay \<open>a \<notin> set xs\<close> False unfolding q(2) xy(1) by (simp add: behind_append)
    then show ?thesis using sch k False assms(3,4) rt rot
      by (intro exI [of _ "fst (switchTo n (curr s) e ?s)"] exI [of _ ?t])
        (simp add: switchTo_fields, simp add: switchTo_def Let_def load_tss_def set_pstate_def upd_proc_def)
  qed
qed

lemma tick_wait:
  assumes "kinv s" "a \<noteq> curr s" "pstate (proc s a) = Ready" "tickCount s + 1 < timeSlice s"
  shows "\<exists>e' s'. schedule e s = Some (e', s') \<and> kinv s' \<and> procs s' = procs s \<and> timeSlice s' = timeSlice s \<and>
    (tickCount s' = tickCount s \<or> tickCount s' = tickCount s + 1) \<and> curr s' = curr s \<and> proc s' = proc s"
  using assms kinv_more(3) [where s = s and t = "tickCount s + 1"] by (auto simp: schedule_def Let_def)

lemma count_two:
  assumes "kinv s" "a \<in> set (procs s)" "a \<noteq> curr s"
  shows "\<not> getProcessCount s \<le> 1"
proof -
  note B = pbaseD [OF kinvD(3) [OF assms(1)]]
  have "card {a, curr s} \<le> card (set (procs s))" using assms(2) kinvD(7) [OF assms(1)] by (intro card_mono) auto
  then have "2 \<le> length (procs s)" using assms(3) distinct_card [OF B(3)] by (auto simp: eq_commute)
  moreover have "length (procs s) < 2 ^ 32"
  proof -
    have "card (set (procs s)) \<le> card (UNIV - {0 :: addr})" using B(4) by (intro card_mono) auto
    also have "\<dots> < 2 ^ 32" by (simp add: card_Diff_singleton card_word)
    finally show ?thesis using distinct_card [OF B(3)] by simp
  qed
  ultimately show ?thesis by (simp add: getProcessCount_def word_le_nat_alt)
qed

lemma ticks_until_switch:
  assumes "kinv s" "a \<in> set (procs s)" "a \<noteq> curr s" "pstate (proc s a) = Ready" "timeSlice s = 10"
    and "unat (tickCount s) + n = 9"
  shows "\<exists>s'. run_ticks (Suc n) s = Some s' \<and> kinv s' \<and> procs s' = procs s \<and> timeSlice s' = 10 \<and> tickCount s' = 0 \<and>
    (curr s' = a \<or> pstate (proc s' a) = Ready \<and> behind (rotation s') a < behind (rotation s) a)"
  using assms
proof (induction n arbitrary: s)
  case 0
  let ?s = "s\<lparr>ticks := ticks s + 1\<rparr>"
  have "unat (tickCount s) = unat (9 :: u32)" using "0.prems"(6) by simp
  then have "tickCount s = 9" by (simp only: word_unat_eq_iff)
  with schedule_switch [of ?s a 0] "0.prems" show ?case by (auto simp: pit_handleInterrupt_def rotation_def)
next
  case (Suc n)
  let ?s = "s\<lparr>ticks := ticks s + 1\<rparr>" and ?t = "s\<lparr>ticks := ticks s + 1, tickCount := tickCount s + 1\<rparr>"
  have u: "unat (tickCount s + 1) = unat (tickCount s) + 1"
    using unat_add_of_nat [of "tickCount s" 1] Suc.prems(6) by simp
  then have "tickCount s + 1 < timeSlice s" using Suc.prems(5,6) by (simp add: word_less_nat_alt)
  moreover have "\<not> getProcessCount s \<le> 1" by (rule count_two [OF Suc.prems(1-3)])
  ultimately have "schedule 0 ?s = Some (0, ?t)" by (simp add: schedule_def getProcessCount_def Let_def)
  then have "run_ticks (Suc (Suc n)) s = run_ticks (Suc n) ?t"
    by (simp only: run_ticks.simps(2) [of "Suc n"] pit_handleInterrupt_def bind.bind_lunit prod.case)
  moreover have "rotation ?t = rotation s" by (simp add: rotation_def)
  moreover have "\<exists>s'. run_ticks (Suc n) ?t = Some s' \<and> kinv s' \<and> procs s' = procs ?t \<and> timeSlice s' = 10 \<and>
      tickCount s' = 0 \<and> (curr s' = a \<or> pstate (proc s' a) = Ready \<and> behind (rotation s') a < behind (rotation ?t) a)"
    by (rule Suc.IH) (use Suc.prems u in simp_all)
  ultimately show ?case by (simp del: run_ticks.simps)
qed

lemma runs_eventually:
  assumes "kinv s" "a \<in> set (procs s)" "pstate (proc s a) \<in> {Ready, Running}" "timeSlice s = 10"
    and "unat (tickCount s) < 10"
  shows "\<exists>k s'. k \<le> 10 * Suc (behind (rotation s) a) \<and> run_ticks k s = Some s' \<and> curr s' = a \<and>
    pstate (proc s' a) = Running"
  using assms
proof (induction "behind (rotation s) a" arbitrary: s rule: less_induct)
  case less
  show ?case
  proof (cases "a = curr s")
    case True
    then show ?thesis using kinvD(8) [OF less.prems(1)] by (intro exI [of _ 0] exI [of _ s]) simp
  next
    case False
    then have r: "pstate (proc s a) = Ready" using kinv_not_running [OF less.prems(1)] less.prems(2,3) by auto
    let ?n = "9 - unat (tickCount s)"
    have "unat (tickCount s) + ?n = 9" using less.prems(5) by simp
    from ticks_until_switch [OF less.prems(1,2) False r less.prems(4) this] obtain s1 where s1:
      "run_ticks (Suc ?n) s = Some s1" "kinv s1" "procs s1 = procs s" "timeSlice s1 = 10" "tickCount s1 = 0"
      "curr s1 = a \<or> pstate (proc s1 a) = Ready \<and> behind (rotation s1) a < behind (rotation s) a" by blast
    show ?thesis
    proof (cases "curr s1 = a")
      case True
      then show ?thesis using s1 kinvD(8) [OF s1(2)] by (intro exI [of _ "Suc ?n"] exI [of _ s1]) simp
    next
      case notyet: False
      then have b: "pstate (proc s1 a) = Ready" "behind (rotation s1) a < behind (rotation s) a" using s1(6) by auto
      from less.hyps [OF b(2) s1(2)] b(1) s1(3-5) less.prems(2) obtain k s' where
        k: "k \<le> 10 * Suc (behind (rotation s1) a)" "run_ticks k s1 = Some s'" "curr s' = a" "pstate (proc s' a) = Running"
        by auto
      have "run_ticks (Suc ?n + k) s = Some s'" unfolding run_ticks_add s1(1) by (simp add: k(2))
      moreover have "Suc ?n + k \<le> 10 * Suc (behind (rotation s) a)" using k(1) b(2) by simp
      ultimately show ?thesis using k(3,4) by blast
    qed
  qed
qed

text \<open>
  C15. No starvation: with the code's time slice, a process that is ready gets the processor
  after at most ten timer interrupts per process in the list, however the others compute.
\<close>

theorem no_starvation:
  assumes "kinv s" "a \<in> set (procs s)" "pstate (proc s a) = Ready" "timeSlice s = DEFAULT_TIME_SLICE"
    and "tickCount s < DEFAULT_TIME_SLICE"
  shows "\<exists>k s'. k \<le> 10 * length (procs s) \<and> run_ticks k s = Some s' \<and> curr s' = a \<and>
    pstate (proc s' a) = Running"
proof -
  note D = kinvD [OF assms(1)]
  have tc: "timeSlice s = 10" "unat (tickCount s) < 10"
    using assms(4,5) by (simp_all add: DEFAULT_TIME_SLICE_def word_less_nat_alt)
  have ne: "a \<noteq> curr s" using assms(3) D(8) by auto
  obtain us vs where p: "procs s = us @ curr s # vs" using split_list [OF D(7)] by blast
  then have "rotation s = vs @ us" using pbaseD(3) [OF D(3)] by (intro rotation_split) auto
  moreover have "a \<in> set (vs @ us)" using p assms(2) ne by auto
  ultimately have "Suc (behind (rotation s) a) \<le> length (procs s)" using behind_less [of a "rotation s"] p by simp
  then have len: "10 * Suc (behind (rotation s) a) \<le> 10 * length (procs s)" by simp
  obtain k s' where k: "k \<le> 10 * Suc (behind (rotation s) a)" "run_ticks k s = Some s'" "curr s' = a"
    "pstate (proc s' a) = Running" using runs_eventually [OF assms(1,2) _ tc] assms(3) by blast
  show ?thesis using order_trans [OF k(1) len] k(2-4) by blast
qed

text \<open>A second process, made by the code's own operations, for the examples.\<close>

definition demo_create :: "(addr \<times> kstate) option" where
  "demo_create = createProcess 0x8048000 0xC0300FB4 0x1B 0x23 0x2000 demo_kernel"

definition demo2 :: kstate where
  "demo2 = snd (the demo_create)"

lemma demo_create_eq: "demo_create = Some (0xC020000C, demo2)"
proof -
  have "\<exists>h. allocate 140 demo_kheap = Some (0xC020000C, h)"
    by (simp add: allocate_def alloc_scan.simps demo_kheap_def HeapAllocator_ctor_def align4_def take_block_def
        MIN_BLOCK_SIZE_def Let_def)
  then obtain h where "allocate 140 demo_kheap = Some (0xC020000C, h)" by blast
  then show ?thesis
    by (simp add: demo2_def demo_create_def createProcess_def k_new_def kernel_new_def demo_kernel_def boot_state_def)
qed

lemma demo2_kinv: "kinv demo2" "procs demo2 = [0xC0110000, 0xC020000C]" "curr demo2 = 0xC0110000"
  "pstate (proc demo2 0xC020000C) = Ready" "timeSlice demo2 = DEFAULT_TIME_SLICE" "tickCount demo2 = 0"
  "proc demo2 0xC020000C = fresh_process\<lparr>pid := 1, pstate := Ready, r_eip := 0x8048000, r_esp := 0xC0300FB4,
     r_cs := 0x1B, r_ds := 0x23, r_eflags := 0x202, pageDirectory := 0x2000\<rparr>"
  "proc demo2 0xC0110000 = kernel_task" "ktask demo2 = 0xC0110000"
proof -
  obtain s1 where k: "k_new 140 demo_kernel = Some (0xC020000C, s1)"
    using demo_create_eq by (auto simp: demo_create_def createProcess_def bind_Some split: if_splits)
  from k_new_heap [OF k] obtain h where s1: "s1 = demo_kernel\<lparr>kheap := h\<rparr>" by blast
  have d: "demo2 = s1\<lparr>proc := (proc demo_kernel)(0xC020000C := fresh_process\<lparr>pid := nextPid s1, pstate := Ready,
      r_eip := 0x8048000, r_esp := 0xC0300FB4, r_cs := 0x1B, r_ds := 0x23, r_eflags := 0x202, pageDirectory := 0x2000\<rparr>),
      nextPid := nextPid s1 + 1, procs := procs demo_kernel @ [0xC020000C]\<rparr>"
    using demo_create_eq by (simp add: demo_create_def createProcess_def k s1 seq_push_back_def)
  show "procs demo2 = [0xC0110000, 0xC020000C]" "curr demo2 = 0xC0110000" "pstate (proc demo2 0xC020000C) = Ready"
    "timeSlice demo2 = DEFAULT_TIME_SLICE" "tickCount demo2 = 0"
    "proc demo2 0xC020000C = fresh_process\<lparr>pid := 1, pstate := Ready, r_eip := 0x8048000, r_esp := 0xC0300FB4,
       r_cs := 0x1B, r_ds := 0x23, r_eflags := 0x202, pageDirectory := 0x2000\<rparr>"
    "proc demo2 0xC0110000 = kernel_task" "ktask demo2 = 0xC0110000"
    by (simp_all add: d s1 demo_kernel_def boot_state_def fresh_process_def)
  have "nextPid demo2 \<noteq> 0" by (simp add: d s1 demo_kernel_def boot_state_def)
  then show "kinv demo2"
    using createProcess_kinv [OF demo_kernel_kinv demo_create_eq [unfolded demo_create_def]] by blast
qed

theorem no_starvation_witness:
  "\<exists>k s'. k \<le> 20 \<and> run_ticks k demo2 = Some s' \<and> curr s' = 0xC020000C"
  using no_starvation [OF demo2_kinv(1), of "0xC020000C"] demo2_kinv(2-6)
  by (auto simp: DEFAULT_TIME_SLICE_def)

end
