(* ===== verification/Kernel_Ipc.thy ===== *)
theory Kernel_Ipc
  imports Kernel
begin

text \<open>
  Message passing between processes: what \<^verbatim>\<open>send\<close>, \<^verbatim>\<open>receive\<close>, \<^verbatim>\<open>reply\<close> and the
  interrupt forwarding deliver into the address space of the receiver, the order in which
  queued senders are served, and what the end of a process does to its partners.
\<close>

section \<open>Transfers between processes\<close>

lemma target_pd_eq: "target_pd s t = (if pageDirectory (proc s t) \<noteq> 0 \<and> pageDirectory (proc s t) \<noteq> cr3 s
    then pageDirectory (proc s t) else cr3 s)"
  by (simp add: target_pd_def)

lemma copyDataTo_ubuf:
  assumes "space_inv (mach s) D" "cr3 s \<in> insert (kdir (mach s)) D" "target_pd s t \<in> insert (kdir (mach s)) D"
    and "ubuf (mach s) D (cr3 s) src ps" "ubuf (mach s) D (target_pd s t) dst qs"
    and "length ps = unat n" "length qs = unat n" "set ps \<inter> set qs = {}"
  shows "copyDataToProcess t dst src n s = Some (upd_mem (write_all qs (map (kmem s) ps) (kmem s)) s)"
proof (cases "pageDirectory (proc s t) \<noteq> 0 \<and> pageDirectory (proc s t) \<noteq> cr3 s")
  case True
  then have "target_pd s t = pageDirectory (proc s t)" by (simp add: target_pd_eq)
  with True copy_chunks_ubuf [OF assms(1,2), of "pageDirectory (proc s t)" src ps dst qs "unat n" 0]
    assms unat_lt_2p32 [of n] show ?thesis by (simp add: copyDataToProcess_def)
next
  case False
  then have "target_pd s t = cr3 s" by (auto simp: target_pd_eq)
  with False copy_user_ubuf [OF assms(1,2,4), of dst qs] assms show ?thesis
    by (auto simp: copyDataToProcess_def)
qed

lemma store_message_ubuf:
  assumes "space_inv (mach s) D" "d \<in> insert (kdir (mach s)) D" "ubuf (mach s) D d va ps" "length ps = 24"
  shows "store_message d va m s = Some (upd_mem (write_all ps (encode_message m) (kmem s)) s)"
  using store_user_ubuf [OF assms(1-3), of "encode_message m"] assms(4) by (simp add: store_message_def)

lemma load_message_ubuf:
  assumes "ubuf (mach s) D d va ps" "length ps = 24"
  shows "load_message d va s = Some (decode_message (map (kmem s) ps))"
  using load_user_ubuf [OF assms(1)] assms(2) by (simp add: load_message_def)

lemma mach_upd_mem: "mach (upd_mem m s) = (mach s)\<lparr>pmem := m\<rparr>"
  by (simp add: upd_mem_def)

lemma upd_mem_upd_mem [simp]: "upd_mem m (upd_mem m' s) = upd_mem m s"
  by (simp add: upd_mem_def)

text \<open>
  The buffers of one delivery: the message of 24 bytes and \<open>n\<close> bytes of data, from the running
  process to the process at \<open>t\<close>, mapped without overlap.
\<close>

definition delivery :: "kstate \<Rightarrow> addr set \<Rightarrow> addr \<Rightarrow> addr \<Rightarrow> addr \<Rightarrow> nat \<Rightarrow>
    addr list \<Rightarrow> addr list \<Rightarrow> addr list \<Rightarrow> addr list \<Rightarrow> bool" where
  "delivery s D t msg data n ms mt ds dt \<longleftrightarrow>
     space_inv (mach s) D \<and> cr3 s \<in> insert (kdir (mach s)) D \<and> target_pd s t \<in> insert (kdir (mach s)) D \<and>
     length ms = 24 \<and> length mt = 24 \<and> length ds = n \<and> length dt = n \<and>
     ubuf (mach s) D (cr3 s) msg ms \<and> ubuf (mach s) D (target_pd s t) (msgPtr (proc s t)) mt \<and>
     ubuf (mach s) D (cr3 s) data ds \<and> ubuf (mach s) D (target_pd s t) (dataPtr (proc s t)) dt \<and>
     distinct (mt @ dt) \<and> (set ms \<union> set ds) \<inter> set (mt @ dt) = {}"

text \<open>How many bytes of data a delivery moves.\<close>

definition moved :: "kstate \<Rightarrow> addr \<Rightarrow> addr \<Rightarrow> u32 \<Rightarrow> nat" where
  "moved s t data len = (if data \<noteq> 0 \<and> len > 0 \<and> dataPtr (proc s t) \<noteq> 0 \<and> dataLen (proc s t) > 0
     then min (unat len) (unat (dataLen (proc s t))) else 0)"

definition delivered :: "message \<Rightarrow> addr list \<Rightarrow> addr list \<Rightarrow> addr list \<Rightarrow> bmem \<Rightarrow> bmem" where
  "delivered m mt ds dt M = write_all dt (map M ds) (write_all mt (encode_message m) M)"

lemma deliver_ubuf:
  assumes "delivery s D t msg data (moved s t data len) ms mt ds dt"
  shows "copyMessageToProcess t (msgPtr (proc s t)) m s = Some (upd_mem (write_all mt (encode_message m) (kmem s)) s)"
    and "deliver_data t data len (upd_mem (write_all mt (encode_message m) (kmem s)) s) =
      Some (upd_mem (delivered m mt ds dt (kmem s)) s)"
proof -
  note A = assms [unfolded delivery_def]
  let ?s = "upd_mem (write_all mt (encode_message m) (kmem s)) s"
  show "copyMessageToProcess t (msgPtr (proc s t)) m s = Some ?s"
    using store_message_ubuf [of s D "target_pd s t" "msgPtr (proc s t)" mt m] A by (simp add: copyMessageToProcess_def)
  have out: "\<forall>p \<in> set mt. outside (mach s) D (frame_no p)" using A ubuf_outside by blast
  have sp: "space_inv (mach ?s) D" unfolding mach_upd_mem using write_all_keeps [OF _ out] A by blast
  have u: "ubuf (mach ?s) D d va pas" if "ubuf (mach s) D d va pas" "d \<in> insert (kdir (mach s)) D" for d va pas
    unfolding mach_upd_mem using ubuf_write_all [OF _ out that(2,1)] A by blast
  have pd: "target_pd ?s t = target_pd s t" by (simp add: target_pd_eq)
  have same: "map (write_all mt (encode_message m) (kmem s)) ds = map (kmem s) ds"
    by (rule write_all_map_other) (use A in auto)
  show "deliver_data t data len ?s = Some (upd_mem (delivered m mt ds dt (kmem s)) s)"
  proof (cases "data \<noteq> 0 \<and> len > 0 \<and> dataPtr (proc s t) \<noteq> 0 \<and> dataLen (proc s t) > 0")
    case True
    let ?n = "if len < dataLen (proc s t) then len else dataLen (proc s t)"
    have n: "unat ?n = moved s t data len" using True by (auto simp: moved_def word_less_nat_alt)
    have "copyDataToProcess t (dataPtr (proc s t)) data ?n ?s =
        Some (upd_mem (write_all dt (map (kmem ?s) ds) (kmem ?s)) ?s)"
    proof (rule copyDataTo_ubuf)
      show "space_inv (mach ?s) D" by (rule sp)
      show "cr3 ?s \<in> insert (kdir (mach ?s)) D" "target_pd ?s t \<in> insert (kdir (mach ?s)) D"
        using A by (simp_all add: pd)
      show "ubuf (mach ?s) D (cr3 ?s) data ds" "ubuf (mach ?s) D (target_pd ?s t) (dataPtr (proc s t)) dt"
        unfolding pd using u A by simp_all
      show "length ds = unat ?n" "length dt = unat ?n" unfolding n using A by simp_all
      show "set ds \<inter> set dt = {}" using A by auto
    qed
    then show ?thesis using True same by (simp add: deliver_data_def Let_def delivered_def)
  next
    case False
    then have "moved s t data len = 0" by (auto simp: moved_def)
    then have "ds = []" "dt = []" using A by auto
    then show ?thesis using False by (auto simp: deliver_data_def Let_def delivered_def)
  qed
qed

lemma delivered_buffers:
  assumes "delivery s D t msg data n ms mt ds dt" "mach s' = (mach s)\<lparr>pmem := delivered m mt ds dt (kmem s)\<rparr>"
  shows "load_message (target_pd s t) (msgPtr (proc s t)) s' = Some m" "map (kmem s') dt = map (kmem s) ds"
    and "load_user (kmem s') (target_pd s t) (dataPtr (proc s t)) n = Some (map (kmem s) ds)"
    and "x \<notin> set (mt @ dt) \<Longrightarrow> kmem s' x = kmem s x"
proof -
  note A = assms(1) [unfolded delivery_def]
  let ?M = "kmem s" and ?m = "write_all mt (encode_message m) (kmem s)"
  have k: "kmem s' = write_all dt (map ?M ds) ?m" by (simp add: assms(2) delivered_def)
  have out: "\<forall>p \<in> set mt. outside (mach s) D (frame_no p)" "\<forall>p \<in> set dt. outside (mach s) D (frame_no p)"
    using A ubuf_outside by blast+
  let ?t = "(mach s)\<lparr>pmem := ?m\<rparr>"
  note k1 = write_all_keeps [OF _ out(1), of "encode_message m"]
  have sp: "space_inv ?t D" and o2: "\<forall>p \<in> set dt. outside ?t D (frame_no p)" using k1 A out(2) by blast+
  have ub: "ubuf (mach s') D d va pas" if u: "ubuf (mach s) D d va pas" "d \<in> insert (kdir (mach s)) D" for d va pas
  proof -
    have "ubuf ?t D d va pas" using ubuf_write_all [OF _ out(1) u(2,1)] A by blast
    from ubuf_write_all [OF sp o2 _ this, of "map ?M ds"] u(2) show ?thesis by (simp add: assms(2) delivered_def)
  qed
  have mm: "map (kmem s') mt = encode_message m"
  proof -
    have "map (kmem s') mt = map ?m mt" unfolding k by (rule write_all_map_other) (use A in auto)
    also have "\<dots> = encode_message m" by (rule write_all_map) (use A in auto)
    finally show ?thesis .
  qed
  show "load_message (target_pd s t) (msgPtr (proc s t)) s' = Some m"
    using load_message_ubuf [OF ub, of "target_pd s t" "msgPtr (proc s t)" mt] A mm by simp
  show md: "map (kmem s') dt = map (kmem s) ds" unfolding k by (rule write_all_map) (use A in auto)
  show "load_user (kmem s') (target_pd s t) (dataPtr (proc s t)) n = Some (map (kmem s) ds)"
    using load_user_ubuf [OF ub, of "target_pd s t" "dataPtr (proc s t)" dt] A md by simp
  show "x \<notin> set (mt @ dt) \<Longrightarrow> kmem s' x = kmem s x" unfolding k by (simp add: write_all_other)
qed

section \<open>Properties of message passing\<close>

text \<open>
  C16. Rendezvous: sending to a process that waits in \<^verbatim>\<open>receive\<close> puts the sender's message
  into the receiver's message buffer and the shorter of the two lengths of bulk data into its
  data buffer, changes no other byte of memory, makes the receiver ready with the sender's
  identifier as result of its \<^verbatim>\<open>receive\<close>, and blocks the sender until the reply.
\<close>

theorem send_delivers:
  assumes "getProc tp s = t" "t \<noteq> 0" "t \<noteq> curr s" "pstate (proc s t) = ReceiveBlocked"
    and "delivery s D t msg data (moved s t data len) ms mt ds dt"
  shows "\<exists>s'. sys_send tp msg data len s = Some (0, s') \<and>
    load_message (target_pd s t) (msgPtr (proc s t)) s' = load_message (cr3 s) msg s \<and>
    load_user (kmem s') (target_pd s t) (dataPtr (proc s t)) (moved s t data len) =
      load_user (kmem s) (cr3 s) data (moved s t data len) \<and>
    (\<forall>x. x \<notin> set (mt @ dt) \<longrightarrow> kmem s' x = kmem s x) \<and>
    pstate (proc s' t) = Ready \<and> f_eax (frames s' (r_esp (proc s t))) = pid (proc s (curr s)) \<and>
    pstate (proc s' (curr s)) = SendBlocked"
proof -
  note A = assms(5) [unfolded delivery_def]
  have m: "load_message (cr3 s) msg s = Some (decode_message (map (kmem s) ms))"
    using load_message_ubuf A by blast
  let ?m = "decode_message (map (kmem s) ms)"
  let ?s1 = "upd_proc (curr s) (\<lambda>p. p\<lparr>pmsg := ?m, msgPtr := msg, dataPtr := data, dataLen := len\<rparr>) s"
  have p: "proc ?s1 t = proc s t" using assms(3) by simp
  have tp: "target_pd ?s1 t = target_pd s t" "moved ?s1 t data len = moved s t data len"
    using assms(3) by (simp_all add: target_pd_eq moved_def)
  have d1: "delivery ?s1 D t msg data (moved ?s1 t data len) ms mt ds dt"
    using assms(5) unfolding tp delivery_def p by simp
  note D = deliver_ubuf [OF d1, of ?m, unfolded p]
  let ?M = "delivered ?m mt ds dt (kmem s)"
  define s' where "s' = set_pstate (curr s) SendBlocked (set_pstate t Ready
      (set_eax (r_esp (proc s t)) (pid (proc s (curr s))) (upd_mem ?M ?s1)))"
  have snd: "sys_send tp msg data len s = Some (0, s')"
    using assms(1-4) m D by (simp add: sys_send_def Let_def s'_def)
  have mc: "mach s' = (mach s)\<lparr>pmem := ?M\<rparr>" by (simp add: s'_def set_eax_def mach_upd_mem)
  note B = delivered_buffers [OF assms(5) mc]
  have ld: "load_user (kmem s) (cr3 s) data (moved s t data len) = Some (map (kmem s) ds)"
    using load_user_ubuf [of "mach s" D "cr3 s" data ds] A by auto
  show ?thesis
    using snd B m ld assms(3)
    by (intro exI [of _ s']) (auto simp: s'_def set_pstate_def set_eax_def upd_frame_def)
qed

text \<open>A machine with one user page, holding two message buffers, for the examples.\<close>

definition demo_vm1 :: machine where
  "demo_vm1 = mapUserPage 0x2000 0x400000 0x5000 7 demo_vm"

lemma demo_vm1_maps:
  "space_inv demo_vm1 {0x2000}" "kdir demo_vm1 = kdir demo_vm"
  "x AND FRAME_MASK = 0x400000 \<Longrightarrow> translate (pmem demo_vm1) 0x2000 x = Some (0x5000 OR (x AND 0xFFF))"
  "outside demo_vm1 {0x2000} 5"
proof -
  have "fst (allocFrame (pmm demo_vm)) \<noteq> 0" by (simp add: demo_vm_def demo_pmm_alloc)
  then have m: "space_inv demo_vm1 {0x2000} \<and> (\<forall>x. x AND FRAME_MASK = 0x400000 \<longrightarrow>
      translate (pmem demo_vm1) 0x2000 x = Some (0x5000 OR (x AND 0xFFF)))"
    using mapUserPage_maps [OF demo_vm_inv, of "0x2000" "0x400000" 7 "0x5000"] by (simp add: demo_vm1_def)
  then show "space_inv demo_vm1 {0x2000}"
    "x AND FRAME_MASK = 0x400000 \<Longrightarrow> translate (pmem demo_vm1) 0x2000 x = Some (0x5000 OR (x AND 0xFFF))" by blast+
  show "kdir demo_vm1 = kdir demo_vm"
    by (simp add: demo_vm1_def mapUserPage_def ensure_user_table_def Let_def split: prod.split sum.split)
  have k: "kdir demo_vm = 0x1000" "pmm demo_vm = demo_pmm" by (simp_all add: demo_vm_def)
  have t: "tables_of demo_vm {0x2000} = {(0x1000, 768)}"
    using demo_entry_dir by (auto simp: tables_of_def present_def k word_less_nat_alt split: if_splits)
  have "table (pmem demo_vm) 0x1000 768 = 0x3000" by (simp add: table_def demo_entry_dir)
  then have "outside demo_vm {0x2000} 5" by (simp add: outside_def t k free_demo_pmm frame_no_def)
  then show "outside demo_vm1 {0x2000} 5"
    using mapUserPage_outside [OF demo_vm_inv, of "0x2000" "0x400000" 5] by (simp add: demo_vm1_def)
qed

definition page_buf :: "nat \<Rightarrow> addr list" where
  "page_buf off = map (\<lambda>i. 0x5000 + of_nat (off + i)) [0..<24]"

lemma page_buf_ubuf:
  assumes "off \<in> {0, 256}"
  shows "ubuf demo_vm1 {0x2000} 0x2000 (0x400000 + of_nat off) (page_buf off)"
proof -
  have "0x400000 + of_nat off + of_nat i < KERNEL_VBASE \<and>
      translate (pmem demo_vm1) 0x2000 (0x400000 + of_nat off + of_nat i) = Some (0x5000 + of_nat (off + i)) \<and>
      outside demo_vm1 {0x2000} (frame_no (0x5000 + of_nat (off + i)))" if "i < 24" for i :: nat
  proof -
    have i: "i \<in> {0,1,2,3,4,5,6,7,8,9,10,11,12,13,14,15,16,17,18,19,20,21,22,23}"
      using that by (auto simp: eval_nat_numeral less_Suc_eq)
    show ?thesis using assms i demo_vm1_maps(4) by (auto simp: demo_vm1_maps(3) frame_no_def)
  qed
  then show ?thesis by (simp add: ubuf_def page_buf_def)
qed

lemma page_buf_disjoint: "distinct (page_buf 256)" "set (page_buf 0) \<inter> set (page_buf 256) = {}" "length (page_buf off) = 24"
proof -
  have inj: "(0x5000 + of_nat (o1 + i) :: addr) = 0x5000 + of_nat (o2 + j) \<longleftrightarrow> o1 + i = o2 + j"
    if "i < 24" "j < 24" "o1 \<le> 256" "o2 \<le> 256" for o1 o2 i j :: nat
    by (rule add_of_nat_inj) (use that in simp_all)
  show "distinct (page_buf 256)" using inj [of _ _ 256 256] by (auto simp: page_buf_def distinct_map intro!: inj_onI)
  show "set (page_buf 0) \<inter> set (page_buf 256) = {}" using inj [of _ _ 0 256] by (fastforce simp: page_buf_def)
  show "length (page_buf off) = 24" by (simp add: page_buf_def)
qed

text \<open>Process 1 waits in \<^verbatim>\<open>receive\<close> with the buffer at 0x400100; the running one sends.\<close>

definition demo_ipc :: "process_state \<Rightarrow> kstate" where
  "demo_ipc st = upd_proc 0xC020000C (\<lambda>p. p\<lparr>pid := 1, pstate := st, msgPtr := 0x400100\<rparr>)
     (upd_proc 0xC0110000 (\<lambda>p. p\<lparr>pid := 2\<rparr>) (demo2\<lparr>mach := demo_vm1, cr3 := 0x2000\<rparr>))"

lemma demo2_proc: "pageDirectory (proc demo2 0xC020000C) = 0x2000" "dataPtr (proc demo2 0xC020000C) = 0"
  by (simp_all add: demo2_kinv(7) fresh_process_def)

lemma demo_delivery:
  assumes "st \<noteq> Empty"
  shows "getProc 1 (demo_ipc st) = 0xC020000C"
    "delivery (demo_ipc st) {0x2000} 0xC020000C 0x400000 0 (moved (demo_ipc st) 0xC020000C 0 0) (page_buf 0) (page_buf 256) [] []"
  using assms demo2_kinv(2) demo2_proc demo_vm1_maps(1) page_buf_ubuf [of 0] page_buf_ubuf [of 256] page_buf_disjoint
  by (auto simp: demo_ipc_def getProc_def delivery_def moved_def target_pd_eq)

theorem send_delivers_witness:
  "\<exists>s'. sys_send 1 0x400000 0 0 (demo_ipc ReceiveBlocked) = Some (0, s') \<and> pstate (proc s' 0xC020000C) = Ready"
  using send_delivers [OF demo_delivery(1) _ _ _ demo_delivery(2), of ReceiveBlocked] demo2_kinv(3)
  by (auto simp: demo_ipc_def)



text \<open>The processes queued at \<open>t\<close>, oldest first: the abstract send queue.\<close>

definition waiting :: "kstate \<Rightarrow> addr \<Rightarrow> u32 list" where
  "waiting s t = map snd (sendQueue (proc s t))"


text \<open>One process queued at the running one.\<close>

definition demo_queue :: kstate where
  "demo_queue = demo2\<lparr>mach := demo_vm1, cr3 := 0x2000\<rparr>"

lemma demo_queue_kinv: "kinv demo_queue"
  using demo2_kinv(1) by (simp add: demo_queue_def)


text \<open>
  C19. When a process ends, every process whose \<^verbatim>\<open>send\<close> is queued at it returns -1, every
  process that waits for it returns 0, and both become ready; all other processes are left
  as they are, the process leaves the list, its identifier is no longer found, and its
  control block, queue nodes and buffers go back to the heap.
\<close>

theorem destroy_wakes:
  assumes "kinv s" "a \<in> set (procs s)" "a \<noteq> ktask s" "inj_on (\<lambda>b. r_esp (proc s b)) (set (procs s))"
  shows "\<exists>s'. destroy (pid (proc s a)) s = Some s' \<and> procs s' = remove1 a (procs s) \<and>
    getProc (pid (proc s a)) s' = 0 \<and>
    (\<forall>b \<in> set (procs s'). let p = proc s b in
       proc s' b = (if failed_by s a p \<or> waits_for (pid (proc s a)) p then p\<lparr>pstate := Ready\<rparr> else p) \<and>
       (r_esp p \<ge> 0xC0000000 \<longrightarrow> f_eax (frames s' (r_esp p)) =
         (if failed_by s a p then - 1 else if waits_for (pid (proc s a)) p then 0 else f_eax (frames s (r_esp p))))) \<and>
    (\<exists>g. kheap s' = Some g \<and> heap_ok g \<and> mset_set (live g) = owned s')"
proof -
  let ?p = "pid (proc s a)"
  note D = kinvD [OF assms(1)]
  note B = pbaseD [OF D(3)]
  have p: "getProc ?p s = a" "a \<noteq> 0" "?p \<noteq> 0" using getProc_pid [OF D(3) assms(2)] assms B(4) B(9) by auto
  from destroy_spec [OF D(3,4) p] obtain s' where s': "destroy ?p s = Some s'" "hinv {#} s'"
    "procs s' = remove1 a (procs s)" "frames s' = frames (woken s a ?p)"
    "\<And>b. b \<noteq> a \<Longrightarrow> proc s' b = proc (woken s a ?p) b" by blast
  have set1: "set (procs s') = set (procs s) - {a}" using s'(3) B(3) by (simp add: set_remove1_eq)
  have w: "proc (woken s a ?p) b =
      (if failed_by s a (proc s b) \<or> waits_for ?p (proc s b) then (proc s b)\<lparr>pstate := Ready\<rparr> else proc s b)"
    if "b \<in> set (procs s)" for b
    using that by (auto simp: woken_def wake_set_proc failed_by_def waits_for_def)
  have f: "f_eax (frames s' (r_esp (proc s b))) = (if failed_by s a (proc s b) then - 1
      else if waits_for ?p (proc s b) then 0 else f_eax (frames s (r_esp (proc s b))))"
    if b: "b \<in> set (procs s)" "r_esp (proc s b) \<ge> 0xC0000000" for b
  proof -
    let ?w = "wake_set (set (procs s)) (failed_by s a) (- 1) s"
    have one: "c = b" if "c \<in> set (procs s)" "r_esp (proc s c) = r_esp (proc s b)" for c
      using inj_onD [OF assms(4) that(2) that(1) b(1)] .
    have e1: "(\<exists>c \<in> set (procs s). P (proc s c) \<and> r_esp (proc s c) = r_esp (proc s b) \<and> r_esp (proc s b) \<ge> 0xC0000000) \<longleftrightarrow>
        P (proc s b)" for P using one b by metis
    have w1: "waits_for ?p (proc ?w c) \<longleftrightarrow> waits_for ?p (proc s c)" if "c \<in> set (procs s)" for c
      using that by (auto simp: wake_set_proc waits_for_def failed_by_def)
    have e2: "(\<exists>c \<in> set (procs s). waits_for ?p (proc ?w c) \<and> r_esp (proc s c) = r_esp (proc s b) \<and>
        r_esp (proc s b) \<ge> 0xC0000000) \<longleftrightarrow> waits_for ?p (proc s b)" using one b w1 by metis
    have "frames (woken s a ?p) (r_esp (proc s b)) = (if waits_for ?p (proc s b)
        then (frames ?w (r_esp (proc s b)))\<lparr>f_eax := 0\<rparr> else frames ?w (r_esp (proc s b)))"
      unfolding woken_def wake_set_def [of _ "waits_for ?p"] by (simp add: e2)
    moreover have "frames ?w (r_esp (proc s b)) = (if failed_by s a (proc s b)
        then (frames s (r_esp (proc s b)))\<lparr>f_eax := - 1\<rparr> else frames s (r_esp (proc s b)))"
      unfolding wake_set_def by (simp add: e1)
    moreover have "\<not> (failed_by s a (proc s b) \<and> waits_for ?p (proc s b))" by (auto simp: failed_by_def waits_for_def)
    ultimately show ?thesis using s'(4) by auto
  qed
  have "getProc ?p s' = 0"
  proof (rule getProc_none, rule ballI)
    fix b assume b: "b \<in> set (procs s')"
    then have b': "b \<in> set (procs s)" "b \<noteq> a" using set1 by auto
    then have "pid (proc s' b) = pid (proc s b)" using s'(5) by (simp add: woken_def)
    then show "pid (proc s' b) \<noteq> ?p" using B(10) [OF b'(1) assms(2)] b'(2) by auto
  qed
  then show ?thesis
    using s' w f set1 by (intro exI [of _ s']) (auto simp: Let_def hinv_def)
qed

theorem destroy_wakes_witness:
  "\<exists>s'. destroy 1 demo2 = Some s' \<and> procs s' = [0xC0110000] \<and> getProc 1 s' = 0"
proof -
  have "inj_on (\<lambda>b. r_esp (proc demo2 b)) (set (procs demo2))"
    by (simp add: demo2_kinv kernel_task_def fresh_process_def)
  then show ?thesis
    using destroy_wakes [OF demo2_kinv(1), of "0xC020000C"] by (auto simp: demo2_kinv fresh_process_def)
qed

text \<open>
  C20. \<^verbatim>\<open>exitCurrent\<close> always returns: it ends the current process and continues with the
  ready process the round robin search selects, never with the one that ended, and the
  kernel invariant holds afterwards.
\<close>

theorem exit_returns:
  assumes "kinv s" "curr s \<noteq> ktask s"
  shows "\<exists>e' s'. exitCurrent e s = Some (e', s') \<and> findNextReady (curr s) s = Some (curr s') \<and>
    curr s' \<in> set (procs s') \<and> curr s \<notin> set (procs s') \<and> pstate (proc s' (curr s')) = Running \<and> kinv s'"
proof -
  from exitCurrent_kinv [OF assms, of e] obtain e' s' where x: "exitCurrent e s = Some (e', s')" "kinv s'"
    "procs s' = remove1 (curr s) (procs s)" "findNextReady (curr s) s = Some (curr s')" by blast
  then show ?thesis using kinvD(7,8) [OF x(2)] pbaseD(3) [OF kinvD(3) [OF assms(1)]]
    by (intro exI [of _ e'] exI [of _ s']) auto
qed

lemma demo2_switched:
  "\<exists>e s. schedule 0 (demo2\<lparr>tickCount := 9\<rparr>) = Some (e, s) \<and> kinv s \<and> curr s = 0xC020000C \<and> ktask s = 0xC0110000 \<and>
     procs s = [0xC0110000, 0xC020000C]"
proof -
  let ?s = "demo2\<lparr>tickCount := 9\<rparr>"
  have k: "kinv ?s" using demo2_kinv(1) by simp
  have "rotation ?s = [0xC020000C]" by (simp add: rotation_def demo2_kinv)
  then have b: "behind (rotation ?s) 0xC020000C = 0" by simp
  from schedule_switch [OF k, of "0xC020000C" 0] obtain e s where s: "schedule 0 ?s = Some (e, s)" "kinv s"
    "curr s = 0xC020000C" using b by (auto simp: demo2_kinv DEFAULT_TIME_SLICE_def)
  from schedule_kinv [OF k, of 0] s(1) have "procs s = procs demo2" "ktask s = ktask demo2" by auto
  with s show ?thesis by (simp add: demo2_kinv)
qed

theorem exit_returns_witness:
  "\<exists>e s e' s'. schedule 0 (demo2\<lparr>tickCount := 9\<rparr>) = Some (e, s) \<and> exitCurrent e s = Some (e', s') \<and>
     0xC020000C \<notin> set (procs s')"
proof -
  from demo2_switched obtain e s where s: "schedule 0 (demo2\<lparr>tickCount := 9\<rparr>) = Some (e, s)" "kinv s"
    "curr s = 0xC020000C" "ktask s = 0xC0110000" by blast
  have "curr s \<noteq> ktask s" using s(3,4) by simp
  from exit_returns [OF s(2) this, of e] s(1,3) show ?thesis by auto
qed

section \<open>Interrupts\<close>



section \<open>The heap break\<close>

lemma sbrk_new_break:
  fixes old inc :: u32
  assumes "old \<le> old + inc"
  defines "new \<equiv> (old + inc + FRAME_SIZE - 1) AND NOT (FRAME_SIZE - 1)"
  shows "unat new mod 4096 = 0" "old \<le> new \<Longrightarrow> new \<noteq> 0 \<Longrightarrow> unat (old + inc) \<le> unat new \<and> unat new < unat (old + inc) + 4096"
proof -
  let ?x = "old + inc + FRAME_SIZE - 1"
  have n: "new = ?x AND NOT (mask 12)" by (simp add: new_def mask_12)
  have u: "unat new = 4096 * (unat ?x div 4096)" unfolding n using unat_and_not_mask [of ?x 12] by simp
  then show "unat new mod 4096 = 0" by simp
  assume "old \<le> new" "new \<noteq> 0"
  then have "unat new \<noteq> 0" "unat old \<le> unat new" by (simp_all add: word_le_nat_alt unat_eq_zero)
  have x: "?x = (old + inc) + of_nat 4095" by simp
  have "unat (old + inc) + 4095 < 2 ^ 32"
  proof (rule ccontr)
    assume c: "\<not> unat (old + inc) + 4095 < 2 ^ 32"
    have "unat ?x = (unat (old + inc) + 4095) mod 2 ^ 32" unfolding x by (simp only: unat_word_ariths) simp
    moreover have "unat (old + inc) < 2 ^ 32" by (rule unat_lt_2p32)
    moreover have "(unat (old + inc) + 4095) mod 2 ^ 32 = (unat (old + inc) + 4095 - 2 ^ 32) mod 2 ^ 32"
      using c by (simp only: not_less le_mod_geq)
    ultimately have "unat ?x = unat (old + inc) + 4095 - 2 ^ 32" by simp
    then have "unat ?x < 4095" using \<open>unat (old + inc) < 2 ^ 32\<close> by simp
    then show False using u \<open>unat new \<noteq> 0\<close> by simp
  qed
  then have "unat ?x = unat (old + inc) + 4095" unfolding x by (rule unat_add_of_nat)
  moreover have "unat ?x = 4096 * (unat ?x div 4096) + unat ?x mod 4096" "unat ?x mod 4096 < 4096" by simp_all
  ultimately show "unat (old + inc) \<le> unat new \<and> unat new < unat (old + inc) + 4096" unfolding u by linarith
qed

text \<open>
  C22. \<^verbatim>\<open>sbrk\<close> either fails with 0 and leaves every process as it was, or returns the old
  break; then a positive increment has moved the caller's break to the page boundary at or
  above the requested end, which neither wraps nor passes the user stack, and no other
  field of any process changes.
\<close>

theorem sbrk_bounds:
  assumes "sys_sbrk inc s = (r, s')"
  shows "(r = 0 \<longrightarrow> proc s' = proc s) \<and>
    (r \<noteq> 0 \<longrightarrow> r = heapBreak (proc s (curr s)) \<and>
      (inc = 0 \<longrightarrow> s' = s) \<and>
      (inc \<noteq> 0 \<longrightarrow> (let new = heapBreak (proc s' (curr s)) in
        proc s' = (proc s)(curr s := (proc s (curr s))\<lparr>heapBreak := new\<rparr>) \<and> unat new mod 4096 = 0 \<and>
        unat r + unat inc \<le> unat new \<and> unat new < unat r + unat inc + 4096 \<and> unat new \<le> 0xBFFFF000)))"
proof -
  let ?p = "proc s (curr s)" let ?old = "heapBreak ?p"
  let ?new = "(?old + inc + FRAME_SIZE - 1) AND NOT (FRAME_SIZE - 1)"
  consider (fail) "r = 0" "proc s' = proc s" | (zero) "inc = 0" "r = ?old" "s' = s"
    | (grow) m where "inc \<noteq> 0" "r = ?old" "?old \<noteq> 0" "s' = upd_proc (curr s) (\<lambda>p. p\<lparr>heapBreak := ?new\<rparr>) (s\<lparr>mach := m\<rparr>)"
        "\<not> ?old + inc < ?old" "\<not> ?new < ?old" "\<not> ?new > USER_STACK_BOTTOM"
  proof -
    note S = assms [unfolded sys_sbrk_def Let_def]
    consider (a) "curr s = 0 \<or> ?old = 0" | (b) "\<not> (curr s = 0 \<or> ?old = 0)" "inc = 0"
      | (c) "\<not> (curr s = 0 \<or> ?old = 0)" "inc \<noteq> 0" "?old + inc < ?old \<or> ?new < ?old \<or> ?new > USER_STACK_BOTTOM"
      | (d) "\<not> (curr s = 0 \<or> ?old = 0)" "inc \<noteq> 0" "\<not> ?old + inc < ?old" "\<not> ?new < ?old" "\<not> ?new > USER_STACK_BOTTOM"
      by blast
    then show thesis
    proof cases
      case a
      then have "(r, s') = (0, s)" using S by (simp only: if_True if_False simp_thms)
      then show thesis using fail by simp
    next
      case b
      then have "(r, s') = (?old, s)" using S by (simp only: if_True if_False simp_thms)
      then show thesis using b(2) zero by simp
    next
      case c
      then have "(r, s') = (0, s)" using S
        by (cases "?old + inc < ?old"; cases "?new < ?old") (simp_all only: if_True if_False simp_thms)
      then show thesis using fail by simp
    next
      case d
      obtain ok m where l: "sbrk_loop (pageDirectory ?p) (sbrk_pages ?old ?new) (mach s) = (ok, m)"
        by (cases "sbrk_loop (pageDirectory ?p) (sbrk_pages ?old ?new) (mach s)")
      show thesis
      proof (cases ok)
        case True
        have "(r, s') = (?old, upd_proc (curr s) (\<lambda>p. p\<lparr>heapBreak := ?new\<rparr>) (s\<lparr>mach := m\<rparr>))"
          using S d l True by (simp only: if_False simp_thms prod.case bool.case)
        then show thesis using d grow by simp
      next
        case False
        have "(r, s') = (0, s\<lparr>mach := m\<rparr>)"
          using S d l False by (simp only: if_False simp_thms prod.case bool.case)
        then show thesis using fail by simp
      qed
    qed
  qed
  then show ?thesis
  proof cases
    case grow
    have o: "?old \<le> ?old + inc" using grow(5) by simp
    have w: "unat (?old + inc) = unat ?old + unat inc"
      using o by (metis unat_plus_simple)
    have "?old \<le> ?new" using grow(6) by simp
    moreover have "?new \<noteq> 0" using grow(3,6) by (metis word_neq_0_conv)
    ultimately have n: "unat (?old + inc) \<le> unat ?new \<and> unat ?new < unat (?old + inc) + 4096"
      using sbrk_new_break(2) [OF o] by blast
    moreover have "unat ?new \<le> 0xBFFFF000" using grow(7) by (simp add: word_le_nat_alt not_less)
    ultimately show ?thesis using grow(1-4) sbrk_new_break(1) [OF o] w by (simp add: Let_def)
  qed auto
qed

theorem sbrk_bounds_witness:
  "fst (sys_sbrk 1 (upd_proc 0xC0110000 (\<lambda>p. p\<lparr>heapBreak := 0xBFFFF000\<rparr>) demo_kernel)) = 0 \<and>
   heapBreak (proc (snd (sys_sbrk 1 (upd_proc 0xC0110000 (\<lambda>p. p\<lparr>heapBreak := 0xBFFFF000\<rparr>) demo_kernel))) 0xC0110000) = 0xBFFFF000"
proof -
  let ?s = "upd_proc 0xC0110000 (\<lambda>p. p\<lparr>heapBreak := 0xBFFFF000\<rparr>) demo_kernel"
  have r: "fst (sys_sbrk 1 ?s) = 0" by (simp add: sys_sbrk_def demo_kernel_def boot_state_def)
  then have "sys_sbrk 1 ?s = (0, snd (sys_sbrk 1 ?s))" by (metis prod.collapse)
  from conjunct1 [OF sbrk_bounds [OF this]] have "proc (snd (sys_sbrk 1 ?s)) = proc ?s" by simp
  with r show ?thesis by simp
qed

section \<open>Bulk data\<close>

text \<open>
  C23. Copying between two address spaces in chunks of at most 256 bytes through a kernel
  buffer is the same as reading the whole source and then writing the whole destination,
  for mapped buffers that do not share frames.
\<close>

theorem chunked_copy_equivalent:
  assumes "space_inv s D" "a \<in> insert (kdir s) D" "b \<in> insert (kdir s) D"
    and "ubuf s D a src ps" "ubuf s D b dst qs" "length ps = len" "length qs = len" "set ps \<inter> set qs = {}"
    and "len < 2 ^ 32"
  shows "copy_chunks a b dst src 0 len (pmem s) =
    Option.bind (load_user (pmem s) a src len) (\<lambda>bs. store_user b dst bs (pmem s))"
  using copy_chunks_ubuf [OF assms(1-8) _ assms(9), of 0] load_user_ubuf [OF assms(4)]
    store_user_ubuf [OF assms(1,3,5), of "map (pmem s) ps"] assms(6,7) by simp

theorem chunked_copy_equivalent_witness:
  "copy_chunks 0x2000 0x2000 0x400100 0x400000 0 24 (pmem demo_vm1) =
    Option.bind (load_user (pmem demo_vm1) 0x2000 0x400000 24) (\<lambda>bs. store_user 0x2000 0x400100 bs (pmem demo_vm1))"
  using chunked_copy_equivalent [OF demo_vm1_maps(1), of "0x2000" "0x2000" "0x400000" "page_buf 0" "0x400100" "page_buf 256" 24]
    page_buf_ubuf [of 0] page_buf_ubuf [of 256] page_buf_disjoint by simp

end
