(* ===== verification/Str.thy ===== *)
theory Str
  imports Prelude "HOL-Library.Sublist" "HOL-Library.Lexord"
begin

text \<open>
  String views, libs/str/src/str.cpp: a pointer and a length, here the bytes they denote
  (\<^verbatim>\<open>char\<close> is signed on i386, which matters for \<^verbatim>\<open>compare\<close>).  A view over a C string ends
  before its NUL.  Lengths are below \<open>2 ^ 32\<close>.
\<close>

type_synonym sview = "u8 list"

section \<open>Operations\<close>

text \<open>The loops that compare two ranges byte by byte.\<close>

definition bytes_eq :: "sview \<Rightarrow> nat \<Rightarrow> sview \<Rightarrow> nat \<Rightarrow> bool" where
  "bytes_eq a off b n = list_all (\<lambda>i. a ! (off + i) = b ! i) [0..<n]"

text \<open>The constructor from a C string (none for a null pointer): the bytes before the first NUL.\<close>

definition sv_of_cstr :: "u8 list option \<Rightarrow> sview" where
  "sv_of_cstr s = (case s of None \<Rightarrow> [] | Some bytes \<Rightarrow> takeWhile (\<lambda>c. c \<noteq> 0) bytes)"

definition sv_eq :: "sview \<Rightarrow> sview \<Rightarrow> bool" where
  "sv_eq a b = (if length a \<noteq> length b then False else bytes_eq a 0 b (length a))"

fun sv_compare_loop :: "sview \<Rightarrow> sview \<Rightarrow> nat list \<Rightarrow> i32 option" where
  "sv_compare_loop a b [] = None"
| "sv_compare_loop a b (i # is) =
     (if a ! i <s b ! i then Some (- 1) else if b ! i <s a ! i then Some 1 else sv_compare_loop a b is)"

definition sv_compare :: "sview \<Rightarrow> sview \<Rightarrow> i32" where
  "sv_compare a b =
     (let n = (if length a < length b then length a else length b) in
      case sv_compare_loop a b [0..<n] of
        Some r \<Rightarrow> r
      | None \<Rightarrow> (if length a < length b then - 1 else if length a > length b then 1 else 0))"

definition sv_startsWith :: "sview \<Rightarrow> sview \<Rightarrow> bool" where
  "sv_startsWith a p = (if length p > length a then False else bytes_eq a 0 p (length p))"

definition sv_endsWith :: "sview \<Rightarrow> sview \<Rightarrow> bool" where
  "sv_endsWith a p = (if length p > length a then False else bytes_eq a (length a - length p) p (length p))"

definition sv_indexOf :: "sview \<Rightarrow> u8 \<Rightarrow> i32" where
  "sv_indexOf a c = (case List.find (\<lambda>i. a ! i = c) [0..<length a] of Some i \<Rightarrow> of_nat i | None \<Rightarrow> - 1)"

definition sv_contains :: "sview \<Rightarrow> u8 \<Rightarrow> bool" where
  "sv_contains a c = (0 \<le>s sv_indexOf a c)"

definition sv_substr1 :: "sview \<Rightarrow> nat \<Rightarrow> sview" where
  "sv_substr1 a pos = (if pos \<ge> length a then [] else drop pos a)"

definition sv_substr :: "sview \<Rightarrow> nat \<Rightarrow> nat \<Rightarrow> sview" where
  "sv_substr a pos cnt =
     (if pos \<ge> length a then []
      else (let remaining = length a - pos; n = (if cnt < remaining then cnt else remaining) in take n (drop pos a)))"

text \<open>The destination is an array from \<open>dst\<close> on; only the bytes written change.\<close>

definition sv_copyTo :: "sview \<Rightarrow> nat \<Rightarrow> (nat \<Rightarrow> u8) \<Rightarrow> (nat \<Rightarrow> u8)" where
  "sv_copyTo a mx dst =
     (if mx = 0 then dst
      else (let n = (if length a < mx - 1 then length a else mx - 1);
                dst = fold (\<lambda>i d. d(i := a ! i)) [0..<n] dst
            in dst(n := 0)))"

definition is_digit :: "u8 \<Rightarrow> bool" where
  "is_digit c \<longleftrightarrow> 48 \<le> c \<and> c \<le> 57"

fun to_u32_loop :: "sview \<Rightarrow> u32 \<Rightarrow> u32" where
  "to_u32_loop [] r = r"
| "to_u32_loop (c # cs) r = (if is_digit c then to_u32_loop cs (r * 10 + ucast (c - 48)) else r)"

definition sv_to_u32 :: "sview \<Rightarrow> u32" where
  "sv_to_u32 a = to_u32_loop a 0"

section \<open>What they compute\<close>

lemma bytes_eq_take: "off + n \<le> length a \<Longrightarrow> n \<le> length b \<Longrightarrow> bytes_eq a off b n \<longleftrightarrow> take n (drop off a) = take n b"
  by (auto simp: bytes_eq_def list_all_iff list_eq_iff_nth_eq)

lemma sv_eq_iff: "sv_eq a b \<longleftrightarrow> a = b"
  by (auto simp: sv_eq_def bytes_eq_take)

lemma startsWith_iff: "sv_startsWith a p \<longleftrightarrow> prefix p a"
proof (cases "length p \<le> length a")
  case True
  then show ?thesis
    by (auto simp: sv_startsWith_def bytes_eq_take prefix_def) (metis append_take_drop_id)
next
  case False
  then show ?thesis by (auto simp: sv_startsWith_def dest: prefix_length_le)
qed

lemma endsWith_iff: "sv_endsWith a p \<longleftrightarrow> suffix p a"
proof (cases "length p \<le> length a")
  case True
  then show ?thesis
    by (auto simp: sv_endsWith_def bytes_eq_take suffix_def) (metis append_take_drop_id)
next
  case False
  then show ?thesis by (auto simp: sv_endsWith_def dest: suffix_length_le)
qed

lemma sv_compare_loop_map:
  "sv_compare_loop (c # a) (d # b) (map Suc is) = sv_compare_loop a b is"
  by (induction "is") auto

lemma sv_compare_min:
  "sv_compare a b = (case sv_compare_loop a b [0..<min (length a) (length b)] of Some r \<Rightarrow> r
     | None \<Rightarrow> if length a < length b then - 1 else if length a > length b then 1 else 0)"
proof -
  have "(if length a < length b then length a else length b) = min (length a) (length b)" by auto
  then show ?thesis by (simp only: sv_compare_def Let_def)
qed

lemma sv_compare_Cons:
  "sv_compare (c # a) (d # b) = (if c <s d then - 1 else if d <s c then 1 else sv_compare a b)"
proof -
  have "[0..<Suc n] = 0 # map Suc [0..<n]" for n by (simp add: upt_conv_Cons map_Suc_upt del: upt_Suc)
  then have "sv_compare_loop (c # a) (d # b) [0..<min (length (c # a)) (length (d # b))] =
      (if c <s d then Some (- 1) else if d <s c then Some 1 else sv_compare_loop a b [0..<min (length a) (length b)])"
    by (simp add: sv_compare_loop_map del: upt_Suc)
  then show ?thesis unfolding sv_compare_min [of "c # a"] sv_compare_min [of a] by (simp del: upt_Suc)
qed

lemma sv_compare_Nil: "sv_compare [] b = (if b = [] then 0 else - 1)" "sv_compare (c # a) [] = 1"
  by (simp_all add: sv_compare_def)

lemma one_ne: "(1 :: i32) \<noteq> - 1" "(- 1 :: i32) \<noteq> 0"
  by simp_all

lemma sv_compare_lexord:
  "sv_compare a b = (if a = b then 0 else if (a, b) \<in> lexord {(x, y). x <s y} then - 1 else 1)"
proof (induction a arbitrary: b)
  case Nil
  then show ?case by (cases b) (auto simp: sv_compare_Nil)
next
  case (Cons c a)
  show ?case
  proof (cases b)
    case (Cons d b')
    consider "c <s d" | "d <s c" | "c = d" using signed.less_linear by blast
    then show ?thesis
      using Cons.IH [of b'] signed.less_asym [of c d] signed.less_irrefl [of c]
      by cases (auto simp: Cons sv_compare_Cons)
  qed (simp add: sv_compare_Nil)
qed

lemma find_index: "List.find P [0..<n] = (if \<exists>i < n. P i then Some (LEAST i. P i) else None)"
proof (cases "\<exists>i < n. P i")
  case True
  then obtain i where i: "i < n" "P i" by blast
  define l where "l = (LEAST i. P i)"
  have "P l" "l \<le> i" unfolding l_def by (rule LeastI [of P, OF i(2)], rule Least_le [of P, OF i(2)])
  moreover have "\<not> P j" if "j < l" for j using that unfolding l_def by (rule not_less_Least)
  ultimately have "List.find P [0..<n] = Some l"
    unfolding find_Some_iff using i(1) by (intro exI [of _ l]) simp
  then show ?thesis using True by (simp only: l_def if_True)
qed (auto simp: find_None_iff)

lemma copyTo_loop: "fold (\<lambda>i d. d(i := a ! i)) [0..<n] dst j = (if j < n then a ! j else dst j)"
  by (induction n arbitrary: dst) auto

lemma to_u32_append:
  "list_all is_digit xs \<Longrightarrow> to_u32_loop (xs @ ys) r = to_u32_loop ys (to_u32_loop xs r)"
  by (induction xs arbitrary: r) auto

text \<open>
  C24. The operations of \<^verbatim>\<open>StringView\<close> compute what their names say: equality of the bytes,
  prefix and suffix tests, lexicographic order of the signed bytes, the first index of a
  byte, slices that never leave the view, and a copy that writes at most \<^verbatim>\<open>max\<close> bytes and
  always terminates the destination.
\<close>

theorem string_view_correct:
  shows "(sv_eq a b \<longleftrightarrow> a = b) \<and> (sv_startsWith a b \<longleftrightarrow> prefix b a) \<and> (sv_endsWith a b \<longleftrightarrow> suffix b a) \<and>
    sv_compare a b = (if a = b then 0 else if (a, b) \<in> lexord {(x, y). x <s y} then - 1 else 1) \<and>
    sv_indexOf a c = (if c \<in> set a then of_nat (LEAST i. i < length a \<and> a ! i = c) else - 1) \<and>
    sv_substr a pos cnt = take cnt (drop pos a) \<and> sv_substr1 a pos = drop pos a \<and>
    (\<forall>j. sv_copyTo a mx dst j = (if mx = 0 then dst j else
       (let n = min (length a) (mx - 1) in if j < n then a ! j else if j = n then 0 else dst j)))"
proof -
  have "sv_indexOf a c = (if c \<in> set a then of_nat (LEAST i. i < length a \<and> a ! i = c) else - 1)"
  proof -
    have "List.find (\<lambda>i. a ! i = c) [0..<length a] = List.find (\<lambda>i. i < length a \<and> a ! i = c) [0..<length a]"
      by (rule find_cong) auto
    then have "sv_indexOf a c = (case (if \<exists>i < length a. i < length a \<and> a ! i = c
        then Some (LEAST i. i < length a \<and> a ! i = c) else None) of Some i \<Rightarrow> of_nat i | None \<Rightarrow> - 1)"
      unfolding sv_indexOf_def by (simp only: find_index)
    moreover have "(\<exists>i < length a. i < length a \<and> a ! i = c) \<longleftrightarrow> c \<in> set a" by (auto simp: in_set_conv_nth)
    ultimately show ?thesis by simp
  qed
  moreover have "sv_substr a pos cnt = take cnt (drop pos a)" "sv_substr1 a pos = drop pos a"
    by (auto simp: sv_substr_def sv_substr1_def Let_def)
  moreover have "\<forall>j. sv_copyTo a mx dst j = (if mx = 0 then dst j else
       (let n = min (length a) (mx - 1) in if j < n then a ! j else if j = n then 0 else dst j))"
    by (auto simp: sv_copyTo_def Let_def copyTo_loop min_def)
  ultimately show ?thesis by (intro conjI sv_eq_iff startsWith_iff endsWith_iff sv_compare_lexord)
qed

end
