(* ===== verification/Fmt.thy ===== *)
theory Fmt
  imports Str
begin

text \<open>
  The formatter, libs/fmt/src/fmt.cpp.  The output buffer is an array of bytes from the
  pointer on, so a write past its size would show; positions and widths are 32-bit words.
  The format is a C string: the bytes before its NUL, with NUL read at the end.
\<close>

unbundle bit_operations_syntax

section \<open>Operations\<close>

record spec =
  swidth :: u32
  leftAlign :: bool
  zeroPad :: bool
  hex :: bool
  upperHex :: bool

datatype arg = ArgI32 i32 | ArgU32 u32 | ArgStr "sview option" | ArgChar u8 | ArgSView "sview option"

type_synonym buffer = "nat \<Rightarrow> u8"

definition chr_at :: "sview \<Rightarrow> nat \<Rightarrow> u8" where
  "chr_at s i = (if i < length s then s ! i else 0)"

definition put :: "u32 \<Rightarrow> u8 \<Rightarrow> buffer \<times> u32 \<Rightarrow> buffer \<times> u32" where
  "put sz c bp = (case bp of (buf, pos) \<Rightarrow>
     ((if pos < sz - 1 then buf(unat pos := c) else buf), pos + 1))"

fun put_list :: "u32 \<Rightarrow> u8 list \<Rightarrow> buffer \<times> u32 \<Rightarrow> buffer \<times> u32" where
  "put_list sz [] bp = bp"
| "put_list sz (c # cs) bp = put_list sz cs (put sz c bp)"

definition putPad :: "u32 \<Rightarrow> u8 \<Rightarrow> u32 \<Rightarrow> buffer \<times> u32 \<Rightarrow> buffer \<times> u32" where
  "putPad sz c cnt = put_list sz (replicate (unat cnt) c)"

text \<open>The digits, least significant first, as the first loop collects them.\<close>

function dec_digits :: "u32 \<Rightarrow> u8 list" where
  "dec_digits value = (if value > 0 then (48 + ucast (value mod 10)) # dec_digits (value div 10) else [])"
  by pat_completeness auto
termination
proof (relation "measure unat")
  fix v :: u32
  assume "0 < v"
  then have "0 < unat v" by (simp add: word_less_nat_alt)
  then show "(v div 10, v) \<in> measure unat" by (simp add: unat_div)
qed simp

definition fmtDec :: "u32 \<Rightarrow> u8 list" where
  "fmtDec value = (if value = 0 then [48] else rev (dec_digits value))"

definition hex_char :: "bool \<Rightarrow> u32 \<Rightarrow> u8" where
  "hex_char upper d = (if d < 10 then 48 + ucast d else if upper then 55 + ucast d else 87 + ucast d)"

function hex_digits :: "bool \<Rightarrow> u32 \<Rightarrow> u8 list" where
  "hex_digits upper value = (if value > 0 then hex_char upper (value AND 0xF) # hex_digits upper (drop_bit 4 value) else [])"
  by pat_completeness auto
termination
proof (relation "measure (unat \<circ> snd)")
  fix b and v :: u32
  assume "0 < v"
  then have "0 < unat v" by (simp add: word_less_nat_alt)
  then show "((b, drop_bit 4 v), b, v) \<in> measure (unat \<circ> snd)" by (simp add: drop_bit_eq_div unat_div)
qed simp

definition fmtHex :: "u32 \<Rightarrow> bool \<Rightarrow> u8 list" where
  "fmtHex value upper = (if value = 0 then [48] else rev (hex_digits upper value))"

text \<open>The width: as many digits as there are.\<close>

function parse_width :: "sview \<Rightarrow> nat \<Rightarrow> u32 \<Rightarrow> u32 \<times> nat" where
  "parse_width f i w = (if is_digit (chr_at f i) then parse_width f (i + 1) (w * 10 + ucast (chr_at f i - 48)) else (w, i))"
  by pat_completeness auto
termination
proof (relation "measure (\<lambda>(f, i, w). length f - i)")
  fix f :: sview and i :: nat and w :: u32
  assume "is_digit (chr_at f i)"
  then have "i < length f" by (auto simp: chr_at_def is_digit_def split: if_splits)
  then show "((f, i + 1, w * 10 + ucast (chr_at f i - 48)), f, i, w) \<in> measure (\<lambda>(f, i, w). length f - i)" by simp
qed simp

text \<open>\<^verbatim>\<open>if (fmt[i] == c) ++i\<close>, with whether it was there.\<close>

definition skip_if :: "sview \<Rightarrow> u8 \<Rightarrow> nat \<Rightarrow> bool \<times> nat" where
  "skip_if f c i = (if chr_at f i = c then (True, i + 1) else (False, i))"

definition parseSpec :: "sview \<Rightarrow> nat \<Rightarrow> spec \<times> nat" where
  "parseSpec f i =
     (let (_, i) = skip_if f 58 i;
          (left, i) = skip_if f 60 i;
          (zero, i) = skip_if f 48 i;
          (w, i) = parse_width f i 0;
          (lower, i) = skip_if f 120 i;
          (upper, i) = (if lower then (False, i) else skip_if f 88 i);
          (_, i) = skip_if f 125 i
      in (\<lparr>swidth = w, leftAlign = left, zeroPad = (if left then False else zero), hex = lower \<or> upper,
            upperHex = upper\<rparr>, i))"

definition padding_of :: "spec \<Rightarrow> nat \<Rightarrow> u8 \<Rightarrow> u32" where
  "padding_of s len sign = (let total = of_nat len + (if sign \<noteq> 0 then 1 else 0) in
     if swidth s > total then swidth s - total else 0)"

definition putPadded :: "u32 \<Rightarrow> u8 list \<Rightarrow> spec \<Rightarrow> u8 \<Rightarrow> buffer \<times> u32 \<Rightarrow> buffer \<times> u32" where
  "putPadded sz data s sign bp =
     (let padChar = (if zeroPad s \<and> \<not> leftAlign s then 48 else 32);
          padding = padding_of s (length data) sign;
          (sign, bp) = (if \<not> leftAlign s
             then (let (sign, bp) = (if padChar = 48 \<and> sign \<noteq> 0 then (0, put sz sign bp) else (sign, bp))
                   in (sign, putPad sz padChar padding bp))
             else (sign, bp));
          bp = (if sign \<noteq> 0 then put sz sign bp else bp);
          bp = put_list sz data bp
      in if leftAlign s then putPad sz 32 padding bp else bp)"

definition fmtU32 :: "u32 \<Rightarrow> u32 \<Rightarrow> spec \<Rightarrow> buffer \<times> u32 \<Rightarrow> buffer \<times> u32" where
  "fmtU32 sz value s = putPadded sz (if hex s then fmtHex value (upperHex s) else fmtDec value) s 0"

definition fmtI32 :: "u32 \<Rightarrow> i32 \<Rightarrow> spec \<Rightarrow> buffer \<times> u32 \<Rightarrow> buffer \<times> u32" where
  "fmtI32 sz value s =
     (let (sign, absVal) = (if value <s 0 then (45, - value) else (0, value)) in
      putPadded sz (if hex s then fmtHex absVal (upperHex s) else fmtDec absVal) s sign)"

definition null_str :: "u8 list" where
  "null_str = [40, 110, 117, 108, 108, 41]"

definition fmtStr :: "u32 \<Rightarrow> sview option \<Rightarrow> spec \<Rightarrow> buffer \<times> u32 \<Rightarrow> buffer \<times> u32" where
  "fmtStr sz value s = putPadded sz (case value of None \<Rightarrow> null_str | Some v \<Rightarrow> v) s 0"

definition fmtSView :: "u32 \<Rightarrow> sview option \<Rightarrow> spec \<Rightarrow> buffer \<times> u32 \<Rightarrow> buffer \<times> u32" where
  "fmtSView sz value s = (case value of None \<Rightarrow> fmtStr sz None s | Some v \<Rightarrow> putPadded sz v s 0)"

definition formatArg :: "u32 \<Rightarrow> arg \<Rightarrow> spec \<Rightarrow> buffer \<times> u32 \<Rightarrow> buffer \<times> u32" where
  "formatArg sz a s = (case a of ArgI32 v \<Rightarrow> fmtI32 sz v s | ArgU32 v \<Rightarrow> fmtU32 sz v s | ArgStr v \<Rightarrow> fmtStr sz v s
     | ArgChar c \<Rightarrow> put sz c | ArgSView v \<Rightarrow> fmtSView sz v s)"

declare dec_digits.simps [simp del] hex_digits.simps [simp del] parse_width.simps [simp del]

lemma parse_width_le: "i \<le> snd (parse_width f i w)"
proof (induction f i w rule: parse_width.induct)
  case (1 f i w)
  then show ?case by (cases "is_digit (chr_at f i)") (simp_all add: parse_width.simps [of f i w])
qed

lemma skip_le: "skip_if f c i = (b, j) \<Longrightarrow> i \<le> j"
  by (auto simp: skip_if_def split: if_splits)

lemma parseSpec_le: "i \<le> snd (parseSpec f i)"
proof -
  obtain c1 i1 where 1: "skip_if f 58 i = (c1, i1)" by (cases "skip_if f 58 i")
  obtain c2 i2 where 2: "skip_if f 60 i1 = (c2, i2)" by (cases "skip_if f 60 i1")
  obtain c3 i3 where 3: "skip_if f 48 i2 = (c3, i3)" by (cases "skip_if f 48 i2")
  obtain w i4 where 4: "parse_width f i3 0 = (w, i4)" by (cases "parse_width f i3 0")
  obtain c5 i5 where 5: "skip_if f 120 i4 = (c5, i5)" by (cases "skip_if f 120 i4")
  obtain c6 i6 where 6: "(if c5 then (False, i5) else skip_if f 88 i5) = (c6, i6)"
    by (cases "if c5 then (False, i5) else skip_if f 88 i5")
  obtain c7 i7 where 7: "skip_if f 125 i6 = (c7, i7)" by (cases "skip_if f 125 i6")
  have "i3 \<le> i4" using parse_width_le [of i3 f 0] by (simp add: 4)
  moreover have "i5 \<le> i6" using 6 skip_le by (auto split: if_splits)
  ultimately have "i \<le> i7" using skip_le [OF 1] skip_le [OF 2] skip_le [OF 3] skip_le [OF 5] skip_le [OF 7] by linarith
  then show ?thesis by (simp only: parseSpec_def Let_def 1 2 3 4 5 6 7 prod.case snd_conv)
qed

function format_loop :: "u32 \<Rightarrow> sview \<Rightarrow> arg list \<Rightarrow> nat \<Rightarrow> buffer \<times> u32 \<Rightarrow> buffer \<times> u32" where
  "format_loop sz f args i bp =
     (if chr_at f i = 0 then bp
      else if chr_at f i = 123 \<and> chr_at f (i + 1) = 123 then format_loop sz f args (i + 2) (put sz 123 bp)
      else if chr_at f i = 125 \<and> chr_at f (i + 1) = 125 then format_loop sz f args (i + 2) (put sz 125 bp)
      else if chr_at f i = 123 \<and> args \<noteq> []
      then format_loop sz f (tl args) (snd (parseSpec f (i + 1))) (formatArg sz (hd args) (fst (parseSpec f (i + 1))) bp)
      else format_loop sz f args (i + 1) (put sz (chr_at f i) bp))"
  by pat_completeness auto
termination
proof (relation "measure (\<lambda>(sz, f, args, i, bp). length f - i)")
  have lt: "i < length f" if "chr_at f i \<noteq> 0" for f i using that by (auto simp: chr_at_def split: if_splits)
  fix sz f and args :: "arg list" and i bp
  assume c: "chr_at f i \<noteq> 0"
  show "((sz, f, args, i + 2, put sz 123 bp), sz, f, args, i, bp) \<in> measure (\<lambda>(sz, f, args, i, bp). length f - i)"
    "((sz, f, args, i + 2, put sz 125 bp), sz, f, args, i, bp) \<in> measure (\<lambda>(sz, f, args, i, bp). length f - i)"
    "((sz, f, args, i + 1, put sz (chr_at f i) bp), sz, f, args, i, bp) \<in> measure (\<lambda>(sz, f, args, i, bp). length f - i)"
    using lt [OF c] by simp_all
  have "i + 1 \<le> snd (parseSpec f (i + 1))" by (rule parseSpec_le)
  then show "((sz, f, tl args, snd (parseSpec f (i + 1)), formatArg sz (hd args) (fst (parseSpec f (i + 1))) bp), sz, f, args, i, bp)
      \<in> measure (\<lambda>(sz, f, args, i, bp). length f - i)"
    using lt [OF c] by simp
qed simp

definition formatImpl :: "buffer \<Rightarrow> u32 \<Rightarrow> sview \<Rightarrow> arg list \<Rightarrow> u32 \<times> buffer" where
  "formatImpl buf sz f args =
     (let (buf, pos) = format_loop sz f args 0 (buf, 0);
          buf = (if pos < sz then buf(unat pos := 0) else buf(unat (sz - 1) := 0))
      in ((if pos < sz then pos else sz - 1), buf))"

definition format :: "buffer \<Rightarrow> u32 \<Rightarrow> sview \<Rightarrow> arg list \<Rightarrow> u32 \<times> buffer" where
  "format buf sz f args = (if sz = 0 then (0, buf) else formatImpl buf sz f args)"

section \<open>The text a format stands for\<close>

text \<open>Rendering without a buffer: the bytes one after the other.\<close>

definition padded_text :: "u8 list \<Rightarrow> spec \<Rightarrow> u8 \<Rightarrow> u8 list" where
  "padded_text data s sign =
     (let n = unat (padding_of s (length data) sign); sg = (if sign \<noteq> 0 then [sign] else []) in
      if leftAlign s then sg @ data @ replicate n 32
      else if zeroPad s then sg @ replicate n 48 @ data
      else replicate n 32 @ sg @ data)"

definition arg_text :: "arg \<Rightarrow> spec \<Rightarrow> u8 list" where
  "arg_text a s = (case a of
       ArgI32 v \<Rightarrow> (let m = (if v <s 0 then - v else v) in
         padded_text (if hex s then fmtHex m (upperHex s) else fmtDec m) s (if v <s 0 then 45 else 0))
     | ArgU32 v \<Rightarrow> padded_text (if hex s then fmtHex v (upperHex s) else fmtDec v) s 0
     | ArgStr v \<Rightarrow> padded_text (case v of None \<Rightarrow> null_str | Some x \<Rightarrow> x) s 0
     | ArgChar c \<Rightarrow> [c]
     | ArgSView v \<Rightarrow> padded_text (case v of None \<Rightarrow> null_str | Some x \<Rightarrow> x) s 0)"

function render :: "sview \<Rightarrow> arg list \<Rightarrow> nat \<Rightarrow> u8 list" where
  "render f args i =
     (if chr_at f i = 0 then []
      else if chr_at f i = 123 \<and> chr_at f (i + 1) = 123 then 123 # render f args (i + 2)
      else if chr_at f i = 125 \<and> chr_at f (i + 1) = 125 then 125 # render f args (i + 2)
      else if chr_at f i = 123 \<and> args \<noteq> []
      then arg_text (hd args) (fst (parseSpec f (i + 1))) @ render f (tl args) (snd (parseSpec f (i + 1)))
      else chr_at f i # render f args (i + 1))"
  by pat_completeness auto
termination
proof (relation "measure (\<lambda>(f, args, i). length f - i)")
  have lt: "i < length f" if "chr_at f i \<noteq> 0" for f i using that by (auto simp: chr_at_def split: if_splits)
  fix f and args :: "arg list" and i
  assume c: "chr_at f i \<noteq> 0"
  show "((f, args, i + 2), f, args, i) \<in> measure (\<lambda>(f, args, i). length f - i)"
    "((f, args, i + 2), f, args, i) \<in> measure (\<lambda>(f, args, i). length f - i)"
    "((f, args, i + 1), f, args, i) \<in> measure (\<lambda>(f, args, i). length f - i)"
    using lt [OF c] by simp_all
  have "i + 1 \<le> snd (parseSpec f (i + 1))" by (rule parseSpec_le)
  then show "((f, tl args, snd (parseSpec f (i + 1))), f, args, i) \<in> measure (\<lambda>(f, args, i). length f - i)"
    using lt [OF c] by simp
qed simp

declare render.simps [simp del] format_loop.simps [simp del]

lemma put_list_append: "put_list sz (xs @ ys) bp = put_list sz ys (put_list sz xs bp)"
  by (induction xs arbitrary: bp) auto

lemma put_put_list: "put sz c bp = put_list sz [c] bp"
  by simp

lemma putPadded_text: "putPadded sz data s sign bp = put_list sz (padded_text data s sign) bp"
  by (auto simp: putPadded_def padded_text_def Let_def putPad_def put_list_append split: if_splits)

lemma formatArg_text: "formatArg sz a s bp = put_list sz (arg_text a s) bp"
  by (cases a) (auto simp: formatArg_def arg_text_def fmtI32_def fmtU32_def fmtStr_def fmtSView_def putPadded_text Let_def
      split: option.splits)

lemma format_loop_text: "format_loop sz f args i bp = put_list sz (render f args i) bp"
proof (induction sz f args i bp rule: format_loop.induct)
  case (1 sz f args i bp)
  consider (nul) "chr_at f i = 0"
    | (lbrace) "chr_at f i \<noteq> 0" "chr_at f i = 123 \<and> chr_at f (i + 1) = 123"
    | (rbrace) "chr_at f i \<noteq> 0" "\<not> (chr_at f i = 123 \<and> chr_at f (i + 1) = 123)" "chr_at f i = 125 \<and> chr_at f (i + 1) = 125"
    | (arg) "chr_at f i \<noteq> 0" "\<not> (chr_at f i = 123 \<and> chr_at f (i + 1) = 123)"
        "\<not> (chr_at f i = 125 \<and> chr_at f (i + 1) = 125)" "chr_at f i = 123 \<and> args \<noteq> []"
    | (plain) "chr_at f i \<noteq> 0" "\<not> (chr_at f i = 123 \<and> chr_at f (i + 1) = 123)"
        "\<not> (chr_at f i = 125 \<and> chr_at f (i + 1) = 125)" "\<not> (chr_at f i = 123 \<and> args \<noteq> [])" by blast
  then show ?case
  proof cases
    case nul
    then show ?thesis by (simp add: format_loop.simps [of sz f args i] render.simps [of f args i])
  next
    case lbrace
    then show ?thesis using "1.IH"(1) by (simp add: format_loop.simps [of sz f args i] render.simps [of f args i])
  next
    case rbrace
    then show ?thesis using "1.IH"(2) by (simp add: format_loop.simps [of sz f args i] render.simps [of f args i])
  next
    case arg
    have "format_loop sz f args i bp =
        format_loop sz f (tl args) (snd (parseSpec f (i + 1))) (formatArg sz (hd args) (fst (parseSpec f (i + 1))) bp)"
      using arg by (simp add: format_loop.simps [of sz f args i])
    moreover have "render f args i = arg_text (hd args) (fst (parseSpec f (i + 1))) @ render f (tl args) (snd (parseSpec f (i + 1)))"
      using arg by (simp add: render.simps [of f args i])
    ultimately show ?thesis using "1.IH"(3) [OF arg] by (simp add: put_list_append formatArg_text)
  next
    case plain
    note no = if_not_P [OF plain(1)] if_not_P [OF plain(2)] if_not_P [OF plain(3)] if_not_P [OF plain(4)]
    have "format_loop sz f args i bp = format_loop sz f args (i + 1) (put sz (chr_at f i) bp)"
      by (simp only: format_loop.simps [of sz f args i] no)
    moreover have "render f args i = chr_at f i # render f args (i + 1)"
      by (simp only: render.simps [of f args i] no)
    ultimately show ?thesis using "1.IH"(4) [OF plain] by (simp only: put_list.simps)
  qed
qed

lemma put_list_out:
  assumes "sz \<noteq> 0"
  shows "put_list sz cs (buf, pos) = (buf', pos') \<Longrightarrow> unat sz - 1 \<le> j \<Longrightarrow> buf' j = buf j"
proof (induction cs arbitrary: buf pos)
  case (Cons c cs)
  have u: "unat (sz - 1) = unat sz - 1" using assms by (simp add: unat_minus_one)
  show ?case
  proof (cases "pos < sz - 1")
    case True
    then have "unat pos \<noteq> j" using Cons.prems(2) u by (simp add: word_less_nat_alt)
    then show ?thesis using Cons.IH [of "buf(unat pos := c)" "pos + 1"] Cons.prems True by (simp add: put_def fun_upd_def)
  next
    case False
    then show ?thesis using Cons.IH [of buf "pos + 1"] Cons.prems by (simp add: put_def)
  qed
qed simp

lemma put_list_text:
  assumes "sz \<noteq> 0"
  shows "p + length cs < 2 ^ 32 \<Longrightarrow> put_list sz cs (buf, of_nat p) =
    ((\<lambda>j. if p \<le> j \<and> j < min (p + length cs) (unat sz - 1) then cs ! (j - p) else buf j), of_nat (p + length cs))"
proof (induction cs arbitrary: buf p)
  case (Cons c cs)
  have u: "unat (sz - 1) = unat sz - 1" using assms by (simp add: unat_minus_one)
  have lt: "of_nat p < sz - 1 \<longleftrightarrow> p < unat sz - 1" using Cons.prems u by (simp add: word_less_nat_alt)
  let ?b = "if p < unat sz - 1 then buf(p := c) else buf"
  have "put_list sz (c # cs) (buf, of_nat p) = put_list sz cs (?b, of_nat (Suc p))"
    using Cons.prems lt by (simp add: put_def add.commute)
  also have "\<dots> = ((\<lambda>j. if Suc p \<le> j \<and> j < min (Suc p + length cs) (unat sz - 1) then cs ! (j - Suc p) else ?b j),
      of_nat (Suc p + length cs))"
    by (rule Cons.IH) (use Cons.prems in simp)
  also have "(\<lambda>j. if Suc p \<le> j \<and> j < min (Suc p + length cs) (unat sz - 1) then cs ! (j - Suc p) else ?b j) =
      (\<lambda>j. if p \<le> j \<and> j < min (p + length (c # cs)) (unat sz - 1) then (c # cs) ! (j - p) else buf j)"
  proof
    fix j
    consider "j < p" | "j = p" | "p < j" by linarith
    then show "(if Suc p \<le> j \<and> j < min (Suc p + length cs) (unat sz - 1) then cs ! (j - Suc p) else ?b j) =
      (if p \<le> j \<and> j < min (p + length (c # cs)) (unat sz - 1) then (c # cs) ! (j - p) else buf j)"
      by cases (auto simp: nth_Cons')
  qed
  finally show ?case by simp
qed (auto simp: fun_eq_iff)

text \<open>
  C25. Formatting into a buffer of \<open>sz > 0\<close> bytes never writes outside it, ends the output
  with a NUL, and returns its length, which is less than \<open>sz\<close>; and when the full text is
  shorter than \<open>2 ^ 32\<close> the output is that text, cut off at \<open>sz - 1\<close> bytes.
\<close>

theorem format_output:
  assumes "sz \<noteq> 0" "format buf sz f args = (n, buf')"
  shows "n < sz \<and> buf' (unat n) = 0 \<and> (\<forall>j \<ge> unat sz. buf' j = buf j) \<and>
    (length (render f args 0) < 2 ^ 32 \<longrightarrow>
      unat n = min (length (render f args 0)) (unat sz - 1) \<and>
      map buf' [0..<unat n] = take (unat n) (render f args 0))"
proof -
  let ?r = "render f args 0"
  obtain b pos where l: "put_list sz ?r (buf, 0) = (b, pos)" by (cases "put_list sz ?r (buf, 0)")
  have n: "n = (if pos < sz then pos else sz - 1)" and b': "buf' = b(unat n := 0)"
    using assms l by (auto simp: format_def formatImpl_def format_loop_text Let_def split: if_splits)
  have u: "unat (sz - 1) = unat sz - 1" "0 < unat sz" using assms(1) by (simp_all add: unat_minus_one unat_gt_0)
  have lt: "unat n < unat sz" using n u by (auto simp: word_less_nat_alt split: if_splits)
  have "\<forall>j \<ge> unat sz. buf' j = buf j" using put_list_out [OF assms(1) l] lt by (auto simp: b')
  moreover have "length ?r < 2 ^ 32 \<longrightarrow>
      unat n = min (length ?r) (unat sz - 1) \<and> map buf' [0..<unat n] = take (unat n) ?r"
  proof
    assume len: "length ?r < 2 ^ 32"
    from put_list_text [OF assms(1), of 0 ?r buf] len l have
      b: "b = (\<lambda>j. if j < min (length ?r) (unat sz - 1) then ?r ! j else buf j)" and pos: "pos = of_nat (length ?r)"
      by (simp_all cong: if_cong)
    have un: "unat n = min (length ?r) (unat sz - 1)"
      using n pos len u by (auto simp: word_less_nat_alt split: if_splits)
    then show "unat n = min (length ?r) (unat sz - 1) \<and> map buf' [0..<unat n] = take (unat n) ?r"
      by (auto simp: b' b list_eq_iff_nth_eq)
  qed
  moreover have "n < sz" "buf' (unat n) = 0" using lt by (simp_all add: b' word_less_nat_alt)
  ultimately show ?thesis by (intro conjI)
qed

theorem format_output_witness:
  "let (n, b) = format (\<lambda>_. 7) 4 [97, 123, 125, 33] [ArgU32 305] in unat n = 3 \<and> b 3 = 0 \<and> b 4 = 7"
proof -
  have r: "render [97, 123, 125, 33] [ArgU32 305] 0 = [97, 51, 48, 53, 33]"
    by (simp add: render.simps chr_at_def parseSpec_def skip_if_def parse_width.simps is_digit_def arg_text_def
        padded_text_def padding_of_def fmtDec_def dec_digits.simps)
  obtain n b where nb: "format (\<lambda>_. 7) 4 [97, 123, 125, 33] [ArgU32 305] = (n, b)"
    by (cases "format (\<lambda>_. 7) 4 [97, 123, 125, 33] [ArgU32 305]")
  from format_output [OF _ nb] show ?thesis by (auto simp: nb r simp flip: numeral_3_eq_3)
qed

section \<open>Decimal numbers\<close>

lemma dec_digits_digits: "list_all is_digit (dec_digits v)"
proof (induction v rule: dec_digits.induct)
  case (1 v)
  have "unat (v mod 10) < 10" by (simp add: unat_mod)
  then have "ucast (v mod 10) \<le> (9 :: u8)" by (simp add: word_le_nat_alt unsigned_ucast_eq take_bit_eq_mod)
  then have "is_digit (48 + ucast (v mod 10))"
  proof -
    assume a: "ucast (v mod 10) \<le> (9 :: u8)"
    then have "unat (ucast (v mod 10) :: u8) \<le> 9" by (simp add: word_le_nat_alt)
    then have "unat (48 + ucast (v mod 10) :: u8) = 48 + unat (ucast (v mod 10) :: u8)"
      by (subst unat_word_ariths) simp
    then show ?thesis using a by (simp add: is_digit_def word_le_nat_alt)
  qed
  then show ?case using 1 by (cases "v > 0") (simp_all add: dec_digits.simps [of v])
qed

lemma to_u32_dec: "to_u32_loop (rev (dec_digits v)) 0 = v"
proof (induction v rule: dec_digits.induct)
  case (1 v)
  show ?case
  proof (cases "v > 0")
    case True
    have d: "list_all is_digit (rev (dec_digits (v div 10)))" using dec_digits_digits by simp
    have dig: "is_digit (48 + ucast (v mod 10))"
      using dec_digits_digits [of v] True by (simp add: dec_digits.simps [of v])
    have "unat (v mod 10) < 10" by (simp add: unat_mod)
    then have "(ucast (ucast (v mod 10) :: u8) :: u32) = v mod 10"
      by (simp add: word_unat_eq_iff unsigned_ucast_eq take_bit_eq_mod unat_mod)
    then have "to_u32_loop (rev (dec_digits v)) 0 = v div 10 * 10 + v mod 10"
      using 1 [OF True] True dig by (simp add: dec_digits.simps [of v] to_u32_append [OF d])
    then show ?thesis by (simp only: div_mult_mod_eq)
  next
    case False
    then have "v = 0" by (simp add: word_gt_0)
    then show ?thesis by (simp add: dec_digits.simps)
  qed
qed

text \<open>C26. Reading back a formatted unsigned number with \<^verbatim>\<open>StringView::to<u32>\<close> gives the number.\<close>

theorem decimal_roundtrip: "sv_to_u32 (fmtDec v) = v"
  using to_u32_dec [of v] by (simp add: sv_to_u32_def fmtDec_def is_digit_def)

end
