(* ===== verification/Fat_Cache.thy ===== *)
theory Fat_Cache
  imports Str Memory
begin

text \<open>
  The FAT32 file system of the VFS service, its state and its block layer:
  userspace/core/vfs/src/fat32/filesystem.cpp lines 21-138, with the structures of
  filesystem.hpp and types.hpp.  The drive behind the ATA client is the function
  \<open>fs_disk\<close> from sector numbers to 512 bytes, with \<open>fs_bad\<close> the sectors it refuses to read or
  write; \<open>fs_allocs\<close> are the answers of the next calls of \<^verbatim>\<open>heap::alloc\<close> (the bytes found in
  the block, or none), success with zero bytes once they are used up.  Buffers are byte lists.
\<close>

section \<open>State\<close>

definition SECTOR_SIZE :: nat where "SECTOR_SIZE = 512"
definition MAX_HANDLES :: nat where "MAX_HANDLES = 16"
definition MAX_PATH :: nat where "MAX_PATH = 256"
definition MAX_NAME :: nat where "MAX_NAME = 256"
definition CACHE_SIZE :: nat where "CACHE_SIZE = 16"

record file_handle =
  fh_startCluster :: u32
  fh_size :: u32
  fh_dirCluster :: u32
  fh_dirOffset :: u32
  fh_isDir :: bool
  fh_inUse :: bool

record cache_entry =
  ce_lba :: u32
  ce_data :: "u8 list option"
  ce_age :: u32
  ce_valid :: bool
  ce_dirty :: bool

record fs =
  fs_disk :: "u32 \<Rightarrow> u8 list"
  fs_bad :: "u32 \<Rightarrow> bool"
  fs_allocs :: "u8 list option list"
  bytesPerSector :: u32
  sectorsPerCluster :: u32
  bytesPerCluster :: u32
  reservedSectors :: u32
  numFats :: u32
  fatSize :: u32
  fatStartSector :: u32
  dataStartSector :: u32
  rootCluster :: u32
  totalClusters :: u32
  fatEntryCount :: u32
  handles :: "file_handle list"
  cache :: "cache_entry list"
  cacheAge :: u32

definition heap_alloc :: "nat \<Rightarrow> fs \<Rightarrow> u8 list option \<times> fs" where
  "heap_alloc n s =
     (case fs_allocs s of
        [] \<Rightarrow> (Some (replicate n 0), s)
      | None # r \<Rightarrow> (None, s\<lparr>fs_allocs := r\<rparr>)
      | Some b # r \<Rightarrow> (Some (take n (b @ replicate n 0)), s\<lparr>fs_allocs := r\<rparr>))"

text \<open>The client's \<^verbatim>\<open>Ata\<close> object: a read that fails leaves the caller's buffer as it was.\<close>

definition ata_readSector :: "u32 \<Rightarrow> fs \<Rightarrow> u8 list option" where
  "ata_readSector lba s = (if fs_bad s lba then None else Some (fs_disk s lba))"

definition ata_writeSector :: "u32 \<Rightarrow> u8 list \<Rightarrow> fs \<Rightarrow> bool \<times> fs" where
  "ata_writeSector lba d s = (if fs_bad s lba then (False, s) else (True, s\<lparr>fs_disk := (fs_disk s)(lba := d)\<rparr>))"

definition ce_bytes :: "cache_entry \<Rightarrow> u8 list" where
  "ce_bytes e = (case ce_data e of Some d \<Rightarrow> d | None \<Rightarrow> [])"

text \<open>\<^verbatim>\<open>mem::copy(buf + off, d, len)\<close> on byte lists.\<close>

definition buf_put :: "u8 list \<Rightarrow> nat \<Rightarrow> u8 list \<Rightarrow> u8 list" where
  "buf_put buf off d = take off buf @ d @ drop (off + length d) buf"

definition buf_get :: "u8 list \<Rightarrow> nat \<Rightarrow> nat \<Rightarrow> u8 list" where
  "buf_get buf off n = take n (drop off buf)"

section \<open>Sector cache\<close>

definition set_entry :: "nat \<Rightarrow> (cache_entry \<Rightarrow> cache_entry) \<Rightarrow> fs \<Rightarrow> fs" where
  "set_entry i f s = s\<lparr>cache := (cache s)[i := f (cache s ! i)]\<rparr>"

definition cacheLookup :: "u32 \<Rightarrow> fs \<Rightarrow> nat option \<times> fs" where
  "cacheLookup lba s =
     (case List.find (\<lambda>i. ce_valid (cache s ! i) \<and> ce_lba (cache s ! i) = lba) [0..<CACHE_SIZE] of
        Some i \<Rightarrow> (let a = cacheAge s + 1 in (Some i, set_entry i (ce_age_update (\<lambda>_. a)) (s\<lparr>cacheAge := a\<rparr>)))
      | None \<Rightarrow> (None, s))"

definition oldest_entry :: "cache_entry list \<Rightarrow> nat" where
  "oldest_entry c = fold (\<lambda>i oldest. if ce_age (c ! i) < ce_age (c ! oldest) then i else oldest) [1..<CACHE_SIZE] 0"

definition cacheEvict :: "fs \<Rightarrow> nat option \<times> fs" where
  "cacheEvict s =
     (case List.find (\<lambda>i. \<not> ce_valid (cache s ! i)) [0..<CACHE_SIZE] of
        Some i \<Rightarrow>
          (case ce_data (cache s ! i) of
             Some d \<Rightarrow> (Some i, s)
           | None \<Rightarrow>
              (case heap_alloc SECTOR_SIZE s of
                 (None, s) \<Rightarrow> (None, s)
               | (Some d, s) \<Rightarrow> (Some i, set_entry i (ce_data_update (\<lambda>_. Some d)) s)))
      | None \<Rightarrow>
          (let oldest = oldest_entry (cache s); e = cache s ! oldest;
               s = (if ce_dirty e
                    then set_entry oldest (ce_dirty_update (\<lambda>_. False)) (snd (ata_writeSector (ce_lba e) (ce_bytes e) s))
                    else s)
           in (Some oldest, set_entry oldest (ce_valid_update (\<lambda>_. False)) s)))"

text \<open>The entry as \<^verbatim>\<open>cacheRead\<close> and \<^verbatim>\<open>cacheWrite\<close> leave it, with the next age.\<close>

definition fill_entry :: "nat \<Rightarrow> u32 \<Rightarrow> u8 list \<Rightarrow> bool \<Rightarrow> fs \<Rightarrow> fs" where
  "fill_entry i lba d dirty s = (let a = cacheAge s + 1 in
     s\<lparr>cacheAge := a, cache := (cache s)[i := \<lparr>ce_lba = lba, ce_data = Some d, ce_age = a, ce_valid = True, ce_dirty = dirty\<rparr>]\<rparr>)"

definition cacheRead :: "u32 \<Rightarrow> fs \<Rightarrow> u8 list option \<times> fs" where
  "cacheRead lba s =
     (case cacheLookup lba s of
        (Some i, s) \<Rightarrow> (Some (ce_bytes (cache s ! i)), s)
      | (None, s) \<Rightarrow>
         (case cacheEvict s of
            (None, s) \<Rightarrow> (ata_readSector lba s, s)
          | (Some i, s) \<Rightarrow>
             (case ata_readSector lba s of
                None \<Rightarrow> (None, s)
              | Some d \<Rightarrow> (Some d, fill_entry i lba d False s))))"

definition cacheWrite :: "u32 \<Rightarrow> u8 list \<Rightarrow> fs \<Rightarrow> bool \<times> fs" where
  "cacheWrite lba buf s =
     (case (case cacheLookup lba s of (Some i, s) \<Rightarrow> (Some i, s) | (None, s) \<Rightarrow> cacheEvict s) of
        (None, s) \<Rightarrow> ata_writeSector lba buf s
      | (Some i, s) \<Rightarrow> ata_writeSector lba buf (fill_entry i lba buf True s))"

section \<open>Sector and cluster I/O\<close>

definition readSector :: "u32 \<Rightarrow> fs \<Rightarrow> u8 list option \<times> fs" where
  "readSector lba s = cacheRead lba s"

definition writeSector :: "u32 \<Rightarrow> u8 list \<Rightarrow> fs \<Rightarrow> bool \<times> fs" where
  "writeSector lba buf s = cacheWrite lba buf s"

definition clusterToLba :: "u32 \<Rightarrow> fs \<Rightarrow> u32" where
  "clusterToLba cluster s = dataStartSector s + (cluster - 2) * sectorsPerCluster s"

fun read_sectors :: "u32 \<Rightarrow> nat list \<Rightarrow> u8 list \<Rightarrow> fs \<Rightarrow> bool \<times> u8 list \<times> fs" where
  "read_sectors lba [] buf s = (True, buf, s)"
| "read_sectors lba (i # is) buf s =
     (case readSector (lba + of_nat i) s of
        (None, s) \<Rightarrow> (False, buf, s)
      | (Some d, s) \<Rightarrow> read_sectors lba is (buf_put buf (i * SECTOR_SIZE) d) s)"

definition readCluster :: "u32 \<Rightarrow> u8 list \<Rightarrow> fs \<Rightarrow> bool \<times> u8 list \<times> fs" where
  "readCluster cluster buf s = read_sectors (clusterToLba cluster s) [0..<unat (sectorsPerCluster s)] buf s"

fun write_sectors :: "u32 \<Rightarrow> nat list \<Rightarrow> u8 list \<Rightarrow> fs \<Rightarrow> bool \<times> fs" where
  "write_sectors lba [] buf s = (True, s)"
| "write_sectors lba (i # is) buf s =
     (case writeSector (lba + of_nat i) (buf_get buf (i * SECTOR_SIZE) SECTOR_SIZE) s of
        (False, s) \<Rightarrow> (False, s)
      | (True, s) \<Rightarrow> write_sectors lba is buf s)"

definition writeCluster :: "u32 \<Rightarrow> u8 list \<Rightarrow> fs \<Rightarrow> bool \<times> fs" where
  "writeCluster cluster buf s = write_sectors (clusterToLba cluster s) [0..<unat (sectorsPerCluster s)] buf s"

section \<open>The cache is transparent\<close>

text \<open>
  Outside a set \<open>X\<close> of sectors (those the drive refuses, and later the mirror of the table,
  which is written around the cache), every valid entry holds what the drive holds.
\<close>

definition cache_ok :: "u32 set \<Rightarrow> fs \<Rightarrow> bool" where
  "cache_ok X s \<longleftrightarrow> length (cache s) = CACHE_SIZE \<and> {l. fs_bad s l} \<subseteq> X \<and>
     (\<forall>i < CACHE_SIZE. ce_valid (cache s ! i) \<longrightarrow> (\<exists>d. ce_data (cache s ! i) = Some d \<and>
        (ce_lba (cache s ! i) \<notin> X \<longrightarrow> d = fs_disk s (ce_lba (cache s ! i))))) \<and>
     (\<forall>i < CACHE_SIZE. \<forall>j < CACHE_SIZE. ce_valid (cache s ! i) \<longrightarrow> ce_valid (cache s ! j) \<longrightarrow>
        ce_lba (cache s ! i) = ce_lba (cache s ! j) \<longrightarrow> i = j)"

text \<open>What the block layer leaves alone: the layout, the handles, and the sectors outside \<open>X\<close>.\<close>

definition layout :: "fs \<Rightarrow> fs" where
  "layout s = s\<lparr>fs_disk := \<lambda>_. [], fs_allocs := [], handles := [], cache := [], cacheAge := 0\<rparr>"

definition same_fs :: "u32 set \<Rightarrow> fs \<Rightarrow> fs \<Rightarrow> bool" where
  "same_fs X s s' \<longleftrightarrow> layout s' = layout s \<and> handles s' = handles s \<and> (\<forall>l. l \<notin> X \<longrightarrow> fs_disk s' l = fs_disk s l)"


lemma same_fs_refl [simp]: "same_fs X s s"
  by (simp add: same_fs_def)

lemma same_fs_trans [trans]: "same_fs X s s' \<Longrightarrow> same_fs X s' s'' \<Longrightarrow> same_fs X s s''"
  by (simp add: same_fs_def)

lemma layout_fields:
  assumes "layout s' = layout s"
  shows "fs_bad s' = fs_bad s" "bytesPerSector s' = bytesPerSector s" "sectorsPerCluster s' = sectorsPerCluster s"
    "bytesPerCluster s' = bytesPerCluster s" "fatSize s' = fatSize s" "fatStartSector s' = fatStartSector s"
    "dataStartSector s' = dataStartSector s" "rootCluster s' = rootCluster s" "fatEntryCount s' = fatEntryCount s"
  using arg_cong [OF assms, of fs_bad] arg_cong [OF assms, of bytesPerSector] arg_cong [OF assms, of sectorsPerCluster]
    arg_cong [OF assms, of bytesPerCluster] arg_cong [OF assms, of fatSize] arg_cong [OF assms, of fatStartSector]
    arg_cong [OF assms, of dataStartSector] arg_cong [OF assms, of rootCluster] arg_cong [OF assms, of fatEntryCount]
  by (simp_all add: layout_def)

lemma find_Some_D: "List.find P [0..<n] = Some i \<Longrightarrow> i < n \<and> P i"
  by (auto simp: find_Some_iff)

lemma find_None_D: "List.find P [0..<n] = None \<Longrightarrow> i < n \<Longrightarrow> \<not> P i"
  by (auto simp: find_None_iff)

lemma cache_ok_update:
  assumes ok: "cache_ok X s" and s': "cache s' = (cache s)[i := e]" "fs_bad s' = fs_bad s" "i < CACHE_SIZE"
    and disk: "\<And>l. l \<notin> X \<Longrightarrow> fs_disk s' l = fs_disk s l \<or> ce_valid e \<and> ce_lba e = l"
    and e: "ce_valid e \<Longrightarrow> \<exists>d. ce_data e = Some d \<and> (ce_lba e \<notin> X \<longrightarrow> d = fs_disk s' (ce_lba e))"
    and other: "\<And>j. ce_valid e \<Longrightarrow> j < CACHE_SIZE \<Longrightarrow> ce_valid (cache s ! j) \<Longrightarrow> ce_lba (cache s ! j) = ce_lba e \<Longrightarrow> j = i"
  shows "cache_ok X s'"
proof -
  have len: "length (cache s) = CACHE_SIZE" using ok by (simp add: cache_ok_def)
  have nth: "cache s' ! j = (if j = i then e else cache s ! j)" if "j < CACHE_SIZE" for j
    using that len s' by (simp add: nth_list_update)
  have "\<exists>d. ce_data (cache s' ! j) = Some d \<and>
      (ce_lba (cache s' ! j) \<notin> X \<longrightarrow> d = fs_disk s' (ce_lba (cache s' ! j)))"
    if "j < CACHE_SIZE" "ce_valid (cache s' ! j)" for j
  proof (cases "j = i")
    case False
    then have nj: "cache s' ! j = cache s ! j" using nth [OF that(1)] by simp
    then have v: "ce_valid (cache s ! j)" using that by simp
    from ok v that(1) obtain d where d: "ce_data (cache s ! j) = Some d"
      "ce_lba (cache s ! j) \<notin> X \<longrightarrow> d = fs_disk s (ce_lba (cache s ! j))" by (auto simp: cache_ok_def)
    moreover have "fs_disk s' (ce_lba (cache s ! j)) = fs_disk s (ce_lba (cache s ! j))" if "ce_lba (cache s ! j) \<notin> X"
      using disk [OF that] other [OF _ \<open>j < CACHE_SIZE\<close> v] False by metis
    ultimately show ?thesis using nj by simp
  next
    case True
    then show ?thesis using e that nth [OF that(1)] by simp
  qed
  moreover have "j = k" if "j < CACHE_SIZE" "k < CACHE_SIZE" "ce_valid (cache s' ! j)" "ce_valid (cache s' ! k)"
      "ce_lba (cache s' ! j) = ce_lba (cache s' ! k)" for j k
  proof -
    consider "j = i" "k = i" | "j = i" "k \<noteq> i" | "j \<noteq> i" "k = i" | "j \<noteq> i" "k \<noteq> i" by blast
    then show ?thesis
    proof cases
      case 2
      then show ?thesis using that other [OF _ that(2)] nth [OF that(1)] nth [OF that(2)] by simp
    next
      case 3
      then show ?thesis using that other [OF _ that(1)] nth [OF that(1)] nth [OF that(2)] by simp
    next
      case 4
      then have "cache s' ! j = cache s ! j" "cache s' ! k = cache s ! k" using nth that by simp_all
      then show ?thesis using ok that unfolding cache_ok_def by metis
    qed simp
  qed
  ultimately show ?thesis using ok len s' by (simp add: cache_ok_def)
qed

text \<open>Changing only the age or the dirty mark of an entry, or dropping it.\<close>

lemma cache_ok_touch:
  assumes "cache_ok X s" "cache s' = (cache s)[i := e]" "fs_bad s' = fs_bad s" "fs_disk s' = fs_disk s" "i < CACHE_SIZE"
    "ce_valid e \<Longrightarrow> ce_valid (cache s ! i) \<and> ce_lba e = ce_lba (cache s ! i) \<and> ce_data e = ce_data (cache s ! i)"
  shows "cache_ok X s'"
proof (rule cache_ok_update [OF assms(1-3,5)])
  show "\<exists>d. ce_data e = Some d \<and> (ce_lba e \<notin> X \<longrightarrow> d = fs_disk s' (ce_lba e))" if "ce_valid e"
    using assms that by (auto simp: cache_ok_def)
  show "j = i" if "ce_valid e" "j < CACHE_SIZE" "ce_valid (cache s ! j)" "ce_lba (cache s ! j) = ce_lba e" for j
    using assms that by (auto simp: cache_ok_def)
qed (simp add: assms)

lemma cacheLookup_Some:
  assumes "cache_ok X s" "cacheLookup lba s = (Some i, s')"
  shows "i < CACHE_SIZE" "cache_ok X s'" "same_fs X s s'" "ce_valid (cache s' ! i)" "ce_lba (cache s' ! i) = lba"
proof -
  from assms(2) have f: "List.find (\<lambda>i. ce_valid (cache s ! i) \<and> ce_lba (cache s ! i) = lba) [0..<CACHE_SIZE] = Some i"
    and s': "s' = set_entry i (ce_age_update (\<lambda>_. cacheAge s + 1)) (s\<lparr>cacheAge := cacheAge s + 1\<rparr>)"
    by (auto simp: cacheLookup_def Let_def split: option.splits)
  from find_Some_D [OF f] have i: "i < CACHE_SIZE" "ce_valid (cache s ! i)" "ce_lba (cache s ! i) = lba" by auto
  have len: "length (cache s) = CACHE_SIZE" using assms(1) by (simp add: cache_ok_def)
  show "i < CACHE_SIZE" by (rule i)
  show "cache_ok X s'"
    by (rule cache_ok_touch [OF assms(1), where i = i and e = "ce_age_update (\<lambda>_. cacheAge s + 1) (cache s ! i)"])
      (auto simp: s' set_entry_def i)
  show "same_fs X s s'" by (simp add: s' set_entry_def same_fs_def layout_def)
  show "ce_valid (cache s' ! i)" "ce_lba (cache s' ! i) = lba" using i len by (simp_all add: s' set_entry_def)
qed

lemma cacheLookup_None:
  assumes "cacheLookup lba s = (None, s')"
  shows "s' = s" "\<And>j. j < CACHE_SIZE \<Longrightarrow> ce_valid (cache s ! j) \<Longrightarrow> ce_lba (cache s ! j) \<noteq> lba"
proof -
  from assms have f: "List.find (\<lambda>i. ce_valid (cache s ! i) \<and> ce_lba (cache s ! i) = lba) [0..<CACHE_SIZE] = None"
    and s': "s' = s" by (auto simp: cacheLookup_def Let_def split: option.splits)
  show "s' = s" by (rule s')
  show "ce_lba (cache s ! j) \<noteq> lba" if "j < CACHE_SIZE" "ce_valid (cache s ! j)" for j
    using find_None_D [OF f that(1)] that(2) by simp
qed

lemma oldest_entry_less: "oldest_entry c < CACHE_SIZE"
proof -
  have "fold (\<lambda>i oldest. if ce_age (c ! i) < ce_age (c ! oldest) then i else oldest) xs k < CACHE_SIZE"
    if "\<forall>x \<in> set xs. x < CACHE_SIZE" "k < CACHE_SIZE" for xs k
    using that by (induction xs arbitrary: k) auto
  then show ?thesis by (simp add: oldest_entry_def CACHE_SIZE_def)
qed

lemma heap_alloc_same: "heap_alloc n s = (r, s') \<Longrightarrow> \<exists>a. s' = s\<lparr>fs_allocs := a\<rparr>"
  by (auto simp: heap_alloc_def split: list.splits option.splits) (metis fs.surjective fs.update_convs(3))+

lemma cache_ok_allocs [simp]: "cache_ok X (s\<lparr>fs_allocs := a\<rparr>) = cache_ok X s"
  by (simp add: cache_ok_def)

lemma same_fs_allocs [simp]: "same_fs X s (s\<lparr>fs_allocs := a\<rparr>)"
  by (simp add: same_fs_def layout_def)

text \<open>Evicting an entry that agrees with the drive does not change the drive.\<close>

lemma cacheEvict_ok:
  assumes ok: "cache_ok X s" and ev: "cacheEvict s = (r, s')"
  shows "cache_ok X s'" "same_fs X s s'"
    "\<And>i. r = Some i \<Longrightarrow> i < CACHE_SIZE \<and> \<not> ce_valid (cache s' ! i)"
    "\<And>j. j < CACHE_SIZE \<Longrightarrow> ce_valid (cache s' ! j) \<Longrightarrow> cache s' ! j = cache s ! j"
proof -
  have len: "length (cache s) = CACHE_SIZE" using ok by (simp add: cache_ok_def)
  have "cache_ok X s' \<and> same_fs X s s' \<and> (\<forall>i. r = Some i \<longrightarrow> i < CACHE_SIZE \<and> \<not> ce_valid (cache s' ! i)) \<and>
    (\<forall>j < CACHE_SIZE. ce_valid (cache s' ! j) \<longrightarrow> cache s' ! j = cache s ! j)"
  proof (cases "List.find (\<lambda>i. \<not> ce_valid (cache s ! i)) [0..<CACHE_SIZE]")
    case (Some i)
    have i: "i < CACHE_SIZE" "\<not> ce_valid (cache s ! i)" using find_Some_D [OF Some] by auto
    show ?thesis
    proof (cases "ce_data (cache s ! i)")
      case None
      obtain r0 s0 where h: "heap_alloc SECTOR_SIZE s = (r0, s0)" by (cases "heap_alloc SECTOR_SIZE s")
      obtain a where s0: "s0 = s\<lparr>fs_allocs := a\<rparr>" using heap_alloc_same [OF h] by blast
      show ?thesis
      proof (cases r0)
        case None
        then show ?thesis using ev Some \<open>ce_data (cache s ! i) = None\<close> h s0 ok by (auto simp: cacheEvict_def)
      next
        case (Some d)
        then have r: "r = Some i" "s' = set_entry i (ce_data_update (\<lambda>_. Some d)) s0"
          using ev \<open>List.find _ _ = Some i\<close> None h by (auto simp: cacheEvict_def)
        have "cache_ok X s'"
          by (rule cache_ok_touch [OF ok, where i = i and e = "ce_data_update (\<lambda>_. Some d) (cache s ! i)"])
            (auto simp: r s0 set_entry_def i)
        moreover have "same_fs X s s'" by (simp add: r s0 set_entry_def same_fs_def layout_def)
        ultimately show ?thesis using i len by (auto simp: r s0 set_entry_def nth_list_update)
      qed
    next
      case (Some d)
      then show ?thesis using ev \<open>List.find _ _ = Some i\<close> i ok by (auto simp: cacheEvict_def)
    qed
  next
    case None
    define k where "k = oldest_entry (cache s)"
    have k: "k < CACHE_SIZE" unfolding k_def by (rule oldest_entry_less)
    have v: "ce_valid (cache s ! k)" using find_None_D [OF None k] by simp
    let ?e = "cache s ! k"
    from ok v k obtain d where d: "ce_data ?e = Some d" "ce_lba ?e \<notin> X \<longrightarrow> d = fs_disk s (ce_lba ?e)"
      by (auto simp: cache_ok_def)
    have r: "r = Some k" using ev None by (auto simp: cacheEvict_def Let_def k_def)
    have c: "cache s' = (cache s)[k := cache s' ! k]" "\<not> ce_valid (cache s' ! k)" "layout s' = layout s" "handles s' = handles s"
        and dk: "\<And>l. l \<notin> X \<Longrightarrow> fs_disk s' l = fs_disk s l"
      using ev None d k len
      by (auto simp: cacheEvict_def Let_def k_def [symmetric] set_entry_def ata_writeSector_def ce_bytes_def layout_def
          split: if_splits)
    have "cache_ok X s'"
      by (rule cache_ok_update [OF ok c(1) layout_fields(1) [OF c(3)] k]) (use c(2) dk in auto)
    moreover have "same_fs X s s'" using c dk by (simp add: same_fs_def)
    moreover have "cache s' ! j = cache s ! j" if "j < CACHE_SIZE" "ce_valid (cache s' ! j)" for j
    proof -
      have "j \<noteq> k" using that c(2) by auto
      then show ?thesis by (subst c(1)) simp
    qed
    ultimately show ?thesis using k c(2) r by auto
  qed
  then show "cache_ok X s'" "same_fs X s s'"
    "\<And>i. r = Some i \<Longrightarrow> i < CACHE_SIZE \<and> \<not> ce_valid (cache s' ! i)"
    "\<And>j. j < CACHE_SIZE \<Longrightarrow> ce_valid (cache s' ! j) \<Longrightarrow> cache s' ! j = cache s ! j" by auto
qed


lemma fill_entry_ok:
  assumes ok: "cache_ok X s" and i: "i < CACHE_SIZE"
    and other: "\<And>j. j < CACHE_SIZE \<Longrightarrow> ce_valid (cache s ! j) \<Longrightarrow> ce_lba (cache s ! j) = lba \<Longrightarrow> j = i"
    and s': "s' = fill_entry i lba d b s \<or> s' = (fill_entry i lba d b s)\<lparr>fs_disk := (fs_disk s)(lba := d)\<rparr>"
    and d: "lba \<notin> X \<Longrightarrow> fs_disk s' lba = d"
  shows "cache_ok X s'"
proof (rule cache_ok_update [OF ok, where i = i and
      e = "\<lparr>ce_lba = lba, ce_data = Some d, ce_age = cacheAge s + 1, ce_valid = True, ce_dirty = b\<rparr>"])
  show "cache s' = (cache s)[i := \<lparr>ce_lba = lba, ce_data = Some d, ce_age = cacheAge s + 1, ce_valid = True, ce_dirty = b\<rparr>]"
    "fs_bad s' = fs_bad s" using s' by (auto simp: fill_entry_def Let_def)
  show "fs_disk s' l = fs_disk s l \<or>
      ce_valid \<lparr>ce_lba = lba, ce_data = Some d, ce_age = cacheAge s + 1, ce_valid = True, ce_dirty = b\<rparr> \<and>
      ce_lba \<lparr>ce_lba = lba, ce_data = Some d, ce_age = cacheAge s + 1, ce_valid = True, ce_dirty = b\<rparr> = l"
    if "l \<notin> X" for l using s' by (auto simp: fill_entry_def Let_def)
qed (use i d other in auto)

text \<open>
  Reading gives the drive's bytes and changes nothing but the cache; writing changes exactly
  the sector written, on the drive too.
\<close>

lemma readSector_ok:
  assumes ok: "cache_ok X s"
  obtains r s' where "readSector lba s = (r, s')" "cache_ok X s'" "same_fs X s s'" "lba \<notin> X \<Longrightarrow> r = Some (fs_disk s lba)"
proof (cases "cacheLookup lba s")
  case (Pair r s1)
  have good: "\<not> fs_bad s lba" if "lba \<notin> X" using ok that by (auto simp: cache_ok_def)
  show ?thesis
  proof (cases r)
    case (Some i)
    note l = cacheLookup_Some [OF ok Pair [unfolded Some]]
    from l(1,2,4) obtain d where "ce_data (cache s1 ! i) = Some d" "ce_lba (cache s1 ! i) \<notin> X \<longrightarrow> d = fs_disk s1 (ce_lba (cache s1 ! i))"
      by (auto simp: cache_ok_def)
    then have "lba \<notin> X \<Longrightarrow> ce_bytes (cache s1 ! i) = fs_disk s lba" using l(3,5) by (simp add: ce_bytes_def same_fs_def)
    then show ?thesis using that l Pair Some by (simp add: readSector_def cacheRead_def)
  next
    case None
    note l = cacheLookup_None [OF Pair [unfolded None]]
    obtain r2 s2 where ev: "cacheEvict s = (r2, s2)" by (cases "cacheEvict s")
    note e = cacheEvict_ok [OF ok ev]
    have dk: "lba \<notin> X \<Longrightarrow> ata_readSector lba s2 = Some (fs_disk s lba)"
      using e(2) good layout_fields(1) [of s2 s] by (simp add: same_fs_def ata_readSector_def)
    show ?thesis
    proof (cases r2)
      case None
      then show ?thesis using that e ev Pair \<open>r = None\<close> l(1) dk by (simp add: readSector_def cacheRead_def)
    next
      case (Some i)
      show ?thesis
      proof (cases "ata_readSector lba s2")
        case None
        then show ?thesis using that e ev Pair \<open>r = None\<close> l(1) dk Some by (auto simp: readSector_def cacheRead_def)
      next
        case d: (Some d)
        let ?s = "fill_entry i lba d False s2"
        have "cache_ok X ?s"
        proof (rule fill_entry_ok [OF e(1), of i lba _ d False])
          show "i < CACHE_SIZE" using e(3) Some by simp
          show "j = i" if j: "j < CACHE_SIZE" "ce_valid (cache s2 ! j)" "ce_lba (cache s2 ! j) = lba" for j
            using e(4) [OF j(1,2)] j l(2) [OF j(1)] by simp
          show "fs_disk ?s lba = d" if "lba \<notin> X"
            using d by (simp add: fill_entry_def Let_def ata_readSector_def split: if_splits)
        qed simp
        moreover have "same_fs X s ?s" using e(2) by (auto simp: same_fs_def fill_entry_def Let_def layout_def)
        ultimately show ?thesis using that [of "Some d" ?s] ev Pair \<open>r = None\<close> l(1) dk d Some
          by (simp add: readSector_def cacheRead_def)
      qed
    qed
  qed
qed

lemma writeSector_ok:
  assumes ok: "cache_ok X s"
  obtains s' b where "writeSector lba d s = (b, s')" "cache_ok X s'" "layout s' = layout s" "handles s' = handles s"
    "\<And>l. l \<notin> X \<Longrightarrow> fs_disk s' l = (if l = lba then d else fs_disk s l)" "lba \<notin> X \<Longrightarrow> b"
proof -
  obtain r s1 where r: "(case cacheLookup lba s of (Some i, s) \<Rightarrow> (Some i, s) | (None, s) \<Rightarrow> cacheEvict s) = (r, s1)"
    by (cases "(case cacheLookup lba s of (Some i, s) \<Rightarrow> (Some i, s) | (None, s) \<Rightarrow> cacheEvict s)")
  have *: "cache_ok X s1 \<and> same_fs X s s1 \<and> (\<forall>i. r = Some i \<longrightarrow> i < CACHE_SIZE \<and>
      (\<forall>j < CACHE_SIZE. ce_valid (cache s1 ! j) \<longrightarrow> ce_lba (cache s1 ! j) = lba \<longrightarrow> j = i))"
  proof (cases "cacheLookup lba s")
    case (Pair q s0)
    show ?thesis
    proof (cases q)
      case None
      note l = cacheLookup_None [OF Pair [unfolded None]]
      have ev: "cacheEvict s = (r, s1)" using r Pair None l(1) by simp
      note e = cacheEvict_ok [OF ok ev]
      have "j = i" if "r = Some i" "j < CACHE_SIZE" "ce_valid (cache s1 ! j)" "ce_lba (cache s1 ! j) = lba" for i j
        using e(4) [OF that(2,3)] that l(2) [OF that(2)] by simp
      then show ?thesis using e by auto
    next
      case (Some i)
      note l = cacheLookup_Some [OF ok Pair [unfolded Some]]
      have "r = Some i" "s1 = s0" using r Pair Some by auto
      moreover have "j = i" if "j < CACHE_SIZE" "ce_valid (cache s0 ! j)" "ce_lba (cache s0 ! j) = lba" for j
      proof -
        have "\<forall>i < CACHE_SIZE. \<forall>j < CACHE_SIZE. ce_valid (cache s0 ! i) \<longrightarrow> ce_valid (cache s0 ! j) \<longrightarrow>
            ce_lba (cache s0 ! i) = ce_lba (cache s0 ! j) \<longrightarrow> i = j" using l(2) by (simp add: cache_ok_def)
        moreover have "ce_lba (cache s0 ! j) = ce_lba (cache s0 ! i)" unfolding that(3) l(5) ..
        ultimately show ?thesis using that(1,2) l(1,4) by blast
      qed
      ultimately show ?thesis using l(1-3) by blast
    qed
  qed
  then have bad: "fs_bad s1 = fs_bad s" using layout_fields(1) [of s1 s] by (simp add: same_fs_def)
  have X: "fs_bad s lba \<Longrightarrow> lba \<in> X" using ok by (auto simp: cache_ok_def)
  show ?thesis
  proof (cases r)
    case None
    then have w: "writeSector lba d s = ata_writeSector lba d s1"
      using r by (auto simp: writeSector_def cacheWrite_def)
    have inv: "j < CACHE_SIZE \<Longrightarrow> ce_valid (cache s1 ! j) \<Longrightarrow> ce_lba (cache s1 ! j) \<noteq> lba" for j
    proof (cases "cacheLookup lba s")
      case (Pair q s0)
      assume j: "j < CACHE_SIZE" "ce_valid (cache s1 ! j)"
      have q: "q = None" using r Pair None by (cases q) auto
      note l = cacheLookup_None [OF Pair [unfolded q]]
      have ev: "cacheEvict s = (r, s1)" using r Pair q l(1) by simp
      from cacheEvict_ok(4) [OF ok ev j] j l(2) [OF j(1)] show ?thesis by simp
    qed
    have s1d: "cache_ok X (s1\<lparr>fs_disk := (fs_disk s1)(lba := d)\<rparr>)"
      using * inv by (auto simp: cache_ok_def)
    show ?thesis
    proof (cases "fs_bad s lba")
      case True
      show ?thesis
        by (rule that [of False s1]) (use True w * X [OF True] bad in \<open>auto simp: ata_writeSector_def same_fs_def\<close>)
    next
      case False
      then show ?thesis using that [of True "s1\<lparr>fs_disk := (fs_disk s1)(lba := d)\<rparr>"] w * s1d bad
        by (simp add: ata_writeSector_def same_fs_def layout_def)
    qed
  next
    case (Some i)
    let ?f = "fill_entry i lba d True s1"
    have w: "writeSector lba d s = ata_writeSector lba d ?f"
      using r Some by (auto simp: writeSector_def cacheWrite_def)
    have i: "i < CACHE_SIZE" "\<And>j. j < CACHE_SIZE \<Longrightarrow> ce_valid (cache s1 ! j) \<Longrightarrow> ce_lba (cache s1 ! j) = lba \<Longrightarrow> j = i"
      using * Some by auto
    show ?thesis
    proof (cases "fs_bad s lba")
      case True
      have "cache_ok X ?f" using * i X [OF True] by (intro fill_entry_ok [of X s1 i lba ?f d True]) auto
      then show ?thesis
        by (intro that [of False ?f])
          (use w * X [OF True] bad True in \<open>auto simp: ata_writeSector_def fill_entry_def Let_def same_fs_def layout_def\<close>)
    next
      case False
      let ?s = "?f\<lparr>fs_disk := (fs_disk s1)(lba := d)\<rparr>"
      have "cache_ok X ?s" using * i by (intro fill_entry_ok [of X s1 i lba ?s d True]) auto
      then show ?thesis
        by (intro that [of True ?s])
          (use w * bad False in \<open>auto simp: ata_writeSector_def fill_entry_def Let_def same_fs_def layout_def\<close>)
    qed
  qed
qed


section \<open>Clusters\<close>

definition cluster_lba :: "fs \<Rightarrow> u32 \<Rightarrow> nat \<Rightarrow> u32" where
  "cluster_lba s c i = clusterToLba c s + of_nat i"

definition cluster_lbas :: "fs \<Rightarrow> u32 \<Rightarrow> u32 set" where
  "cluster_lbas s c = cluster_lba s c ` {..<unat (sectorsPerCluster s)}"

definition cluster_data :: "fs \<Rightarrow> u32 \<Rightarrow> u8 list" where
  "cluster_data s c = concat (map (\<lambda>i. fs_disk s (cluster_lba s c i)) [0..<unat (sectorsPerCluster s)])"

definition sectors_ok :: "u32 set \<Rightarrow> fs \<Rightarrow> bool" where
  "sectors_ok X s \<longleftrightarrow> (\<forall>l. l \<notin> X \<longrightarrow> length (fs_disk s l) = SECTOR_SIZE)"

lemma same_fs_sectors_ok: "same_fs X s s' \<Longrightarrow> sectors_ok X s' = sectors_ok X s"
  by (simp add: same_fs_def sectors_ok_def)

lemma same_fs_lba: "same_fs X s s' \<Longrightarrow> cluster_lba s' c i = cluster_lba s c i"
  using layout_fields [of s' s] by (simp add: same_fs_def cluster_lba_def clusterToLba_def)

lemma cluster_lba_inj: "i < 2 ^ 32 \<Longrightarrow> j < 2 ^ 32 \<Longrightarrow> cluster_lba s c i = cluster_lba s c j \<longleftrightarrow> i = j"
  by (simp add: cluster_lba_def add_of_nat_inj del: add_left_cancel)

lemma length_buf_put [simp]: "off + length d \<le> length buf \<Longrightarrow> length (buf_put buf off d) = length buf"
  by (simp add: buf_put_def)

lemma read_sectors_keeps:
  assumes "cache_ok X s"
  obtains r buf' s' where "read_sectors lba is buf s = (r, buf', s')" "cache_ok X s'" "same_fs X s s'"
  using assms
proof (induction "is" arbitrary: buf s thesis)
  case (Cons i "is")
  obtain r s1 where r: "readSector (lba + of_nat i) s = (r, s1)" "cache_ok X s1" "same_fs X s s1"
    by (rule readSector_ok [OF Cons.prems(2), where lba = "lba + of_nat i"]) blast
  show ?case
  proof (cases r)
    case (Some d)
    obtain q b s2 where "read_sectors lba is (buf_put buf (i * SECTOR_SIZE) d) s1 = (q, b, s2)" "cache_ok X s2" "same_fs X s1 s2"
      using Cons.IH [OF _ r(2)] by blast
    then show ?thesis using r Some same_fs_trans [of X s s1 s2] by (intro Cons.prems(1) [of q b s2]) auto
  next
    case None
    then show ?thesis using r by (intro Cons.prems(1) [of False buf s1]) auto
  qed
qed simp

lemma write_sectors_keeps:
  assumes "cache_ok X s"
  obtains b s' where "write_sectors lba is buf s = (b, s')" "cache_ok X s'" "layout s' = layout s" "handles s' = handles s"
    "\<And>l. l \<notin> X \<Longrightarrow> l \<notin> (\<lambda>i. lba + of_nat i) ` set is \<Longrightarrow> fs_disk s' l = fs_disk s l"
  using assms
proof (induction "is" arbitrary: s thesis)
  case (Cons i "is")
  let ?d = "buf_get buf (i * SECTOR_SIZE) SECTOR_SIZE"
  obtain b s1 where w: "writeSector (lba + of_nat i) ?d s = (b, s1)" "cache_ok X s1" "layout s1 = layout s" "handles s1 = handles s"
    "\<And>l. l \<notin> X \<Longrightarrow> fs_disk s1 l = (if l = lba + of_nat i then ?d else fs_disk s l)"
    by (rule writeSector_ok [OF Cons.prems(2), where lba = "lba + of_nat i" and d = ?d]) blast
  show ?case
  proof (cases b)
    case True
    obtain q s2 where "write_sectors lba is buf s1 = (q, s2)" "cache_ok X s2" "layout s2 = layout s1" "handles s2 = handles s1"
      "\<And>l. l \<notin> X \<Longrightarrow> l \<notin> (\<lambda>i. lba + of_nat i) ` set is \<Longrightarrow> fs_disk s2 l = fs_disk s1 l"
      using Cons.IH [OF _ w(2)] by blast
    then show ?thesis using w True by (intro Cons.prems(1) [of q s2]) auto
  next
    case False
    then show ?thesis using w by (intro Cons.prems(1) [of False s1]) auto
  qed
qed simp

lemma read_sectors_ok:
  assumes "cache_ok X s" "sectors_ok X s" "\<forall>i < k + n. lba + of_nat i \<notin> X" "length buf = (k + n) * SECTOR_SIZE"
    "take (k * SECTOR_SIZE) buf = concat (map (\<lambda>i. fs_disk s (lba + of_nat i)) [0..<k])"
  obtains s' where "read_sectors lba [k..<k + n] buf s =
      (True, concat (map (\<lambda>i. fs_disk s (lba + of_nat i)) [0..<k + n]), s')" "cache_ok X s'" "same_fs X s s'"
  using assms
proof (induction n arbitrary: k buf s thesis)
  case (Suc n)
  let ?m = "\<lambda>s k. concat (map (\<lambda>i. fs_disk s (lba + of_nat i)) [0..<k])"
  let ?d = "fs_disk s (lba + of_nat k)"
  let ?b = "buf_put buf (k * SECTOR_SIZE) ?d"
  have k: "lba + of_nat k \<notin> X" using Suc.prems(4) by simp
  obtain s1 where r: "readSector (lba + of_nat k) s = (Some ?d, s1)" "cache_ok X s1" "same_fs X s s1"
    by (rule readSector_ok [OF Suc.prems(2), where lba = "lba + of_nat k"]) (use k in auto)
  have ld: "length ?d = SECTOR_SIZE" using Suc.prems(3) k by (simp add: sectors_ok_def)
  have eq: "?m s1 j = ?m s j" if "j \<le> k + Suc n" for j
    using r(3) Suc.prems(4) that by (intro arg_cong [where f = concat] map_cong) (auto simp: same_fs_def)
  have tk: "take (Suc k * SECTOR_SIZE) ?b = ?m s1 (Suc k)"
  proof -
    have "length (take (k * SECTOR_SIZE) buf @ ?d) = Suc k * SECTOR_SIZE" using Suc.prems(5) ld by (simp add: min_def add_mult_distrib)
    then have "take (Suc k * SECTOR_SIZE) ?b = take (k * SECTOR_SIZE) buf @ ?d"
      unfolding buf_put_def append_assoc [symmetric] by (metis append_eq_conv_conj)
    also have "\<dots> = ?m s (Suc k)" using Suc.prems(6) by simp
    finally show ?thesis using eq [of "Suc k"] by simp
  qed
  have "sectors_ok X s1" using same_fs_sectors_ok [OF r(3)] Suc.prems(3) by simp
  moreover have "\<forall>i < Suc k + n. lba + of_nat i \<notin> X" "length ?b = (Suc k + n) * SECTOR_SIZE"
    using Suc.prems(4,5) ld by simp_all
  ultimately obtain s2 where s2: "read_sectors lba [Suc k..<Suc k + n] ?b s1 = (True, ?m s1 (Suc k + n), s2)"
    "cache_ok X s2" "same_fs X s1 s2"
    using Suc.IH [OF _ r(2)] tk by blast
  have "[k..<k + Suc n] = k # [Suc k..<Suc k + n]" by (simp add: upt_conv_Cons)
  then have "read_sectors lba [k..<k + Suc n] buf s = (True, ?m s (k + Suc n), s2)"
    using r(1) s2(1) eq [of "k + Suc n"] by (simp only: read_sectors.simps prod.case option.case add_Suc_right add_Suc)
  then show ?case using Suc.prems(1) s2(2) same_fs_trans [OF r(3) s2(3)] by blast
qed simp

lemma readCluster_keeps:
  assumes "cache_ok X s"
  obtains r buf' s' where "readCluster c buf s = (r, buf', s')" "cache_ok X s'" "same_fs X s s'"
  unfolding readCluster_def by (rule read_sectors_keeps [OF assms])

lemma readCluster_ok:
  assumes "cache_ok X s" "sectors_ok X s" "cluster_lbas s c \<inter> X = {}" "length buf = unat (sectorsPerCluster s) * SECTOR_SIZE"
  obtains s' where "readCluster c buf s = (True, cluster_data s c, s')" "cache_ok X s'" "same_fs X s s'"
proof -
  have "\<forall>i < 0 + unat (sectorsPerCluster s). clusterToLba c s + of_nat i \<notin> X"
    using assms(3) by (auto simp: cluster_lbas_def cluster_lba_def)
  from read_sectors_ok [OF assms(1,2) this, of buf] obtain s' where
    "read_sectors (clusterToLba c s) [0..<unat (sectorsPerCluster s)] buf s =
      (True, concat (map (\<lambda>i. fs_disk s (clusterToLba c s + of_nat i)) [0..<unat (sectorsPerCluster s)]), s')"
    "cache_ok X s'" "same_fs X s s'" using assms(4) by auto
  then show ?thesis using that by (simp add: readCluster_def cluster_data_def cluster_lba_def)
qed

text \<open>Writing a cluster changes its sectors, to the parts of the buffer, and nothing else.\<close>

lemma write_sectors_ok:
  assumes "cache_ok X s" "\<forall>i \<in> set is. lba + of_nat i \<notin> X" "\<forall>i \<in> set is. i < 2 ^ 32"
  obtains s' where "write_sectors lba is buf s = (True, s')" "cache_ok X s'" "layout s' = layout s" "handles s' = handles s"
    "\<And>l. l \<notin> X \<Longrightarrow> l \<notin> (\<lambda>i. lba + of_nat i) ` set is \<Longrightarrow> fs_disk s' l = fs_disk s l"
    "\<And>i. i \<in> set is \<Longrightarrow> fs_disk s' (lba + of_nat i) = buf_get buf (i * SECTOR_SIZE) SECTOR_SIZE"
  using assms
proof (induction "is" arbitrary: s thesis)
  case (Cons i "is")
  let ?d = "\<lambda>i. buf_get buf (i * SECTOR_SIZE) SECTOR_SIZE"
  have i: "lba + of_nat i \<notin> X" using Cons.prems(3) by simp
  obtain s1 where w: "writeSector (lba + of_nat i) (?d i) s = (True, s1)" "cache_ok X s1" "layout s1 = layout s" "handles s1 = handles s"
    and dk: "\<And>l. l \<notin> X \<Longrightarrow> fs_disk s1 l = (if l = lba + of_nat i then ?d i else fs_disk s l)"
    by (rule writeSector_ok [OF Cons.prems(2), where lba = "lba + of_nat i" and d = "?d i"]) (use i in auto)
  obtain s2 where s2: "write_sectors lba is buf s1 = (True, s2)" "cache_ok X s2" "layout s2 = layout s1" "handles s2 = handles s1"
    and dk2: "\<And>l. l \<notin> X \<Longrightarrow> l \<notin> (\<lambda>i. lba + of_nat i) ` set is \<Longrightarrow> fs_disk s2 l = fs_disk s1 l"
      "\<And>i. i \<in> set is \<Longrightarrow> fs_disk s2 (lba + of_nat i) = ?d i"
    using Cons.IH [OF _ w(2)] Cons.prems(3,4) by auto
  have "fs_disk s2 (lba + of_nat j) = ?d j" if j: "j \<in> set (i # is)" for j
  proof (cases "j \<in> set is")
    case False
    then have ji: "j = i" using j by simp
    have "lba + of_nat i \<noteq> lba + of_nat k" if "k \<in> set is" for k
      using that False ji Cons.prems(4) by (subst add_of_nat_inj) auto
    then have "lba + of_nat i \<notin> (\<lambda>i. lba + of_nat i) ` set is" by blast
    then show ?thesis using dk [OF i] dk2(1) [OF i] ji by simp
  qed (rule dk2(2))
  then show ?case using w s2 dk dk2(1) by (intro Cons.prems(1) [of s2]) auto
qed simp

lemma writeCluster_keeps:
  assumes "cache_ok X s"
  obtains b s' where "writeCluster c buf s = (b, s')" "cache_ok X s'" "layout s' = layout s" "handles s' = handles s"
    "\<And>l. l \<notin> X \<Longrightarrow> l \<notin> cluster_lbas s c \<Longrightarrow> fs_disk s' l = fs_disk s l"
  unfolding writeCluster_def
  by (rule write_sectors_keeps [OF assms, of "clusterToLba c s" "[0..<unat (sectorsPerCluster s)]" buf])
    (auto simp: cluster_lbas_def cluster_lba_def lessThan_atLeast0)

lemma concat_slices:
  "length buf = n * SECTOR_SIZE \<Longrightarrow> concat (map (\<lambda>i. buf_get buf (i * SECTOR_SIZE) SECTOR_SIZE) [0..<n]) = buf"
proof (induction n arbitrary: buf)
  case (Suc n)
  let ?b = "take (n * SECTOR_SIZE) buf"
  have "buf_get buf (i * SECTOR_SIZE) SECTOR_SIZE = buf_get ?b (i * SECTOR_SIZE) SECTOR_SIZE" if "i < n" for i
  proof -
    have "i * SECTOR_SIZE + SECTOR_SIZE \<le> n * SECTOR_SIZE" using that mult_le_mono1 [of "Suc i" n SECTOR_SIZE] by simp
    then show ?thesis by (simp add: buf_get_def drop_take min_def)
  qed
  then have "concat (map (\<lambda>i. buf_get buf (i * SECTOR_SIZE) SECTOR_SIZE) [0..<n]) =
      concat (map (\<lambda>i. buf_get ?b (i * SECTOR_SIZE) SECTOR_SIZE) [0..<n])"
    by (intro arg_cong [where f = concat] map_cong) auto
  also have "\<dots> = ?b" using Suc.prems by (intro Suc.IH) simp
  finally have "concat (map (\<lambda>i. buf_get buf (i * SECTOR_SIZE) SECTOR_SIZE) [0..<n]) = ?b" .
  then show ?case using Suc.prems by (simp add: buf_get_def)
qed simp

lemma writeCluster_ok:
  assumes "cache_ok X s" "cluster_lbas s c \<inter> X = {}" "length buf = unat (sectorsPerCluster s) * SECTOR_SIZE"
  obtains s' where "writeCluster c buf s = (True, s')" "cache_ok X s'" "layout s' = layout s" "handles s' = handles s"
    "\<And>l. l \<notin> X \<Longrightarrow> l \<notin> cluster_lbas s c \<Longrightarrow> fs_disk s' l = fs_disk s l"
    "cluster_data s' c = buf" "sectors_ok X s \<Longrightarrow> sectors_ok X s'"
proof -
  let ?n = "unat (sectorsPerCluster s)"
  have n: "\<forall>i \<in> set [0..<?n]. i < 2 ^ 32" using unat_lt_2p32 [of "sectorsPerCluster s"] by auto
  have X: "\<forall>i \<in> set [0..<?n]. clusterToLba c s + of_nat i \<notin> X"
    using assms(2) unfolding cluster_lbas_def cluster_lba_def by fastforce
  obtain s' where s': "writeCluster c buf s = (True, s')" "cache_ok X s'" "layout s' = layout s" "handles s' = handles s"
    and dk: "\<And>l. l \<notin> X \<Longrightarrow> l \<notin> (\<lambda>i. clusterToLba c s + of_nat i) ` set [0..<?n] \<Longrightarrow> fs_disk s' l = fs_disk s l"
      "\<And>i. i \<in> set [0..<?n] \<Longrightarrow> fs_disk s' (clusterToLba c s + of_nat i) = buf_get buf (i * SECTOR_SIZE) SECTOR_SIZE"
    unfolding writeCluster_def by (rule write_sectors_ok [OF assms(1) X n]) blast
  note lf = layout_fields [OF s'(3)]
  have "cluster_data s' c = concat (map (\<lambda>i. buf_get buf (i * SECTOR_SIZE) SECTOR_SIZE) [0..<?n])"
    unfolding cluster_data_def cluster_lba_def lf
    by (intro arg_cong [where f = concat] map_cong) (use dk(2) lf in \<open>auto simp: clusterToLba_def\<close>)
  then have cd: "cluster_data s' c = buf" using concat_slices [OF assms(3)] by simp
  have "sectors_ok X s'" if "sectors_ok X s"
    unfolding sectors_ok_def
  proof (intro allI impI)
    fix l
    assume l: "l \<notin> X"
    show "length (fs_disk s' l) = SECTOR_SIZE"
    proof (cases "l \<in> (\<lambda>i. clusterToLba c s + of_nat i) ` set [0..<?n]")
      case True
      then obtain i where i: "i < ?n" "l = clusterToLba c s + of_nat i" by auto
      have "i * SECTOR_SIZE + SECTOR_SIZE \<le> length buf" using i(1) assms(3) mult_le_mono1 [of "Suc i" ?n SECTOR_SIZE] by simp
      then show ?thesis using i dk(2) [of i] by (simp add: buf_get_def)
    next
      case False
      then show ?thesis using dk(1) [OF l] that l by (simp add: sectors_ok_def)
    qed
  qed
  then show ?thesis using that s' cd dk(1) by (auto simp: cluster_lbas_def cluster_lba_def lessThan_atLeast0)
qed

end
