(* ===== verification/Fat_Table.thy ===== *)
theory Fat_Table
  imports Fat_Cache "HOL-Library.Monad_Syntax"
begin

text \<open>
  The file allocation table: filesystem.cpp lines 140-229.  Numbers on the disk are little
  endian.  A loop that follows the table may run for ever on a damaged one: such an operation
  returns \<open>None\<close> then, as it does where the code's behaviour is undefined.
\<close>

unbundle bit_operations_syntax

section \<open>Little-endian fields\<close>

definition le32 :: "u8 list \<Rightarrow> u32" where
  "le32 b = ucast (b ! 0) OR push_bit 8 (ucast (b ! 1)) OR push_bit 16 (ucast (b ! 2)) OR push_bit 24 (ucast (b ! 3))"

definition bytes32 :: "u32 \<Rightarrow> u8 list" where
  "bytes32 v = [byte_of v 0, byte_of v 1, byte_of v 2, byte_of v 3]"

definition le16 :: "u8 list \<Rightarrow> u16" where
  "le16 b = ucast (b ! 0) OR push_bit 8 (ucast (b ! 1))"

definition bytes16 :: "u16 \<Rightarrow> u8 list" where
  "bytes16 v = [ucast v, ucast (drop_bit 8 v)]"

section \<open>Operations\<close>

definition FAT_FREE :: u32 where "FAT_FREE = 0"
definition FAT_EOC :: u32 where "FAT_EOC = 0x0FFFFFF8"
definition FAT_ENTRY_MASK :: u32 where "FAT_ENTRY_MASK = 0x0FFFFFFF"

text \<open>Where the entry of a cluster is.\<close>

definition fat_sector :: "u32 \<Rightarrow> fs \<Rightarrow> u32" where
  "fat_sector cluster s = fatStartSector s + cluster * 4 div 512"

definition fat_offset :: "u32 \<Rightarrow> u32" where
  "fat_offset cluster = cluster * 4 mod 512"

definition fatGet :: "u32 \<Rightarrow> fs \<Rightarrow> u32 \<times> fs" where
  "fatGet cluster s =
     (if cluster \<ge> fatEntryCount s then (FAT_EOC, s)
      else (case readSector (fat_sector cluster s) s of
              (None, s) \<Rightarrow> (FAT_EOC, s)
            | (Some buf, s) \<Rightarrow> (le32 (buf_get buf (unat (fat_offset cluster)) 4) AND FAT_ENTRY_MASK, s)))"

definition fatSet :: "u32 \<Rightarrow> u32 \<Rightarrow> fs \<Rightarrow> fs" where
  "fatSet cluster value s =
     (if cluster \<ge> fatEntryCount s then s
      else (case readSector (fat_sector cluster s) s of
              (None, s) \<Rightarrow> s
            | (Some buf, s) \<Rightarrow>
                (let existing = le32 (buf_get buf (unat (fat_offset cluster)) 4);
                     newVal = (existing AND NOT FAT_ENTRY_MASK) OR (value AND FAT_ENTRY_MASK)
                 in snd (writeSector (fat_sector cluster s) (buf_put buf (unat (fat_offset cluster)) (bytes32 newVal)) s))))"

function alloc_from :: "u32 \<Rightarrow> u32 \<Rightarrow> fs \<Rightarrow> u32 \<times> fs" where
  "alloc_from i n s =
     (if i < n then (case fatGet i s of (v, s) \<Rightarrow> (if v = FAT_FREE then (i, fatSet i FAT_EOC s) else alloc_from (i + 1) n s))
      else (0, s))"
  by pat_completeness auto
termination
proof (relation "measure (\<lambda>(i, n, s). unat n - unat i)")
  fix i n :: u32 and s :: fs and p v s'
  assume "i < n"
  then have "unat i < unat n" by (simp add: word_less_nat_alt)
  moreover from this have "unat (i + 1) = Suc (unat i)" using unat_lt_2p32 [of n] by (simp add: unat_word_ariths)
  ultimately show "((i + 1, n, s'), i, n, s) \<in> measure (\<lambda>(i, n, s). unat n - unat i)" by simp
qed simp

declare alloc_from.simps [simp del]

definition allocateCluster :: "fs \<Rightarrow> u32 \<times> fs" where
  "allocateCluster s = alloc_from 2 (fatEntryCount s) s"

partial_function (option) freeChain :: "u32 \<Rightarrow> fs \<Rightarrow> fs option" where
  "freeChain cluster s =
     (if 2 \<le> cluster \<and> cluster < fatEntryCount s
      then (case fatGet cluster s of (next, s) \<Rightarrow>
              (if next \<ge> FAT_EOC then Some (fatSet cluster FAT_FREE s) else freeChain next (fatSet cluster FAT_FREE s)))
      else Some s)"

definition mirror_entry :: "nat \<Rightarrow> fs \<Rightarrow> fs" where
  "mirror_entry i s = (let e = cache s ! i; lba = ce_lba e in
     if ce_valid e \<and> ce_dirty e \<and> lba \<ge> fatStartSector s \<and> lba < fatStartSector s + fatSize s
     then snd (ata_writeSector (lba + fatSize s) (ce_bytes e) s) else s)"

definition flushFat :: "fs \<Rightarrow> fs" where
  "flushFat s = fold mirror_entry [0..<CACHE_SIZE] s"

fun skip_clusters :: "nat \<Rightarrow> u32 \<Rightarrow> fs \<Rightarrow> u32 \<times> fs" where
  "skip_clusters 0 cluster s = (cluster, s)"
| "skip_clusters (Suc n) cluster s =
     (case fatGet cluster s of (c, s) \<Rightarrow> (if c \<ge> FAT_EOC then (0, s) else skip_clusters n c s))"

text \<open>A cluster size of 0 makes the division trap.\<close>

definition clusterAtOffset :: "u32 \<Rightarrow> u32 \<Rightarrow> fs \<Rightarrow> (u32 \<times> fs) option" where
  "clusterAtOffset startCluster byteOffset s =
     (if bytesPerCluster s = 0 then None
      else Some (skip_clusters (unat (byteOffset div bytesPerCluster s)) startCluster s))"

section \<open>Fields\<close>

lemma le32_bytes32 [simp]: "le32 (bytes32 v) = v"
  using load32_byte_of [of v] by (simp add: le32_def bytes32_def)


lemma length_bytes32 [simp]: "length (bytes32 v) = 4"
  by (simp add: bytes32_def)

lemma buf_get_put_same: "off + length d \<le> length buf \<Longrightarrow> buf_get (buf_put buf off d) off (length d) = d"
  by (simp add: buf_get_def buf_put_def)

lemma buf_get_put_other:
  assumes "off + length d \<le> length buf" "off' + n \<le> off \<or> off + length d \<le> off'"
  shows "buf_get (buf_put buf off d) off' n = buf_get buf off' n"
proof -
  have len: "length (buf_put buf off d) = length buf" using assms by simp
  have nth: "buf_put buf off d ! j = buf ! j" if "j < off \<or> off + length d \<le> j" "j < length buf" for j
    using that assms(1) by (auto simp: buf_put_def nth_append)
  show ?thesis
    unfolding buf_get_def by (rule nth_equalityI) (use assms len nth in auto)
qed

section \<open>The table as a function\<close>

definition entry_of :: "u32 \<Rightarrow> u8 list \<Rightarrow> u32" where
  "entry_of c sec = le32 (buf_get sec (unat (fat_offset c)) 4)"

definition fat :: "fs \<Rightarrow> u32 \<Rightarrow> u32" where
  "fat s c = entry_of c (fs_disk s (fat_sector c s)) AND FAT_ENTRY_MASK"

text \<open>A volume whose table lies outside \<open>X\<close> and has a legal number of entries.\<close>

definition fat_ok :: "u32 set \<Rightarrow> fs \<Rightarrow> bool" where
  "fat_ok X s \<longleftrightarrow> cache_ok X s \<and> sectors_ok X s \<and> fatEntryCount s \<le> FAT_EOC \<and>
     (\<forall>c < fatEntryCount s. fat_sector c s \<notin> X)"

lemma fat_offset_unat: "c \<le> FAT_EOC \<Longrightarrow> unat (fat_offset c) = 4 * (unat c mod 128)"
proof -
  assume "c \<le> FAT_EOC"
  then have "unat c \<le> unat FAT_EOC" by (simp only: word_le_nat_alt)
  then have c: "unat c * 4 < 2 ^ 32" by (simp add: FAT_EOC_def)
  then have "unat (c * 4) = unat c * 4" by (simp add: unat_word_ariths)
  then have "unat (fat_offset c) = unat c * 4 mod 512" by (simp add: fat_offset_def unat_mod)
  then show ?thesis by (simp add: mult_mod_right mult.commute)
qed

lemma fat_offset_bound:
  assumes "c \<le> FAT_EOC"
  shows "unat (fat_offset c) + 4 \<le> SECTOR_SIZE"
proof -
  have "unat c mod 128 < 128" by simp
  then show ?thesis unfolding fat_offset_unat [OF assms] SECTOR_SIZE_def by linarith
qed

lemma fat_sector_unat: "c \<le> FAT_EOC \<Longrightarrow> fat_sector c s = fatStartSector s + of_nat (unat c div 128)"
proof -
  assume "c \<le> FAT_EOC"
  then have "unat c \<le> unat FAT_EOC" by (simp only: word_le_nat_alt)
  then have c: "unat c * 4 < 2 ^ 32" by (simp add: FAT_EOC_def)
  then have "unat (c * 4) = unat c * 4" by (simp add: unat_word_ariths)
  then have "unat (c * 4 div 512) = unat c * 4 div 512" by (simp add: unat_div)
  also have "\<dots> = unat c div 128" by (simp add: div_mult2_eq [of _ 4 128, simplified])
  finally have "c * 4 div 512 = of_nat (unat c div 128)" by (metis of_nat_unat ucast_id)
  then show ?thesis by (simp add: fat_sector_def)
qed

text \<open>Entries of different clusters do not overlap.\<close>

lemma fat_entry_apart:
  assumes "c \<le> FAT_EOC" "d \<le> FAT_EOC" "c \<noteq> d" "fat_sector c s = fat_sector d s"
  shows "unat (fat_offset d) + 4 \<le> unat (fat_offset c) \<or> unat (fat_offset c) + 4 \<le> unat (fat_offset d)"
proof -
  have b: "unat c div 128 < 2 ^ 32" "unat d div 128 < 2 ^ 32" using unat_lt_2p32 [of c] unat_lt_2p32 [of d] by simp_all
  have "unat c div 128 = unat d div 128"
    using assms(4) add_of_nat_inj [OF b, of "fatStartSector s"] by (simp only: fat_sector_unat [OF assms(1)] fat_sector_unat [OF assms(2)])
  moreover have "unat c \<noteq> unat d" using assms(3) by (simp add: word_unat_eq_iff)
  ultimately have "unat c mod 128 \<noteq> unat d mod 128" by (metis mult_div_mod_eq)
  then show ?thesis unfolding fat_offset_unat [OF assms(1)] fat_offset_unat [OF assms(2)] by linarith
qed

lemma same_fs_fat: "same_fs X s s' \<Longrightarrow> fat_ok X s \<Longrightarrow> c < fatEntryCount s \<Longrightarrow> fat s' c = fat s c"
  using layout_fields(6) [of s' s] by (simp add: same_fs_def fat_ok_def fat_def fat_sector_def)

lemma same_fs_fat_ok: "same_fs X s s' \<Longrightarrow> fat_ok X s \<Longrightarrow> cache_ok X s' \<Longrightarrow> fat_ok X s'"
  using layout_fields(6,9) [of s' s] same_fs_sectors_ok [of X s s'] by (simp add: fat_ok_def same_fs_def fat_sector_def)

lemma fatGet_keeps:
  assumes "cache_ok X s"
  obtains v s' where "fatGet c s = (v, s')" "cache_ok X s'" "same_fs X s s'"
proof -
  obtain r s' where "readSector (fat_sector c s) s = (r, s')" "cache_ok X s'" "same_fs X s s'"
    by (rule readSector_ok [OF assms, where lba = "fat_sector c s"])
  then show ?thesis using that assms by (cases "c \<ge> fatEntryCount s"; cases r) (auto simp: fatGet_def)
qed

lemma fatGet_ok:
  assumes "fat_ok X s" "c < fatEntryCount s"
  obtains s' where "fatGet c s = (fat s c, s')" "fat_ok X s'" "same_fs X s s'"
proof -
  have c: "cache_ok X s" "fat_sector c s \<notin> X" using assms by (auto simp: fat_ok_def)
  obtain s' where s': "readSector (fat_sector c s) s = (Some (fs_disk s (fat_sector c s)), s')" "cache_ok X s'" "same_fs X s s'"
    by (rule readSector_ok [OF c(1), where lba = "fat_sector c s"]) (use c(2) in auto)
  then have "fatGet c s = (fat s c, s')" using leD [of "fatEntryCount s" c] assms(2) by (auto simp: fatGet_def fat_def entry_of_def)
  then show ?thesis using that s' same_fs_fat_ok [OF s'(3) assms(1) s'(2)] by blast
qed

lemma fatSet_keeps:
  assumes "cache_ok X s"
  shows "cache_ok X (fatSet c v s)" "layout (fatSet c v s) = layout s" "handles (fatSet c v s) = handles s"
    "l \<notin> X \<Longrightarrow> l \<noteq> fat_sector c s \<Longrightarrow> fs_disk (fatSet c v s) l = fs_disk s l"
proof -
  obtain r s1 where r: "readSector (fat_sector c s) s = (r, s1)" "cache_ok X s1" "same_fs X s s1"
    by (rule readSector_ok [OF assms, where lba = "fat_sector c s"])
  have sec: "fat_sector c s1 = fat_sector c s" using r(3) layout_fields(6) [of s1 s] by (simp add: same_fs_def fat_sector_def)
  have "fatSet c v s = s \<or> fatSet c v s = s1 \<or> (\<exists>d. fatSet c v s = snd (writeSector (fat_sector c s) d s1))"
  proof (cases "fatEntryCount s \<le> c")
    case False
    then show ?thesis using r(1) sec by (cases r) (simp_all add: fatSet_def Let_def, blast)
  qed (simp add: fatSet_def)
  then consider "fatSet c v s = s" | "fatSet c v s = s1" | d where "fatSet c v s = snd (writeSector (fat_sector c s) d s1)"
    by blast
  then have "cache_ok X (fatSet c v s) \<and> layout (fatSet c v s) = layout s \<and> handles (fatSet c v s) = handles s \<and>
    (\<forall>l. l \<notin> X \<longrightarrow> l \<noteq> fat_sector c s \<longrightarrow> fs_disk (fatSet c v s) l = fs_disk s l)"
  proof cases
    case 3
    obtain b' s2 where "writeSector (fat_sector c s) d s1 = (b', s2)" "cache_ok X s2" "layout s2 = layout s1" "handles s2 = handles s1"
      "\<And>l. l \<notin> X \<Longrightarrow> fs_disk s2 l = (if l = fat_sector c s then d else fs_disk s1 l)"
      by (rule writeSector_ok [OF r(2), where lba = "fat_sector c s" and d = d]) blast
    then show ?thesis using 3 r(3) by (auto simp: same_fs_def)
  qed (use assms r in \<open>auto simp: same_fs_def\<close>)
  then show "cache_ok X (fatSet c v s)" "layout (fatSet c v s) = layout s" "handles (fatSet c v s) = handles s"
    "l \<notin> X \<Longrightarrow> l \<noteq> fat_sector c s \<Longrightarrow> fs_disk (fatSet c v s) l = fs_disk s l" by auto
qed


lemma entry_mask:
  fixes e v :: u32
  shows "((e AND NOT FAT_ENTRY_MASK) OR (v AND FAT_ENTRY_MASK)) AND FAT_ENTRY_MASK = v AND FAT_ENTRY_MASK"
    "((e AND NOT FAT_ENTRY_MASK) OR (v AND FAT_ENTRY_MASK)) AND NOT FAT_ENTRY_MASK = e AND NOT FAT_ENTRY_MASK"
  by (rule bit_word_eqI; auto simp: bit_simps)+

text \<open>Setting an entry: that entry and no other, its four upper bits kept, and no other sector.\<close>

lemma fatSet_ok:
  assumes ok: "fat_ok X s" and c: "c < fatEntryCount s"
  shows "fat_ok X (fatSet c v s)"
    "d < fatEntryCount s \<Longrightarrow> fat (fatSet c v s) d = (if d = c then v AND FAT_ENTRY_MASK else fat s d)"
    "entry_of c (fs_disk (fatSet c v s) (fat_sector c s)) AND NOT FAT_ENTRY_MASK
      = entry_of c (fs_disk s (fat_sector c s)) AND NOT FAT_ENTRY_MASK"
proof -
  let ?l = "fat_sector c s" and ?o = "unat (fat_offset c)"
  have co: "cache_ok X s" "?l \<notin> X" "sectors_ok X s" "c \<le> FAT_EOC" "fatEntryCount s \<le> FAT_EOC"
    using ok c by (auto simp: fat_ok_def)
  define e where "e = entry_of c (fs_disk s ?l)"
  define n where "n = (e AND NOT FAT_ENTRY_MASK) OR (v AND FAT_ENTRY_MASK)"
  define b where "b = buf_put (fs_disk s ?l) ?o (bytes32 n)"
  obtain s1 where r: "readSector ?l s = (Some (fs_disk s ?l), s1)" "cache_ok X s1" "same_fs X s s1"
    by (rule readSector_ok [OF co(1), where lba = ?l]) (use co(2) in auto)
  have sec: "fat_sector d s1 = fat_sector d s" for d using r(3) layout_fields(6) [of s1 s] by (simp add: same_fs_def fat_sector_def)
  obtain s2 where w: "writeSector ?l b s1 = (True, s2)" "cache_ok X s2" "layout s2 = layout s1" "handles s2 = handles s1"
    and dk: "\<And>l. l \<notin> X \<Longrightarrow> fs_disk s2 l = (if l = ?l then b else fs_disk s1 l)"
    by (rule writeSector_ok [OF r(2), where lba = ?l and d = b]) (use co(2) in auto)
  have s2: "fatSet c v s = s2"
    using r(1) sec w(1) c
    by (auto simp: fatSet_def Let_def b_def n_def e_def entry_of_def dest: leD)
  have lay: "layout s2 = layout s" using w(3) r(3) by (simp add: same_fs_def)
  note lf = layout_fields [OF lay]
  have sec2: "fat_sector d s2 = fat_sector d s" for d using lf by (simp add: fat_sector_def)
  have len: "length (fs_disk s ?l) = SECTOR_SIZE" using co by (simp add: sectors_ok_def)
  have bnd: "?o + length (bytes32 n) \<le> length (fs_disk s ?l)" using fat_offset_bound [OF co(4)] len by simp
  have disk: "fs_disk s2 l = (if l = ?l then b else fs_disk s l)" if "l \<notin> X" for l
    using dk [OF that] r(3) that by (simp add: same_fs_def)
  have lb: "length b = SECTOR_SIZE" using bnd len by (simp add: b_def)
  have self: "entry_of c b = n"
    using buf_get_put_same [OF bnd] by (simp add: entry_of_def b_def)
  show "fat_ok X (fatSet c v s)"
    using ok w(2) lf sec2 disk lb by (auto simp: fat_ok_def s2 sectors_ok_def)
  show "fat (fatSet c v s) d = (if d = c then v AND FAT_ENTRY_MASK else fat s d)" if d: "d < fatEntryCount s"
  proof (cases "d = c")
    case True
    then show ?thesis using disk [OF co(2)] self by (simp add: s2 fat_def sec2 n_def entry_mask)
  next
    case False
    have dX: "fat_sector d s \<notin> X" "d \<le> FAT_EOC" using ok d by (auto simp: fat_ok_def)
    have "entry_of d (fs_disk s2 (fat_sector d s)) = entry_of d (fs_disk s (fat_sector d s))"
    proof (cases "fat_sector d s = ?l")
      case True
      have "entry_of d b = entry_of d (fs_disk s ?l)"
        unfolding entry_of_def b_def
        using fat_entry_apart [OF co(4) dX(2) False [symmetric] True [symmetric]]
        by (subst buf_get_put_other [OF bnd]) auto
      then show ?thesis using True disk [OF co(2)] by simp
    qed (simp add: disk [OF dX(1)])
    then show ?thesis using False by (simp add: s2 fat_def sec2)
  qed
  show "entry_of c (fs_disk (fatSet c v s) ?l) AND NOT FAT_ENTRY_MASK = entry_of c (fs_disk s ?l) AND NOT FAT_ENTRY_MASK"
    using disk [OF co(2)] self by (simp add: s2 n_def entry_mask e_def)
qed

text \<open>Allocation takes the first free cluster, if there is one.\<close>

lemma fat_ok_count: "fat_ok X s \<Longrightarrow> same_fs X s s' \<Longrightarrow> fatEntryCount s' = fatEntryCount s"
  using layout_fields(9) [of s' s] by (simp add: same_fs_def)

lemma fatSet_count [simp]: "cache_ok X s \<Longrightarrow> fatEntryCount (fatSet c v s) = fatEntryCount s"
  using fatSet_keeps(2) [of X s c v] layout_fields(9) by blast

lemma alloc_from_ok:
  assumes "fat_ok X s" "n = fatEntryCount s" "\<forall>j. 2 \<le> j \<longrightarrow> j < i \<longrightarrow> fat s j \<noteq> FAT_FREE" "2 \<le> i"
  shows "\<exists>c s'. alloc_from i n s = (c, s') \<and> fat_ok X s' \<and> layout s' = layout s \<and> handles s' = handles s \<and>
    (if c = 0 then (\<forall>j. 2 \<le> j \<longrightarrow> j < n \<longrightarrow> fat s j \<noteq> FAT_FREE) \<and> same_fs X s s'
     else 2 \<le> c \<and> c < n \<and> fat s c = FAT_FREE \<and> (\<forall>j. 2 \<le> j \<longrightarrow> j < c \<longrightarrow> fat s j \<noteq> FAT_FREE) \<and>
       (\<exists>s1. same_fs X s s1 \<and> fat_ok X s1 \<and> s' = fatSet c FAT_EOC s1))"
  using assms
proof (induction i n s rule: alloc_from.induct)
  case (1 i n s)
  show ?case
  proof (cases "i < n")
    case True
    obtain s1 where g: "fatGet i s = (fat s i, s1)" "fat_ok X s1" "same_fs X s s1"
      using fatGet_ok [of X s i] "1.prems" True by auto
    have cnt: "fatEntryCount s1 = n" using fat_ok_count [OF "1.prems"(1) g(3)] "1.prems"(2) by simp
    have fs1: "fat s1 j = fat s j" if "j < n" for j using same_fs_fat [OF g(3) "1.prems"(1)] that "1.prems"(2) by simp
    show ?thesis
    proof (cases "fat s i = FAT_FREE")
      case free: True
      have "layout (fatSet i FAT_EOC s1) = layout s" "handles (fatSet i FAT_EOC s1) = handles s"
        using fatSet_keeps(2,3) [of X s1 i FAT_EOC] g(2,3) by (simp_all add: fat_ok_def same_fs_def)
      moreover have "i \<noteq> 0" using "1.prems"(4) by auto
      ultimately show ?thesis
        using True free g cnt fatSet_ok(1) [OF g(2), of i FAT_EOC] "1.prems"(3,4)
        by (auto simp: alloc_from.simps [of i n s])
    next
      case False
      have i1: "2 \<le> i + 1" "\<And>j. j < i + 1 \<longleftrightarrow> j < i \<or> j = i"
      proof -
        have "unat i < unat n" using True by (simp add: word_less_nat_alt)
        then have u: "unat (i + 1) = Suc (unat i)" using unat_lt_2p32 [of n] by (simp add: unat_word_ariths)
        then show "2 \<le> i + 1" using "1.prems"(4) by (simp add: word_le_nat_alt)
        show "j < i + 1 \<longleftrightarrow> j < i \<or> j = i" for j
          using u by (auto simp: word_less_nat_alt word_unat_eq_iff)
      qed
      have pre: "\<forall>j. 2 \<le> j \<longrightarrow> j < i + 1 \<longrightarrow> fat s1 j \<noteq> FAT_FREE"
        using i1(2) "1.prems"(3) False fs1 True by (metis order.strict_trans)
      from "1.IH" [OF True g(1) [symmetric] False g(2) cnt [symmetric] pre i1(1)]
      obtain c s' where r: "alloc_from (i + 1) n s1 = (c, s')" "fat_ok X s'" "layout s' = layout s1" "handles s' = handles s1"
        "if c = 0 then (\<forall>j. 2 \<le> j \<longrightarrow> j < n \<longrightarrow> fat s1 j \<noteq> FAT_FREE) \<and> same_fs X s1 s'
         else 2 \<le> c \<and> c < n \<and> fat s1 c = FAT_FREE \<and> (\<forall>j. 2 \<le> j \<longrightarrow> j < c \<longrightarrow> fat s1 j \<noteq> FAT_FREE) \<and>
           (\<exists>s2. same_fs X s1 s2 \<and> fat_ok X s2 \<and> s' = fatSet c FAT_EOC s2)" by blast
      have e: "alloc_from i n s = (c, s')" using True False g(1) r(1) by (simp add: alloc_from.simps [of i n s])
      have lay: "layout s' = layout s" "handles s' = handles s" using r(3,4) g(3) by (auto simp: same_fs_def)
      show ?thesis
      proof (cases "c = 0")
        case True
        then show ?thesis using e r(2,5) lay fs1 same_fs_trans [OF g(3)] by auto
      next
        case False
        then have c: "2 \<le> c" "c < n" "fat s1 c = FAT_FREE" "\<forall>j. 2 \<le> j \<longrightarrow> j < c \<longrightarrow> fat s1 j \<noteq> FAT_FREE"
          and "\<exists>s2. same_fs X s1 s2 \<and> fat_ok X s2 \<and> s' = fatSet c FAT_EOC s2" using r(5) by auto
        then obtain s2 where s2: "same_fs X s1 s2" "fat_ok X s2" "s' = fatSet c FAT_EOC s2" by blast
        have "\<forall>j. 2 \<le> j \<longrightarrow> j < c \<longrightarrow> fat s j \<noteq> FAT_FREE" using c fs1 by (metis order.strict_trans)
        then show ?thesis using e r(2) lay False c fs1 [OF c(2)] s2 same_fs_trans [OF g(3) s2(1)] by auto
      qed
    qed
  next
    case False
    then have "alloc_from i n s = (0, s)" by (simp add: alloc_from.simps [of i n s])
    moreover have "\<forall>j. 2 \<le> j \<longrightarrow> j < n \<longrightarrow> fat s j \<noteq> FAT_FREE"
      using False "1.prems"(3) by (metis not_less order.strict_trans2)
    ultimately show ?thesis using "1.prems"(1) by (intro exI [of _ 0] exI [of _ s]) simp
  qed
qed


section \<open>Freeing a chain\<close>

text \<open>Every step of \<^verbatim>\<open>freeChain\<close> frees the cluster it stands on.\<close>

lemma freeChain_step:
  assumes ok: "fat_ok X s" and c: "2 \<le> c" "c < fatEntryCount s"
  obtains s' where "fat_ok X s'" "layout s' = layout s" "handles s' = handles s"
    "\<And>d. d < fatEntryCount s \<Longrightarrow> fat s' d = (if d = c then FAT_FREE else fat s d)"
    "freeChain c s = (if fat s c \<ge> FAT_EOC then Some s' else freeChain (fat s c) s')"
    "\<And>l. l \<notin> X \<Longrightarrow> l \<noteq> fat_sector c s \<Longrightarrow> fs_disk s' l = fs_disk s l"
proof -
  obtain s1 where g: "fatGet c s = (fat s c, s1)" "fat_ok X s1" "same_fs X s s1"
    by (rule fatGet_ok [OF ok c(2)])
  let ?s = "fatSet c FAT_FREE s1"
  have cnt: "fatEntryCount s1 = fatEntryCount s" by (rule fat_ok_count [OF ok g(3)])
  have co: "cache_ok X s1" using g(2) by (simp add: fat_ok_def)
  have sec: "fat_sector c s1 = fat_sector c s" using g(3) layout_fields(6) [of s1 s] by (simp add: same_fs_def fat_sector_def)
  show ?thesis
  proof (rule that [of ?s])
    show "fat_ok X ?s" using fatSet_ok(1) [OF g(2)] c cnt by simp
    show "layout ?s = layout s" "handles ?s = handles s"
      using fatSet_keeps(2,3) [OF co] g(3) by (simp_all add: same_fs_def)
    show "fat ?s d = (if d = c then FAT_FREE else fat s d)" if "d < fatEntryCount s" for d
      using fatSet_ok(2) [OF g(2), of c d FAT_FREE] that c cnt same_fs_fat [OF g(3) ok that] by (simp add: FAT_FREE_def)
    show "freeChain c s = (if fat s c \<ge> FAT_EOC then Some ?s else freeChain (fat s c) ?s)"
      using c g(1) by (simp add: freeChain.simps [of c s])
    show "fs_disk ?s l = fs_disk s l" if "l \<notin> X" "l \<noteq> fat_sector c s" for l
      using fatSet_keeps(4) [OF co that(1), of c FAT_FREE] that g(3) sec by (simp add: same_fs_def)
  qed
qed

definition used_clusters :: "fs \<Rightarrow> u32 set" where
  "used_clusters s = {c. 2 \<le> c \<and> c < fatEntryCount s \<and> fat s c \<noteq> FAT_FREE}"

text \<open>So it returns on every table, however its links are damaged.\<close>

lemma freeChain_returns:
  "fat_ok X s \<Longrightarrow> \<exists>s'. freeChain c s = Some s' \<and> fat_ok X s' \<and> layout s' = layout s \<and> handles s' = handles s"
proof (induction "card (used_clusters s)" arbitrary: c s rule: less_induct)
  case less
  show ?case
  proof (cases "2 \<le> c \<and> c < fatEntryCount s")
    case True
    obtain s1 where s1: "fat_ok X s1" "layout s1 = layout s" "handles s1 = handles s"
      "\<And>d. d < fatEntryCount s \<Longrightarrow> fat s1 d = (if d = c then FAT_FREE else fat s d)"
      "freeChain c s = (if fat s c \<ge> FAT_EOC then Some s1 else freeChain (fat s c) s1)"
      using freeChain_step [OF less.prems, of c] True by metis
    have cnt: "fatEntryCount s1 = fatEntryCount s" by (rule layout_fields(9) [OF s1(2)])
    show ?thesis
    proof (cases "fat s c = FAT_FREE")
      case free: True
      then have "freeChain c s = freeChain 0 s1" using s1(5) by (simp add: FAT_FREE_def FAT_EOC_def)
      then show ?thesis using s1 by (simp add: freeChain.simps [of 0])
    next
      case False
      have "used_clusters s1 = used_clusters s - {c}" using s1(4) cnt by (auto simp: used_clusters_def split: if_splits)
      moreover have "c \<in> used_clusters s" using True False by (simp add: used_clusters_def)
      ultimately have "card (used_clusters s1) < card (used_clusters s)"
        by (metis card_Diff1_less finite)
      from less.hyps [OF this s1(1), of "fat s c"] obtain s' where
        "freeChain (fat s c) s1 = Some s'" "fat_ok X s'" "layout s' = layout s1" "handles s' = handles s1" by blast
      then show ?thesis using s1 by auto
    qed
  next
    case False
    then have "freeChain c s = Some s" by (subst freeChain.simps) (rule if_not_P)
    then show ?thesis using less.prems by simp
  qed
qed

text \<open>A chain: distinct clusters, each linked to the next, the last marked as the end.\<close>

fun links :: "(u32 \<Rightarrow> u32) \<Rightarrow> u32 list \<Rightarrow> bool" where
  "links f [] = True"
| "links f [c] = (FAT_EOC \<le> f c)"
| "links f (c # d # cs) = (f c = d \<and> links f (d # cs))"

definition fat_chain :: "fs \<Rightarrow> u32 list \<Rightarrow> bool" where
  "fat_chain s cs \<longleftrightarrow> cs \<noteq> [] \<and> distinct cs \<and> (\<forall>c \<in> set cs. 2 \<le> c \<and> c < fatEntryCount s) \<and> links (fat s) cs"

lemma links_cong: "(\<And>c. c \<in> set cs \<Longrightarrow> f c = g c) \<Longrightarrow> links f cs = links g cs"
  by (induction f cs rule: links.induct) auto

lemma fat_chain_Cons:
  "fat_chain s (c # d # cs) \<longleftrightarrow> c \<notin> set (d # cs) \<and> 2 \<le> c \<and> c < fatEntryCount s \<and> fat s c = d \<and> fat_chain s (d # cs)"
  by (auto simp: fat_chain_def)

text \<open>
  C28. On a volume whose table the drive gives back, \<^verbatim>\<open>freeChain\<close> frees exactly the clusters of a
  well-formed chain and leaves every other entry of the table as it was, and it returns even
  when the links of the table are damaged and run in a circle.
\<close>

theorem freeChain_frees:
  assumes "fat_ok X s"
  shows "(\<exists>s'. freeChain c s = Some s') \<and>
    (\<forall>cs. fat_chain s (c # cs) \<longrightarrow> (\<exists>s'. freeChain c s = Some s' \<and> fat_ok X s' \<and>
      (\<forall>d. d < fatEntryCount s \<longrightarrow> fat s' d = (if d \<in> set (c # cs) then FAT_FREE else fat s d))))"
proof (intro conjI allI impI)
  show "\<exists>s'. freeChain c s = Some s'" using freeChain_returns [OF assms] by blast
  fix cs
  assume "fat_chain s (c # cs)"
  then show "\<exists>s'. freeChain c s = Some s' \<and> fat_ok X s' \<and>
      (\<forall>d. d < fatEntryCount s \<longrightarrow> fat s' d = (if d \<in> set (c # cs) then FAT_FREE else fat s d))"
    using assms
  proof (induction cs arbitrary: c s)
    case Nil
    then have c: "2 \<le> c" "c < fatEntryCount s" "FAT_EOC \<le> fat s c" by (simp_all add: fat_chain_def)
    obtain s1 where "fat_ok X s1" "\<And>d. d < fatEntryCount s \<Longrightarrow> fat s1 d = (if d = c then FAT_FREE else fat s d)"
      "freeChain c s = Some s1"
      using freeChain_step [OF Nil(2) c(1,2)] c(3) by metis
    then show ?case by auto
  next
    case (Cons d cs)
    then have c: "c \<notin> set (d # cs)" "2 \<le> c" "c < fatEntryCount s" "fat s c = d" "fat_chain s (d # cs)"
      unfolding fat_chain_Cons by blast+
    have "d < fatEntryCount s" "fatEntryCount s \<le> FAT_EOC" using c(5) Cons.prems(2) by (simp_all add: fat_chain_def fat_ok_def)
    then have d: "\<not> FAT_EOC \<le> d" by simp
    obtain s1 where s1: "fat_ok X s1" "layout s1 = layout s"
      "\<And>e. e < fatEntryCount s \<Longrightarrow> fat s1 e = (if e = c then FAT_FREE else fat s e)" "freeChain c s = freeChain d s1"
      using freeChain_step [OF Cons.prems(2) c(2,3)] c(4) d by metis
    have cnt: "fatEntryCount s1 = fatEntryCount s" by (rule layout_fields(9) [OF s1(2)])
    have "links (fat s1) (d # cs) = links (fat s) (d # cs)"
      using c(1,5) s1(3) by (intro links_cong) (auto simp: fat_chain_def)
    then have "fat_chain s1 (d # cs)" using c(5) cnt by (simp add: fat_chain_def)
    from Cons.IH [OF this s1(1)] obtain s' where "freeChain d s1 = Some s'" "fat_ok X s'"
      "\<forall>e. e < fatEntryCount s \<longrightarrow> fat s' e = (if e \<in> set (d # cs) then FAT_FREE else fat s1 e)" using cnt by auto
    then show ?case using s1(3,4) by auto
  qed
qed


text \<open>
  A small volume to evaluate on: reserved sector 0, tables in sectors 1 and 2, one sector per
  cluster, clusters from sector 3 on; the table's first entries and the sectors given.
\<close>

definition demo_fs :: "u32 list \<Rightarrow> (u32 \<Rightarrow> u8 list) \<Rightarrow> fs" where
  "demo_fs table sectors =
     \<lparr>fs_disk = (\<lambda>l. if l = 1 \<or> l = 2 then take 512 (concat (map bytes32 table) @ replicate 512 0)
                     else take 512 (sectors l @ replicate 512 0)),
      fs_bad = (\<lambda>l. l \<ge> 64), fs_allocs = [], bytesPerSector = 512, sectorsPerCluster = 1, bytesPerCluster = 512,
      reservedSectors = 1, numFats = 2, fatSize = 1, fatStartSector = 1, dataStartSector = 3, rootCluster = 2,
      totalClusters = 8, fatEntryCount = 10,
      handles = replicate 16 \<lparr>fh_startCluster = 0, fh_size = 0, fh_dirCluster = 0, fh_dirOffset = 0, fh_isDir = False, fh_inUse = False\<rparr>,
      cache = replicate 16 \<lparr>ce_lba = 0, ce_data = None, ce_age = 0, ce_valid = False, ce_dirty = False\<rparr>,
      cacheAge = 0\<rparr>"

lemma demo_fs_ok: "fat_ok {l. l \<ge> 64} (demo_fs table sectors)"
proof -
  have "fat_sector c (demo_fs table sectors) = 1" if "c < 10" for c
  proof -
    have c: "unat c < 10" using that by (simp add: word_less_nat_alt)
    moreover have "c \<le> FAT_EOC" using c by (simp add: FAT_EOC_def word_le_nat_alt)
    ultimately show ?thesis by (subst fat_sector_unat) (simp_all add: demo_fs_def)
  qed
  moreover have "cache_ok {l. l \<ge> 64} (demo_fs table sectors)"
    by (simp add: cache_ok_def demo_fs_def CACHE_SIZE_def)
  moreover have "length (take 512 (x @ replicate 512 (0 :: u8))) = 512" for x by simp
  then have "sectors_ok {l. l \<ge> 64} (demo_fs table sectors)" by (simp add: sectors_ok_def demo_fs_def SECTOR_SIZE_def del: take_append)
  moreover have "fatEntryCount (demo_fs table sectors) = 10" by (simp add: demo_fs_def)
  moreover have "\<not> (64 :: u32) \<le> 1" by (simp add: word_le_nat_alt)
  ultimately show ?thesis by (simp add: fat_ok_def FAT_EOC_def)
qed

lemma demo_fat:
  assumes "c < 10"
  shows "fat (demo_fs table sectors) c = entry_of c (take 512 (concat (map bytes32 table) @ replicate 512 0)) AND FAT_ENTRY_MASK"
proof -
  have c: "unat c < 10" using assms by (simp add: word_less_nat_alt)
  then have "c \<le> FAT_EOC" by (simp add: FAT_EOC_def word_le_nat_alt)
  then have "fat_sector c (demo_fs table sectors) = 1" using c by (subst fat_sector_unat) (simp_all add: demo_fs_def)
  then show ?thesis by (simp add: fat_def) (simp add: demo_fs_def)
qed

theorem freeChain_frees_witness:
  "\<exists>s'. freeChain 3 (demo_fs [0, 0, 0x0FFFFFFF, 5, 0x0FFFFFFF, 0x0FFFFFFF] (\<lambda>_. [])) = Some s' \<and>
     fat s' 3 = 0 \<and> fat s' 5 = 0 \<and> fat s' 4 = 0x0FFFFFFF"
proof -
  let ?s = "demo_fs [0, 0, 0x0FFFFFFF, 5, 0x0FFFFFFF, 0x0FFFFFFF] (\<lambda>_. [])"
  have f: "fat ?s 3 = 5" "fat ?s 5 = 0x0FFFFFFF" "fat ?s 4 = 0x0FFFFFFF"
    by (simp_all add: demo_fat entry_of_def fat_offset_def buf_get_def bytes32_def byte_of_def le32_def FAT_ENTRY_MASK_def)
  have n: "fatEntryCount ?s = 10" by (simp add: demo_fs_def)
  have "fat_chain ?s [3, 5]" using f n by (simp add: fat_chain_def FAT_EOC_def)
  with freeChain_frees [OF demo_fs_ok, of 3 "[0, 0, 0x0FFFFFFF, 5, 0x0FFFFFFF, 0x0FFFFFFF]" "\<lambda>_. []"]
  obtain s' where "freeChain 3 ?s = Some s'" "\<forall>d. d < 10 \<longrightarrow> fat s' d = (if d \<in> {3, 5} then FAT_FREE else fat ?s d)"
    using n by auto
  then show ?thesis using f by (simp add: FAT_FREE_def)
qed

text \<open>
  On such a volume an entry that was set is read back with its 28 bits, every other entry
  is as before, and the four reserved upper bits on the disk are kept.
\<close>

theorem fat_entry_roundtrip:
  assumes "fat_ok X s" "c < fatEntryCount s" "d < fatEntryCount s"
  shows "fst (fatGet d (fatSet c v s)) = (if d = c then v AND FAT_ENTRY_MASK else fst (fatGet d s)) \<and>
    entry_of c (fs_disk (fatSet c v s) (fat_sector c s)) AND NOT FAT_ENTRY_MASK
      = entry_of c (fs_disk s (fat_sector c s)) AND NOT FAT_ENTRY_MASK"
proof -
  have "cache_ok X s" using assms(1) by (simp add: fat_ok_def)
  then have "d < fatEntryCount (fatSet c v s)" using assms(3) by simp
  then have "fst (fatGet d (fatSet c v s)) = fat (fatSet c v s) d" "fst (fatGet d s) = fat s d"
    using fatGet_ok [OF fatSet_ok(1) [OF assms(1,2)], of d v] fatGet_ok [OF assms(1,3)] by (metis fst_conv)+
  then show ?thesis using fatSet_ok(2,3) [OF assms(1,2)] assms(3) by simp
qed

theorem fat_entry_roundtrip_witness:
  "fst (fatGet 3 (fatSet 3 7 (demo_fs [0, 0, 0x0FFFFFFF, 5] (\<lambda>_. [])))) = 7"
proof -
  have "(3 :: u32) < fatEntryCount (demo_fs [0, 0, 0x0FFFFFFF, 5] (\<lambda>_. []))" by (simp add: demo_fs_def)
  from fat_entry_roundtrip [OF demo_fs_ok this this, of 7] show ?thesis by (simp add: FAT_ENTRY_MASK_def)
qed


text \<open>
  C27. The sector cache cannot be told from the drive: for a sector the drive accepts, reading
  gives what the drive holds and changes no sector; writing reaches the drive at once,
  changes that sector only, and the next read gives it back, whatever was cached or evicted
  on the way and even when no memory is left for the cache.
\<close>

theorem cache_transparent:
  assumes "cache_ok X s" "lba \<notin> X"
  shows "(case readSector lba s of (r, s1) \<Rightarrow> r = Some (fs_disk s lba) \<and> cache_ok X s1 \<and> same_fs X s s1) \<and>
    (case writeSector lba d s of (b, s2) \<Rightarrow> b \<and> cache_ok X s2 \<and> fst (readSector lba s2) = Some d \<and>
       (\<forall>l. l \<notin> X \<longrightarrow> fs_disk s2 l = (if l = lba then d else fs_disk s l)))"
proof -
  obtain s1 where r: "readSector lba s = (Some (fs_disk s lba), s1)" "cache_ok X s1" "same_fs X s s1"
    by (rule readSector_ok [OF assms(1), where lba = lba]) (use assms(2) in auto)
  obtain s2 where w: "writeSector lba d s = (True, s2)" "cache_ok X s2"
    "\<And>l. l \<notin> X \<Longrightarrow> fs_disk s2 l = (if l = lba then d else fs_disk s l)"
    by (rule writeSector_ok [OF assms(1), where lba = lba and d = d]) (use assms(2) in auto)
  obtain s3 where "readSector lba s2 = (Some (fs_disk s2 lba), s3)"
    by (rule readSector_ok [OF w(2), where lba = lba]) (use assms(2) in auto)
  then show ?thesis using r w assms(2) by simp
qed

theorem cache_transparent_witness:
  "fst (readSector 5 (snd (writeSector 5 (replicate 512 7) (demo_fs [] (\<lambda>_. []))))) = Some (replicate 512 7)"
proof -
  have "cache_ok {l. l \<ge> 64} (demo_fs [] (\<lambda>_. []))" using demo_fs_ok by (simp add: fat_ok_def)
  moreover have "(5 :: u32) \<notin> {l. l \<ge> 64}" by (simp add: word_le_nat_alt)
  ultimately show ?thesis
    using cache_transparent [of "{l. l \<ge> 64}" "demo_fs [] (\<lambda>_. [])" 5 "replicate 512 7"]
    by (cases "writeSector 5 (replicate 512 7) (demo_fs [] (\<lambda>_. []))") (simp add: case_prod_beta)
qed

end
