(* ===== verification/Fat_Names.thy ===== *)
theory Fat_Names
  imports Fat_Table
begin

text \<open>
  Directory entries and names: filesystem.cpp lines 231-369 and the parts of \<^verbatim>\<open>createEntry\<close>
  that decide on and build long-name entries (lines 622-664 and 739-768).  A directory entry
  is its 32 bytes, as both \<^verbatim>\<open>DirEntry\<close> and \<^verbatim>\<open>LfnEntry\<close> overlay them (types.hpp); a name is
  the bytes of a C string before its NUL.
\<close>

unbundle bit_operations_syntax

type_synonym dirent = "u8 list"

section \<open>Directory entries\<close>

definition ATTR_VolumeId :: u8 where "ATTR_VolumeId = 0x08"
definition ATTR_Directory :: u8 where "ATTR_Directory = 0x10"
definition ATTR_Archive :: u8 where "ATTR_Archive = 0x20"
definition ATTR_LfnMask :: u8 where "ATTR_LfnMask = 0x0F"
definition DIR_ENTRY_FREE :: u8 where "DIR_ENTRY_FREE = 0xE5"
definition DIR_ENTRY_END :: u8 where "DIR_ENTRY_END = 0"
definition LFN_LAST_ENTRY :: u8 where "LFN_LAST_ENTRY = 0x40"
definition LFN_CHARS_PER_ENTRY :: nat where "LFN_CHARS_PER_ENTRY = 13"
definition DIRENT_SIZE :: nat where "DIRENT_SIZE = 32"

definition de_attr :: "dirent \<Rightarrow> u8" where
  "de_attr e = e ! 11"

definition de_ntReserved :: "dirent \<Rightarrow> u8" where
  "de_ntReserved e = e ! 12"

definition de_firstCluster :: "dirent \<Rightarrow> u32" where
  "de_firstCluster e = push_bit 16 (ucast (le16 (buf_get e 20 2))) OR ucast (le16 (buf_get e 26 2))"

definition de_fileSize :: "dirent \<Rightarrow> u32" where
  "de_fileSize e = le32 (buf_get e 28 4)"

definition set_firstCluster :: "u32 \<Rightarrow> dirent \<Rightarrow> dirent" where
  "set_firstCluster c e = buf_put (buf_put e 20 (bytes16 (ucast (drop_bit 16 c)))) 26 (bytes16 (ucast c))"

definition set_fileSize :: "u32 \<Rightarrow> dirent \<Rightarrow> dirent" where
  "set_fileSize n e = buf_put e 28 (bytes32 n)"

text \<open>The thirteen characters of a long-name entry: \<^verbatim>\<open>name1\<close>, \<^verbatim>\<open>name2\<close> and \<^verbatim>\<open>name3\<close>.\<close>

definition lfn_chars :: "dirent \<Rightarrow> u16 list" where
  "lfn_chars e = map (\<lambda>k. le16 (buf_get e k 2)) [1, 3, 5, 7, 9, 14, 16, 18, 20, 22, 24, 28, 30]"

definition isLfnEntry :: "dirent \<Rightarrow> bool" where
  "isLfnEntry e \<longleftrightarrow> de_attr e = ATTR_LfnMask"

section \<open>Names\<close>

definition lfnChecksum :: "u8 list \<Rightarrow> u8" where
  "lfnChecksum shortName = foldl (\<lambda>sum b. (if sum AND 1 \<noteq> 0 then 0x80 else 0) + drop_bit 1 sum + b) 0 (take 11 shortName)"

definition is_lower :: "u8 \<Rightarrow> bool" where
  "is_lower c \<longleftrightarrow> 97 \<le> c \<and> c \<le> 122"

definition to_upper :: "u8 \<Rightarrow> u8" where
  "to_upper c = (if is_lower c then c - 32 else c)"

definition last_dot :: "u8 list \<Rightarrow> nat option" where
  "last_dot name = fold (\<lambda>i r. if name ! i = 46 then Some i else r) [0..<length name] None"

fun short_base :: "u8 list \<Rightarrow> u8 list \<Rightarrow> u8 list" where
  "short_base [] out = out"
| "short_base (c # cs) out =
     (if length out < 8
      then (if c = 32 \<or> c = 46 then short_base cs out else short_base cs (out @ [to_upper c]))
      else out)"

definition nameToShort :: "u8 list \<Rightarrow> u8 list" where
  "nameToShort name =
     (let nameLen = length name;
          lastDot = last_dot name;
          baseLen = (case lastDot of Some d \<Rightarrow> d | None \<Rightarrow> nameLen);
          out = short_base (take baseLen name) [];
          shortName = buf_put (replicate 11 32) 0 out;
          shortName = (if baseLen > 8 \<or> lastDot \<noteq> None
            then (let j = (if length out > 6 then 6 else length out)
                  in shortName[j := 126, j + 1 := 49 + of_nat (nameLen mod 9)])
            else shortName)
      in case lastDot of
           None \<Rightarrow> shortName
         | Some d \<Rightarrow> buf_put shortName 8 (map to_upper (take 3 (drop (Suc d) name))))"

text \<open>One group of characters; the flag says that the end of the name was met.\<close>

fun lfn_copy :: "u16 list \<Rightarrow> nat \<Rightarrow> u8 list \<Rightarrow> bool \<times> u8 list" where
  "lfn_copy [] nameMax out = (False, out)"
| "lfn_copy (c # cs) nameMax out =
     (if length out < nameMax - 1
      then (if c = 0 \<or> c = 0xFFFF then (True, out) else lfn_copy cs nameMax (out @ [ucast (c AND 0xFF)]))
      else (False, out))"

fun lfn_loop :: "dirent list \<Rightarrow> nat \<Rightarrow> u8 list \<Rightarrow> u8 list" where
  "lfn_loop [] nameMax out = out"
| "lfn_loop (e # es) nameMax out =
     (case lfn_copy (lfn_chars e) nameMax out of
        (True, out) \<Rightarrow> out
      | (False, out) \<Rightarrow> lfn_loop es nameMax out)"

definition extractLfn :: "dirent list \<Rightarrow> nat \<Rightarrow> nat \<Rightarrow> nat \<Rightarrow> u8 list" where
  "extractLfn entries lfnStart shortIdx nameMax = lfn_loop (map ((!) entries) (rev [lfnStart..<shortIdx])) nameMax []"

definition toLower :: "u8 \<Rightarrow> u8" where
  "toLower c = (if 65 \<le> c \<and> c \<le> 90 then c + 32 else c)"

fun short_copy :: "bool \<Rightarrow> u8 list \<Rightarrow> nat \<Rightarrow> u8 list \<Rightarrow> u8 list" where
  "short_copy low [] outMax out = out"
| "short_copy low (c # cs) outMax out =
     (if length out < outMax - 1
      then (if c = 32 then out else short_copy low cs outMax (out @ [if low then toLower c else c]))
      else out)"

definition shortNameToString :: "u8 list \<Rightarrow> u8 \<Rightarrow> nat \<Rightarrow> u8 list" where
  "shortNameToString shortName ntRes outMax =
     (let baseLower = (ntRes AND 0x08 \<noteq> 0);
          extLower = (ntRes AND 0x10 \<noteq> 0);
          out = short_copy baseLower (take 8 shortName) outMax []
      in if shortName ! 8 \<noteq> 32
         then short_copy extLower (take 3 (drop 8 shortName)) outMax (out @ [46])
         else out)"

fun nameEquals :: "u8 list \<Rightarrow> u8 list \<Rightarrow> bool" where
  "nameEquals [] [] = True"
| "nameEquals (a # as) (b # bs) = (a = b \<and> nameEquals as bs)"
| "nameEquals _ _ = False"

text \<open>The bytes of a buffer up to its NUL.\<close>

definition cstr :: "u8 list \<Rightarrow> u8 list" where
  "cstr b = takeWhile (\<lambda>c. c \<noteq> 0) b"

section \<open>Long-name entries of a new name\<close>

text \<open>The scan of a candidate 8.3 name: \<open>None\<close> if it needs a long name, else its dot.\<close>

fun scan_83 :: "u8 list \<Rightarrow> nat \<Rightarrow> nat option \<Rightarrow> nat option option" where
  "scan_83 [] i dot = Some dot"
| "scan_83 (c # cs) i dot =
     (if c = 46 then (if dot \<noteq> None then None else scan_83 cs (Suc i) (Some i))
      else if is_lower c then None
      else if c = 32 then None
      else scan_83 cs (Suc i) dot)"

definition needsLfn :: "u8 list \<Rightarrow> bool" where
  "needsLfn name =
     (if length name > 12 then True
      else (case scan_83 name 0 None of
              None \<Rightarrow> True
            | Some dot \<Rightarrow>
                (let baseLen = (case dot of Some d \<Rightarrow> d | None \<Rightarrow> length name);
                     extLen = (case dot of Some d \<Rightarrow> length name - d - 1 | None \<Rightarrow> 0)
                 in baseLen > 8 \<or> extLen > 3)))"

definition lfn_count :: "u8 list \<Rightarrow> nat" where
  "lfn_count name = (length name + LFN_CHARS_PER_ENTRY - 1) div LFN_CHARS_PER_ENTRY"

text \<open>A \<^verbatim>\<open>char\<close> is signed: bytes from 128 on are extended with ones.\<close>

definition lfn_char :: "u8 list \<Rightarrow> nat \<Rightarrow> u16" where
  "lfn_char name pos = (if pos < length name then scast (name ! pos) else if pos = length name then 0 else 0xFFFF)"

definition lfn_entry :: "u8 list \<Rightarrow> nat \<Rightarrow> u8 \<Rightarrow> nat \<Rightarrow> dirent" where
  "lfn_entry name lfnCount checksum seq =
     (let order = (if seq = lfnCount then of_nat seq OR LFN_LAST_ENTRY else of_nat seq);
          charBase = (seq - 1) * LFN_CHARS_PER_ENTRY;
          ch = (\<lambda>i. bytes16 (lfn_char name (charBase + i)))
      in [order] @ ch 0 @ ch 1 @ ch 2 @ ch 3 @ ch 4 @ [ATTR_LfnMask, 0, checksum]
         @ ch 5 @ ch 6 @ ch 7 @ ch 8 @ ch 9 @ ch 10 @ bytes16 0 @ ch 11 @ ch 12)"


section \<open>Reading back a long name\<close>

lemma le16_bytes16 [simp]: "le16 (bytes16 v) = v"
  unfolding le16_def bytes16_def by (rule bit_word_eqI) (auto simp: bit_simps dest: bit_imp_le_length)

lemma length_bytes16 [simp]: "length (bytes16 v) = 2"
  by (simp add: bytes16_def)

lemma nameEquals_eq: "nameEquals a b \<longleftrightarrow> a = b"
  by (induction a b rule: nameEquals.induct) auto

lemma length_lfn_entry: "length (lfn_entry name n ck seq) = DIRENT_SIZE"
  by (simp add: lfn_entry_def Let_def DIRENT_SIZE_def)

lemma lfn_entry_is_lfn: "isLfnEntry (lfn_entry name n ck seq)"
  by (simp add: isLfnEntry_def de_attr_def lfn_entry_def Let_def bytes16_def)

lemma lfn_chars_entry:
  "lfn_chars (lfn_entry name n ck seq) = map (lfn_char name) [(seq - 1) * 13..<(seq - 1) * 13 + 13]"
proof -
  have u: "[k..<k + 13] = map ((+) k) [0, 1, 2, 3, 4, 5, 6, 7, 8, 9, 10, 11, 12]" for k :: nat
    by (simp add: upt_rec numeral_eq_Suc)
  show ?thesis
    unfolding u lfn_chars_def lfn_entry_def Let_def LFN_CHARS_PER_ENTRY_def
    by (simp add: buf_get_def drop_all)
qed


lemma sext_char_low: "(ucast ((scast (c :: u8) :: u16) AND 0xFF) :: u8) = c"
proof (rule bit_word_eqI)
  fix n
  assume n: "n < LENGTH(8)"
  moreover have "(0xFF :: u16) = mask 8" by (simp add: mask_eq_exp_minus_1)
  ultimately have "bit (0xFF :: u16) n" by (simp only: bit_mask_iff) simp
  then show "bit (ucast ((scast c :: u16) AND 0xFF) :: u8) n = bit c n" using n by (simp add: bit_simps)
qed

lemma sext_char_inj: "(scast (c :: u8) :: u16) = scast (d :: u8) \<longleftrightarrow> c = d"
  by (metis sext_char_low)

lemma sext_char: "(scast (c :: u8) :: u16) = 0 \<longleftrightarrow> c = 0" "(scast (c :: u8) :: u16) = 0xFFFF \<longleftrightarrow> c = 0xFF"
proof -
  have "(65535 :: u16) = - 1" by simp
  then show "(scast (c :: u8) :: u16) = 0 \<longleftrightarrow> c = 0" "(scast (c :: u8) :: u16) = 0xFFFF \<longleftrightarrow> c = 0xFF"
    using sext_char_inj [of c 0] sext_char_inj [of c "0xFF"] by (simp_all only:) simp_all
qed

text \<open>Names the encoding can carry: at most 255 bytes, none of them 0 or 255.\<close>

definition lfn_ok :: "u8 list \<Rightarrow> bool" where
  "lfn_ok name \<longleftrightarrow> name \<noteq> [] \<and> length name < MAX_NAME \<and> 0 \<notin> set name \<and> 0xFF \<notin> set name"

lemma lfn_copy_step:
  assumes "lfn_ok name"
  shows "p \<le> length name \<Longrightarrow> \<exists>b. lfn_copy (map (lfn_char name) [p..<p + k]) MAX_NAME (take p name) = (b, take (p + k) name) \<and>
    (b \<longrightarrow> length name < p + k)"
proof (induction k arbitrary: p)
  case (Suc k)
  have u: "[p..<p + Suc k] = p # [Suc p..<Suc p + k]" by (simp add: upt_conv_Cons)
  show ?case
  proof (cases "p = length name")
    case True
    have "lfn_char name p = 0" using True by (simp add: lfn_char_def)
    then show ?thesis unfolding u using True by simp blast
  next
    case False
    then have p: "p < length name" using Suc.prems by simp
    have mem: "name ! p \<in> set name" using p by simp
    moreover have "0 \<notin> set name" "0xFF \<notin> set name" using assms by (simp_all add: lfn_ok_def)
    ultimately have c: "lfn_char name p = scast (name ! p)" "name ! p \<noteq> 0" "name ! p \<noteq> 0xFF"
      using p by (simp add: lfn_char_def, metis+)
    have "length (take p name) < MAX_NAME - 1" using p assms by (simp add: lfn_ok_def MAX_NAME_def)
    moreover have "take p name @ [name ! p] = take (Suc p) name" using p by (simp add: take_Suc_conv_app_nth)
    ultimately show ?thesis
      unfolding u using Suc.IH [of "Suc p"] p c by (simp add: sext_char sext_char_low)
  qed
qed (simp, blast)

lemma lfn_loop_step:
  assumes ok: "lfn_ok name" and n: "length name \<le> n * 13" "(n - 1) * 13 < length name"
  shows "m \<le> n \<Longrightarrow> lfn_loop (map (lfn_entry name N ck) [Suc m..<Suc n]) MAX_NAME (take (m * 13) name) = name"
proof (induction "n - m" arbitrary: m)
  case 0
  then have "m = n" by simp
  then show ?case using n by simp
next
  case (Suc d)
  then have lt: "m < n" by simp
  then have "m * 13 \<le> (n - 1) * 13" by simp
  then have ml: "m * 13 \<le> length name" using n(2) by simp
  have u: "[Suc m..<Suc n] = Suc m # [Suc (Suc m)..<Suc n]" using lt by (simp add: upt_conv_Cons)
  obtain b where b: "lfn_copy (lfn_chars (lfn_entry name N ck (Suc m))) MAX_NAME (take (m * 13) name) = (b, take (m * 13 + 13) name)"
    "b \<longrightarrow> length name < m * 13 + 13"
    using lfn_copy_step [OF ok ml, of 13] by (auto simp: lfn_chars_entry)
  show ?case
  proof (cases b)
    case True
    then show ?thesis unfolding u using b by simp
  next
    case False
    have "lfn_loop (map (lfn_entry name N ck) [Suc (Suc m)..<Suc n]) MAX_NAME (take (Suc m * 13) name) = name"
      using Suc.hyps(1) [of "Suc m"] Suc.hyps(2) lt by auto
    then show ?thesis unfolding u using b False by (simp add: add.commute)
  qed
qed

lemma lfn_count_bounds:
  assumes "lfn_ok name"
  shows "length name \<le> lfn_count name * 13" "(lfn_count name - 1) * 13 < length name" "0 < lfn_count name" "lfn_count name \<le> 20"
proof -
  let ?q = "(length name + 12) div 13"
  have c: "lfn_count name = ?q" by (simp add: lfn_count_def LFN_CHARS_PER_ENTRY_def)
  have n: "0 < length name" "length name < 256" using assms by (simp_all add: lfn_ok_def MAX_NAME_def)
  have "?q * 13 + (length name + 12) mod 13 = length name + 12" "(length name + 12) mod 13 < 13" by simp_all
  then show "length name \<le> lfn_count name * 13" "(lfn_count name - 1) * 13 < length name" "0 < lfn_count name" "lfn_count name \<le> 20"
    using n unfolding c by linarith+
qed

definition lfn_entries :: "u8 list \<Rightarrow> u8 \<Rightarrow> dirent list" where
  "lfn_entries name ck = map (lfn_entry name (lfn_count name) ck) (rev [1..<Suc (lfn_count name)])"

lemma length_lfn_entries [simp]: "length (lfn_entries name ck) = lfn_count name"
  by (simp add: lfn_entries_def)

lemma extract_lfn_entries:
  assumes "lfn_ok name"
  shows "extractLfn (lfn_entries name ck @ es) 0 (lfn_count name) MAX_NAME = name"
proof -
  let ?n = "lfn_count name"
  have "map ((!) (lfn_entries name ck @ es)) [0..<?n] = lfn_entries name ck"
    by (rule nth_equalityI) (simp_all add: nth_append)
  then have "map ((!) (lfn_entries name ck @ es)) (rev [0..<?n]) = map (lfn_entry name ?n ck) [Suc 0..<Suc ?n]"
    by (simp only: rev_map [symmetric] lfn_entries_def rev_rev_ident One_nat_def)
  then show ?thesis
    using lfn_loop_step [OF assms lfn_count_bounds(1,2) [OF assms], of 0 ?n ck]
    unfolding extractLfn_def by simp
qed

lemma lfn_entry_first:
  assumes "0 < seq" "seq \<le> 20"
  shows "lfn_entry name n ck seq ! 0 \<noteq> DIR_ENTRY_END" "lfn_entry name n ck seq ! 0 \<noteq> DIR_ENTRY_FREE"
proof -
  have "\<forall>k \<in> set [1..<21]. of_nat k OR (0x40 :: u8) \<noteq> 0 \<and> of_nat k OR (0x40 :: u8) \<noteq> 0xE5 \<and>
      (of_nat k :: u8) \<noteq> 0 \<and> (of_nat k :: u8) \<noteq> 0xE5"
    by (simp add: upt_rec)
  moreover have "seq \<in> set [1..<21]" using assms by auto
  ultimately show "lfn_entry name n ck seq ! 0 \<noteq> DIR_ENTRY_END" "lfn_entry name n ck seq ! 0 \<noteq> DIR_ENTRY_FREE"
    by (auto simp: lfn_entry_def Let_def DIR_ENTRY_END_def DIR_ENTRY_FREE_def LFN_LAST_ENTRY_def)
qed

section \<open>Short names\<close>

lemma fold_last: "(\<And>i. i \<in> set xs \<Longrightarrow> \<not> P i) \<Longrightarrow> fold (\<lambda>i r. if P i then Some i else r) xs r = r"
  by (induction xs arbitrary: r) auto

lemma last_dot_None: "46 \<notin> set name \<Longrightarrow> last_dot name = None"
  unfolding last_dot_def by (rule fold_last) (metis atLeastLessThan_iff nth_mem set_upt)

lemma short_base_plain:
  "\<forall>c \<in> set cs. c \<noteq> 32 \<and> c \<noteq> 46 \<and> \<not> is_lower c \<Longrightarrow> length out + length cs \<le> 8 \<Longrightarrow> short_base cs out = out @ cs"
  by (induction cs arbitrary: out) (auto simp: to_upper_def)

lemma short_copy_plain:
  "\<forall>c \<in> set cs. c \<noteq> 32 \<Longrightarrow> length out + length cs < outMax \<Longrightarrow>
    short_copy False (cs @ replicate k 32) outMax out = out @ cs"
proof (induction cs arbitrary: out)
  case Nil
  then show ?case by (cases k) auto
qed auto

lemma scan_83_plain:
  "scan_83 name i dot = Some dot' \<Longrightarrow> 46 \<notin> set name \<Longrightarrow> dot' = dot \<and> (\<forall>c \<in> set name. c \<noteq> 32 \<and> \<not> is_lower c)"
proof (induction name arbitrary: i dot)
  case (Cons c cs)
  then have "scan_83 cs (Suc i) dot = Some dot'" "46 \<notin> set cs" "c \<noteq> 32" "\<not> is_lower c" by (auto split: if_splits)
  then show ?case using Cons.IH by simp
qed simp

lemma plain_short_name:
  assumes "\<not> needsLfn name" "46 \<notin> set name"
  shows "shortNameToString (nameToShort name) 0 MAX_NAME = name"
proof -
  obtain dot where dot: "scan_83 name 0 None = Some dot" and len: "length name \<le> 12"
    using assms(1) by (auto simp: needsLfn_def split: if_splits option.splits)
  have pl: "\<forall>c \<in> set name. c \<noteq> 32 \<and> \<not> is_lower c" and "dot = None" using scan_83_plain [OF dot assms(2)] by auto
  then have l8: "length name \<le> 8" using assms(1) dot len by (simp add: needsLfn_def)
  have "short_base name [] = name" using pl assms(2) l8 by (subst short_base_plain) auto
  then have s: "nameToShort name = name @ replicate (11 - length name) 32"
    using last_dot_None [OF assms(2)] l8 by (simp add: nameToShort_def Let_def buf_put_def)
  have "take 8 (nameToShort name) = name @ replicate (8 - length name) 32" using l8 by (simp add: s)
  moreover have "nameToShort name ! 8 = 32" using l8 by (simp add: s nth_append)
  ultimately show ?thesis using pl l8 by (simp add: shortNameToString_def Let_def short_copy_plain MAX_NAME_def)
qed

text \<open>The name a new entry shows in a listing.\<close>

definition stored_name :: "u8 list \<Rightarrow> u8 list" where
  "stored_name name =
     (if needsLfn name
      then extractLfn (lfn_entries name (lfnChecksum (nameToShort name)) @ [replicate 32 0]) 0 (lfn_count name) MAX_NAME
      else shortNameToString (nameToShort name) 0 MAX_NAME)"



text \<open>
  The remaining case fails: a name that fits 8.3 and has a dot gets no long-name entries but a
  short name with a tilde, so a file created as \<^verbatim>\<open>README.TXT\<close> is listed as \<^verbatim>\<open>README~2.TXT\<close>.
\<close>

lemma short_name_with_dot_lost:
  "stored_name [82, 69, 65, 68, 77, 69, 46, 84, 88, 84] = [82, 69, 65, 68, 77, 69, 126, 50, 46, 84, 88, 84]"
  by code_simp

end
