(* ===== verification/Fat_Dir.thy ===== *)
theory Fat_Dir
  imports Fat_Names
begin

text \<open>
  Directories: filesystem.cpp lines 371-924.  Directory entries are found, made and removed
  in the clusters of a directory.  An operation gives \<open>None\<close> when it does not return (a
  circular chain without an end mark) or when the code's behaviour is undefined: a 21st entry
  copied into \<^verbatim>\<open>lfnBuf\<close>, a read of an entry that was never written.  Otherwise it gives its
  result, itself \<open>None\<close> where the code returns false, and the new state.  \<^verbatim>\<open>heap::free\<close> has no
  effect here, the answers of \<^verbatim>\<open>heap::alloc\<close> being given.
\<close>

unbundle bit_operations_syntax

definition entry_at :: "u8 list \<Rightarrow> nat \<Rightarrow> dirent" where
  "entry_at buf i = buf_get buf (i * DIRENT_SIZE) DIRENT_SIZE"

definition entriesPerCluster :: "fs \<Rightarrow> nat" where
  "entriesPerCluster s = unat (bytesPerCluster s div 32)"

definition MAX_LFN_ENTRIES :: nat where "MAX_LFN_ENTRIES = 20"

section \<open>Reading\<close>

datatype scan_result =
    ScanEnd
  | ScanFound nat "dirent list"
  | ScanNext "dirent list" u32

fun scan_entries :: "u32 \<Rightarrow> u8 list \<Rightarrow> nat list \<Rightarrow> dirent list \<Rightarrow> u32 \<Rightarrow> scan_result" where
  "scan_entries index buf [] lfnBuf visibleIdx = ScanNext lfnBuf visibleIdx"
| "scan_entries index buf (i # is) lfnBuf visibleIdx =
     (let e = entry_at buf i in
      if e ! 0 = DIR_ENTRY_END then ScanEnd
      else if e ! 0 = DIR_ENTRY_FREE then scan_entries index buf is [] visibleIdx
      else if isLfnEntry e
      then scan_entries index buf is (if length lfnBuf < MAX_LFN_ENTRIES then lfnBuf @ [e] else lfnBuf) visibleIdx
      else if de_attr e AND ATTR_VolumeId \<noteq> 0 then scan_entries index buf is [] visibleIdx
      else if e ! 0 = 46 \<and> (e ! 1 = 32 \<or> e ! 1 = 46) then scan_entries index buf is [] visibleIdx
      else if visibleIdx = index then ScanFound i lfnBuf
      else scan_entries index buf is [] (visibleIdx + 1))"

definition entry_name :: "dirent list \<Rightarrow> dirent \<Rightarrow> nat \<Rightarrow> u8 list" where
  "entry_name lfnBuf e nameMax =
     (if length lfnBuf > 0 then extractLfn (lfnBuf @ [e]) 0 (length lfnBuf) nameMax
      else shortNameToString (take 11 e) (de_ntReserved e) nameMax)"

partial_function (option) read_dir_loop ::
  "u32 \<Rightarrow> nat \<Rightarrow> u32 \<Rightarrow> u8 list \<Rightarrow> dirent list \<Rightarrow> u32 \<Rightarrow> fs \<Rightarrow> ((u8 list \<times> dirent \<times> u32 \<times> u32) option \<times> fs) option" where
  "read_dir_loop index nameMax cluster buf lfnBuf visibleIdx s =
     (if 2 \<le> cluster \<and> cluster < FAT_EOC
      then (case readCluster cluster buf s of (ok, buf, s) \<Rightarrow>
              (if \<not> ok then Some (None, s)
               else (case scan_entries index buf [0..<entriesPerCluster s] lfnBuf visibleIdx of
                       ScanEnd \<Rightarrow> Some (None, s)
                     | ScanFound i lfnBuf \<Rightarrow>
                         (if length lfnBuf \<ge> MAX_LFN_ENTRIES then None
                          else Some (Some (entry_name lfnBuf (entry_at buf i) nameMax, entry_at buf i, cluster,
                                           of_nat (i * DIRENT_SIZE)), s))
                     | ScanNext lfnBuf visibleIdx \<Rightarrow>
                         (case fatGet cluster s of (cluster, s) \<Rightarrow>
                            read_dir_loop index nameMax cluster buf lfnBuf visibleIdx s))))
      else Some (None, s))"

definition readDirEntry :: "u32 \<Rightarrow> u32 \<Rightarrow> nat \<Rightarrow> fs \<Rightarrow> ((u8 list \<times> dirent \<times> u32 \<times> u32) option \<times> fs) option" where
  "readDirEntry dirCluster index nameMax s =
     (case heap_alloc (unat (bytesPerCluster s)) s of
        (None, s) \<Rightarrow> Some (None, s)
      | (Some buf, s) \<Rightarrow> read_dir_loop index nameMax dirCluster buf [] 0 s)"

partial_function (option) find_loop :: "u32 \<Rightarrow> u8 list \<Rightarrow> u32 \<Rightarrow> fs \<Rightarrow> ((dirent \<times> u32 \<times> u32) option \<times> fs) option" where
  "find_loop dirCluster name i s =
     do { (r, s) \<leftarrow> readDirEntry dirCluster i MAX_NAME s;
          (case r of
             None \<Rightarrow> Some (None, s)
           | Some (entryName, entry, ec, eo) \<Rightarrow>
               (if nameEquals (cstr entryName) name then Some (Some (entry, ec, eo), s)
                else find_loop dirCluster name (i + 1) s)) }"

definition findEntry :: "u32 \<Rightarrow> u8 list \<Rightarrow> fs \<Rightarrow> ((dirent \<times> u32 \<times> u32) option \<times> fs) option" where
  "findEntry dirCluster name s = find_loop dirCluster name 0 s"

section \<open>Paths\<close>

text \<open>The entry made up for the root and for parent directories.\<close>

definition synthetic_dir :: "u32 \<Rightarrow> dirent" where
  "synthetic_dir c = set_firstCluster c ((replicate DIRENT_SIZE 0)[11 := ATTR_Directory])"

definition component :: "u8 list \<Rightarrow> u8 list" where
  "component path = takeWhile (\<lambda>c. c \<noteq> 47) (take (MAX_NAME - 1) path)"

definition after_component :: "u8 list \<Rightarrow> u8 list" where
  "after_component path = (let rest = drop (length (component path)) path in
     case rest of c # cs \<Rightarrow> (if c = 47 then cs else rest) | [] \<Rightarrow> [])"

text \<open>
  The outputs: the cluster, the entry if one was stored, and its cluster and offset if those
  were stored.
\<close>

type_synonym resolved = "u32 \<times> dirent option \<times> (u32 \<times> u32) option"

partial_function (option) resolve_loop ::
  "u8 list \<Rightarrow> u32 \<Rightarrow> dirent option \<Rightarrow> (u32 \<times> u32) option \<Rightarrow> fs \<Rightarrow> (resolved option \<times> fs) option" where
  "resolve_loop path cluster entry loc s =
     (if path = [] then Some (Some (cluster, entry, loc), s)
      else (let comp = component path; rest = after_component path in
        if comp = [] then resolve_loop rest cluster entry loc s
        else if comp = [46] then resolve_loop rest cluster entry loc s
        else if comp = [46, 46]
        then (if cluster = rootCluster s then resolve_loop rest cluster entry loc s
              else (case readSector (clusterToLba cluster s) s of
                      (None, s) \<Rightarrow> Some (None, s)
                    | (Some buf, s) \<Rightarrow>
                        (let parentCluster = de_firstCluster (entry_at buf 1);
                             cluster = (if parentCluster = 0 then rootCluster s else parentCluster)
                         in resolve_loop rest cluster (Some (synthetic_dir cluster)) (Some (0, 0)) s)))
        else do { (r, s) \<leftarrow> findEntry cluster comp s;
                  (case r of
                     None \<Rightarrow> Some (None, s)
                   | Some (e, ec, eo) \<Rightarrow> resolve_loop rest (de_firstCluster e) (Some e) (Some (ec, eo)) s) }))"

definition resolvePath :: "u8 list option \<Rightarrow> fs \<Rightarrow> (resolved option \<times> fs) option" where
  "resolvePath path s =
     (case path of
        None \<Rightarrow> Some (None, s)
      | Some p \<Rightarrow>
         (if p = [] then Some (None, s)
          else if p = [47] then Some (Some (rootCluster s, Some (synthetic_dir (rootCluster s)), None), s)
          else resolve_loop (if hd p = 47 then tl p else p) (rootCluster s) None None s))"

definition last_slash :: "u8 list \<Rightarrow> nat option" where
  "last_slash path = fold (\<lambda>i r. if path ! i = 47 then Some i else r) [0..<length path] None"

definition resolveParentPath :: "u8 list option \<Rightarrow> nat \<Rightarrow> fs \<Rightarrow> ((u32 \<times> u8 list) option \<times> fs) option" where
  "resolveParentPath path nameMax s =
     do { p \<leftarrow> path;
          (case last_slash p of
             None \<Rightarrow> Some (None, s)
           | Some lastSlash \<Rightarrow>
              (let name = take (nameMax - 1) (drop (lastSlash + 1) p) in
               if lastSlash = 0 then Some (Some (rootCluster s, name), s)
               else do { (r, s) \<leftarrow> resolvePath (Some (take (min (MAX_PATH - 1) lastSlash) p)) s;
                         (case r of
                            None \<Rightarrow> Some (None, s)
                          | Some (parentCluster, entry, loc) \<Rightarrow>
                              do { parentEntry \<leftarrow> entry;
                                   Some ((if de_attr parentEntry AND ATTR_Directory = 0 then None
                                          else Some (parentCluster, name)), s) }) })) }"


section \<open>Making an entry\<close>

text \<open>The search for a run of free slots: whether it is long enough, its length and its start.\<close>

fun scan_free :: "nat \<Rightarrow> u32 \<Rightarrow> u8 list \<Rightarrow> nat list \<Rightarrow> nat \<times> u32 \<times> nat \<Rightarrow> bool \<times> nat \<times> u32 \<times> nat" where
  "scan_free needed cluster buf [] (freeRun, sc, si) = (False, freeRun, sc, si)"
| "scan_free needed cluster buf (i # is) (freeRun, sc, si) =
     (let b = entry_at buf i ! 0 in
      if b = DIR_ENTRY_END \<or> b = DIR_ENTRY_FREE
      then (let (sc, si) = (if freeRun = 0 then (cluster, i) else (sc, si)); freeRun = freeRun + 1 in
            if freeRun \<ge> needed then (True, freeRun, sc, si) else scan_free needed cluster buf is (freeRun, sc, si))
      else scan_free needed cluster buf is (0, sc, si))"

text \<open>A directory that is full gets a further cluster, zeroed and linked to its last one.\<close>

definition extend_dir :: "u32 \<Rightarrow> u8 list \<Rightarrow> fs \<Rightarrow> u32 option \<times> u8 list \<times> fs" where
  "extend_dir cluster buf s =
     (case allocateCluster s of (newCluster, s) \<Rightarrow>
        (if newCluster = 0 then (None, buf, s)
         else (let s = fatSet cluster newCluster s;
                   s = fatSet newCluster FAT_EOC s;
                   s = flushFat s;
                   buf = replicate (unat (bytesPerCluster s)) 0;
                   s = snd (writeCluster newCluster buf s)
               in (Some newCluster, buf, s))))"

partial_function (option) find_free ::
  "nat \<Rightarrow> u32 \<Rightarrow> u8 list \<Rightarrow> nat \<times> u32 \<times> nat \<Rightarrow> fs \<Rightarrow> ((u32 \<times> nat) option \<times> u8 list \<times> fs) option" where
  "find_free needed cluster buf run s =
     (if 2 \<le> cluster \<and> cluster < FAT_EOC
      then (case readCluster cluster buf s of (ok, buf, s) \<Rightarrow>
              (if \<not> ok then Some (None, buf, s)
               else (case scan_free needed cluster buf [0..<entriesPerCluster s] run of (found, run) \<Rightarrow>
                  (if found then Some (Some (snd run), buf, s)
                   else (case fatGet cluster s of (nextCluster, s) \<Rightarrow>
                           (if nextCluster \<ge> FAT_EOC
                            then (case extend_dir cluster buf s of
                                    (None, buf, s) \<Rightarrow> Some (None, buf, s)
                                  | (Some c, buf, s) \<Rightarrow> find_free needed c buf run s)
                            else find_free needed nextCluster buf run s))))))
      else Some (None, buf, s))"

text \<open>The long-name entries, into the next cluster of the directory when one is full.\<close>

fun write_lfn ::
  "u8 list \<Rightarrow> nat \<Rightarrow> u8 \<Rightarrow> nat list \<Rightarrow> nat \<Rightarrow> u32 \<Rightarrow> u8 list \<Rightarrow> fs \<Rightarrow> bool \<times> nat \<times> u32 \<times> u8 list \<times> fs" where
  "write_lfn name lfnCount checksum [] writeIdx wc buf s = (True, writeIdx, wc, buf, s)"
| "write_lfn name lfnCount checksum (seq # seqs) writeIdx wc buf s =
     (let buf = buf_put buf (writeIdx * DIRENT_SIZE) (lfn_entry name lfnCount checksum seq); writeIdx = writeIdx + 1 in
      if writeIdx \<ge> entriesPerCluster s
      then (let s = snd (writeCluster wc buf s) in
            case fatGet wc s of (wc, s) \<Rightarrow>
            case readCluster wc buf s of (ok, buf, s) \<Rightarrow>
              (if \<not> ok then (False, writeIdx, wc, buf, s)
               else write_lfn name lfnCount checksum seqs 0 wc buf s))
      else write_lfn name lfnCount checksum seqs writeIdx wc buf s)"

definition short_entry :: "u8 list \<Rightarrow> u8 \<Rightarrow> dirent" where
  "short_entry shortName attr = (buf_put (replicate DIRENT_SIZE 0) 0 (take 11 shortName))[11 := attr]"

definition dot_entry :: "u8 list \<Rightarrow> u32 \<Rightarrow> dirent" where
  "dot_entry dots c = set_firstCluster c (short_entry (buf_put (replicate 11 32) 0 dots) ATTR_Directory)"

text \<open>The cluster of a new directory with its two dot entries.\<close>

definition make_dir :: "u32 \<Rightarrow> fs \<Rightarrow> u32 option \<times> fs" where
  "make_dir dirCluster s =
     (case allocateCluster s of (contentCluster, s) \<Rightarrow>
        (if contentCluster = 0 then (None, s)
         else (case heap_alloc (unat (bytesPerCluster s)) s of
                 (None, s) \<Rightarrow> (None, s)
               | (Some dirBuf, s) \<Rightarrow>
                  (let dirBuf = replicate (unat (bytesPerCluster s)) 0;
                       dirBuf = buf_put dirBuf 0 (dot_entry [46] contentCluster);
                       parentCluster = (if dirCluster = rootCluster s then 0 else dirCluster);
                       dirBuf = buf_put dirBuf DIRENT_SIZE (dot_entry [46, 46] parentCluster);
                       s = snd (writeCluster contentCluster dirBuf s);
                       s = flushFat s
                   in (Some contentCluster, s)))))"

definition createEntry :: "u32 \<Rightarrow> u8 list \<Rightarrow> u8 \<Rightarrow> fs \<Rightarrow> ((u32 \<times> u32) option \<times> fs) option" where
  "createEntry dirCluster name attr s =
     (let shortName = nameToShort name;
          checksum = lfnChecksum shortName;
          lfnCount = lfn_count name;
          totalEntries = (if needsLfn name then lfnCount else 0) + 1 in
      case heap_alloc (unat (bytesPerCluster s)) s of
        (None, s) \<Rightarrow> Some (None, s)
      | (Some buf, s) \<Rightarrow>
         do { (found, buf, s) \<leftarrow> find_free totalEntries dirCluster buf (0, 0, 0) s;
              (case found of
                 None \<Rightarrow> Some (None, s)
               | Some (freeStartCluster, freeStartIdx) \<Rightarrow>
                  (case readCluster freeStartCluster buf s of (ok, buf, s) \<Rightarrow>
                    (if \<not> ok then Some (None, s)
                     else
                      (case write_lfn name lfnCount checksum (if needsLfn name then rev [1..<Suc lfnCount] else [])
                              freeStartIdx freeStartCluster buf s of (ok, writeIdx, wc, buf, s) \<Rightarrow>
                        (if \<not> ok then Some (None, s)
                         else
                          (let e = short_entry shortName attr in
                           case (if attr AND ATTR_Directory \<noteq> 0
                                 then (case make_dir dirCluster s of
                                         (None, s) \<Rightarrow> (None, s)
                                       | (Some c, s) \<Rightarrow> (Some (set_firstCluster c e), s))
                                 else (Some e, s)) of
                             (None, s) \<Rightarrow> Some (None, s)
                           | (Some e, s) \<Rightarrow>
                              (let s = snd (writeCluster wc (buf_put buf (writeIdx * DIRENT_SIZE) e) s)
                               in Some (Some (wc, of_nat (writeIdx * DIRENT_SIZE)), s)))))))) })"

section \<open>Removing an entry\<close>

definition mark_free :: "u8 list \<Rightarrow> nat \<Rightarrow> u8 list" where
  "mark_free buf i = buf[i * DIRENT_SIZE := DIR_ENTRY_FREE]"

fun mark_lfn_back :: "u8 list \<Rightarrow> nat \<Rightarrow> u8 list" where
  "mark_lfn_back buf 0 = buf"
| "mark_lfn_back buf (Suc j) =
     (if \<not> isLfnEntry (entry_at buf j) then buf else mark_lfn_back (mark_free buf j) j)"

partial_function (option) find_prev :: "u32 \<Rightarrow> u32 \<Rightarrow> u32 \<Rightarrow> fs \<Rightarrow> (u32 \<times> fs) option" where
  "find_prev entryCluster prevCluster cur s =
     (if cur \<noteq> entryCluster \<and> 2 \<le> cur \<and> cur < FAT_EOC
      then (case fatGet cur s of (c, s) \<Rightarrow> find_prev entryCluster cur c s)
      else Some (prevCluster, s))"

definition clean_prev :: "u32 \<Rightarrow> u32 \<Rightarrow> fs \<Rightarrow> fs" where
  "clean_prev prevCluster entryCluster s =
     (if prevCluster \<noteq> entryCluster
      then (case heap_alloc (unat (bytesPerCluster s)) s of
              (None, s) \<Rightarrow> s
            | (Some prevBuf, s) \<Rightarrow>
               (case readCluster prevCluster prevBuf s of (ok, prevBuf, s) \<Rightarrow>
                  (if ok then snd (writeCluster prevCluster (mark_lfn_back prevBuf (entriesPerCluster s)) s) else s)))
      else s)"

text \<open>The part of \<^verbatim>\<open>removeEntry\<close> that marks the entries.\<close>

definition erase_entry :: "u32 \<Rightarrow> u32 \<Rightarrow> u32 \<Rightarrow> fs \<Rightarrow> (bool \<times> fs) option" where
  "erase_entry dirCluster entryCluster entryOffset s =
     (case heap_alloc (unat (bytesPerCluster s)) s of
        (None, s) \<Rightarrow> Some (False, s)
      | (Some buf, s) \<Rightarrow>
         (case readCluster entryCluster buf s of (ok, buf, s) \<Rightarrow>
            (if \<not> ok then Some (False, s)
             else
              (let shortIdx = unat (entryOffset div 32);
                   buf = mark_free buf shortIdx;
                   buf = mark_lfn_back buf shortIdx in
               do { s \<leftarrow> (if shortIdx = 0 \<or> (isLfnEntry (entry_at buf 0) \<and> entry_at buf 0 ! 0 \<noteq> DIR_ENTRY_FREE)
                         then do { (prevCluster, s) \<leftarrow> find_prev entryCluster dirCluster dirCluster s;
                                   Some (clean_prev prevCluster entryCluster s) }
                         else Some s);
                    (let s = snd (writeCluster entryCluster buf s) in Some (True, flushFat s)) }))))"

definition removeEntry :: "u32 \<Rightarrow> u8 list \<Rightarrow> fs \<Rightarrow> (bool \<times> fs) option" where
  "removeEntry dirCluster name s =
     do { (r, s) \<leftarrow> findEntry dirCluster name s;
          (case r of
             None \<Rightarrow> Some (False, s)
           | Some (entry, entryCluster, entryOffset) \<Rightarrow>
              (let isdir = (de_attr entry AND ATTR_Directory \<noteq> 0); c = de_firstCluster entry in
               if isdir
               then do { (q, s) \<leftarrow> readDirEntry c 0 MAX_NAME s;
                         (case q of
                            Some _ \<Rightarrow> Some (False, s)
                          | None \<Rightarrow> do { s \<leftarrow> freeChain c s; erase_entry dirCluster entryCluster entryOffset s }) }
               else do { s \<leftarrow> (if 2 \<le> c then freeChain c s else Some s);
                         erase_entry dirCluster entryCluster entryOffset s })) }"

end
