(* ===== verification/Fat_Files.thy ===== *)
theory Fat_Files
  imports Fat_Dir
begin

text \<open>
  Mounting and the public operations, filesystem.cpp lines 926-1256, and the loop body of the
  VFS service, userspace/core/vfs/src/main.cpp.  \<open>None\<close> means, as for directories, that an
  operation does not return or that the code's behaviour is undefined: a division by zero, a
  null pointer, a value never written, a read past the end of a buffer.
\<close>

unbundle bit_operations_syntax

section \<open>Mounting\<close>

definition mount :: "fs \<Rightarrow> (bool \<times> fs) option" where
  "mount s =
     (case heap_alloc (MAX_HANDLES * 20) s of
        (None, s) \<Rightarrow> Some (False, s)
      | (Some _, s) \<Rightarrow>
         (let s = s\<lparr>handles := replicate MAX_HANDLES
              \<lparr>fh_startCluster = 0, fh_size = 0, fh_dirCluster = 0, fh_dirOffset = 0, fh_isDir = False, fh_inUse = False\<rparr>\<rparr> in
          case heap_alloc (CACHE_SIZE * 16) s of
            (None, s) \<Rightarrow> Some (False, s)
          | (Some _, s) \<Rightarrow>
             (let s = s\<lparr>cacheAge := 0, cache := replicate CACHE_SIZE
                  \<lparr>ce_lba = 0, ce_data = None, ce_age = 0, ce_valid = False, ce_dirty = False\<rparr>\<rparr> in
              case readSector 0 s of
                (None, s) \<Rightarrow> Some (False, s)
              | (Some bpb, s) \<Rightarrow>
                 (let bps = ucast (le16 (buf_get bpb 11 2)); spc = ucast (bpb ! 13);
                      reserved = ucast (le16 (buf_get bpb 14 2)); nfats = ucast (bpb ! 16);
                      fsize = le32 (buf_get bpb 36 4); root = le32 (buf_get bpb 44 4);
                      dataStart = reserved + nfats * fsize;
                      totalSectors = le32 (buf_get bpb 32 4);
                      dataSectors = totalSectors - dataStart in
                  if spc = 0 then None
                  else Some (True, s\<lparr>bytesPerSector := bps, sectorsPerCluster := spc, bytesPerCluster := bps * spc,
                               reservedSectors := reserved, numFats := nfats, fatSize := fsize, rootCluster := root,
                               fatStartSector := reserved, dataStartSector := dataStart,
                               totalClusters := dataSectors div spc, fatEntryCount := dataSectors div spc + 2\<rparr>)))))"

section \<open>Public operations\<close>

definition createDirectory :: "u8 list option \<Rightarrow> fs \<Rightarrow> (bool \<times> fs) option" where
  "createDirectory path s =
     do { (r, s) \<leftarrow> resolveParentPath path MAX_NAME s;
          (case r of
             None \<Rightarrow> Some (False, s)
           | Some (parentCluster, name) \<Rightarrow>
              (if name = [] then Some (False, s)
               else do { (existing, s) \<leftarrow> findEntry parentCluster name s;
                         (case existing of
                            Some _ \<Rightarrow> Some (False, s)
                          | None \<Rightarrow> do { (q, s) \<leftarrow> createEntry parentCluster name ATTR_Directory s;
                                        Some (q \<noteq> None, s) }) })) }"

definition fs_remove :: "u8 list option \<Rightarrow> fs \<Rightarrow> (bool \<times> fs) option" where
  "fs_remove path s =
     (if path = None \<or> path = Some [47] then Some (False, s)
      else do { (r, s) \<leftarrow> resolveParentPath path MAX_NAME s;
                (case r of
                   None \<Rightarrow> Some (False, s)
                 | Some (parentCluster, name) \<Rightarrow>
                    (if name = [] then Some (False, s) else removeEntry parentCluster name s)) })"

text \<open>Creating the file of a path: its entry as read back, and where it is.\<close>

definition create_file :: "u8 list option \<Rightarrow> fs \<Rightarrow> ((dirent \<times> u32 \<times> u32) option \<times> fs) option" where
  "create_file path s =
     do { (r, s) \<leftarrow> resolveParentPath path MAX_NAME s;
          (case r of
             None \<Rightarrow> Some (None, s)
           | Some (parentCluster, name) \<Rightarrow>
              (if name = [] then Some (None, s)
               else do { (q, s) \<leftarrow> createEntry parentCluster name ATTR_Archive s;
                         (case q of
                            None \<Rightarrow> Some (None, s)
                          | Some (ec, eo) \<Rightarrow>
                             (case heap_alloc (unat (bytesPerCluster s)) s of
                                (None, s) \<Rightarrow> Some (None, s)
                              | (Some buf, s) \<Rightarrow>
                                 (case readCluster ec buf s of (_, buf, s) \<Rightarrow>
                                    Some (Some (entry_at buf (unat (eo div 32)), ec, eo), s)))) })) }"

definition free_handle :: "fs \<Rightarrow> nat option" where
  "free_handle s = List.find (\<lambda>i. \<not> fh_inUse (handles s ! i)) [0..<MAX_HANDLES]"

definition fs_open :: "u8 list option \<Rightarrow> bool \<Rightarrow> fs \<Rightarrow> (u32 \<times> fs) option" where
  "fs_open path create s =
     do { (res, s) \<leftarrow> resolvePath path s;
          (r, s) \<leftarrow> (case res of
                      Some (cluster, entry, loc) \<Rightarrow> do { e \<leftarrow> entry; Some (Some (e, loc), s) }
                    | None \<Rightarrow>
                       (if \<not> create then Some (None, s)
                        else do { (c, s) \<leftarrow> create_file path s;
                                  Some (case c of None \<Rightarrow> None | Some (e, ec, eo) \<Rightarrow> Some (e, Some (ec, eo)), s) }));
          (case r of
             None \<Rightarrow> Some (0, s)
           | Some (entry, loc) \<Rightarrow>
              (if de_attr entry AND ATTR_Directory \<noteq> 0 then Some (0, s)
               else (case free_handle s of
                       Some i \<Rightarrow>
                         do { (ec, eo) \<leftarrow> loc;
                              Some (of_nat (i + 1), s\<lparr>handles := (handles s)[i :=
                                \<lparr>fh_startCluster = de_firstCluster entry, fh_size = de_fileSize entry, fh_dirCluster = ec,
                                 fh_dirOffset = eo, fh_isDir = False, fh_inUse = True\<rparr>]\<rparr>) }
                     | None \<Rightarrow>
                         (if create \<and> res = None
                          then do { (p, s) \<leftarrow> resolveParentPath path MAX_NAME s;
                                    (case p of
                                       None \<Rightarrow> Some (0, s)
                                     | Some (parentCluster, cname) \<Rightarrow>
                                        do { (b, s) \<leftarrow> removeEntry parentCluster cname s; Some (0, s) }) }
                          else Some (0, s))))) }"

text \<open>The handle a number stands for.\<close>

definition handle_of :: "u32 \<Rightarrow> fs \<Rightarrow> file_handle option" where
  "handle_of h s =
     (if h = 0 \<or> h > of_nat MAX_HANDLES then None
      else (let fh = handles s ! unat (h - 1) in if fh_inUse fh then Some fh else None))"

partial_function (option) read_loop ::
  "u32 \<Rightarrow> u32 \<Rightarrow> u32 \<Rightarrow> u32 \<Rightarrow> u8 list \<Rightarrow> u8 list \<Rightarrow> fs \<Rightarrow> (i32 \<times> u8 list \<times> fs) option" where
  "read_loop start offset toRead bytesRead out clusterBuf s =
     (if bytesRead < toRead
      then do { let filePos = offset + bytesRead;
                (cluster, s) \<leftarrow> clusterAtOffset start filePos s;
                (if cluster = 0 \<or> cluster \<ge> FAT_EOC then Some (bytesRead, out, s)
                 else (case readCluster cluster clusterBuf s of (ok, clusterBuf, s) \<Rightarrow>
                   (if \<not> ok then Some (- 1, out, s)
                    else (let clusterOffset = filePos mod bytesPerCluster s;
                              canRead = bytesPerCluster s - clusterOffset;
                              remaining = toRead - bytesRead;
                              chunk = (if canRead < remaining then canRead else remaining)
                          in read_loop start offset toRead (bytesRead + chunk)
                               (out @ buf_get clusterBuf (unat clusterOffset) (unat chunk)) clusterBuf s)))) }
      else Some (bytesRead, out, s))"

text \<open>The result and the bytes stored from the start of the caller's buffer on.\<close>

definition fs_read :: "u32 \<Rightarrow> u32 \<Rightarrow> u32 \<Rightarrow> fs \<Rightarrow> (i32 \<times> u8 list \<times> fs) option" where
  "fs_read h offset len s =
     (case handle_of h s of
        None \<Rightarrow> Some (- 1, [], s)
      | Some fh \<Rightarrow>
         (if offset \<ge> fh_size fh then Some (0, [], s)
          else (let available = fh_size fh - offset; toRead = (if len < available then len else available) in
                case heap_alloc (unat (bytesPerCluster s)) s of
                  (None, s) \<Rightarrow> Some (- 1, [], s)
                | (Some clusterBuf, s) \<Rightarrow> read_loop (fh_startCluster fh) offset toRead 0 [] clusterBuf s)))"

text \<open>Size and first cluster into the directory entry of a handle.\<close>

definition update_entry :: "file_handle \<Rightarrow> u8 list \<Rightarrow> u32 \<Rightarrow> u32 \<Rightarrow> fs \<Rightarrow> bool \<times> fs" where
  "update_entry fh clusterBuf n start s =
     (case readCluster (fh_dirCluster fh) clusterBuf s of (ok, clusterBuf, s) \<Rightarrow>
        (if \<not> ok then (False, s)
         else (let idx = unat (fh_dirOffset fh div 32);
                   e = set_firstCluster start (set_fileSize n (entry_at clusterBuf idx));
                   s = snd (writeCluster (fh_dirCluster fh) (buf_put clusterBuf (idx * DIRENT_SIZE) e) s)
               in (True, flushFat s))))"

definition set_handle :: "u32 \<Rightarrow> (file_handle \<Rightarrow> file_handle) \<Rightarrow> fs \<Rightarrow> fs" where
  "set_handle h f s = (let i = unat (h - 1) in s\<lparr>handles := (handles s)[i := f (handles s ! i)]\<rparr>)"

text \<open>The cluster to write next: the one at hand, or a new one linked to the previous one.\<close>

definition next_cluster :: "u32 \<Rightarrow> u32 \<Rightarrow> fs \<Rightarrow> u32 option \<times> fs" where
  "next_cluster cluster prevCluster s =
     (if cluster < 2 \<or> cluster \<ge> FAT_EOC
      then (case allocateCluster s of (newCluster, s) \<Rightarrow>
              (if newCluster = 0 then (None, s)
               else (Some newCluster, if prevCluster \<ge> 2 then fatSet prevCluster newCluster s else s)))
      else (Some cluster, s))"

partial_function (option) write_loop ::
  "u8 list \<Rightarrow> u32 \<Rightarrow> u32 \<Rightarrow> u32 \<Rightarrow> u32 \<Rightarrow> u8 list \<Rightarrow> fs \<Rightarrow> (u32 option \<times> u8 list \<times> fs) option" where
  "write_loop data len bytesWritten cluster prevCluster clusterBuf s =
     (if bytesWritten < len
      then (case next_cluster cluster prevCluster s of
              (None, s) \<Rightarrow> Some (None, clusterBuf, s)
            | (Some cluster, s) \<Rightarrow>
               (if bytesPerCluster s = 0 then None
                else
                 (let clusterOffset = bytesWritten mod bytesPerCluster s;
                      canWrite = bytesPerCluster s - clusterOffset;
                      remaining = len - bytesWritten;
                      chunk = (if canWrite < remaining then canWrite else remaining) in
                  case (if clusterOffset > 0 \<or> chunk < bytesPerCluster s then snd (readCluster cluster clusterBuf s)
                        else (clusterBuf, s)) of (clusterBuf, s) \<Rightarrow>
                  (if unat bytesWritten + unat chunk > length data then None
                   else
                    (let clusterBuf = buf_put clusterBuf (unat clusterOffset) (buf_get data (unat bytesWritten) (unat chunk));
                         s = snd (writeCluster cluster clusterBuf s);
                         bytesWritten = bytesWritten + chunk in
                     if bytesWritten < len
                     then (case fatGet cluster s of (c, s) \<Rightarrow> write_loop data len bytesWritten c cluster clusterBuf s)
                     else Some (Some cluster, clusterBuf, s))))))
      else Some (Some cluster, clusterBuf, s))"

text \<open>The clusters past the end of the new contents are freed.\<close>

definition cut_chain :: "u32 \<Rightarrow> fs \<Rightarrow> fs option" where
  "cut_chain cluster s =
     (if 2 \<le> cluster \<and> cluster < FAT_EOC
      then (case fatGet cluster s of (next, s) \<Rightarrow>
              (let s = fatSet cluster FAT_EOC s in
               if 2 \<le> next \<and> next < FAT_EOC then freeChain next s else Some s))
      else Some s)"

definition fs_write :: "u32 \<Rightarrow> u8 list \<Rightarrow> u32 \<Rightarrow> fs \<Rightarrow> (bool \<times> fs) option" where
  "fs_write h data len s =
     (case handle_of h s of
        None \<Rightarrow> Some (False, s)
      | Some fh \<Rightarrow>
         (case heap_alloc (unat (bytesPerCluster s)) s of
            (None, s) \<Rightarrow> Some (False, s)
          | (Some clusterBuf, s) \<Rightarrow>
             (if len = 0 \<and> fh_startCluster fh \<ge> 2
              then do { s \<leftarrow> freeChain (fh_startCluster fh) s;
                        let s = set_handle h (\<lambda>fh. fh\<lparr>fh_startCluster := 0, fh_size := 0\<rparr>) s;
                        Some (update_entry fh clusterBuf 0 0 s) }
              else
               (case (if fh_startCluster fh < 2 \<and> len > 0
                      then (case allocateCluster s of (c, s) \<Rightarrow>
                              (if c = 0 then (None, s) else (Some c, set_handle h (fh_startCluster_update (\<lambda>_. c)) s)))
                      else (Some (fh_startCluster fh), s)) of
                  (None, s) \<Rightarrow> Some (False, s)
                | (Some start, s) \<Rightarrow>
                   do { (r, clusterBuf, s) \<leftarrow> write_loop data len 0 start 0 clusterBuf s;
                        (case r of
                           None \<Rightarrow> Some (False, s)
                         | Some cluster \<Rightarrow>
                            do { s \<leftarrow> cut_chain cluster s;
                                 let s = set_handle h (fh_size_update (\<lambda>_. len)) s;
                                 Some (update_entry fh clusterBuf len start s) }) }))))"

definition fs_stat :: "u8 list option \<Rightarrow> fs \<Rightarrow> (u32 \<times> fs) option" where
  "fs_stat path s =
     (if path = None \<or> path = Some [] then Some (0, s)
      else if path = Some [47] then Some (2, s)
      else do { (r, s) \<leftarrow> resolvePath path s;
                (case r of
                   None \<Rightarrow> Some (0, s)
                 | Some (cluster, entry, loc) \<Rightarrow>
                    do { e \<leftarrow> entry; Some (if de_attr e AND ATTR_Directory \<noteq> 0 then 2 else 1, s) }) })"

definition listEntry :: "u8 list option \<Rightarrow> u32 \<Rightarrow> nat \<Rightarrow> fs \<Rightarrow> (u8 list option \<times> fs) option" where
  "listEntry path index nameMax s =
     do { (r, s) \<leftarrow> resolvePath path s;
          (case r of
             None \<Rightarrow> Some (None, s)
           | Some (dirCluster, entry, loc) \<Rightarrow>
              do { e \<leftarrow> entry;
                   (if de_attr e AND ATTR_Directory = 0 then Some (None, s)
                    else do { (q, s) \<leftarrow> readDirEntry dirCluster index nameMax s;
                              Some (map_option fst q, s) }) }) }"

section \<open>The service\<close>

definition BUF_SIZE :: u32 where "BUF_SIZE = 4096"

datatype vfs_request =
    VfsMkdir
  | VfsRemove
  | VfsOpen u32
  | VfsRead u32 u32 u32
  | VfsWrite u32 u32
  | VfsList u32
  | VfsStat
  | VfsOther

text \<open>The path in the data buffer; without a NUL the code reads past the buffer.\<close>

definition path_in :: "u8 list \<Rightarrow> u8 list option" where
  "path_in dataBuf = (if 0 \<in> set dataBuf then Some (cstr dataBuf) else None)"

text \<open>One message: the first argument of the reply and the bytes sent with it.\<close>

definition vfs_handle :: "vfs_request \<Rightarrow> u8 list \<Rightarrow> fs \<Rightarrow> (u32 \<times> u8 list \<times> fs) option" where
  "vfs_handle req dataBuf s =
     (case req of
        VfsMkdir \<Rightarrow> do { p \<leftarrow> path_in dataBuf; (b, s) \<leftarrow> createDirectory (Some p) s; Some (if b then 0 else 1, [], s) }
      | VfsRemove \<Rightarrow> do { p \<leftarrow> path_in dataBuf; (b, s) \<leftarrow> fs_remove (Some p) s; Some (if b then 0 else 1, [], s) }
      | VfsOpen c \<Rightarrow> do { p \<leftarrow> path_in dataBuf; (h, s) \<leftarrow> fs_open (Some p) (c \<noteq> 0) s; Some (h, [], s) }
      | VfsRead h off reqLen \<Rightarrow>
          do { (n, out, s) \<leftarrow> fs_read h off (if reqLen < BUF_SIZE then reqLen else BUF_SIZE) s;
               Some (if 0 \<le>s n then n else 0,
                     if 0 <s n then take (unat n) (buf_put dataBuf 0 out) else [], s) }
      | VfsWrite h len \<Rightarrow> do { (b, s) \<leftarrow> fs_write h dataBuf len s; Some (if b then 0 else 1, [], s) }
      | VfsList index \<Rightarrow>
          do { p \<leftarrow> path_in dataBuf; (r, s) \<leftarrow> listEntry (Some p) index MAX_NAME s;
               Some (case r of Some name \<Rightarrow> (1, cstr name @ [0], s) | None \<Rightarrow> (0, [], s)) }
      | VfsStat \<Rightarrow> do { p \<leftarrow> path_in dataBuf; (r, s) \<leftarrow> fs_stat (Some p) s; Some (r, [], s) }
      | VfsOther \<Rightarrow> Some (0, [], s))"

end
