(* ===== verification/Fat_Inv.thy ===== *)
theory Fat_Inv
  imports Fat_Files
begin

text \<open>
  What every operation of the file system keeps: the cache agrees with the drive outside the
  sectors it refuses and the mirror of the table, the layout is the one found at the mount, and
  the table of handles has its sixteen places.
\<close>

named_theorems fs_keeps \<open>operations keep the invariant of the file system\<close>

text \<open>The sectors \<^verbatim>\<open>flushFat\<close> writes around the cache.\<close>

definition mirror :: "fs \<Rightarrow> u32 set" where
  "mirror s = (\<lambda>l. l + fatSize s) ` {l. fatStartSector s \<le> l \<and> l < fatStartSector s + fatSize s}"

definition fs_inv :: "u32 set \<Rightarrow> fs \<Rightarrow> fs \<Rightarrow> bool" where
  "fs_inv X L s \<longleftrightarrow> cache_ok X s \<and> layout s = L \<and> mirror L \<subseteq> X \<and> length (handles s) = MAX_HANDLES"

lemma fs_inv_same: "fs_inv X L s \<Longrightarrow> cache_ok X s' \<Longrightarrow> same_fs X s s' \<Longrightarrow> fs_inv X L s'"
  by (simp add: fs_inv_def same_fs_def)

lemma inv_heap_alloc [fs_keeps]: "heap_alloc n s = (r, s') \<Longrightarrow> fs_inv X L s \<Longrightarrow> fs_inv X L s'"
  using heap_alloc_same [of n s r s'] by (auto simp: fs_inv_def layout_def)

lemma inv_readSector [fs_keeps]: "readSector l s = (r, s') \<Longrightarrow> fs_inv X L s \<Longrightarrow> fs_inv X L s'"
  by (rule readSector_ok [of X s l]) (auto simp: fs_inv_def dest: fs_inv_same simp: same_fs_def)

lemma inv_writeSector [fs_keeps]: "writeSector l d s = (r, s') \<Longrightarrow> fs_inv X L s \<Longrightarrow> fs_inv X L s'"
  by (rule writeSector_ok [of X s l d]) (auto simp: fs_inv_def)

lemma inv_readCluster [fs_keeps]: "readCluster c b s = (r, b', s') \<Longrightarrow> fs_inv X L s \<Longrightarrow> fs_inv X L s'"
  by (rule readCluster_keeps [of X s c b]) (auto simp: fs_inv_def same_fs_def)

lemma inv_writeCluster [fs_keeps]: "writeCluster c b s = (r, s') \<Longrightarrow> fs_inv X L s \<Longrightarrow> fs_inv X L s'"
  by (rule writeCluster_keeps [of X s c b]) (auto simp: fs_inv_def)

lemma inv_fatGet [fs_keeps]: "fatGet c s = (v, s') \<Longrightarrow> fs_inv X L s \<Longrightarrow> fs_inv X L s'"
  by (rule fatGet_keeps [of X s c]) (auto simp: fs_inv_def same_fs_def)

lemma inv_fatSet: "fs_inv X L s \<Longrightarrow> fs_inv X L (fatSet c v s)"
  using fatSet_keeps(1-3) [of X s c v] by (auto simp: fs_inv_def)

lemma inv_snd:
  assumes "fs_inv X L s"
  shows "fs_inv X L (snd (writeCluster c b s))" "fs_inv X L (snd (writeSector l d s))"
  using inv_writeCluster [OF _ assms, of c b] inv_writeSector [OF _ assms, of l d] by (metis prod.collapse)+

lemma inv_alloc_from [fs_keeps]: "alloc_from i n s = (c, s') \<Longrightarrow> fs_inv X L s \<Longrightarrow> fs_inv X L s'"
proof (induction i n s rule: alloc_from.induct)
  case (1 i n s)
  show ?case
  proof (cases "i < n")
    case True
    obtain v s1 where g: "fatGet i s = (v, s1)" by (cases "fatGet i s")
    have inv1: "fs_inv X L s1" by (rule inv_fatGet [OF g "1.prems"(2)])
    show ?thesis
    proof (cases "v = FAT_FREE")
      case v: True
      then have "fatSet i FAT_EOC s1 = s'" using "1.prems"(1) True g by (auto simp: alloc_from.simps [of i n s])
      then show ?thesis using inv_fatSet [OF inv1] by blast
    next
      case False
      then have "alloc_from (i + 1) n s1 = (c, s')" using "1.prems"(1) True g by (simp add: alloc_from.simps [of i n s])
      then show ?thesis using "1.IH" [OF True g [symmetric] False] inv1 by simp
    qed
  qed (use "1.prems" in \<open>simp add: alloc_from.simps [of i n s]\<close>)
qed

lemma inv_allocateCluster [fs_keeps]: "allocateCluster s = (c, s') \<Longrightarrow> fs_inv X L s \<Longrightarrow> fs_inv X L s'"
  unfolding allocateCluster_def by (rule inv_alloc_from)

lemma inv_skip [fs_keeps]: "skip_clusters n c s = (v, s') \<Longrightarrow> fs_inv X L s \<Longrightarrow> fs_inv X L s'"
  by (induction n c s rule: skip_clusters.induct) (auto split: prod.splits if_splits dest: fs_keeps)

lemma inv_freeChain [fs_keeps]: "freeChain c s = Some s' \<Longrightarrow> fs_inv X L s \<Longrightarrow> fs_inv X L s'"
proof (erule freeChain.raw_induct [where P = "\<lambda>c s s'. fs_inv X L s \<longrightarrow> fs_inv X L s'", rotated, THEN mp], goal_cases)
  case (1 f c s y)
  then show ?case using inv_fatSet by (auto split: if_splits prod.splits dest: inv_fatGet)
qed

text \<open>The mirror lies in \<open>X\<close>, so writing it does not disturb the cache.\<close>

lemma inv_mirror_entry: "fs_inv X L s \<Longrightarrow> fs_inv X L (mirror_entry i s)"
proof -
  assume i: "fs_inv X L s"
  let ?l = "ce_lba (cache s ! i)"
  have L: "fatStartSector L = fatStartSector s" "fatSize L = fatSize s"
    using i layout_fields(5,6) [of L s] by (auto simp: fs_inv_def layout_def)
  show ?thesis
  proof (cases "fatStartSector s \<le> ?l \<and> ?l < fatStartSector s + fatSize s")
    case True
    then have "?l + fatSize s \<in> mirror L" by (simp add: mirror_def L)
    then have "?l + fatSize s \<in> X" using i by (auto simp: fs_inv_def)
    then have "fs_inv X L (snd (ata_writeSector (?l + fatSize s) d s))" for d
      using i by (auto simp: fs_inv_def cache_ok_def ata_writeSector_def layout_def)
    then show ?thesis using i by (simp add: mirror_entry_def Let_def)
  next
    case False
    then have "mirror_entry i s = s" by (auto simp: mirror_entry_def Let_def)
    then show ?thesis using i by simp
  qed
qed

lemma inv_flushFat: "fs_inv X L s \<Longrightarrow> fs_inv X L (flushFat s)"
proof -
  have "fs_inv X L s \<Longrightarrow> fs_inv X L (fold mirror_entry xs s)" for xs
    by (induction xs arbitrary: s) (auto intro: inv_mirror_entry)
  then show "fs_inv X L s \<Longrightarrow> ?thesis" by (simp add: flushFat_def)
qed

lemmas inv_updates = inv_fatSet inv_flushFat inv_snd

lemma bind_SomeE:
  assumes "Option.bind m f = Some y"
  obtains x where "m = Some x" "f x = Some y"
  using assms by (cases m) auto

section \<open>Directories\<close>

lemma inv_read_dir_loop [fs_keeps]: "read_dir_loop index mx c buf lfn vis s = Some (r, s') \<Longrightarrow> fs_inv X L s \<Longrightarrow> fs_inv X L s'"
proof (drule read_dir_loop.raw_induct [where P = "\<lambda>index mx c buf lfn vis s y. fs_inv X L s \<longrightarrow> fs_inv X L (snd y)", rotated], goal_cases)
  case (1 f index mx c buf lfn vis s y)
  then show ?case by (auto split: if_splits prod.splits scan_result.splits elim!: bind_SomeE) (blast dest: fs_keeps 1(2) [rule_format])+
qed simp

lemma inv_readDirEntry [fs_keeps]: "readDirEntry c i mx s = Some (r, s') \<Longrightarrow> fs_inv X L s \<Longrightarrow> fs_inv X L s'"
  by (auto simp: readDirEntry_def split: prod.splits option.splits elim!: bind_SomeE) (blast dest: fs_keeps)+

lemma inv_find_loop [fs_keeps]: "find_loop c name i s = Some (r, s') \<Longrightarrow> fs_inv X L s \<Longrightarrow> fs_inv X L s'"
proof (drule find_loop.raw_induct [where P = "\<lambda>c name i s y. fs_inv X L s \<longrightarrow> fs_inv X L (snd y)", rotated], goal_cases)
  case (1 f c name i s y)
  then show ?case by (auto split: if_splits prod.splits option.splits elim!: bind_SomeE) (blast dest: fs_keeps 1(2) [rule_format])+
qed simp

lemma inv_findEntry [fs_keeps]: "findEntry c name s = Some (r, s') \<Longrightarrow> fs_inv X L s \<Longrightarrow> fs_inv X L s'"
  unfolding findEntry_def by (rule inv_find_loop)

lemma inv_resolve_loop [fs_keeps]: "resolve_loop path c e l s = Some (r, s') \<Longrightarrow> fs_inv X L s \<Longrightarrow> fs_inv X L s'"
proof (drule resolve_loop.raw_induct [where P = "\<lambda>path c e l s y. fs_inv X L s \<longrightarrow> fs_inv X L (snd y)", rotated], goal_cases)
  case (1 f path c e l s y)
  then show ?case
    by (auto simp: Let_def split: if_splits prod.splits option.splits elim!: bind_SomeE) (blast dest: fs_keeps 1(2) [rule_format])+
qed simp

lemma inv_resolvePath [fs_keeps]: "resolvePath path s = Some (r, s') \<Longrightarrow> fs_inv X L s \<Longrightarrow> fs_inv X L s'"
  by (auto simp: resolvePath_def split: option.splits if_splits elim!: bind_SomeE) (blast dest: fs_keeps)+

lemma inv_resolveParentPath [fs_keeps]: "resolveParentPath path mx s = Some (r, s') \<Longrightarrow> fs_inv X L s \<Longrightarrow> fs_inv X L s'"
  by (auto simp: resolveParentPath_def Let_def split: option.splits if_splits elim!: bind_SomeE) (blast dest: fs_keeps)+

lemma inv_extend_dir [fs_keeps]: "extend_dir c buf s = (r, b, s') \<Longrightarrow> fs_inv X L s \<Longrightarrow> fs_inv X L s'"
  by (auto simp: extend_dir_def Let_def split: prod.splits if_splits elim!: bind_SomeE) (blast dest: fs_keeps intro: inv_updates)+

lemma inv_find_free [fs_keeps]: "find_free n c buf run s = Some (r, b, s') \<Longrightarrow> fs_inv X L s \<Longrightarrow> fs_inv X L s'"
proof (drule find_free.raw_induct [where P = "\<lambda>n c buf run s y. fs_inv X L s \<longrightarrow> fs_inv X L (snd (snd y))", rotated], goal_cases)
  case (1 f n c buf run s y)
  then show ?case by (auto split: if_splits prod.splits option.splits elim!: bind_SomeE) (blast dest: fs_keeps 1(2) [rule_format])+
qed simp

lemma inv_write_lfn [fs_keeps]: "write_lfn name n ck seqs i wc buf s = (ok, i', wc', b, s') \<Longrightarrow> fs_inv X L s \<Longrightarrow> fs_inv X L s'"
proof (induction seqs arbitrary: i wc buf s)
  case (Cons seq seqs)
  from Cons.prems show ?case
    by (auto simp: Let_def split: if_splits prod.splits dest!: Cons.IH elim!: bind_SomeE) (blast dest: fs_keeps intro: inv_updates)+
qed simp

lemma inv_make_dir [fs_keeps]: "make_dir c s = (r, s') \<Longrightarrow> fs_inv X L s \<Longrightarrow> fs_inv X L s'"
  by (auto simp: make_dir_def Let_def split: prod.splits option.splits if_splits elim!: bind_SomeE) (blast dest: fs_keeps intro: inv_updates)+

lemma inv_createEntry [fs_keeps]:
  assumes "createEntry c name attr s = Some (r, s')" and inv: "fs_inv X L s"
  shows "fs_inv X L s'"
proof -
  let ?seqs = "if needsLfn name then rev [1..<Suc (lfn_count name)] else []"
  let ?n = "(if needsLfn name then lfn_count name else 0) + 1"
  obtain r0 s1 where h: "heap_alloc (unat (bytesPerCluster s)) s = (r0, s1)" by (cases "heap_alloc (unat (bytesPerCluster s)) s")
  have i1: "fs_inv X L s1" by (rule inv_heap_alloc [OF h inv])
  show ?thesis
  proof (cases r0)
    case None
    then show ?thesis using assms(1) h i1 by (simp add: createEntry_def Let_def)
  next
    case (Some buf)
    obtain found b2 s2 where ff: "find_free ?n c buf (0, 0, 0) s1 = Some (found, b2, s2)"
      using assms(1) h Some by (auto simp: createEntry_def Let_def elim: bind_SomeE)
    have i2: "fs_inv X L s2" by (rule inv_find_free [OF ff i1])
    show ?thesis
    proof (cases found)
      case None
      then show ?thesis using assms(1) h Some ff i2 by (simp add: createEntry_def Let_def)
    next
      case f: (Some q)
      obtain sc si where q: "q = (sc, si)" by (cases q)
      obtain ok3 b3 s3 where rc: "readCluster sc b2 s2 = (ok3, b3, s3)" by (cases "readCluster sc b2 s2")
      have i3: "fs_inv X L s3" by (rule inv_readCluster [OF rc i2])
      obtain ok4 wi wc b4 s4 where wl: "write_lfn name (lfn_count name) (lfnChecksum (nameToShort name)) ?seqs si sc b3 s3 = (ok4, wi, wc, b4, s4)"
        by (metis prod_cases5)
      have i4: "fs_inv X L s4" by (rule inv_write_lfn [OF wl i3])
      obtain r5 s5 where md: "make_dir c s4 = (r5, s5)" by (cases "make_dir c s4")
      have i5: "fs_inv X L s5" by (rule inv_make_dir [OF md i4])
      have "s' = s3 \<or> s' = s4 \<or> s' = s5 \<or> (\<exists>d. s' = snd (writeCluster wc d s4)) \<or> (\<exists>d. s' = snd (writeCluster wc d s5))"
        using assms(1) unfolding createEntry_def Let_def
        by (simp only: h Some option.case prod.case ff bind.bind_lunit f q rc wl md) (auto split: if_splits option.splits)
      then show ?thesis using i3 i4 i5 inv_snd(1) by blast
    qed
  qed
qed

lemma inv_find_prev [fs_keeps]: "find_prev ec p c s = Some (r, s') \<Longrightarrow> fs_inv X L s \<Longrightarrow> fs_inv X L s'"
proof (drule find_prev.raw_induct [where P = "\<lambda>ec p c s y. fs_inv X L s \<longrightarrow> fs_inv X L (snd y)", rotated], goal_cases)
  case (1 f ec p c s y)
  then show ?case by (auto split: if_splits prod.splits elim!: bind_SomeE) (blast dest: fs_keeps 1(2) [rule_format])+
qed simp

lemma inv_clean_prev: "fs_inv X L s \<Longrightarrow> fs_inv X L (clean_prev p ec s)"
  by (auto simp: clean_prev_def split: prod.splits option.splits elim!: bind_SomeE) (blast dest: fs_keeps intro: inv_updates)+

lemma inv_erase_entry [fs_keeps]: "erase_entry d ec eo s = Some (r, s') \<Longrightarrow> fs_inv X L s \<Longrightarrow> fs_inv X L s'"
  by (auto simp: erase_entry_def Let_def split: prod.splits option.splits if_splits elim!: bind_SomeE) (blast dest: fs_keeps intro: inv_updates inv_clean_prev)+

lemma inv_removeEntry [fs_keeps]: "removeEntry c name s = Some (r, s') \<Longrightarrow> fs_inv X L s \<Longrightarrow> fs_inv X L s'"
  by (auto simp: removeEntry_def Let_def split: option.splits if_splits elim!: bind_SomeE) (blast dest: fs_keeps)+


section \<open>Files\<close>

lemma inv_createDirectory [fs_keeps]: "createDirectory p s = Some (r, s') \<Longrightarrow> fs_inv X L s \<Longrightarrow> fs_inv X L s'"
  by (auto simp: createDirectory_def split: prod.splits option.splits if_splits elim!: bind_SomeE) (blast dest: fs_keeps)+

lemma inv_fs_remove [fs_keeps]: "fs_remove p s = Some (r, s') \<Longrightarrow> fs_inv X L s \<Longrightarrow> fs_inv X L s'"
  by (auto simp: fs_remove_def split: prod.splits option.splits if_splits elim!: bind_SomeE) (blast dest: fs_keeps)+

lemma inv_create_file [fs_keeps]: "create_file p s = Some (r, s') \<Longrightarrow> fs_inv X L s \<Longrightarrow> fs_inv X L s'"
  by (auto simp: create_file_def split: prod.splits option.splits if_splits elim!: bind_SomeE) (blast dest: fs_keeps)+

lemma inv_handles: "fs_inv X L s \<Longrightarrow> length hs = MAX_HANDLES \<Longrightarrow> fs_inv X L (s\<lparr>handles := hs\<rparr>)"
  by (simp add: fs_inv_def cache_ok_def layout_def)

lemma inv_set_nth: "fs_inv X L s \<Longrightarrow> fs_inv X L (s\<lparr>handles := (handles s)[i := h]\<rparr>)"
  by (rule inv_handles) (simp_all add: fs_inv_def)

lemma inv_set_handle: "fs_inv X L s \<Longrightarrow> fs_inv X L (set_handle h f s)"
  by (simp add: set_handle_def Let_def inv_set_nth)

lemma inv_fs_open [fs_keeps]: "fs_open p c s = Some (r, s') \<Longrightarrow> fs_inv X L s \<Longrightarrow> fs_inv X L s'"
  by (auto simp: fs_open_def split: prod.splits option.splits if_splits elim!: bind_SomeE)
    (blast dest: fs_keeps intro: inv_set_nth)+

lemma inv_clusterAtOffset [fs_keeps]: "clusterAtOffset c off s = Some (r, s') \<Longrightarrow> fs_inv X L s \<Longrightarrow> fs_inv X L s'"
  by (auto simp: clusterAtOffset_def split: if_splits dest: inv_skip)

lemma inv_read_loop [fs_keeps]: "read_loop st off n k out buf s = Some (r, b, s') \<Longrightarrow> fs_inv X L s \<Longrightarrow> fs_inv X L s'"
proof (drule read_loop.raw_induct [where P = "\<lambda>st off n k out buf s y. fs_inv X L s \<longrightarrow> fs_inv X L (snd (snd y))", rotated], goal_cases)
  case (1 f st off n k out buf s y)
  then show ?case by (auto simp: Let_def split: if_splits prod.splits elim!: bind_SomeE) (blast dest: fs_keeps 1(2) [rule_format])+
qed simp

lemma inv_fs_read [fs_keeps]: "fs_read h off n s = Some (r, b, s') \<Longrightarrow> fs_inv X L s \<Longrightarrow> fs_inv X L s'"
  by (auto simp: fs_read_def Let_def split: prod.splits option.splits if_splits) (blast dest: fs_keeps)+

lemma inv_update_entry [fs_keeps]: "update_entry fh b n c s = (r, s') \<Longrightarrow> fs_inv X L s \<Longrightarrow> fs_inv X L s'"
  by (auto simp: update_entry_def Let_def split: prod.splits if_splits) (blast dest: fs_keeps intro: inv_updates)+

lemma inv_next_cluster [fs_keeps]: "next_cluster c p s = (r, s') \<Longrightarrow> fs_inv X L s \<Longrightarrow> fs_inv X L s'"
  by (auto simp: next_cluster_def split: prod.splits if_splits) (blast dest: fs_keeps intro: inv_updates)+

lemma inv_cut_chain [fs_keeps]: "cut_chain c s = Some s' \<Longrightarrow> fs_inv X L s \<Longrightarrow> fs_inv X L s'"
  by (auto simp: cut_chain_def Let_def split: prod.splits if_splits) (blast dest: fs_keeps intro: inv_updates)+

lemma inv_write_loop [fs_keeps]: "write_loop d n k c p buf s = Some (r, b, s') \<Longrightarrow> fs_inv X L s \<Longrightarrow> fs_inv X L s'"
proof (drule write_loop.raw_induct [where P = "\<lambda>d n k c p buf s y. fs_inv X L s \<longrightarrow> fs_inv X L (snd (snd y))", rotated], goal_cases)
  case (1 f d n k c p buf s y)
  show ?case
  proof
  assume i: "fs_inv X L s"
  obtain q s1 where nc: "next_cluster c p s = (q, s1)" by (cases "next_cluster c p s")
  have i1: "fs_inv X L s1" by (rule inv_next_cluster [OF nc i])
  show "fs_inv X L (snd (snd y))"
  proof (cases "k < n")
    case kn: True
    show ?thesis
    proof (cases q)
      case None
      then show ?thesis using 1(3) kn nc i1 by auto
    next
      case (Some c1)
      let ?off = "k mod bytesPerCluster s1" and ?bpc = "bytesPerCluster s1"
      let ?chunk = "if ?bpc - ?off < n - k then ?bpc - ?off else n - k"
      obtain b2 s2 where rd: "(if ?off > 0 \<or> ?chunk < ?bpc then snd (readCluster c1 buf s1) else (buf, s1)) = (b2, s2)"
        by (cases "if ?off > 0 \<or> ?chunk < ?bpc then snd (readCluster c1 buf s1) else (buf, s1)")
      obtain ok b' s' where rc: "readCluster c1 buf s1 = (ok, b', s')" by (cases "readCluster c1 buf s1")
      have "s2 = s' \<or> s2 = s1" using rd rc by (auto split: if_splits)
      then have i2: "fs_inv X L s2" using i1 inv_readCluster [OF rc i1] by blast
      define b3 where "b3 = buf_put b2 (unat ?off) (buf_get d (unat k) (unat ?chunk))"
      define s3 where "s3 = snd (writeCluster c1 b3 s2)"
      have i3: "fs_inv X L s3" unfolding s3_def by (rule inv_snd(1) [OF i2])
      obtain c4 s4 where fg: "fatGet c1 s3 = (c4, s4)" by (cases "fatGet c1 s3")
      have i4: "fs_inv X L s4" by (rule inv_fatGet [OF fg i3])
      have "?bpc \<noteq> 0" "\<not> unat k + unat ?chunk > length d"
        using 1(3) kn nc Some rd by (auto simp: Let_def split: if_splits)
      then have "(if k + ?chunk < n then f d n (k + ?chunk) c4 c1 b3 s4 else Some (Some c1, b3, s3)) = Some y"
        using 1(3) kn nc Some rd fg
        by (simp only: if_True if_False prod.case option.case Let_def b3_def [symmetric] s3_def [symmetric] simp_thms)
      then show ?thesis using i3 i4 1(2) [of d n "k + ?chunk" c4 c1 b3 s4 y] by (auto split: if_splits)
    qed
  next
    case False
    then show ?thesis using 1(3) i by auto
  qed
  qed
qed simp

lemma inv_fs_write [fs_keeps]: "fs_write h d n s = Some (r, s') \<Longrightarrow> fs_inv X L s \<Longrightarrow> fs_inv X L s'"
  by (auto simp: fs_write_def Let_def split: prod.splits option.splits if_splits elim!: bind_SomeE)
    (blast dest: fs_keeps intro: inv_set_handle)+

lemma inv_fs_stat [fs_keeps]: "fs_stat p s = Some (r, s') \<Longrightarrow> fs_inv X L s \<Longrightarrow> fs_inv X L s'"
  by (auto simp: fs_stat_def split: prod.splits option.splits if_splits elim!: bind_SomeE) (blast dest: fs_keeps)+

lemma inv_listEntry [fs_keeps]: "listEntry p i mx s = Some (r, s') \<Longrightarrow> fs_inv X L s \<Longrightarrow> fs_inv X L s'"
  by (auto simp: listEntry_def split: prod.splits option.splits if_splits elim!: bind_SomeE) (blast dest: fs_keeps)+

lemma inv_vfs_handle: "vfs_handle rq buf s = Some (r, out, s') \<Longrightarrow> fs_inv X L s \<Longrightarrow> fs_inv X L s'"
  by (cases rq) (auto simp: vfs_handle_def split: prod.splits option.splits elim!: bind_SomeE dest: fs_keeps)


section \<open>The service over any sequence of requests\<close>

text \<open>The loop of the service: requests with the contents of the data buffer they arrive with.\<close>

fun vfs_run :: "(vfs_request \<times> u8 list) list \<Rightarrow> fs \<Rightarrow> fs option" where
  "vfs_run [] s = Some s"
| "vfs_run ((req, dataBuf) # reqs) s = do { (r, out, s) \<leftarrow> vfs_handle req dataBuf s; vfs_run reqs s }"

lemma inv_vfs_run: "vfs_run reqs s = Some s' \<Longrightarrow> fs_inv X L s \<Longrightarrow> fs_inv X L s'"
proof (induction reqs arbitrary: s)
  case (Cons r reqs)
  obtain req buf where r: "r = (req, buf)" by (cases r)
  from Cons.prems(1) obtain v out s1 where s1: "vfs_handle req buf s = Some (v, out, s1)" "vfs_run reqs s1 = Some s'"
    by (auto simp: r elim!: bind_SomeE)
  show ?case by (rule Cons.IH [OF s1(2) inv_vfs_handle [OF s1(1) Cons.prems(2)]])
qed simp

lemma mount_inv:
  assumes "mount s = Some (True, s0)"
  shows "fs_inv ({l. fs_bad s l} \<union> mirror s0) (layout s0) s0"
proof -
  let ?X = "{l. fs_bad s l} \<union> mirror s0"
  obtain r1 s1 where h1: "heap_alloc (MAX_HANDLES * 20) s = (r1, s1)" by (cases "heap_alloc (MAX_HANDLES * 20) s")
  obtain a1 where s1: "s1 = s\<lparr>fs_allocs := a1\<rparr>" using heap_alloc_same [OF h1] by blast
  let ?hs = "replicate MAX_HANDLES
    \<lparr>fh_startCluster = 0, fh_size = 0, fh_dirCluster = 0, fh_dirOffset = 0, fh_isDir = False, fh_inUse = False\<rparr>"
  let ?c = "replicate CACHE_SIZE \<lparr>ce_lba = 0, ce_data = None, ce_age = 0, ce_valid = False, ce_dirty = False\<rparr>"
  obtain r2 s2 where h2: "heap_alloc (CACHE_SIZE * 16) (s1\<lparr>handles := ?hs\<rparr>) = (r2, s2)"
    by (cases "heap_alloc (CACHE_SIZE * 16) (s1\<lparr>handles := ?hs\<rparr>)")
  obtain a2 where s2: "s2 = s1\<lparr>handles := ?hs, fs_allocs := a2\<rparr>" using heap_alloc_same [OF h2] by auto
  let ?s3 = "s2\<lparr>cacheAge := 0, cache := ?c\<rparr>"
  have ok3: "cache_ok ?X ?s3" by (auto simp: cache_ok_def s1 s2)
  obtain r4 s4 where rd: "readSector 0 ?s3 = (r4, s4)" "cache_ok ?X s4" "same_fs ?X ?s3 s4"
    by (rule readSector_ok [OF ok3, where lba = 0])
  have len: "length (handles s4) = MAX_HANDLES" using rd(3) by (simp add: same_fs_def s2)
  have "cache s0 = cache s4 \<and> fs_bad s0 = fs_bad s4 \<and> fs_disk s0 = fs_disk s4 \<and> handles s0 = handles s4"
    using assms h1 h2 rd(1) by (auto simp: mount_def Let_def split: option.splits if_splits)
  moreover have "mirror (layout s0) = mirror s0" by (simp add: mirror_def layout_def)
  ultimately show ?thesis using rd(2) len by (simp add: fs_inv_def cache_ok_def)
qed


lemma mount_returns:
  assumes "\<not> fs_bad s 0" "fs_allocs s = []" "(ucast (fs_disk s 0 ! 13) :: u32) \<noteq> 0"
  shows "\<exists>s0. mount s = Some (True, s0)"
proof -
  let ?hs = "replicate MAX_HANDLES
    \<lparr>fh_startCluster = 0, fh_size = 0, fh_dirCluster = 0, fh_dirOffset = 0, fh_isDir = False, fh_inUse = False\<rparr>"
  let ?c = "replicate CACHE_SIZE \<lparr>ce_lba = 0, ce_data = None, ce_age = 0, ce_valid = False, ce_dirty = False\<rparr>"
  let ?s3 = "s\<lparr>handles := ?hs, cacheAge := 0, cache := ?c\<rparr>"
  have ok3: "cache_ok {l. fs_bad s l} ?s3" by (auto simp: cache_ok_def)
  obtain s4 where "readSector 0 ?s3 = (Some (fs_disk s 0), s4)"
    by (rule readSector_ok [OF ok3, where lba = 0]) (use assms(1) in auto)
  then show ?thesis using assms(2,3) by (simp add: mount_def Let_def heap_alloc_def)
qed

definition demo_disk :: fs where
  "demo_disk = (demo_fs [] (\<lambda>_. [0, 0, 0, 0, 0, 0, 0, 0, 0, 0, 0, 0, 2, 1, 1, 0, 2]))"


end
