(* ===== verification/Fat_Rw.thy ===== *)
theory Fat_Rw
  imports Fat_Inv
begin

text \<open>
  What reading and writing a file mean: the contents of a file are the bytes of the clusters of
  its chain, up to its size.
\<close>

section \<open>Well-formed volumes\<close>

text \<open>
  The table and the data clusters lie outside \<open>X\<close>, sectors have 512 bytes, and a cluster at
  least one sector.
\<close>

definition vol_ok :: "u32 set \<Rightarrow> fs \<Rightarrow> bool" where
  "vol_ok X s \<longleftrightarrow> fat_ok X s \<and> 0 < unat (sectorsPerCluster s) \<and>
     unat (bytesPerCluster s) = unat (sectorsPerCluster s) * SECTOR_SIZE \<and>
     (\<forall>c. 2 \<le> c \<longrightarrow> c < fatEntryCount s \<longrightarrow> cluster_lbas s c \<inter> X = {})"

definition file_bytes :: "fs \<Rightarrow> u32 list \<Rightarrow> u8 list" where
  "file_bytes s cs = concat (map (cluster_data s) cs)"

lemma same_fs_lbas: "same_fs X s s' \<Longrightarrow> cluster_lbas s' c = cluster_lbas s c"
  using layout_fields(3) [of s' s] same_fs_lba [of X s s'] by (simp add: same_fs_def cluster_lbas_def)

lemma same_fs_vol_ok: "same_fs X s s' \<Longrightarrow> vol_ok X s \<Longrightarrow> fat_ok X s' \<Longrightarrow> vol_ok X s'"
  using layout_fields(3,4,9) [of s' s] same_fs_lbas [of X s s'] by (simp add: vol_ok_def same_fs_def)

lemma same_fs_data:
  assumes "same_fs X s s'" "vol_ok X s" "2 \<le> c" "c < fatEntryCount s"
  shows "cluster_data s' c = cluster_data s c"
proof -
  have "fs_disk s' (cluster_lba s c i) = fs_disk s (cluster_lba s c i)" if "i < unat (sectorsPerCluster s)" for i
  proof -
    have "cluster_lba s c i \<in> cluster_lbas s c" using that by (simp add: cluster_lbas_def)
    then show ?thesis using assms by (auto simp: vol_ok_def same_fs_def)
  qed
  moreover have "sectorsPerCluster s' = sectorsPerCluster s" using assms(1) layout_fields(3) [of s' s] by (simp add: same_fs_def)
  ultimately show ?thesis
    unfolding cluster_data_def same_fs_lba [OF assms(1)] by (intro arg_cong [where f = concat] map_cong) auto
qed

lemma length_cluster_data:
  assumes "vol_ok X s" "2 \<le> c" "c < fatEntryCount s"
  shows "length (cluster_data s c) = unat (bytesPerCluster s)"
proof -
  have "length (fs_disk s (cluster_lba s c i)) = SECTOR_SIZE" if "i < unat (sectorsPerCluster s)" for i
  proof -
    have "cluster_lba s c i \<in> cluster_lbas s c" using that by (simp add: cluster_lbas_def)
    then have "cluster_lba s c i \<notin> X" using assms by (auto simp: vol_ok_def)
    then show ?thesis using assms(1) by (simp add: vol_ok_def fat_ok_def sectors_ok_def)
  qed
  then have "map (length \<circ> (\<lambda>i. fs_disk s (cluster_lba s c i))) [0..<unat (sectorsPerCluster s)]
      = map (\<lambda>_. SECTOR_SIZE) [0..<unat (sectorsPerCluster s)]" by simp
  then show ?thesis
    using assms(1) by (simp add: cluster_data_def length_concat vol_ok_def map_replicate_const sum_list_replicate comp_def)
qed

lemma chain_member: "fat_chain s cs \<Longrightarrow> i < length cs \<Longrightarrow> 2 \<le> cs ! i \<and> cs ! i < fatEntryCount s"
  by (simp add: fat_chain_def)

lemma chain_next:
  assumes "fat_chain s cs" "Suc i < length cs"
  shows "fat s (cs ! i) = cs ! Suc i"
proof -
  have "links f cs \<Longrightarrow> Suc i < length cs \<Longrightarrow> f (cs ! i) = cs ! Suc i" for f
    by (induction f cs arbitrary: i rule: links.induct) (auto simp: nth_Cons split: nat.splits)
  then show ?thesis using assms by (simp add: fat_chain_def)
qed

lemma same_fs_chain:
  assumes "same_fs X s s'" "fat_ok X s"
  shows "fat_chain s' cs = fat_chain s cs"
proof -
  have n: "fatEntryCount s' = fatEntryCount s" by (rule fat_ok_count [OF assms(2,1)])
  show ?thesis
  proof (cases "\<forall>c \<in> set cs. 2 \<le> c \<and> c < fatEntryCount s")
    case True
    then have "links (fat s') cs = links (fat s) cs" using same_fs_fat [OF assms] by (intro links_cong) blast
    then show ?thesis using n by (simp add: fat_chain_def)
  qed (auto simp: fat_chain_def n)
qed

lemma below_eoc: "fat_ok X s \<Longrightarrow> c < fatEntryCount s \<Longrightarrow> \<not> FAT_EOC \<le> c"
  by (auto simp: fat_ok_def)

lemma skip_chain:
  assumes "vol_ok X s" "fat_chain s cs" "j + n < length cs"
  obtains s' where "skip_clusters n (cs ! j) s = (cs ! (j + n), s')" "vol_ok X s'" "same_fs X s s'"
  using assms
proof (induction n arbitrary: j s thesis)
  case (Suc n)
  have ok: "fat_ok X s" using Suc.prems(2) by (simp add: vol_ok_def)
  have mem: "cs ! j < fatEntryCount s" "cs ! Suc j < fatEntryCount s"
    using chain_member [OF Suc.prems(3)] Suc.prems(4) by auto
  obtain s1 where g: "fatGet (cs ! j) s = (cs ! Suc j, s1)" "fat_ok X s1" "same_fs X s s1"
    using fatGet_ok [OF ok mem(1)] chain_next [OF Suc.prems(3), of j] Suc.prems(4) by auto
  have v1: "vol_ok X s1" by (rule same_fs_vol_ok [OF g(3) Suc.prems(2) g(2)])
  have c1: "fat_chain s1 cs" using same_fs_chain [OF g(3) ok] Suc.prems(3) by simp
  obtain s2 where "skip_clusters n (cs ! Suc j) s1 = (cs ! (Suc j + n), s2)" "vol_ok X s2" "same_fs X s1 s2"
    using Suc.IH [OF _ v1 c1, of "Suc j"] Suc.prems(4) by auto
  then show ?case using Suc.prems(1) [of s2] g below_eoc [OF ok mem(2)] same_fs_trans [OF g(3)] by simp
qed simp

lemma concat_block:
  assumes "\<forall>b \<in> set bs. length b = B" "q < length bs" "r + n \<le> B"
  shows "take n (drop (q * B + r) (concat bs)) = take n (drop r (bs ! q))"
  using assms
proof (induction bs arbitrary: q)
  case (Cons b bs)
  show ?case
  proof (cases q)
    case 0
    then show ?thesis using Cons.prems by simp
  next
    case (Suc p)
    then show ?thesis using Cons.IH [of p] Cons.prems by (simp add: add.assoc)
  qed
qed simp

lemma length_file_bytes:
  assumes "vol_ok X s" "fat_chain s cs"
  shows "length (file_bytes s cs) = length cs * unat (bytesPerCluster s)"
proof -
  have "map (length \<circ> cluster_data s) cs = map (\<lambda>_. unat (bytesPerCluster s)) cs"
    using length_cluster_data [OF assms(1)] assms(2) by (auto simp: fat_chain_def)
  then show ?thesis by (simp add: file_bytes_def length_concat map_replicate_const sum_list_replicate comp_def)
qed

lemma same_fs_file:
  assumes "same_fs X s s'" "vol_ok X s" "fat_chain s cs"
  shows "file_bytes s' cs = file_bytes s cs"
  unfolding file_bytes_def
  using same_fs_data [OF assms(1,2)] assms(3) by (intro arg_cong [where f = concat] map_cong) (auto simp: fat_chain_def)

lemma file_block:
  assumes "vol_ok X s" "fat_chain s cs" "q < length cs" "r + n \<le> unat (bytesPerCluster s)"
  shows "take n (drop (q * unat (bytesPerCluster s) + r) (file_bytes s cs)) = take n (drop r (cluster_data s (cs ! q)))"
proof -
  have "\<forall>b \<in> set (map (cluster_data s) cs). length b = unat (bytesPerCluster s)"
    using length_cluster_data [OF assms(1)] assms(2) by (auto simp: fat_chain_def)
  from concat_block [OF this, of q r n] show ?thesis using assms(3,4) by (simp add: file_bytes_def)
qed


section \<open>Reading\<close>

lemma unat_minus: "b \<le> a \<Longrightarrow> unat (a - b :: u32) = unat a - unat b"
  by (rule unat_sub)

lemma read_loop_ok:
  assumes v: "vol_ok X s" and ch: "fat_chain s cs" and buf: "length buf = unat (bytesPerCluster s)"
    and T: "unat offset + unat toRead \<le> length (file_bytes s cs)" "unat offset + unat toRead < 2 ^ 32"
    and k: "unat k \<le> unat toRead"
    and out: "out = take (unat k) (drop (unat offset) (file_bytes s cs))"
  shows "\<exists>s'. read_loop (hd cs) offset toRead k out buf s =
    Some (toRead, take (unat toRead) (drop (unat offset) (file_bytes s cs)), s') \<and> vol_ok X s' \<and> same_fs X s s'"
  using v ch buf T k out
proof (induction "unat toRead - unat k" arbitrary: k out buf s rule: less_induct)
  case less
  let ?B = "unat (bytesPerCluster s)" and ?F = "file_bytes s cs" and ?O = "unat offset" and ?T = "unat toRead"
  have ok: "fat_ok X s" and B: "0 < ?B" "?B = unat (sectorsPerCluster s) * SECTOR_SIZE"
    using less.prems(1) by (auto simp: vol_ok_def SECTOR_SIZE_def)
  show ?case
  proof (cases "unat k = ?T")
    case True
    then have "k = toRead" by (simp add: word_unat_eq_iff)
    then have "read_loop (hd cs) offset toRead k out buf s = Some (toRead, out, s)" by (simp add: read_loop.simps)
    then show ?thesis using less.prems(1,7) True by auto
  next
    case False
    then have lt: "unat k < ?T" using less.prems(6) by simp
    define p where "p = ?O + unat k"
    define r where "r = p mod ?B"
    define q where "q = p div ?B"
    have pF: "p < length ?F" using lt less.prems(4) by (simp add: p_def)
    have lenF: "length ?F = length cs * ?B" by (rule length_file_bytes [OF less.prems(1,2)])
    have q: "q < length cs" using pF lenF B by (simp add: q_def less_mult_imp_div_less)
    have pq: "p = q * ?B + r" "r < ?B" unfolding q_def r_def using B(1) by (simp_all only: div_mult_mod_eq mod_less_divisor)
    have up: "unat (offset + k) = p" using lt less.prems(5) by (simp add: p_def unat_word_ariths)
    have uq: "unat ((offset + k) div bytesPerCluster s) = q" "unat ((offset + k) mod bytesPerCluster s) = r"
      by (simp_all add: unat_div unat_mod up q_def r_def)
    have bpc0: "bytesPerCluster s \<noteq> 0" using B by auto
    have "cs ! 0 = hd cs" using q by (cases cs) auto
    then obtain s1 where cl: "clusterAtOffset (hd cs) (offset + k) s = Some (cs ! q, s1)" "vol_ok X s1" "same_fs X s s1"
      using skip_chain [OF less.prems(1,2), of 0 q] q bpc0 by (auto simp: clusterAtOffset_def uq)
    have mem: "2 \<le> cs ! q" "cs ! q < fatEntryCount s" using chain_member [OF less.prems(2) q] by auto
    have f1: "fat_ok X s1" "cache_ok X s1" "sectors_ok X s1" using cl(2) by (auto simp: vol_ok_def fat_ok_def)
    have lay1: "layout s1 = layout s" using cl(3) by (simp add: same_fs_def)
    note lf1 = layout_fields [OF lay1]
    have mem1: "cs ! q < fatEntryCount s1" using mem lf1 by simp
    have "cluster_lbas s1 (cs ! q) \<inter> X = {}" using cl(2) mem(1) mem1 by (auto simp: vol_ok_def)
    moreover have "length buf = unat (sectorsPerCluster s1) * SECTOR_SIZE" using less.prems(3) B lf1 by simp
    ultimately obtain s2 where rc: "readCluster (cs ! q) buf s1 = (True, cluster_data s1 (cs ! q), s2)" "cache_ok X s2" "same_fs X s1 s2"
      by (rule readCluster_ok [OF f1(2,3)])
    have cd: "cluster_data s1 (cs ! q) = cluster_data s (cs ! q)" by (rule same_fs_data [OF cl(3) less.prems(1) mem])
    have s2: "fat_ok X s2" "same_fs X s s2" "vol_ok X s2"
      using same_fs_fat_ok [OF rc(3) f1(1) rc(2)] same_fs_trans [OF cl(3) rc(3)]
        same_fs_vol_ok [OF same_fs_trans [OF cl(3) rc(3)] less.prems(1)] by auto
    have lay2: "layout s2 = layout s" using s2(2) by (simp add: same_fs_def)
    note lf2 = layout_fields [OF lay2]
    define off where "off = (offset + k) mod bytesPerCluster s"
    define chunk where "chunk = (if bytesPerCluster s - off < toRead - k then bytesPerCluster s - off else toRead - k)"
    have uoff: "unat off = r" by (simp add: off_def uq)
    have u1: "unat (bytesPerCluster s - off) = ?B - r" using uoff pq(2) by (simp add: unat_minus word_le_nat_alt)
    have u2: "unat (toRead - k) = ?T - unat k" using lt by (simp add: unat_minus word_le_nat_alt)
    have uc: "unat chunk = min (?B - r) (?T - unat k)" by (simp add: chunk_def word_less_nat_alt u1 u2 min_def)
    have ck: "0 < unat chunk" "r + unat chunk \<le> ?B" "unat k + unat chunk \<le> ?T" using uc pq(2) lt by auto
    have uk: "unat (k + chunk) = unat k + unat chunk" using ck(3) unat_lt_2p32 [of toRead] by (simp add: unat_word_ariths)
    have not_eoc: "cs ! q \<noteq> 0" "\<not> FAT_EOC \<le> cs ! q" using mem below_eoc [OF ok mem(2)] by auto
    have step: "read_loop (hd cs) offset toRead k out buf s =
      read_loop (hd cs) offset toRead (k + chunk) (out @ buf_get (cluster_data s (cs ! q)) r (unat chunk)) (cluster_data s (cs ! q)) s2"
      using lt cl(1) rc(1) not_eoc lf2(4) uoff
      by (simp add: read_loop.simps [of "hd cs" offset toRead k] word_less_nat_alt Let_def cd off_def [symmetric] chunk_def)
    have "buf_get (cluster_data s (cs ! q)) r (unat chunk) = take (unat chunk) (drop p ?F)"
      using file_block [OF less.prems(1,2) q ck(2)] by (simp add: buf_get_def pq(1))
    moreover have "drop p ?F = drop (unat k) (drop ?O ?F)" by (simp add: p_def add.commute)
    ultimately have "out @ buf_get (cluster_data s (cs ! q)) r (unat chunk) = take (unat k + unat chunk) (drop ?O ?F)"
      by (simp only: take_add less.prems(7))
    then have out': "out @ buf_get (cluster_data s (cs ! q)) r (unat chunk) = take (unat (k + chunk)) (drop ?O (file_bytes s2 cs))"
      using same_fs_file [OF s2(2) less.prems(1,2)] uk by simp
    have ch2: "fat_chain s2 cs" using same_fs_chain [OF s2(2) ok] less.prems(2) by simp
    have F2: "file_bytes s2 cs = ?F" by (rule same_fs_file [OF s2(2) less.prems(1,2)])
    have lb: "length (cluster_data s (cs ! q)) = unat (bytesPerCluster s2)"
      using length_cluster_data [OF less.prems(1) mem] lf2(4) by simp
    have dec: "?T - unat (k + chunk) < ?T - unat k" and k2: "unat (k + chunk) \<le> ?T" using uk ck lt by linarith+
    have T2: "?O + ?T \<le> length (file_bytes s2 cs)" using less.prems(4) F2 by simp
    obtain s' where "read_loop (hd cs) offset toRead (k + chunk) (out @ buf_get (cluster_data s (cs ! q)) r (unat chunk)) (cluster_data s (cs ! q)) s2
        = Some (toRead, take ?T (drop ?O ?F), s')" "vol_ok X s'" "same_fs X s2 s'"
      using less.hyps [OF dec s2(3) ch2 lb T2 less.prems(5) k2 out'] unfolding F2 by blast
    then show ?thesis using step same_fs_trans [OF s2(2)] by auto
  qed
qed


text \<open>The file behind a handle: a well-formed chain that is long enough for its size.\<close>

definition file_ok :: "fs \<Rightarrow> file_handle \<Rightarrow> u32 list \<Rightarrow> bool" where
  "file_ok s fh cs \<longleftrightarrow> fat_chain s cs \<and> hd cs = fh_startCluster fh \<and>
     unat (fh_size fh) \<le> length cs * unat (bytesPerCluster s)"

definition contents :: "fs \<Rightarrow> file_handle \<Rightarrow> u32 list \<Rightarrow> u8 list" where
  "contents s fh cs = take (unat (fh_size fh)) (file_bytes s cs)"

lemma read_contents:
  assumes "vol_ok X s" "fs_allocs s = []" "handle_of h s = Some fh" "file_ok s fh cs"
  shows "\<exists>s'. fs_read h off len s = Some (of_nat (length (take (unat len) (drop (unat off) (contents s fh cs)))),
      take (unat len) (drop (unat off) (contents s fh cs)), s') \<and> same_fs X s s' \<and> vol_ok X s'"
proof -
  let ?F = "file_bytes s cs" and ?z = "unat (fh_size fh)"
  have ch: "fat_chain s cs" and hd: "hd cs = fh_startCluster fh" and z: "?z \<le> length ?F"
    using assms(4) length_file_bytes [OF assms(1)] by (auto simp: file_ok_def)
  show ?thesis
  proof (cases "fh_size fh \<le> off")
    case True
    then have "?z \<le> unat off" by (simp add: word_le_nat_alt)
    then have "drop (unat off) (contents s fh cs) = []" by (simp add: contents_def)
    then show ?thesis using assms(1,3) True by (simp add: fs_read_def)
  next
    case False
    define a where "a = fh_size fh - off"
    define n where "n = (if len < a then len else a)"
    have o: "unat off < ?z" using False by (simp add: word_le_nat_alt)
    then have ua: "unat a = ?z - unat off" by (simp add: a_def unat_minus word_le_nat_alt)
    have un: "unat n = min (unat len) (?z - unat off)" by (simp add: n_def word_less_nat_alt ua min_def)
    have sz: "unat off + unat n \<le> length ?F" "unat off + unat n < 2 ^ 32"
      using un o z unat_lt_2p32 [of "fh_size fh"] by auto
    have "take (unat n) (drop (unat off) ?F) = take (unat len) (drop (unat off) (contents s fh cs))"
      by (simp add: un contents_def drop_take take_take min.commute)
    moreover have "length (take (unat n) (drop (unat off) ?F)) = unat n" using sz(1) by simp
    moreover obtain s' where "read_loop (hd cs) off n 0 [] (replicate (unat (bytesPerCluster s)) 0) s =
        Some (n, take (unat n) (drop (unat off) ?F), s')" "vol_ok X s'" "same_fs X s s'"
      using read_loop_ok [OF assms(1) ch _ sz, of "replicate (unat (bytesPerCluster s)) 0" 0 "[]"] by auto
    moreover have "fs_read h off len s = read_loop (hd cs) off n 0 [] (replicate (unat (bytesPerCluster s)) 0) s"
      using assms(2,3) False hd by (simp add: fs_read_def Let_def heap_alloc_def a_def n_def)
    ultimately show ?thesis by (metis of_nat_unat ucast_id)
  qed
qed


lemma vol_ok_frame [simp]:
  "vol_ok X (s\<lparr>handles := hs\<rparr>) = vol_ok X s" "vol_ok X (s\<lparr>fs_allocs := a\<rparr>) = vol_ok X s"
  by (simp_all add: vol_ok_def fat_ok_def cache_ok_def sectors_ok_def fat_sector_def cluster_lbas_def cluster_lba_def
      clusterToLba_def)

lemma demo_vol_ok: "vol_ok {l. l \<ge> 64} (demo_fs table sectors)"
proof -
  have "cluster_lbas (demo_fs table sectors) c \<inter> {l. l \<ge> 64} = {}" if "c < 10" "2 \<le> c" for c
  proof -
    have "unat (3 + (c - 2) :: u32) = unat c + 1"
      using that by (simp add: word_less_nat_alt word_le_nat_alt unat_word_ariths unat_minus)
    then show ?thesis using that
      by (auto simp: cluster_lbas_def cluster_lba_def clusterToLba_def demo_fs_def word_le_nat_alt word_less_nat_alt)
  qed
  moreover have "fatEntryCount (demo_fs table sectors) = 10" "sectorsPerCluster (demo_fs table sectors) = 1"
    "bytesPerCluster (demo_fs table sectors) = 512" by (simp_all add: demo_fs_def)
  ultimately show ?thesis using demo_fs_ok [of table sectors] by (simp add: vol_ok_def SECTOR_SIZE_def)
qed

text \<open>A file of five bytes in cluster 3, which is sector 4.\<close>

definition demo_file :: file_handle where
  "demo_file = \<lparr>fh_startCluster = 3, fh_size = 5, fh_dirCluster = 2, fh_dirOffset = 0, fh_isDir = False, fh_inUse = True\<rparr>"

definition demo_vol :: fs where
  "demo_vol = (demo_fs [0, 0, 0x0FFFFFFF, 0x0FFFFFFF] (\<lambda>l. if l = 4 then [104, 101, 108, 108, 111] else []))
     \<lparr>handles := [demo_file]\<rparr>"

lemma demo_vol_facts: "vol_ok {l. l \<ge> 64} demo_vol" "fs_allocs demo_vol = []" "handle_of 1 demo_vol = Some demo_file"
  "fatEntryCount demo_vol = 10" "bytesPerCluster demo_vol = 512"
  by (simp_all add: demo_vol_def demo_vol_ok handle_of_def MAX_HANDLES_def demo_file_def Let_def)
    (simp_all add: demo_fs_def)

lemma demo_vol_fat: "c < 10 \<Longrightarrow> fat demo_vol c = entry_of c (take 512 (concat (map bytes32 [0, 0, 0x0FFFFFFF, 0x0FFFFFFF]) @ replicate 512 0)) AND FAT_ENTRY_MASK"
  using demo_fat [of c "[0, 0, 0x0FFFFFFF, 0x0FFFFFFF]"] by (simp add: demo_vol_def fat_def fat_sector_def)

lemma demo_vol_file: "file_ok demo_vol demo_file [3]"
proof -
  have "fat demo_vol 3 = 0x0FFFFFFF"
    by (simp add: demo_vol_fat entry_of_def fat_offset_def buf_get_def bytes32_def byte_of_def le32_def FAT_ENTRY_MASK_def)
  then show ?thesis
    by (simp add: file_ok_def fat_chain_def demo_vol_facts(4,5) demo_file_def FAT_EOC_def)
qed

lemma demo_vol_contents: "contents demo_vol demo_file [3] = [104, 101, 108, 108, 111]"
  by (simp add: contents_def demo_file_def file_bytes_def cluster_data_def cluster_lba_def clusterToLba_def demo_vol_def)
    (simp add: demo_fs_def)

text \<open>
  C31. Reading an open file at any offset and for any length, with fragments of whole clusters
  at both ends, returns exactly that slice of the file's contents, cut at its end, and its
  length (0 past the end), and changes no sector of the drive.
\<close>

theorem read_file:
  assumes "vol_ok X s" "fs_allocs s = []" "handle_of h s = Some fh" "file_ok s fh cs"
  shows "\<exists>s'. fs_read h off len s = Some (of_nat (length (take (unat len) (drop (unat off) (contents s fh cs)))),
      take (unat len) (drop (unat off) (contents s fh cs)), s') \<and> same_fs X s s' \<and> vol_ok X s'"
  by (rule read_contents [OF assms])

theorem read_file_witness:
  "\<exists>s'. fs_read 1 1 3 demo_vol = Some (3, [101, 108, 108], s')"
  using read_file [OF demo_vol_facts(1,2,3) demo_vol_file, of 1 3] by (simp add: demo_vol_contents) blast

end
