(* ===== verification/Fat_Write.thy ===== *)
theory Fat_Write
  imports Fat_Rw
begin

text \<open>
  Writing a file.  The volume is seen as two functions, the links of the table and the bytes of
  the clusters; every operation of the layers below is a step on them, and the write loop is
  proved on that view.
\<close>

section \<open>The volume as links and clusters\<close>

text \<open>Table and data sectors are apart, and the clusters from each other.\<close>

definition geom_ok :: "fs \<Rightarrow> bool" where
  "geom_ok L \<longleftrightarrow> (\<forall>c d. 2 \<le> c \<longrightarrow> c < fatEntryCount L \<longrightarrow> d < fatEntryCount L \<longrightarrow>
     fat_sector d L \<notin> cluster_lbas L c \<and> (2 \<le> d \<longrightarrow> c \<noteq> d \<longrightarrow> cluster_lbas L c \<inter> cluster_lbas L d = {}))"

definition is_cluster :: "fs \<Rightarrow> u32 \<Rightarrow> bool" where
  "is_cluster L c \<longleftrightarrow> 2 \<le> c \<and> c < fatEntryCount L"

definition volume :: "u32 set \<Rightarrow> fs \<Rightarrow> file_handle list \<Rightarrow> (u32 \<Rightarrow> u32) \<Rightarrow> (u32 \<Rightarrow> u8 list) \<Rightarrow> fs \<Rightarrow> bool" where
  "volume X L H F D s \<longleftrightarrow> vol_ok X s \<and> geom_ok L \<and> layout s = L \<and> handles s = H \<and>
     (\<forall>c. c < fatEntryCount L \<longrightarrow> fat s c = F c) \<and> (\<forall>c. is_cluster L c \<longrightarrow> cluster_data s c = D c)"

lemma layout_idem [simp]: "layout (layout s) = layout s"
  by (simp add: layout_def)

lemma layout_lbas: "cluster_lbas (layout s) c = cluster_lbas s c" "fat_sector c (layout s) = fat_sector c s"
  by (simp_all add: layout_def cluster_lbas_def cluster_lba_def clusterToLba_def fat_sector_def)

lemma volumeD:
  assumes "volume X L H F D s"
  shows "vol_ok X s" "fat_ok X s" "cache_ok X s" "sectors_ok X s" "layout s = L" "handles s = H" "geom_ok L"
    "fatEntryCount s = fatEntryCount L" "bytesPerCluster s = bytesPerCluster L" "sectorsPerCluster s = sectorsPerCluster L"
    "\<And>c. c < fatEntryCount L \<Longrightarrow> fat s c = F c" "\<And>c. is_cluster L c \<Longrightarrow> cluster_data s c = D c"
    "\<And>c. cluster_lbas s c = cluster_lbas L c" "\<And>c. fat_sector c s = fat_sector c L"
    "unat (bytesPerCluster L) = unat (sectorsPerCluster L) * SECTOR_SIZE" "0 < unat (bytesPerCluster L)"
    "fatEntryCount L \<le> FAT_EOC"
proof -
  from assms show "vol_ok X s" "layout s = L" "handles s = H" "geom_ok L"
    "\<And>c. c < fatEntryCount L \<Longrightarrow> fat s c = F c" "\<And>c. is_cluster L c \<Longrightarrow> cluster_data s c = D c"
    by (auto simp: volume_def)
  then show "fat_ok X s" "cache_ok X s" "sectors_ok X s" by (auto simp: vol_ok_def fat_ok_def)
  have L: "layout s = layout L" using \<open>layout s = L\<close> by (metis layout_idem)
  note lf = layout_fields [OF L]
  show "fatEntryCount s = fatEntryCount L" "bytesPerCluster s = bytesPerCluster L" "sectorsPerCluster s = sectorsPerCluster L"
    by (rule lf)+
  show "\<And>c. cluster_lbas s c = cluster_lbas L c" "\<And>c. fat_sector c s = fat_sector c L"
    using lf by (simp_all add: cluster_lbas_def cluster_lba_def clusterToLba_def fat_sector_def)
  show "unat (bytesPerCluster L) = unat (sectorsPerCluster L) * SECTOR_SIZE" "0 < unat (bytesPerCluster L)"
    "fatEntryCount L \<le> FAT_EOC"
    using \<open>vol_ok X s\<close> lf by (auto simp: vol_ok_def fat_ok_def SECTOR_SIZE_def)
qed

lemma cluster_data_cong:
  assumes "layout s' = layout s" "\<And>l. l \<in> cluster_lbas s c \<Longrightarrow> fs_disk s' l = fs_disk s l"
  shows "cluster_data s' c = cluster_data s c"
proof -
  note lf = layout_fields [OF assms(1)]
  have lba: "cluster_lba s' c i = cluster_lba s c i" for i using lf by (simp add: cluster_lba_def clusterToLba_def)
  show ?thesis
    unfolding cluster_data_def lba lf
    by (intro arg_cong [where f = concat] map_cong) (auto intro!: assms(2) simp: cluster_lbas_def)
qed

text \<open>A step that changes no sector outside \<open>X\<close>.\<close>

lemma volume_same:
  assumes v: "volume X L H F D s" and s': "same_fs X s s'" "cache_ok X s'"
  shows "volume X L H F D s'"
proof -
  note d = volumeD [OF v]
  have f: "fat_ok X s'" by (rule same_fs_fat_ok [OF s'(1) d(2) s'(2)])
  have "fat s' c = F c" if "c < fatEntryCount L" for c
    using same_fs_fat [OF s'(1) d(2)] d(8,11) that by simp
  moreover have "cluster_data s' c = D c" if "is_cluster L c" for c
    using same_fs_data [OF s'(1) d(1)] d(8,12) that by (simp add: is_cluster_def)
  ultimately show ?thesis
    using v s'(1) same_fs_vol_ok [OF s'(1) d(1) f] by (simp add: volume_def same_fs_def)
qed

lemma volume_fatGet:
  assumes "volume X L H F D s" "c < fatEntryCount L"
  obtains s' where "fatGet c s = (F c, s')" "volume X L H F D s'"
proof -
  note d = volumeD [OF assms(1)]
  obtain s' where "fatGet c s = (fat s c, s')" "fat_ok X s'" "same_fs X s s'"
    using fatGet_ok [OF d(2), of c] d(8) assms(2) by auto
  then show ?thesis using that volume_same [OF assms(1)] d(11) [OF assms(2)] by (auto simp: fat_ok_def)
qed

lemma volume_fatSet:
  assumes v: "volume X L H F D s" and c: "c < fatEntryCount L"
  shows "volume X L H (F(c := v' AND FAT_ENTRY_MASK)) D (fatSet c v' s)"
proof -
  note d = volumeD [OF v]
  let ?s = "fatSet c v' s"
  have c': "c < fatEntryCount s" using c d(8) by simp
  note k = fatSet_keeps [OF d(3)]
  have f: "fat_ok X ?s" by (rule fatSet_ok(1) [OF d(2) c'])
  have lay: "layout ?s = layout s" by (rule k(2))
  note lf = layout_fields [OF lay]
  have data: "cluster_data ?s e = cluster_data s e" if e: "is_cluster L e" for e
  proof -
    have "fs_disk ?s l = fs_disk s l" if l: "l \<in> cluster_lbas s e" for l
    proof (rule k(4))
      show "l \<notin> X" using l e d(1,8) by (auto simp: vol_ok_def is_cluster_def)
      show "l \<noteq> fat_sector c s" using l e c d(7,13,14) by (auto simp: geom_ok_def is_cluster_def)
    qed
    then show ?thesis by (rule cluster_data_cong [OF lay])
  qed
  have "vol_ok X ?s"
    using d(1) f lf by (auto simp: vol_ok_def cluster_lbas_def cluster_lba_def clusterToLba_def)
  moreover have "fat ?s e = (F(c := v' AND FAT_ENTRY_MASK)) e" if "e < fatEntryCount L" for e
    using fatSet_ok(2) [OF d(2) c', of e v'] that d(8,11) by simp
  ultimately show ?thesis using v k(2,3) data d(12) by (simp add: volume_def)
qed


lemma volume_readCluster:
  assumes v: "volume X L H F D s" and c: "is_cluster L c" and buf: "length buf = unat (bytesPerCluster L)"
  obtains s' where "readCluster c buf s = (True, D c, s')" "volume X L H F D s'"
proof -
  note d = volumeD [OF v]
  have "cluster_lbas s c \<inter> X = {}" using d(1,8) c by (auto simp: vol_ok_def is_cluster_def)
  moreover have "length buf = unat (sectorsPerCluster s) * SECTOR_SIZE" using buf d(10,15) by simp
  ultimately obtain s' where "readCluster c buf s = (True, cluster_data s c, s')" "cache_ok X s'" "same_fs X s s'"
    by (rule readCluster_ok [OF d(3,4)])
  then show ?thesis using that volume_same [OF v] d(12) [OF c] by simp
qed

lemma volume_length: "volume X L H F D s \<Longrightarrow> is_cluster L c \<Longrightarrow> length (D c) = unat (bytesPerCluster L)"
  using length_cluster_data [of X s c] volumeD(1,8,9,12) [of X L H F D s] by (simp add: is_cluster_def)

lemma volume_writeCluster:
  assumes v: "volume X L H F D s" and c: "is_cluster L c" and buf: "length buf = unat (bytesPerCluster L)"
  shows "volume X L H F (D(c := buf)) (snd (writeCluster c buf s))"
proof -
  note d = volumeD [OF v]
  have X: "cluster_lbas s c \<inter> X = {}" using d(1,8) c by (auto simp: vol_ok_def is_cluster_def)
  have len: "length buf = unat (sectorsPerCluster s) * SECTOR_SIZE" using buf d(10,15) by simp
  obtain s' where w: "writeCluster c buf s = (True, s')" "cache_ok X s'" "layout s' = layout s" "handles s' = handles s"
    and dk: "\<And>l. l \<notin> X \<Longrightarrow> l \<notin> cluster_lbas s c \<Longrightarrow> fs_disk s' l = fs_disk s l"
    and cd: "cluster_data s' c = buf" and so: "sectors_ok X s \<Longrightarrow> sectors_ok X s'"
    by (rule writeCluster_ok [OF d(3) X len]) blast
  note lf = layout_fields [OF w(3)]
  have sec: "fat_sector e s' = fat_sector e s" for e using lf by (simp add: fat_sector_def)
  have ft: "fat s' e = fat s e" if e: "e < fatEntryCount L" for e
  proof -
    have "fat_sector e s \<notin> X" using d(2,8) e by (simp add: fat_ok_def)
    moreover have "fat_sector e s \<notin> cluster_lbas s c" using c e d(7,13,14) by (auto simp: geom_ok_def is_cluster_def)
    ultimately show ?thesis using dk sec by (simp add: fat_def)
  qed
  have data: "cluster_data s' e = cluster_data s e" if e: "is_cluster L e" "e \<noteq> c" for e
  proof (rule cluster_data_cong [OF w(3)])
    fix l
    assume l: "l \<in> cluster_lbas s e"
    have "l \<notin> X" using l e d(1,8) by (auto simp: vol_ok_def is_cluster_def)
    moreover have "cluster_lbas s e \<inter> cluster_lbas s c = {}" using c e d(7,13) by (simp add: geom_ok_def is_cluster_def)
    ultimately show "fs_disk s' l = fs_disk s l" using dk l by blast
  qed
  have "vol_ok X s'"
    using d(1,4) w(2) so lf sec by (auto simp: vol_ok_def fat_ok_def cluster_lbas_def cluster_lba_def clusterToLba_def)
  then show ?thesis using v w ft data cd d(11,12) by (auto simp: volume_def)
qed

lemma volume_alloc:
  assumes v: "volume X L H F D s"
  obtains c s' where "allocateCluster s = (c, s')"
    "if c = 0 then (\<forall>j. is_cluster L j \<longrightarrow> F j \<noteq> FAT_FREE) \<and> volume X L H F D s'
     else is_cluster L c \<and> F c = FAT_FREE \<and> volume X L H (F(c := FAT_EOC)) D s'"
proof -
  note d = volumeD [OF v]
  obtain c s' where r: "allocateCluster s = (c, s')" "fat_ok X s'"
    "if c = 0 then (\<forall>j. 2 \<le> j \<longrightarrow> j < fatEntryCount s \<longrightarrow> fat s j \<noteq> FAT_FREE) \<and> same_fs X s s'
     else 2 \<le> c \<and> c < fatEntryCount s \<and> fat s c = FAT_FREE \<and>
       (\<exists>s1. same_fs X s s1 \<and> fat_ok X s1 \<and> s' = fatSet c FAT_EOC s1)"
  proof -
    have "\<forall>j :: u32. 2 \<le> j \<longrightarrow> j < 2 \<longrightarrow> fat s j \<noteq> FAT_FREE" using leD by blast
    from alloc_from_ok [OF d(2) refl this order_refl] that show ?thesis unfolding allocateCluster_def by (metis (no_types, lifting))
  qed
  show ?thesis
  proof (cases "c = 0")
    case True
    then have "volume X L H F D s'" using r by (intro volume_same [OF v]) (auto simp: fat_ok_def)
    then show ?thesis using that [OF r(1)] True r(3) d(8,11) by (simp add: is_cluster_def)
  next
    case False
    then obtain s1 where s1: "same_fs X s s1" "fat_ok X s1" "s' = fatSet c FAT_EOC s1" and c: "is_cluster L c" "fat s c = FAT_FREE"
      using r(3) d(8) by (auto simp: is_cluster_def)
    have v1: "volume X L H F D s1" using s1 by (intro volume_same [OF v]) (auto simp: fat_ok_def)
    have "volume X L H (F(c := FAT_EOC AND FAT_ENTRY_MASK)) D s'"
      unfolding s1(3) by (rule volume_fatSet [OF v1]) (use c in \<open>simp add: is_cluster_def\<close>)
    then show ?thesis using that [OF r(1)] False c d(11) by (simp add: is_cluster_def FAT_EOC_def FAT_ENTRY_MASK_def)
  qed
qed

text \<open>The mirror is in \<open>X\<close>: mirroring the table is not seen.\<close>

lemma volume_flush:
  assumes v: "volume X L H F D s" and m: "mirror L \<subseteq> X"
  shows "volume X L H F D (flushFat s)"
proof -
  note d = volumeD [OF v]
  have L: "fatStartSector s = fatStartSector L" "fatSize s = fatSize L"
    using layout_fields(5,6) [of s L] d(5) by (metis layout_idem)+
  have step: "cache_ok X (mirror_entry i t) \<and> same_fs X s (mirror_entry i t)" if t: "cache_ok X t" "same_fs X s t" for i t
  proof -
    have lt: "layout t = layout s" using t(2) by (simp add: same_fs_def)
    note lf = layout_fields [OF lt]
    let ?l = "ce_lba (cache t ! i)"
    show ?thesis
    proof (cases "fatStartSector t \<le> ?l \<and> ?l < fatStartSector t + fatSize t")
      case True
      then have "?l + fatSize t \<in> mirror L" using lf L by (simp add: mirror_def)
      then have "?l + fatSize t \<in> X" using m by blast
      then have "cache_ok X (snd (ata_writeSector (?l + fatSize t) b t)) \<and> same_fs X t (snd (ata_writeSector (?l + fatSize t) b t))" for b
        using t(1) by (auto simp: cache_ok_def ata_writeSector_def same_fs_def layout_def)
      then show ?thesis using t same_fs_trans [OF t(2)] by (simp add: mirror_entry_def Let_def)
    next
      case False
      then have "mirror_entry i t = t" by (auto simp: mirror_entry_def Let_def)
      then show ?thesis using t by simp
    qed
  qed
  have "cache_ok X t \<Longrightarrow> same_fs X s t \<Longrightarrow> cache_ok X (fold mirror_entry xs t) \<and> same_fs X s (fold mirror_entry xs t)" for xs t
    by (induction xs arbitrary: t) (use step in auto)
  then have "cache_ok X (flushFat s) \<and> same_fs X s (flushFat s)" using d(3) by (simp add: flushFat_def)
  then show ?thesis using volume_same [OF v] by blast
qed

lemma volume_set_handle:
  "volume X L H F D s \<Longrightarrow> volume X L (H[unat (h - 1) := f (H ! unat (h - 1))]) F D (set_handle h f s)"
  by (auto simp: volume_def set_handle_def Let_def layout_def fat_def fat_sector_def cluster_data_def cluster_lba_def
      clusterToLba_def)


section \<open>Chains\<close>

definition chain_in :: "fs \<Rightarrow> (u32 \<Rightarrow> u32) \<Rightarrow> u32 list \<Rightarrow> bool" where
  "chain_in L F cs \<longleftrightarrow> cs \<noteq> [] \<and> distinct cs \<and> (\<forall>c \<in> set cs. is_cluster L c) \<and> links F cs"

lemma volume_chain:
  assumes "volume X L H F D s"
  shows "fat_chain s cs \<longleftrightarrow> chain_in L F cs"
proof (cases "\<forall>c \<in> set cs. is_cluster L c")
  case True
  then have "links (fat s) cs = links F cs"
    using volumeD(11) [OF assms] by (intro links_cong) (auto simp: is_cluster_def)
  then show ?thesis using volumeD(8) [OF assms] by (simp add: fat_chain_def chain_in_def is_cluster_def)
next
  case False
  then show ?thesis using volumeD(8) [OF assms] by (auto simp: fat_chain_def chain_in_def is_cluster_def)
qed

lemma chain_in_Cons:
  "chain_in L F (c # d # cs) \<longleftrightarrow> c \<notin> set (d # cs) \<and> is_cluster L c \<and> F c = d \<and> chain_in L F (d # cs)"
  by (auto simp: chain_in_def)

lemma chain_in_cong: "(\<And>c. c \<in> set cs \<Longrightarrow> F c = G c) \<Longrightarrow> chain_in L F cs = chain_in L G cs"
  using links_cong [of cs F G] by (simp add: chain_in_def)

lemma links_append:
  "distinct xs \<Longrightarrow> xs \<noteq> [] \<Longrightarrow>
    links f (xs @ y # ys) \<longleftrightarrow> links (f(last xs := FAT_EOC)) xs \<and> f (last xs) = y \<and> links f (y # ys)"
proof (induction xs rule: induct_list012)
  case (3 x x' xs)
  let ?l = "last (x' # xs)"
  have x: "x \<noteq> ?l" using "3.prems"(1) by (metis distinct.simps(2) last_in_set list.distinct(1))
  have "links f ((x # x' # xs) @ y # ys) \<longleftrightarrow> f x = x' \<and> links f ((x' # xs) @ y # ys)" by simp
  also have "\<dots> \<longleftrightarrow> f x = x' \<and> links (f(?l := FAT_EOC)) (x' # xs) \<and> f ?l = y \<and> links f (y # ys)"
    using "3.IH"(2) "3.prems"(1) by (simp add: fun_upd_def)
  also have "\<dots> \<longleftrightarrow> links (f(?l := FAT_EOC)) (x # x' # xs) \<and> f ?l = y \<and> links f (y # ys)"
    using x by simp
  finally show ?case unfolding last_ConsR [of "x' # xs" x, OF list.distinct(2)] .
qed simp_all

text \<open>Cutting a chain: its front with a new end mark, and its back.\<close>

lemma chain_in_append:
  "chain_in L F (xs @ y # ys) \<longleftrightarrow>
    chain_in L (F(last xs := FAT_EOC)) xs \<and> F (last xs) = y \<and> chain_in L F (y # ys) \<and> set xs \<inter> set (y # ys) = {}"
  if "xs \<noteq> []"
proof (cases "distinct xs")
  case True
  then show ?thesis using links_append [OF True that, of F y ys] that by (auto simp: chain_in_def)
qed (auto simp: chain_in_def)

lemma chain_in_used: "chain_in L F cs \<Longrightarrow> c \<in> set cs \<Longrightarrow> F c \<noteq> FAT_FREE"
proof (induction cs rule: induct_list012)
  case (2 x)
  then show ?case by (auto simp: chain_in_def FAT_EOC_def FAT_FREE_def)
next
  case (3 x y zs)
  then have "y \<noteq> 0" by (auto simp: chain_in_Cons chain_in_def is_cluster_def)
  then show ?case using 3 by (auto simp: chain_in_Cons FAT_FREE_def)
qed (simp add: chain_in_def)

lemma chain_in_last: "chain_in L F cs \<Longrightarrow> FAT_EOC \<le> F (last cs)"
  by (induction cs rule: induct_list012) (auto simp: chain_in_def)

lemma volume_freeChain:
  assumes "volume X L H F D s" "chain_in L F (c # cs)"
  obtains s' where "freeChain c s = Some s'" "volume X L H (\<lambda>d. if d \<in> set (c # cs) then FAT_FREE else F d) D s'"
  using assms
proof (induction cs arbitrary: c s F thesis)
  case Nil
  have c: "is_cluster L c" "FAT_EOC \<le> F c" using Nil.prems(3) by (simp_all add: chain_in_def)
  obtain s1 where g: "fatGet c s = (F c, s1)" "volume X L H F D s1"
    by (rule volume_fatGet [OF Nil.prems(2)]) (use c in \<open>auto simp: is_cluster_def\<close>)
  have "freeChain c s = Some (fatSet c FAT_FREE s1)"
    using c g(1) volumeD(8) [OF Nil.prems(2)] by (simp add: freeChain.simps [of c s] is_cluster_def)
  moreover have "volume X L H (F(c := FAT_FREE AND FAT_ENTRY_MASK)) D (fatSet c FAT_FREE s1)"
    by (rule volume_fatSet [OF g(2)]) (use c in \<open>simp add: is_cluster_def\<close>)
  moreover have "F(c := FAT_FREE AND FAT_ENTRY_MASK) = (\<lambda>d. if d \<in> set [c] then FAT_FREE else F d)"
    by (auto simp: FAT_FREE_def)
  ultimately show ?case using Nil.prems(1) by metis
next
  case (Cons d cs)
  then have c: "c \<notin> set (d # cs)" "is_cluster L c" "F c = d" "chain_in L F (d # cs)" unfolding chain_in_Cons by blast+
  obtain s1 where g: "fatGet c s = (d, s1)" "volume X L H F D s1"
    by (rule volume_fatGet [OF Cons.prems(2)]) (use c in \<open>auto simp: is_cluster_def\<close>)
  let ?F = "F(c := FAT_FREE AND FAT_ENTRY_MASK)"
  have v: "volume X L H ?F D (fatSet c FAT_FREE s1)"
    by (rule volume_fatSet [OF g(2)]) (use c in \<open>simp add: is_cluster_def\<close>)
  have ch: "chain_in L ?F (d # cs)" 
  proof -
    have "chain_in L ?F (d # cs) = chain_in L F (d # cs)" by (rule chain_in_cong) (use c(1) in auto)
    then show ?thesis using c(4) by simp
  qed
  have "d < fatEntryCount L" "fatEntryCount L \<le> FAT_EOC"
    using c(4) volumeD(17) [OF Cons.prems(2)] by (simp_all add: chain_in_def is_cluster_def)
  then have "\<not> FAT_EOC \<le> d" by simp
  then have fc: "freeChain c s = freeChain d (fatSet c FAT_FREE s1)"
    using c g(1) volumeD(8) [OF Cons.prems(2)] by (simp add: freeChain.simps [of c s] is_cluster_def)
  obtain s' where s': "freeChain d (fatSet c FAT_FREE s1) = Some s'"
    "volume X L H (\<lambda>e. if e \<in> set (d # cs) then FAT_FREE else ?F e) D s'"
    by (rule Cons.IH [OF _ v ch])
  have eq: "(\<lambda>e. if e \<in> set (d # cs) then FAT_FREE else ?F e) = (\<lambda>e. if e \<in> set (c # d # cs) then FAT_FREE else F e)"
    by (rule ext) (simp add: FAT_FREE_def)
  show ?case by (rule Cons.prems(1) [OF _ s'(2) [unfolded eq]]) (use fc s'(1) in simp)
qed


section \<open>The write loop\<close>

text \<open>
  The loop stands before the cluster \<open>c\<close>: the clusters \<open>ds\<close> hold the data written so far, \<open>rs\<close>
  are those left of the old chain.
\<close>

definition at_cluster :: "(u32 \<Rightarrow> u32) \<Rightarrow> u32 list \<Rightarrow> u32 list \<Rightarrow> u32" where
  "at_cluster F ds rs = (case rs of [] \<Rightarrow> F (last ds) | r # _ \<Rightarrow> r)"

definition prev_of :: "u32 list \<Rightarrow> u32" where
  "prev_of ds = (if ds = [] then 0 else last ds)"

text \<open>Getting the next cluster: the one at hand, or a free one appended to the chain.\<close>

lemma volume_next:
  assumes v: "volume X L H F D s" and ch: "chain_in L F (ds @ rs)"
  obtains (full) s' where "next_cluster (at_cluster F ds rs) (prev_of ds) s = (None, s')" "volume X L H F D s'"
      "\<forall>j. is_cluster L j \<longrightarrow> F j \<noteq> FAT_FREE" "rs = []"
    | (got) c rs' F' s' where "next_cluster (at_cluster F ds rs) (prev_of ds) s = (Some c, s')" "volume X L H F' D s'"
      "chain_in L F' (ds @ c # rs')" "\<forall>d. d \<notin> set (ds @ rs) \<longrightarrow> F d \<noteq> FAT_FREE \<longrightarrow> F' d = F d"
      "\<forall>d \<in> set (ds @ c # rs'). d \<in> set (ds @ rs) \<or> F d = FAT_FREE" "hd (ds @ c # rs') = hd (ds @ rs)"
      "\<forall>d. d \<in> set (ds @ rs) \<or> F d = FAT_FREE \<longrightarrow> d \<in> set (ds @ c # rs') \<or> F' d = FAT_FREE"
proof (cases rs)
  case (Cons r rs')
  have "is_cluster L r" using ch Cons by (simp add: chain_in_def)
  moreover from this have "r < FAT_EOC" using volumeD(17) [OF v] unfolding is_cluster_def by (blast intro: less_le_trans)
  ultimately have "next_cluster (at_cluster F ds rs) (prev_of ds) s = (Some r, s)"
    by (auto simp: next_cluster_def at_cluster_def Cons is_cluster_def dest: leD)
  then show ?thesis using got [of r s F rs'] v ch Cons by simp
next
  case Nil
  then have ds: "ds \<noteq> []" "chain_in L F ds" using ch by (auto simp: chain_in_def)
  let ?p = "last ds"
  have p: "is_cluster L ?p" using ds by (simp add: chain_in_def)
  have eoc: "FAT_EOC \<le> F ?p" by (rule chain_in_last [OF ds(2)])
  obtain c s1 where al: "allocateCluster s = (c, s1)"
    "if c = 0 then (\<forall>j. is_cluster L j \<longrightarrow> F j \<noteq> FAT_FREE) \<and> volume X L H F D s1
     else is_cluster L c \<and> F c = FAT_FREE \<and> volume X L H (F(c := FAT_EOC)) D s1"
    by (rule volume_alloc [OF v])
  show ?thesis
  proof (cases "c = 0")
    case True
    then show ?thesis using full [of s1] al eoc Nil by (simp add: next_cluster_def at_cluster_def Nil)
  next
    case False
    then have c: "is_cluster L c" "F c = FAT_FREE" "volume X L H (F(c := FAT_EOC)) D s1" using al(2) by simp_all
    let ?F = "F(c := FAT_EOC, ?p := c AND FAT_ENTRY_MASK)"
    have ple: "?p < fatEntryCount L" "2 \<le> ?p" using p by (simp_all add: is_cluster_def)
    have v1: "volume X L H ?F D (fatSet ?p c s1)" by (rule volume_fatSet [OF c(3) ple(1)])
    have nc: "next_cluster (at_cluster F ds rs) (prev_of ds) s = (Some c, fatSet ?p c s1)"
      using al(1) False eoc ds(1) ple(2) by (simp add: next_cluster_def at_cluster_def prev_of_def Nil)
    have nin: "c \<notin> set ds" using chain_in_used [OF ds(2)] c(2) by auto
    have pc: "?p \<noteq> c" using nin ds(1) by auto
    have "c < 2 ^ 28"
      using c(1) volumeD(17) [OF v] by (simp add: is_cluster_def FAT_EOC_def word_le_nat_alt word_less_nat_alt)
    then have "c AND mask 28 = c" by (rule less_mask_eq)
    moreover have "(mask 28 :: u32) = FAT_ENTRY_MASK" by (simp add: FAT_ENTRY_MASK_def mask_eq_exp_minus_1)
    ultimately have "c AND FAT_ENTRY_MASK = c" by simp
    then have Fp: "?F ?p = c" "?F c = FAT_EOC" using pc by simp_all
    have "chain_in L (?F(?p := FAT_EOC)) ds"
    proof -
      have "links (F(?p := FAT_EOC)) ds"
      proof -
        have "distinct ds" "links F ds" using ds(2) by (simp_all add: chain_in_def)
        then show ?thesis using ds(1)
        proof (induction ds rule: induct_list012)
          case (3 x y zs)
          then show ?case by (cases "x = last (y # zs)") (auto simp: fun_upd_def split: if_splits)
        qed simp_all
      qed
      moreover have "links (?F(?p := FAT_EOC)) ds = links (F(?p := FAT_EOC)) ds"
        by (rule links_cong) (use nin in auto)
      ultimately show ?thesis using ds(2) by (simp add: chain_in_def)
    qed
    moreover have "chain_in L ?F [c]" using c(1) Fp(2) by (simp add: chain_in_def)
    ultimately have ch': "chain_in L ?F (ds @ [c])"
      using Fp(1) nin ds(1) by (subst chain_in_append) auto
    show ?thesis
    proof (rule got [OF nc v1 ch'])
      show "\<forall>d. d \<in> set (ds @ rs) \<or> F d = FAT_FREE \<longrightarrow> d \<in> set (ds @ [c]) \<or> ?F d = FAT_FREE" using Nil ds(1) by auto
      show "\<forall>d. d \<notin> set (ds @ rs) \<longrightarrow> F d \<noteq> FAT_FREE \<longrightarrow> ?F d = F d" using c(2) ds(1) by auto
      show "\<forall>d \<in> set (ds @ [c]). d \<in> set (ds @ rs) \<or> F d = FAT_FREE" using c(2) by auto
      show "hd (ds @ [c]) = hd (ds @ rs)" using ds(1) by simp
    qed
  qed
qed


text \<open>One turn of the loop, at a cluster boundary.\<close>

definition part_of :: "fs \<Rightarrow> u32 \<Rightarrow> u32 \<Rightarrow> u32" where
  "part_of L len k = (if bytesPerCluster L < len - k then bytesPerCluster L else len - k)"

lemma unat_part_of: "k < len \<Longrightarrow> unat (part_of L len k) = min (unat (bytesPerCluster L)) (unat len - unat k)"
  by (simp add: part_of_def word_less_nat_alt unat_minus word_le_nat_alt min_def)

lemma write_turn:
  assumes v: "volume X L H F D s" and c: "is_cluster L c" and k: "k < len" "unat k = m * unat (bytesPerCluster L)"
    and buf: "length buf = unat (bytesPerCluster L)" and len: "unat len \<le> length data"
    and n: "next_cluster cl p s0 = (Some c, s)"
  obtains b s1 where
    "write_loop data len k cl p buf s0 =
       (if k + part_of L len k < len
        then (case fatGet c s1 of (c', s) \<Rightarrow> write_loop data len (k + part_of L len k) c' c b s)
        else Some (Some c, b, s1))"
    "volume X L H F (D(c := b)) s1" "length b = unat (bytesPerCluster L)"
    "take (unat (part_of L len k)) b = take (unat (part_of L len k)) (drop (unat k) data)"
proof -
  note d = volumeD [OF v]
  let ?B = "unat (bytesPerCluster L)" and ?n = "unat (part_of L len k)"
  have un: "?n = min ?B (unat len - unat k)" by (rule unat_part_of [OF k(1)])
  have off: "k mod bytesPerCluster L = 0" using k(2) by (simp add: word_unat_eq_iff unat_mod)
  have bpc0: "bytesPerCluster L \<noteq> 0" using d(16) by auto
  have in_data: "\<not> length data < unat k + ?n" using un len k(1) by (simp add: word_less_nat_alt)
  obtain b0 s0' where r: "(if part_of L len k < bytesPerCluster L then snd (readCluster c buf s) else (buf, s)) = (b0, s0')"
    "volume X L H F D s0'" "length b0 = ?B"
  proof (cases "part_of L len k < bytesPerCluster L")
    case True
    obtain t where "readCluster c buf s = (True, D c, t)" "volume X L H F D t"
      by (rule volume_readCluster [OF v c buf])
    then show ?thesis using that True volume_length [OF v c] by simp
  next
    case False
    then show ?thesis using that v buf by simp
  qed
  define b where "b = buf_put b0 0 (buf_get data (unat k) ?n)"
  have lg: "length (buf_get data (unat k) ?n) = ?n" using in_data by (simp add: buf_get_def)
  have b: "length b = ?B" "take ?n b = take ?n (drop (unat k) data)"
    using r(3) lg un by (simp_all add: b_def buf_put_def) (simp add: buf_get_def)
  define s1 where "s1 = snd (writeCluster c b s0')"
  have v1: "volume X L H F (D(c := b)) s1" unfolding s1_def by (rule volume_writeCluster [OF r(2) c b(1)])
  have part_fold: "(if bytesPerCluster L - 0 < len - k then bytesPerCluster L - 0 else len - k) = part_of L len k"
    "(if bytesPerCluster L < len - k then bytesPerCluster L else len - k) = part_of L len k"
    "(if bytesPerCluster L < len - k then bytesPerCluster L - 0 else len - k) = part_of L len k"
    by (simp_all add: part_of_def)
  have "write_loop data len k cl p buf s0 =
       (if k + part_of L len k < len
        then (case fatGet c s1 of (c', s) \<Rightarrow> write_loop data len (k + part_of L len k) c' c b s)
        else Some (Some c, b, s1))"
    using k(1) bpc0 in_data
    unfolding s1_def b_def by (subst write_loop.simps) (simp add: n off r(1) Let_def d(9) part_fold b_def s1_def split del: if_split)
  then show ?thesis using that v1 b by blast
qed


text \<open>
  The loop writes the data: it ends at the cluster that holds the last byte, or on a full
  volume.  Clusters in use outside the file keep link and bytes.
\<close>

definition written :: "fs \<Rightarrow> (u32 \<Rightarrow> u32) \<Rightarrow> u32 list \<Rightarrow> u8 list \<Rightarrow> u32 \<Rightarrow> (u32 \<Rightarrow> u32) \<Rightarrow> (u32 \<Rightarrow> u8 list) \<Rightarrow> u32 option \<Rightarrow> bool" where
  "written L F old data len F' D' r \<longleftrightarrow>
     (case r of
        None \<Rightarrow> \<exists>ds. length ds * unat (bytesPerCluster L) < unat len \<and>
          (\<forall>j. is_cluster L j \<longrightarrow> j \<in> set old \<or> F j = FAT_FREE \<longrightarrow> j \<in> set ds)
      | Some c \<Rightarrow> \<exists>ds rs. chain_in L F' (ds @ c # rs) \<and> (\<forall>d \<in> set (ds @ c # rs). d \<in> set old \<or> F d = FAT_FREE) \<and>
          hd (ds @ c # rs) = hd old \<and> unat len \<le> length (ds @ [c]) * unat (bytesPerCluster L) \<and>
          take (unat len) (concat (map D' (ds @ [c]))) = take (unat len) data)"

definition kept :: "u32 list \<Rightarrow> (u32 \<Rightarrow> u32) \<Rightarrow> (u32 \<Rightarrow> u8 list) \<Rightarrow> (u32 \<Rightarrow> u32) \<Rightarrow> (u32 \<Rightarrow> u8 list) \<Rightarrow> bool" where
  "kept old F D F' D' \<longleftrightarrow> (\<forall>d. d \<notin> set old \<longrightarrow> F d \<noteq> FAT_FREE \<longrightarrow> F' d = F d \<and> D' d = D d)"

lemma kept_trans:
  assumes "kept old F D F' D'" "kept old' F' D' F'' D''" "\<And>d. d \<in> set old' \<Longrightarrow> d \<in> set old \<or> F d = FAT_FREE"
  shows "kept old F D F'' D''"
  unfolding kept_def
proof (intro allI impI)
  fix d
  assume d: "d \<notin> set old" "F d \<noteq> FAT_FREE"
  then have 1: "F' d = F d \<and> D' d = D d" using assms(1) by (simp add: kept_def)
  moreover have "d \<notin> set old'" using assms(3) d by blast
  ultimately show "F'' d = F d \<and> D'' d = D d" using assms(2) d by (simp add: kept_def)
qed

lemma written_trans:
  assumes "kept old F D F' D'" "written L F' old' data len F'' D'' r" "hd old' = hd old"
    "\<And>d. d \<in> set old' \<Longrightarrow> d \<in> set old \<or> F d = FAT_FREE"
    "\<And>d. d \<in> set old \<or> F d = FAT_FREE \<Longrightarrow> d \<in> set old' \<or> F' d = FAT_FREE"
  shows "written L F old data len F'' D'' r"
proof (cases r)
  case (Some c)
  have m: "d \<in> set old \<or> F d = FAT_FREE" if "d \<in> set old' \<or> F' d = FAT_FREE" for d
    using that assms(1,4) by (auto simp: kept_def)
  obtain ds rs where "chain_in L F'' (ds @ c # rs)" "\<forall>d \<in> set (ds @ c # rs). d \<in> set old' \<or> F' d = FAT_FREE"
    "hd (ds @ c # rs) = hd old'" "unat len \<le> length (ds @ [c]) * unat (bytesPerCluster L)"
    "take (unat len) (concat (map D'' (ds @ [c]))) = take (unat len) data"
    using assms(2) unfolding written_def Some option.case by blast
  then show ?thesis using m assms(3) unfolding written_def Some option.case by metis
qed (use assms(2,5) in \<open>simp add: written_def; blast\<close>)

lemma write_loop_ok:
  assumes "volume X L H F D s" "chain_in L F (ds @ rs)" "k < len" "unat k = length ds * unat (bytesPerCluster L)"
    "length buf = unat (bytesPerCluster L)" "unat len \<le> length data" "concat (map D ds) = take (unat k) data"
  shows "\<exists>r buf' s' F' D'. write_loop data len k (at_cluster F ds rs) (prev_of ds) buf s = Some (r, buf', s') \<and>
    volume X L H F' D' s' \<and> length buf' = unat (bytesPerCluster L) \<and> kept (ds @ rs) F D F' D' \<and>
    written L F (ds @ rs) data len F' D' r"
  using assms
proof (induction "unat len - unat k" arbitrary: k ds rs buf s F D rule: less_induct)
  case less
  note v = less.prems(1) and ch = less.prems(2) and k = less.prems(3,4) and buf = less.prems(5)
    and len = less.prems(6) and sofar = less.prems(7)
  let ?B = "unat (bytesPerCluster L)"
  show ?case
  proof (cases rule: volume_next [OF v ch])
    case (1 s')
    then have "write_loop data len k (at_cluster F ds rs) (prev_of ds) buf s = Some (None, buf, s')"
      using k(1) by (subst write_loop.simps) simp
    moreover have "written L F (ds @ rs) data len F D None"
      using 1 k by (auto simp: written_def word_less_nat_alt intro!: exI [of _ ds])
    ultimately show ?thesis using 1 buf by (auto simp: kept_def)
  next
    case (2 c rs' F1 s1)
    have c: "is_cluster L c" using 2(3) by (simp add: chain_in_def)
    obtain b s2 where t: "write_loop data len k (at_cluster F ds rs) (prev_of ds) buf s =
       (if k + part_of L len k < len
        then (case fatGet c s2 of (c', s) \<Rightarrow> write_loop data len (k + part_of L len k) c' c b s)
        else Some (Some c, b, s2))"
      "volume X L H F1 (D(c := b)) s2" "length b = ?B"
      "take (unat (part_of L len k)) b = take (unat (part_of L len k)) (drop (unat k) data)"
      by (rule write_turn [OF 2(2) c k buf len 2(1)])
    have un: "unat (part_of L len k) = min ?B (unat len - unat k)" by (rule unat_part_of [OF k(1)])
    have kl: "unat k < unat len" using k(1) by (simp add: word_less_nat_alt)
    have uk: "unat (k + part_of L len k) = unat k + unat (part_of L len k)"
      using un kl unat_lt_2p32 [of len] by (simp add: unat_word_ariths)
    have cds: "c \<notin> set ds" using 2(3) by (auto simp: chain_in_def)
    have kd: "kept (ds @ rs) F D F1 (D(c := b))" using 2(4,5) by (auto simp: kept_def)
    have mem: "d \<in> set (ds @ rs) \<or> F d = FAT_FREE" if "d \<in> set ((ds @ [c]) @ rs')" for d using 2(5) that by auto
    have mem': "d \<in> set ((ds @ [c]) @ rs') \<or> F1 d = FAT_FREE" if "d \<in> set (ds @ rs) \<or> F d = FAT_FREE" for d
      using 2(7) that by auto
    have hd: "hd ((ds @ [c]) @ rs') = hd (ds @ rs)" using 2(6) by simp
    have data: "concat (map (D(c := b)) (ds @ [c])) = take (unat k) data @ b"
    proof -
      have "map (D(c := b)) ds = map D ds" using cds by simp
      then show ?thesis by (simp only: map_append concat_append sofar list.map concat.simps fun_upd_same append_Nil2)
    qed
    show ?thesis
    proof (cases "k + part_of L len k < len")
      case True
      then have full: "unat (part_of L len k) = ?B" using un uk kl by (simp add: word_less_nat_alt)
      obtain s3 where g: "fatGet c s2 = (F1 c, s3)" "volume X L H F1 (D(c := b)) s3"
        by (rule volume_fatGet [OF t(2)]) (use c in \<open>auto simp: is_cluster_def\<close>)
      have at: "at_cluster F1 (ds @ [c]) rs' = F1 c" "prev_of (ds @ [c]) = c"
      proof -
        show "at_cluster F1 (ds @ [c]) rs' = F1 c"
        proof (cases rs')
          case (Cons r rr)
          then have "chain_in L F1 ((ds @ [c]) @ r # rr)" using 2(3) by simp
          then have "F1 (last (ds @ [c])) = r" by (simp only: chain_in_append [OF snoc_eq_iff_butlast [THEN iffD1, OF refl, THEN conjunct1]])
          then show ?thesis using Cons by (simp add: at_cluster_def)
        qed (simp add: at_cluster_def)
      qed (simp add: prev_of_def)
      have d': "concat (map (D(c := b)) (ds @ [c])) = take (unat (k + part_of L len k)) data"
        using t(3,4) full unfolding data uk by (simp add: take_add)
      have dec: "unat len - unat (k + part_of L len k) < unat len - unat k"
        using uk full volumeD(16) [OF v] kl by simp
      have ch': "chain_in L F1 ((ds @ [c]) @ rs')" using 2(3) by simp
      have al: "unat (k + part_of L len k) = length (ds @ [c]) * ?B" using uk full k(2) by simp
      obtain r buf' s' F' D' where w: "write_loop data len (k + part_of L len k) (at_cluster F1 (ds @ [c]) rs') (prev_of (ds @ [c])) b s3 = Some (r, buf', s')"
        "volume X L H F' D' s'" "length buf' = ?B" "kept ((ds @ [c]) @ rs') F1 (D(c := b)) F' D'"
        "written L F1 ((ds @ [c]) @ rs') data len F' D' r"
        using less.hyps [OF dec g(2) ch' True al t(3) len d'] by blast
      have "write_loop data len k (at_cluster F ds rs) (prev_of ds) buf s = Some (r, buf', s')"
        using t(1) True g(1) w(1) at by simp
      then show ?thesis using w(2,3) kept_trans [OF kd w(4) mem] written_trans [OF kd w(5) hd mem mem'] by blast
    next
      case False
      then have rest: "unat (part_of L len k) = unat len - unat k" "unat len - unat k \<le> ?B"
        using un uk kl by (auto simp: word_less_nat_alt)
      have "take (unat len) (take (unat k) data @ b) = take (unat len) data"
      proof -
        have "take (unat len) (take (unat k) data @ b) = take (unat k) data @ take (unat len - unat k) b"
          using kl len by simp
        also have "\<dots> = take (unat k) data @ take (unat len - unat k) (drop (unat k) data)"
          using t(4) rest(1) by simp
        also have "\<dots> = take (unat k + (unat len - unat k)) data" by (simp only: take_add)
        finally show ?thesis using kl by simp
      qed
      moreover have "unat len \<le> length (ds @ [c]) * ?B" using rest k(2) kl by simp
      ultimately have "written L F (ds @ rs) data len F1 (D(c := b)) (Some c)"
        unfolding written_def option.case using 2(3,5,6) data by metis
      moreover have "write_loop data len k (at_cluster F ds rs) (prev_of ds) buf s = Some (Some c, b, s2)"
        using t(1) False by simp
      ultimately show ?thesis using t(2,3) kd by blast
    qed
  qed
qed


section \<open>Writing a file\<close>

lemma mask_eoc: "FAT_EOC AND FAT_ENTRY_MASK = FAT_EOC"
  by (simp add: FAT_EOC_def FAT_ENTRY_MASK_def)

text \<open>The clusters behind the last one written are freed.\<close>

lemma volume_cut:
  assumes v: "volume X L H F D s" and ch: "chain_in L F (ds @ c # rs)"
  obtains F' s' where "cut_chain c s = Some s'" "volume X L H F' D s'" "chain_in L F' (ds @ [c])"
    "\<And>d. d \<notin> set (ds @ c # rs) \<Longrightarrow> F' d = F d"
proof -
  have c: "is_cluster L c" "c < fatEntryCount L" "2 \<le> c" using ch by (auto simp: chain_in_def is_cluster_def)
  have lt: "d < FAT_EOC" if "is_cluster L d" for d
    using that volumeD(17) [OF v] unfolding is_cluster_def by (blast intro: less_le_trans)
  obtain s1 where g: "fatGet c s = (F c, s1)" "volume X L H F D s1" by (rule volume_fatGet [OF v c(2)])
  let ?F = "F(c := FAT_EOC)"
  have v1: "volume X L H ?F D (fatSet c FAT_EOC s1)" using volume_fatSet [OF g(2) c(2), of FAT_EOC] by (simp only: mask_eoc)
  show ?thesis
  proof (cases rs)
    case Nil
    then have eoc: "FAT_EOC \<le> F c" using chain_in_last [OF ch] by simp
    then have "\<not> F c < FAT_EOC" by (rule leD)
    then have "cut_chain c s = Some (fatSet c FAT_EOC s1)" using lt [OF c(1)] c(3) g(1) by (simp add: cut_chain_def Let_def)
    moreover have "chain_in L ?F (ds @ [c])"
    proof -
      have "distinct (ds @ [c])" using ch Nil by (simp add: chain_in_def)
      then have "links F (ds @ [c]) \<longrightarrow> links ?F (ds @ [c])"
      proof (induction ds rule: induct_list012)
        case (3 x y zs)
        then show ?case by (auto simp: fun_upd_def)
      qed (auto simp: fun_upd_def)
      then show ?thesis using ch Nil by (simp add: chain_in_def)
    qed
    ultimately show ?thesis using that [OF _ v1] by simp
  next
    case (Cons r rr)
    have split: "chain_in L ?F (ds @ [c])" "F c = r" "chain_in L F (r # rr)" "set (ds @ [c]) \<inter> set (r # rr) = {}"
      using chain_in_append [of "ds @ [c]" L F r rr] ch Cons by simp_all
    have r: "is_cluster L r" using split(3) by (simp add: chain_in_def)
    have "chain_in L ?F (r # rr)" 
    proof -
      have "chain_in L ?F (r # rr) = chain_in L F (r # rr)" by (rule chain_in_cong) (use split(4) in auto)
      then show ?thesis using split(3) by simp
    qed
    from volume_freeChain [OF v1 this]
    obtain s2 where f: "freeChain r (fatSet c FAT_EOC s1) = Some s2"
      "volume X L H (\<lambda>d. if d \<in> set (r # rr) then FAT_FREE else ?F d) D s2" by blast
    have "cut_chain c s = Some s2"
      using lt [OF c(1)] lt [OF r] r c(3) g(1) split(2) f(1) by (simp add: cut_chain_def Let_def is_cluster_def)
    moreover have "chain_in L (\<lambda>d. if d \<in> set (r # rr) then FAT_FREE else ?F d) (ds @ [c])"
    proof -
      have "chain_in L (\<lambda>d. if d \<in> set (r # rr) then FAT_FREE else ?F d) (ds @ [c]) = chain_in L ?F (ds @ [c])"
        by (rule chain_in_cong) (use split(4) in auto)
      then show ?thesis using split(1) by simp
    qed
    ultimately show ?thesis using that [OF _ f(2)] Cons by simp
  qed
qed

lemma entry_set_facts:
  assumes "length e = DIRENT_SIZE"
  shows "length (set_firstCluster c (set_fileSize n e)) = DIRENT_SIZE"
    "de_firstCluster (set_firstCluster c (set_fileSize n e)) = c"
    "de_fileSize (set_firstCluster c (set_fileSize n e)) = n"
proof -
  show "length (set_firstCluster c (set_fileSize n e)) = DIRENT_SIZE"
    using assms by (simp add: set_firstCluster_def set_fileSize_def DIRENT_SIZE_def)
  have 1: "buf_get (set_firstCluster c (set_fileSize n e)) 20 2 = bytes16 (ucast (drop_bit 16 c))"
    "buf_get (set_firstCluster c (set_fileSize n e)) 26 2 = bytes16 (ucast c)"
    "buf_get (set_firstCluster c (set_fileSize n e)) 28 4 = bytes32 n"
    using assms by (simp_all add: set_firstCluster_def set_fileSize_def buf_get_def buf_put_def DIRENT_SIZE_def)
  have "push_bit 16 (ucast (ucast (drop_bit 16 c) :: u16)) OR ucast (ucast c :: u16) = c" for c :: u32
    by (rule bit_word_eqI) (auto simp: bit_simps)
  then show "de_firstCluster (set_firstCluster c (set_fileSize n e)) = c" using 1 by (simp add: de_firstCluster_def)
  show "de_fileSize (set_firstCluster c (set_fileSize n e)) = n" using 1 by (simp add: de_fileSize_def)
qed

definition dir_index :: "file_handle \<Rightarrow> nat" where
  "dir_index fh = unat (fh_dirOffset fh div 32)"

definition new_dir :: "file_handle \<Rightarrow> u32 \<Rightarrow> u32 \<Rightarrow> u8 list \<Rightarrow> u8 list" where
  "new_dir fh n start b = buf_put b (dir_index fh * DIRENT_SIZE) (set_firstCluster start (set_fileSize n (entry_at b (dir_index fh))))"

lemma new_dir_facts:
  assumes "unat (fh_dirOffset fh) + DIRENT_SIZE \<le> length b"
  shows "length (new_dir fh n start b) = length b"
    "de_firstCluster (entry_at (new_dir fh n start b) (dir_index fh)) = start"
    "de_fileSize (entry_at (new_dir fh n start b) (dir_index fh)) = n"
proof -
  have i: "dir_index fh * DIRENT_SIZE + DIRENT_SIZE \<le> length b"
    using assms by (simp add: dir_index_def DIRENT_SIZE_def unat_div)
  have e: "length (entry_at b (dir_index fh)) = DIRENT_SIZE" using i by (simp add: entry_at_def buf_get_def)
  note f = entry_set_facts [OF e]
  show "length (new_dir fh n start b) = length b" using i f(1) by (simp add: new_dir_def)
  have "entry_at (new_dir fh n start b) (dir_index fh) = set_firstCluster start (set_fileSize n (entry_at b (dir_index fh)))"
    using i f(1) by (simp add: new_dir_def entry_at_def buf_put_def buf_get_def)
  then show "de_firstCluster (entry_at (new_dir fh n start b) (dir_index fh)) = start"
    "de_fileSize (entry_at (new_dir fh n start b) (dir_index fh)) = n" using f by simp_all
qed

lemma update_entry_ok:
  assumes v: "volume X L H F D s" and dc: "is_cluster L (fh_dirCluster fh)" and m: "mirror L \<subseteq> X"
    and buf: "length buf = unat (bytesPerCluster L)" and off: "unat (fh_dirOffset fh) + DIRENT_SIZE \<le> unat (bytesPerCluster L)"
  obtains s' where "update_entry fh buf n start s = (True, s')"
    "volume X L H (F) (D(fh_dirCluster fh := new_dir fh n start (D (fh_dirCluster fh)))) s'"
proof -
  let ?d = "fh_dirCluster fh"
  obtain s1 where r: "readCluster ?d buf s = (True, D ?d, s1)" "volume X L H F D s1"
    by (rule volume_readCluster [OF v dc buf])
  have len: "length (D ?d) = unat (bytesPerCluster L)" by (rule volume_length [OF v dc])
  have "length (new_dir fh n start (D ?d)) = unat (bytesPerCluster L)" using new_dir_facts(1) off len by simp
  from volume_flush [OF volume_writeCluster [OF r(2) dc this] m] r(1)
  show ?thesis by (intro that) (simp_all add: update_entry_def new_dir_def dir_index_def Let_def)
qed


text \<open>What a volume holds for a handle is what a read of the whole file gives.\<close>

lemma read_whole:
  assumes v: "volume X L H F D s" and h: "h \<noteq> 0" "h \<le> of_nat MAX_HANDLES" "H ! unat (h - 1) = fh" "fh_inUse fh" "fh_size fh = len"
    and cs: "unat len = 0 \<or> chain_in L F cs \<and> hd cs = fh_startCluster fh \<and>
      unat len \<le> length cs * unat (bytesPerCluster L) \<and> take (unat len) (concat (map D cs)) = take (unat len) data"
    and len: "unat len \<le> length data"
  shows "\<exists>s'. fs_read h 0 len (s\<lparr>fs_allocs := []\<rparr>) = Some (len, take (unat len) data, s')"
proof -
  let ?s = "s\<lparr>fs_allocs := []\<rparr>"
  have hd: "handle_of h ?s = Some fh" using h volumeD(6) [OF v] by (auto simp: handle_of_def Let_def)
  show ?thesis
  proof (cases "unat len = 0")
    case True
    then have "len = 0" by (simp add: unat_eq_0)
    then show ?thesis using hd h(5) by (simp add: fs_read_def)
  next
    case False
    then have c: "chain_in L F cs" "hd cs = fh_startCluster fh" "unat len \<le> length cs * unat (bytesPerCluster L)"
      "take (unat len) (concat (map D cs)) = take (unat len) data" using cs by auto
    have v': "volume X L H F D ?s"
      using v volumeD(1) [OF v] unfolding volume_def
      by (simp add: layout_def fat_def fat_sector_def cluster_data_def cluster_lba_def clusterToLba_def)
    have fo: "file_ok ?s fh cs" using c(1-3) h(5) volume_chain [OF v'] volumeD(9) [OF v'] by (simp add: file_ok_def)
    have fb: "file_bytes ?s cs = concat (map D cs)"
      unfolding file_bytes_def using volumeD(12) [OF v'] c(1)
      by (intro arg_cong [where f = concat] map_cong) (auto simp: chain_in_def)
    have ct: "contents ?s fh cs = take (unat len) data" using c(4) h(5) by (simp add: contents_def fb)
    then have l: "length (contents ?s fh cs) = unat len" using len by simp
    from read_contents [OF volumeD(1) [OF v'] _ hd fo, of 0 len]
    show ?thesis using ct l by auto
  qed
qed


text \<open>The first cluster: that of the file, or a fresh one for an empty file.\<close>

definition write_start :: "u32 \<Rightarrow> u32 \<Rightarrow> u32 \<Rightarrow> fs \<Rightarrow> u32 option \<times> fs" where
  "write_start h start len s =
     (if start < 2 \<and> len > 0
      then (case allocateCluster s of (c, s) \<Rightarrow>
              (if c = 0 then (None, s) else (Some c, set_handle h (fh_startCluster_update (\<lambda>_. c)) s)))
      else (Some start, s))"

definition file_links :: "fs \<Rightarrow> (u32 \<Rightarrow> u32) \<Rightarrow> file_handle \<Rightarrow> u32 list \<Rightarrow> bool" where
  "file_links L F fh cs \<longleftrightarrow> (if fh_startCluster fh < 2 then cs = [] else chain_in L F cs \<and> hd cs = fh_startCluster fh)"

lemma write_start_ok:
  assumes v: "volume X L H F D s" and cs: "file_links L F (H ! unat (h - 1)) cs" and len: "0 < len"
    and h: "unat (h - 1) < length H"
  obtains (full) s' where "write_start h (fh_startCluster (H ! unat (h - 1))) len s = (None, s')" "volume X L H F D s'"
      "\<forall>j. is_cluster L j \<longrightarrow> F j \<noteq> FAT_FREE" "cs = []"
    | (got) c cs' F' s' where "write_start h (fh_startCluster (H ! unat (h - 1))) len s = (Some c, s')"
      "volume X L (H[unat (h - 1) := (H ! unat (h - 1))\<lparr>fh_startCluster := c\<rparr>]) F' D s'"
      "chain_in L F' cs'" "hd cs' = c" "kept cs F D F' D" "\<And>d. d \<in> set cs' \<Longrightarrow> d \<in> set cs \<or> F d = FAT_FREE"
      "\<And>d. d \<in> set cs \<or> F d = FAT_FREE \<Longrightarrow> d \<in> set cs' \<or> F' d = FAT_FREE"
proof (cases "fh_startCluster (H ! unat (h - 1)) < 2")
  case True
  obtain c s1 where al: "allocateCluster s = (c, s1)"
    "if c = 0 then (\<forall>j. is_cluster L j \<longrightarrow> F j \<noteq> FAT_FREE) \<and> volume X L H F D s1
     else is_cluster L c \<and> F c = FAT_FREE \<and> volume X L H (F(c := FAT_EOC)) D s1"
    by (rule volume_alloc [OF v])
  show ?thesis
  proof (cases "c = 0")
    case True
    then show ?thesis using full [of s1] al \<open>fh_startCluster _ < 2\<close> len cs by (simp add: write_start_def file_links_def)
  next
    case False
    then have c: "is_cluster L c" "F c = FAT_FREE" "volume X L H (F(c := FAT_EOC)) D s1" using al(2) by simp_all
    show ?thesis
    proof (rule got)
      show "write_start h (fh_startCluster (H ! unat (h - 1))) len s = (Some c, set_handle h (fh_startCluster_update (\<lambda>_. c)) s1)"
        using al(1) False True len by (simp add: write_start_def)
      show "volume X L (H[unat (h - 1) := (H ! unat (h - 1))\<lparr>fh_startCluster := c\<rparr>]) (F(c := FAT_EOC)) D
        (set_handle h (fh_startCluster_update (\<lambda>_. c)) s1)" by (rule volume_set_handle [OF c(3)])
      show "chain_in L (F(c := FAT_EOC)) [c]" using c(1) by (simp add: chain_in_def)
    qed (use c(2) cs True in \<open>auto simp: kept_def file_links_def\<close>)
  qed
next
  case False
  have "H[unat (h - 1) := (H ! unat (h - 1))\<lparr>fh_startCluster := fh_startCluster (H ! unat (h - 1))\<rparr>] = H" by simp
  then show ?thesis using got [OF _ _ _ _ _ _ _, of _ s F cs] False v cs
    by (simp add: write_start_def file_links_def kept_def)
qed

text \<open>A write that succeeds has put the data into a chain, cut behind it, and into the directory entry.\<close>

definition stored :: "fs \<Rightarrow> (u32 \<Rightarrow> u32) \<Rightarrow> (u32 \<Rightarrow> u8 list) \<Rightarrow> file_handle \<Rightarrow> u32 list \<Rightarrow> u8 list \<Rightarrow> bool" where
  "stored L F D fh cs data \<longleftrightarrow> fh_inUse fh \<and> (unat (fh_size fh) = 0 \<or> chain_in L F cs \<and> hd cs = fh_startCluster fh \<and>
     unat (fh_size fh) \<le> length cs * unat (bytesPerCluster L) \<and>
     take (unat (fh_size fh)) (concat (map D cs)) = take (unat (fh_size fh)) data)"

definition write_post :: "fs \<Rightarrow> file_handle list \<Rightarrow> (u32 \<Rightarrow> u32) \<Rightarrow> (u32 \<Rightarrow> u8 list) \<Rightarrow> u32 \<Rightarrow> u32 list \<Rightarrow> u8 list \<Rightarrow> u32 \<Rightarrow>
    file_handle list \<Rightarrow> (u32 \<Rightarrow> u32) \<Rightarrow> (u32 \<Rightarrow> u8 list) \<Rightarrow> bool \<Rightarrow> bool" where
  "write_post L H F D h cs data len H' F' D' ok \<longleftrightarrow>
     (let fh = H ! unat (h - 1); fh' = H' ! unat (h - 1); dc = fh_dirCluster fh in
      kept (dc # cs) F D F' D' \<and>
      (if ok then fh_size fh' = len \<and> (\<exists>cs'. stored L F' D' fh' cs' data) \<and> F' dc = F dc \<and>
         D' dc = new_dir fh len (fh_startCluster fh') (D dc)
       else written L F cs data len F' D' None))"

lemma kept_mono: "kept old F D F' D' \<Longrightarrow> set old \<subseteq> set old' \<Longrightarrow> kept old' F D F' D'"
  by (auto simp: kept_def)


lemma write_finish:
  assumes v: "volume X L H F D s" and m: "mirror L \<subseteq> X" and dc: "is_cluster L (fh_dirCluster fh)"
    and buf: "length buf = unat (bytesPerCluster L)" and off: "unat (fh_dirOffset fh) + DIRENT_SIZE \<le> unat (bytesPerCluster L)"
    and w: "chain_in L F (ds @ c # rs)" "fh_dirCluster fh \<notin> set (ds @ c # rs)" "hd (ds @ c # rs) = fh_startCluster (H ! unat (h - 1))"
      "unat len \<le> length (ds @ [c]) * unat (bytesPerCluster L)" "take (unat len) (concat (map D (ds @ [c]))) = take (unat len) data"
    and h: "unat (h - 1) < length H" "fh_inUse (H ! unat (h - 1))" "start = fh_startCluster (H ! unat (h - 1))"
  shows "\<exists>s' F' D' H'. do { s \<leftarrow> cut_chain c s; let s = set_handle h (fh_size_update (\<lambda>_. len)) s;
        Some (update_entry fh buf len start s) } = Some (True, s') \<and> volume X L H' F' D' s' \<and>
      fh_size (H' ! unat (h - 1)) = len \<and> fh_startCluster (H' ! unat (h - 1)) = start \<and>
      stored L F' D' (H' ! unat (h - 1)) (ds @ [c]) data \<and> F' (fh_dirCluster fh) = F (fh_dirCluster fh) \<and>
      D' (fh_dirCluster fh) = new_dir fh len start (D (fh_dirCluster fh)) \<and> kept (fh_dirCluster fh # ds @ c # rs) F D F' D'"
proof -
  let ?d = "fh_dirCluster fh" and ?H = "H[unat (h - 1) := (H ! unat (h - 1))\<lparr>fh_size := len\<rparr>]"
  let ?D = "D(?d := new_dir fh len start (D ?d))"
  obtain F' s1 where cut: "cut_chain c s = Some s1" "volume X L H F' D s1" "chain_in L F' (ds @ [c])"
    "\<And>d. d \<notin> set (ds @ c # rs) \<Longrightarrow> F' d = F d"
    by (rule volume_cut [OF v w(1)]) blast
  obtain s2 where u: "update_entry fh buf len start (set_handle h (fh_size_update (\<lambda>_. len)) s1) = (True, s2)"
    "volume X L ?H F' ?D s2"
    by (rule update_entry_ok [OF volume_set_handle [OF cut(2)] dc m buf off])
  have dm: "map ?D (ds @ [c]) = map D (ds @ [c])" by (rule map_cong [OF refl]) (use w(2) in auto)
  have hd: "hd (ds @ [c]) = start" using w(3) h(3) by (cases ds) simp_all
  have H: "?H ! unat (h - 1) = (H ! unat (h - 1))\<lparr>fh_size := len\<rparr>" using h(1) by simp
  have "stored L F' ?D (?H ! unat (h - 1)) (ds @ [c]) data"
    unfolding stored_def H dm using cut(3) hd w(4,5) h(2,3) by simp
  moreover have "kept (?d # ds @ c # rs) F D F' ?D" using cut(4) by (auto simp: kept_def)
  moreover have "do { s \<leftarrow> cut_chain c s; let s = set_handle h (fh_size_update (\<lambda>_. len)) s;
        Some (update_entry fh buf len start s) } = Some (True, s2)" using cut(1) u(1) by simp
  moreover have "F' ?d = F ?d" by (rule cut(4) [OF w(2)])
  ultimately show ?thesis using u(2) H h(3) by (intro exI [of _ s2] exI [of _ F'] exI [of _ ?D] exI [of _ ?H]) simp
qed

lemma fs_write_eq:
  assumes "handle_of h s = Some fh" "fs_allocs s = []" "\<not> (len = 0 \<and> 2 \<le> fh_startCluster fh)"
  shows "fs_write h data len s =
    (case write_start h (fh_startCluster fh) len s of
       (None, s') \<Rightarrow> Some (False, s')
     | (Some start, s') \<Rightarrow>
         do { (r, clusterBuf, s') \<leftarrow> write_loop data len 0 start 0 (replicate (unat (bytesPerCluster s)) 0) s';
              (case r of
                 None \<Rightarrow> Some (False, s')
               | Some cluster \<Rightarrow>
                  do { s' \<leftarrow> cut_chain cluster s';
                       let s' = set_handle h (fh_size_update (\<lambda>_. len)) s';
                       Some (update_entry fh clusterBuf len start s') }) })"
  unfolding fs_write_def heap_alloc_def assms(1,2) option.case list.case prod.case if_not_P [OF assms(3)] write_start_def ..

lemma fs_write_ok:
  assumes v: "volume X L H F D s" and m: "mirror L \<subseteq> X" and len: "unat len \<le> length data"
    and al: "fs_allocs s = []" and h: "h \<noteq> 0" "h \<le> of_nat MAX_HANDLES" "length H = MAX_HANDLES"
    and fh: "H ! unat (h - 1) = fh" "fh_inUse fh" "file_links L F fh cs"
    and dc: "is_cluster L (fh_dirCluster fh)" "fh_dirCluster fh \<notin> set cs" "F (fh_dirCluster fh) \<noteq> FAT_FREE"
      "unat (fh_dirOffset fh) + DIRENT_SIZE \<le> unat (bytesPerCluster L)"
  shows "\<exists>ok s' H' F' D'. fs_write h data len s = Some (ok, s') \<and> volume X L H' F' D' s' \<and>
    write_post L H F D h cs data len H' F' D' ok"
proof -
  let ?i = "unat (h - 1)" and ?d = "fh_dirCluster fh" and ?B = "unat (bytesPerCluster L)"
  have i: "?i < length H"
  proof -
    have "unat (h - 1) = unat h - 1" using h(1) by (simp add: unat_minus word_le_nat_alt unat_gt_0 Suc_le_eq)
    moreover have "unat h \<le> 16" using h(2) by (simp add: word_le_nat_alt MAX_HANDLES_def)
    moreover have "0 < unat h" using h(1) by (simp add: unat_gt_0)
    ultimately show ?thesis using h(3) by (simp add: MAX_HANDLES_def)
  qed
  have ho: "handle_of h s = Some fh" using h fh volumeD(6) [OF v] by (auto simp: handle_of_def Let_def)
  have B: "bytesPerCluster s = bytesPerCluster L" by (rule volumeD(9) [OF v])
  have buf: "length (replicate ?B (0 :: u8)) = ?B" by simp
  show ?thesis
  proof (cases "len = 0")
    case True
    show ?thesis
    proof (cases "fh_startCluster fh < 2")
      case small: True
      then have "\<not> (len = 0 \<and> 2 \<le> fh_startCluster fh)" by (simp add: not_le)
      obtain s2 where u: "update_entry fh (replicate ?B 0) 0 (fh_startCluster fh) (set_handle h (fh_size_update (\<lambda>_. 0)) s) = (True, s2)"
        "volume X L (H[?i := (H ! ?i)\<lparr>fh_size := 0\<rparr>]) F (D(?d := new_dir fh 0 (fh_startCluster fh) (D ?d))) s2"
        by (rule update_entry_ok [OF volume_set_handle [OF v] dc(1) m buf dc(4)])
      have "cut_chain (fh_startCluster fh) s = Some s" using small by (auto simp: cut_chain_def dest: leD)
      moreover have "write_loop data 0 0 (fh_startCluster fh) 0 b s = Some (Some (fh_startCluster fh), b, s)" for b
        by (subst write_loop.simps) simp
      ultimately have "fs_write h data len s = Some (True, s2)"
        unfolding fs_write_eq [OF ho al \<open>\<not> (len = 0 \<and> _)\<close>] using True small u(1) by (simp add: write_start_def B)
      moreover have "write_post L H F D h cs data len (H[?i := (H ! ?i)\<lparr>fh_size := 0\<rparr>]) F
        (D(?d := new_dir fh 0 (fh_startCluster fh) (D ?d))) True"
        using i fh True by (simp add: write_post_def Let_def kept_def stored_def)
      ultimately show ?thesis using u(2) by blast
    next
      case big: False
      then have cs: "chain_in L F cs" "hd cs = fh_startCluster fh" using fh(3) by (simp_all add: file_links_def)
      then obtain c cr where cc: "cs = c # cr" by (cases cs) (auto simp: chain_in_def)
      obtain s1 where f: "freeChain c s = Some s1" "volume X L H (\<lambda>d. if d \<in> set (c # cr) then FAT_FREE else F d) D s1"
        by (rule volume_freeChain [OF v cs(1) [unfolded cc]])
      let ?g = "\<lambda>fh. fh\<lparr>fh_startCluster := 0, fh_size := 0\<rparr>"
      obtain s2 where u: "update_entry fh (replicate ?B 0) 0 0 (set_handle h ?g s1) = (True, s2)"
        "volume X L (H[?i := ?g (H ! ?i)]) (\<lambda>d. if d \<in> set (c # cr) then FAT_FREE else F d) (D(?d := new_dir fh 0 0 (D ?d))) s2"
        by (rule update_entry_ok [OF volume_set_handle [OF f(2)] dc(1) m buf dc(4)])
      have "fs_write h data len s = Some (True, s2)"
        using True big cs(2) cc f(1) u(1) B by (simp add: fs_write_def ho heap_alloc_def al not_less)
      moreover have "write_post L H F D h cs data len (H[?i := ?g (H ! ?i)])
        (\<lambda>d. if d \<in> set (c # cr) then FAT_FREE else F d) (D(?d := new_dir fh 0 0 (D ?d))) True"
        using i fh True dc(2) cc by (simp add: write_post_def Let_def kept_def stored_def)
      ultimately show ?thesis using u(2) by blast
    qed
  next
    case False
    then have len0: "0 < len" by (simp add: word_gt_0)
    have eq: "\<not> (len = 0 \<and> 2 \<le> fh_startCluster fh)" using False by simp
    show ?thesis
    proof (cases rule: write_start_ok [OF v fh(3) [folded fh(1)] len0 i])
      case (1 s')
      then have "fs_write h data len s = Some (False, s')" using fh(1) by (simp add: fs_write_eq [OF ho al eq])
      moreover have "write_post L H F D h cs data len H F D False"
        using 1 len0 by (auto simp: write_post_def Let_def kept_def written_def word_less_nat_alt intro!: exI [of _ "[]"])
      ultimately show ?thesis using 1(2) by blast
    next
      case (2 c cs' F1 s1)
      let ?H = "H[?i := (H ! ?i)\<lparr>fh_startCluster := c\<rparr>]"
      have at: "at_cluster F1 [] cs' = c" "prev_of [] = 0"
        using 2(3,4) by (auto simp: at_cluster_def prev_of_def chain_in_def split: list.splits)
      have ch: "chain_in L F1 ([] @ cs')" using 2(3) by simp
      obtain r buf' s2 F2 D2 where w: "write_loop data len 0 c 0 (replicate ?B 0) s1 = Some (r, buf', s2)"
        "volume X L ?H F2 D2 s2" "length buf' = ?B" "kept cs' F1 D F2 D2" "written L F1 cs' data len F2 D2 r"
        using write_loop_ok [OF 2(2) ch len0 _ buf len] unfolding at by auto
      have d1: "F1 ?d = F ?d" "?d \<notin> set cs'" using 2(5,6) dc(2,3) by (auto simp: kept_def)
      have d2: "F2 ?d = F ?d" "D2 ?d = D ?d" using w(4) d1 dc(3) by (simp_all add: kept_def)
      have k2: "kept cs F D F2 D2" by (rule kept_trans [OF 2(5) w(4) 2(6)])
      show ?thesis
      proof (cases r)
        case None
        then have "fs_write h data len s = Some (False, s2)" using fh(1) 2(1) w(1) B by (simp add: fs_write_eq [OF ho al eq])
        moreover have "write_post L H F D h cs data len ?H F2 D2 False"
          using kept_mono [OF k2, of "?d # cs"] fh(1) w(5) 2(7) None unfolding write_post_def Let_def written_def by auto
        ultimately show ?thesis using w(2) by blast
      next
        case (Some l)
        obtain ds rs where wr: "chain_in L F2 (ds @ l # rs)" "\<forall>d \<in> set (ds @ l # rs). d \<in> set cs' \<or> F1 d = FAT_FREE"
          "hd (ds @ l # rs) = hd cs'" "unat len \<le> length (ds @ [l]) * ?B"
          "take (unat len) (concat (map D2 (ds @ [l]))) = take (unat len) data"
          using w(5) unfolding Some written_def option.case by blast
        have hi: "?H ! ?i = fh\<lparr>fh_startCluster := c\<rparr>" using i fh(1) by simp
        have dn: "?d \<notin> set (ds @ l # rs)" using wr(2) d1 dc(3) by auto
        have "hd (ds @ l # rs) = fh_startCluster (?H ! ?i)" "c = fh_startCluster (?H ! ?i)" "fh_inUse (?H ! ?i)" "?i < length ?H"
          using wr(3) 2(4) hi fh(2) i by simp_all
        from write_finish [OF w(2) m dc(1) w(3) dc(4) wr(1) dn this(1) wr(4,5) this(4,3,2)]
        obtain s3 F3 D3 H3 where fin: "do { s \<leftarrow> cut_chain l s2; let s = set_handle h (fh_size_update (\<lambda>_. len)) s;
            Some (update_entry fh buf' len c s) } = Some (True, s3)" "volume X L H3 F3 D3 s3"
          "fh_size (H3 ! ?i) = len" "fh_startCluster (H3 ! ?i) = c" "stored L F3 D3 (H3 ! ?i) (ds @ [l]) data"
          "F3 ?d = F2 ?d" "D3 ?d = new_dir fh len c (D2 ?d)" "kept (?d # ds @ l # rs) F2 D2 F3 D3" by blast
        have "fs_write h data len s = Some (True, s3)"
          using fh(1) 2(1) w(1) B fin(1) Some by (simp add: fs_write_eq [OF ho al eq])
        moreover have "kept (?d # cs) F D F3 D3"
        proof (rule kept_trans [OF kept_mono [OF k2] fin(8)])
          fix d
          assume "d \<in> set (?d # ds @ l # rs)"
          moreover have "d \<in> set cs \<or> F d = FAT_FREE" if "d \<in> set cs' \<or> F1 d = FAT_FREE"
            using that 2(5,6) by (auto simp: kept_def)
          ultimately show "d \<in> set (?d # cs) \<or> F d = FAT_FREE" using wr(2) by auto
        qed auto
        then have "write_post L H F D h cs data len H3 F3 D3 True"
          using fin(3-7) d2 fh(1) by (auto simp: write_post_def Let_def)
        ultimately show ?thesis using fin(2) by blast
      qed
    qed
  qed
qed


section \<open>The property\<close>

lemma geom_ok_layout: "geom_ok (layout s) = geom_ok s"
proof -
  have "fatEntryCount (layout s) = fatEntryCount s" by (simp add: layout_def)
  then show ?thesis by (simp add: geom_ok_def layout_lbas)
qed

lemma volume_self: "vol_ok X s \<Longrightarrow> geom_ok s \<Longrightarrow> volume X (layout s) (handles s) (fat s) (cluster_data s) s"
  by (simp add: volume_def geom_ok_layout)

lemma write_contents:
  assumes vol: "vol_ok X s" "geom_ok s" "mirror s \<subseteq> X" and mem: "length (handles s) = MAX_HANDLES" "fs_allocs s = []"
    and fh: "handle_of h s = Some fh"
      "if fh_startCluster fh < 2 then cs = [] else fat_chain s cs \<and> hd cs = fh_startCluster fh"
    and dc: "2 \<le> fh_dirCluster fh" "fh_dirCluster fh < fatEntryCount s" "fh_dirCluster fh \<notin> set cs"
      "fat s (fh_dirCluster fh) \<noteq> FAT_FREE" "unat (fh_dirOffset fh) + DIRENT_SIZE \<le> unat (bytesPerCluster s)"
    and len: "unat len \<le> length data"
  shows "\<exists>ok s'. fs_write h data len s = Some (ok, s') \<and>
    (if ok
     then (\<exists>s''. fs_read h 0 len (s'\<lparr>fs_allocs := []\<rparr>) = Some (len, take (unat len) data, s'')) \<and>
       (\<exists>fh'. handle_of h s' = Some fh' \<and> fh_size fh' = len \<and>
          cluster_data s' (fh_dirCluster fh) = new_dir fh len (fh_startCluster fh') (cluster_data s (fh_dirCluster fh)))
     else (length cs + card {c. is_cluster s c \<and> fat s c = FAT_FREE}) * unat (bytesPerCluster s) < unat len) \<and>
    (\<forall>d. is_cluster s d \<and> d \<notin> set cs \<and> d \<noteq> fh_dirCluster fh \<and> fat s d \<noteq> FAT_FREE \<longrightarrow>
      fat s' d = fat s d \<and> cluster_data s' d = cluster_data s d)"
proof -
  let ?L = "layout s" and ?H = "handles s" and ?F = "fat s" and ?D = "cluster_data s" and ?d = "fh_dirCluster fh"
  let ?free = "{c. is_cluster s c \<and> fat s c = FAT_FREE}"
  have v: "volume X ?L ?H ?F ?D s" by (rule volume_self [OF vol(1,2)])
  have lf: "fatEntryCount ?L = fatEntryCount s" "bytesPerCluster ?L = bytesPerCluster s" "fatStartSector ?L = fatStartSector s"
    "fatSize ?L = fatSize s" by (simp_all add: layout_def)
  have ic: "is_cluster ?L c = is_cluster s c" for c by (simp add: is_cluster_def lf)
  have h: "h \<noteq> 0" "h \<le> of_nat MAX_HANDLES" "?H ! unat (h - 1) = fh" "fh_inUse fh"
    using fh(1) by (auto simp: handle_of_def Let_def split: if_splits)
  have fl: "file_links ?L ?F fh cs"
    using fh(2) volume_chain [OF v, of cs] unfolding file_links_def by (cases "fh_startCluster fh < 2") simp_all
  have m: "mirror ?L \<subseteq> X" using vol(3) by (simp add: mirror_def lf)
  have off: "unat (fh_dirOffset fh) + DIRENT_SIZE \<le> unat (bytesPerCluster ?L)" using dc(5) lf by simp
  have dic: "is_cluster ?L ?d" unfolding ic using dc(1,2) by (simp add: is_cluster_def)
  obtain ok s' H' F' D' where w: "fs_write h data len s = Some (ok, s')" "volume X ?L H' F' D' s'"
    "write_post ?L ?H ?F ?D h cs data len H' F' D' ok"
    using fs_write_ok [OF v m len mem(2) h(1,2) mem(1) h(3,4) fl dic dc(3,4) off] by blast
  note post = w(3) [unfolded write_post_def Let_def h(3)]
  note d = volumeD [OF w(2)]
  have "fat s' e = fat s e \<and> cluster_data s' e = cluster_data s e"
    if "is_cluster s e \<and> e \<notin> set cs \<and> e \<noteq> ?d \<and> fat s e \<noteq> FAT_FREE" for e
    using that post d(11) [of e] d(12) [of e] ic by (auto simp: kept_def is_cluster_def lf)
  moreover have "if ok
     then (\<exists>s''. fs_read h 0 len (s'\<lparr>fs_allocs := []\<rparr>) = Some (len, take (unat len) data, s'')) \<and>
       (\<exists>fh'. handle_of h s' = Some fh' \<and> fh_size fh' = len \<and>
          cluster_data s' ?d = new_dir fh len (fh_startCluster fh') (cluster_data s ?d))
     else (length cs + card ?free) * unat (bytesPerCluster s) < unat len"
  proof (cases ok)
    case True
    define fh' where "fh' = H' ! unat (h - 1)"
    have p: "fh_size fh' = len" "D' ?d = new_dir fh len (fh_startCluster fh') (?D ?d)" "\<exists>cs'. stored ?L F' D' fh' cs' data"
      using post True by (simp_all add: fh'_def)
    then obtain cs' where st: "fh_inUse fh'" "unat len = 0 \<or> chain_in ?L F' cs' \<and> hd cs' = fh_startCluster fh' \<and>
      unat len \<le> length cs' * unat (bytesPerCluster ?L) \<and> take (unat len) (concat (map D' cs')) = take (unat len) data"
      by (auto simp: stored_def)
    have "\<exists>s''. fs_read h 0 len (s'\<lparr>fs_allocs := []\<rparr>) = Some (len, take (unat len) data, s'')"
      by (rule read_whole [OF w(2) h(1,2) fh'_def [symmetric] st(1) p(1) st(2) len])
    moreover have "handle_of h s' = Some fh'"
      using h(1,2) st(1) d(6) by (auto simp: handle_of_def Let_def fh'_def)
    ultimately show ?thesis using True p(1,2) d(12) [OF dic] by auto
  next
    case False
    then obtain ds where ds: "length ds * unat (bytesPerCluster s) < unat len"
      "\<forall>j. is_cluster s j \<longrightarrow> j \<in> set cs \<or> fat s j = FAT_FREE \<longrightarrow> j \<in> set ds"
      using post by (auto simp: written_def ic lf)
    have cs: "distinct cs" "\<forall>c \<in> set cs. is_cluster s c" "\<forall>c \<in> set cs. fat s c \<noteq> FAT_FREE"
      using fl chain_in_used [of ?L ?F cs] ic by (auto simp: file_links_def chain_in_def split: if_splits)
    have "length cs + card ?free = card (set cs \<union> ?free)"
      using cs by (subst card_Un_disjoint) (auto simp: distinct_card)
    also have "\<dots> \<le> card (set ds)" using ds(2) cs(2) by (intro card_mono) auto
    also have "\<dots> \<le> length ds" by (rule card_length)
    finally have "(length cs + card ?free) * unat (bytesPerCluster s) \<le> length ds * unat (bytesPerCluster s)"
      by (rule mult_right_mono) simp
    then have "(length cs + card ?free) * unat (bytesPerCluster s) < unat len" using ds(1) by (rule le_less_trans)
    then show ?thesis using False by simp
  qed
  ultimately show ?thesis using w(1) by blast
qed


text \<open>A volume with a mirror of its table in sector 2.\<close>

definition demo_wvol :: fs where
  "demo_wvol = demo_vol\<lparr>handles := replicate 16 demo_file\<rparr>"

definition demo_X :: "u32 set" where
  "demo_X = {l. l \<ge> 64} \<union> {2}"

lemma demo_wvol_simps: "fatEntryCount demo_wvol = 10" "bytesPerCluster demo_wvol = 512" "fatStartSector demo_wvol = 1"
  "fatSize demo_wvol = 1" "sectorsPerCluster demo_wvol = 1" "fs_allocs demo_wvol = []" "length (handles demo_wvol) = 16"
  "dataStartSector demo_wvol = 3"
  by (simp_all add: demo_wvol_def demo_vol_def) (simp_all add: demo_fs_def)

lemma demo_lbas:
  assumes "2 \<le> c" "c < 10"
  shows "cluster_lbas demo_wvol c = {c + 1}"
  using assms by (auto simp: cluster_lbas_def cluster_lba_def clusterToLba_def demo_wvol_simps)

lemma demo_sector:
  assumes "c < 10"
  shows "fat_sector c demo_wvol = 1"
proof -
  have c: "unat c < 10" using assms by (simp add: word_less_nat_alt)
  then have "c \<le> FAT_EOC" by (simp add: FAT_EOC_def word_le_nat_alt)
  moreover have "bytesPerSector demo_wvol = 512" by (simp add: demo_wvol_def demo_vol_def) (simp add: demo_fs_def)
  ultimately show ?thesis using c by (subst fat_sector_unat) (simp_all add: demo_wvol_simps)
qed

lemma demo_wvol_ok: "vol_ok demo_X demo_wvol" "geom_ok demo_wvol" "mirror demo_wvol \<subseteq> demo_X"
proof -
  have u: "unat (c + 1) = unat c + 1" if "c < 10" for c :: u32
    using that by (simp add: word_less_nat_alt unat_word_ariths)
  have v: "vol_ok {l. l \<ge> 64} demo_wvol" by (simp add: demo_wvol_def demo_vol_facts)
  have "cache_ok demo_X demo_wvol"
    using v by (simp add: vol_ok_def fat_ok_def cache_ok_def demo_wvol_def demo_vol_def) (auto simp: demo_fs_def demo_X_def)
  moreover have "sectors_ok demo_X demo_wvol" using v by (simp add: vol_ok_def fat_ok_def sectors_ok_def demo_X_def)
  moreover have "c + 1 \<notin> demo_X" if "2 \<le> c" "c < 10" for c
    using that u [OF that(2)] by (auto simp: demo_X_def word_le_nat_alt word_less_nat_alt word_unat_eq_iff)
  moreover have "1 \<notin> demo_X" by (simp add: demo_X_def word_le_nat_alt)
  ultimately show "vol_ok demo_X demo_wvol"
    using v demo_lbas demo_sector by (simp add: vol_ok_def fat_ok_def demo_wvol_simps SECTOR_SIZE_def)
  have "c + 1 \<noteq> 1" if "2 \<le> c" "c < 10" for c :: u32
    using that u [OF that(2)] by (auto simp: word_le_nat_alt word_unat_eq_iff)
  then show "geom_ok demo_wvol" by (auto simp: geom_ok_def demo_wvol_simps demo_lbas demo_sector)
  show "mirror demo_wvol \<subseteq> demo_X"
  proof
    fix l
    assume "l \<in> mirror demo_wvol"
    then obtain k where "l = k + 1" "1 \<le> k" "k < 2" by (auto simp: mirror_def demo_wvol_simps)
    then have "unat k = 1" by (simp add: word_le_nat_alt word_less_nat_alt)
    then have "k = 1" by (simp add: word_unat_eq_iff)
    then show "l \<in> demo_X" using \<open>l = k + 1\<close> by (simp add: demo_X_def)
  qed
qed

lemma demo_wvol_fat: "fat demo_wvol 2 \<noteq> FAT_FREE" "fat demo_wvol 4 = FAT_FREE" "fat_chain demo_wvol [3]"
proof -
  have e: "fat demo_wvol c = fat demo_vol c" for c by (simp add: demo_wvol_def fat_def fat_sector_def)
  show "fat demo_wvol 2 \<noteq> FAT_FREE" "fat demo_wvol 4 = FAT_FREE"
    by (simp_all add: e demo_vol_fat entry_of_def fat_offset_def buf_get_def bytes32_def byte_of_def le32_def FAT_ENTRY_MASK_def FAT_FREE_def)
  show "fat_chain demo_wvol [3]" using demo_vol_file by (simp add: file_ok_def fat_chain_def e demo_wvol_simps demo_vol_facts)
qed



end
