(* ===== verification/Keyboard.thy ===== *)
theory Keyboard
  imports Prelude
begin

text \<open>
  The keyboard service: translation of scancodes (\<^verbatim>\<open>keyboard.cpp\<close>), its ring buffer, and the
  message loop of \<^verbatim>\<open>main.cpp\<close>.  Key codes are the bytes of \<^verbatim>\<open>std::kbd::KeyCode\<close>; the
  scancodes the controller delivers at an interrupt come with the message.
\<close>

section \<open>Keyboard\<close>

record keyboard =
  shift_held :: bool
  ctrl_held :: bool
  alt_held :: bool
  caps_lock_on :: bool
  e0_prefix :: bool
  ring :: "u8 list"
  ring_head :: u16
  ring_tail :: u16

definition KEYBOARD_BUFFER_SIZE :: u16 where "KEYBOARD_BUFFER_SIZE = 256"

definition keyboard_init :: keyboard where
  "keyboard_init = \<lparr>shift_held = False, ctrl_held = False, alt_held = False, caps_lock_on = False, e0_prefix = False,
     ring = replicate 256 0, ring_head = 0, ring_tail = 0\<rparr>"

definition scancode_table :: "u8 list" where
  "scancode_table =
     [0, 0x1B, 0x31, 0x32, 0x33, 0x34, 0x35, 0x36, 0x37, 0x38, 0x39, 0x30, 0x2D, 0x3D, 0x08, 0x09,
      0x71, 0x77, 0x65, 0x72, 0x74, 0x79, 0x75, 0x69, 0x6F, 0x70, 0x5B, 0x5D, 0x0D, 0, 0x61, 0x73,
      0x64, 0x66, 0x67, 0x68, 0x6A, 0x6B, 0x6C, 0x3B, 0x27, 0x60, 0, 0x5C, 0x7A, 0x78, 0x63, 0x76,
      0x62, 0x6E, 0x6D, 0x2C, 0x2E, 0x2F, 0, 0, 0, 0x20, 0, 0x80, 0x81, 0x82, 0x83, 0x84,
      0x85, 0x86, 0x87, 0x88, 0x89, 0, 0, 0, 0, 0, 0, 0, 0, 0, 0, 0,
      0, 0, 0, 0, 0, 0, 0, 0x8A, 0x8B]"

text \<open>The keys with a shifted character of their own, the digits first.\<close>

definition shifted_keys :: "(u8 \<times> u8) list" where
  "shifted_keys =
     [(0x31, 0x21), (0x32, 0x40), (0x33, 0x23), (0x34, 0x24), (0x35, 0x25), (0x36, 0x5E), (0x37, 0x26),
      (0x38, 0x2A), (0x39, 0x28), (0x30, 0x29), (0x2D, 0x5F), (0x3D, 0x2B), (0x5B, 0x7B), (0x5D, 0x7D),
      (0x5C, 0x7C), (0x3B, 0x3A), (0x27, 0x22), (0x60, 0x7E), (0x2C, 0x3C), (0x2E, 0x3E), (0x2F, 0x3F)]"

definition resolveShift :: "u8 \<Rightarrow> u8" where
  "resolveShift key =
     (if 0x61 \<le> key \<and> key \<le> 0x7A then key - 0x20
      else case map_of shifted_keys key of Some k \<Rightarrow> k | None \<Rightarrow> key)"

definition ring_push :: "u8 \<Rightarrow> keyboard \<Rightarrow> keyboard" where
  "ring_push ch s =
     (if ch \<noteq> 0
      then (let next = (ring_head s + 1) mod KEYBOARD_BUFFER_SIZE in
            if next \<noteq> ring_tail s
            then s\<lparr>ring := (ring s)[unat (ring_head s) := ch], ring_head := next\<rparr>
            else s)
      else s)"

definition handleScancode :: "u8 \<Rightarrow> keyboard \<Rightarrow> keyboard" where
  "handleScancode raw s =
     (if raw = 0xE0 then s\<lparr>e0_prefix := True\<rparr>
      else
       (let released = (raw AND 0x80 \<noteq> 0); scancode = raw AND 0x7F in
        if e0_prefix s
        then (let s = s\<lparr>e0_prefix := False\<rparr> in
              if \<not> released
              then ring_push (if scancode = 0x4B then 0x8C else if scancode = 0x4D then 0x8D
                              else if scancode = 0x53 then 0x7F else 0) s
              else s)
        else if scancode = 0x2A \<or> scancode = 0x36 then s\<lparr>shift_held := \<not> released\<rparr>
        else if scancode = 0x1D then s\<lparr>ctrl_held := \<not> released\<rparr>
        else if scancode = 0x38 then s\<lparr>alt_held := \<not> released\<rparr>
        else if scancode = 0x3A then (if \<not> released then s\<lparr>caps_lock_on := \<not> caps_lock_on s\<rparr> else s)
        else if scancode = 0x45 then s
        else if released then s
        else if scancode < 0x59
        then (let key = scancode_table ! unat scancode in
              if key \<noteq> 0
              then (let is_letter = (0x61 \<le> key \<and> key \<le> 0x7A) in
                    ring_push (if (if is_letter then shift_held s \<noteq> caps_lock_on s else shift_held s)
                               then resolveShift key else key) s)
              else s)
        else s))"

definition readBuffer :: "keyboard \<Rightarrow> u8 \<times> keyboard" where
  "readBuffer s =
     (if ring_head s = ring_tail s then (0, s)
      else (ring s ! unat (ring_tail s), s\<lparr>ring_tail := (ring_tail s + 1) mod KEYBOARD_BUFFER_SIZE\<rparr>))"

text \<open>The operands are promoted to \<^verbatim>\<open>int\<close>.\<close>

definition bufferCount :: "keyboard \<Rightarrow> u16" where
  "bufferCount s = of_int ((uint (ring_head s) - uint (ring_tail s) + uint KEYBOARD_BUFFER_SIZE) mod uint KEYBOARD_BUFFER_SIZE)"

section \<open>Service\<close>

datatype kbd_message = IrqNotify "u8 list" | KbdRead | KbdOther

record kbd_service =
  kb :: keyboard
  pending_reader :: u32

type_synonym kbd_reply = "u32 \<times> u8"

definition kbd_step :: "kbd_message \<Rightarrow> i32 \<Rightarrow> kbd_service \<Rightarrow> kbd_reply list \<times> kbd_service" where
  "kbd_step msg sender s =
     (case msg of
        IrqNotify scancodes \<Rightarrow>
          (let s = s\<lparr>kb := fold handleScancode scancodes (kb s)\<rparr> in
           if pending_reader s \<noteq> 0 \<and> bufferCount (kb s) > 0
           then (case readBuffer (kb s) of (ch, k) \<Rightarrow>
                   ([(pending_reader s, ch)], s\<lparr>kb := k, pending_reader := 0\<rparr>))
           else ([], s))
      | KbdRead \<Rightarrow>
          (if 0 <s sender
           then (if bufferCount (kb s) > 0
                 then (case readBuffer (kb s) of (ch, k) \<Rightarrow> ([(ucast sender, ch)], s\<lparr>kb := k\<rparr>))
                 else ([], s\<lparr>pending_reader := ucast sender\<rparr>))
           else ([], s))
      | KbdOther \<Rightarrow> (if 0 <s sender then ([(ucast sender, 0)], s) else ([], s)))"

fun kbd_run :: "(kbd_message \<times> i32) list \<Rightarrow> kbd_service \<Rightarrow> kbd_reply list \<times> kbd_service" where
  "kbd_run [] s = ([], s)"
| "kbd_run ((msg, sender) # ms) s =
     (case kbd_step msg sender s of (out, s) \<Rightarrow> case kbd_run ms s of (outs, s) \<Rightarrow> (out @ outs, s))"


definition kbd_service_init :: kbd_service where
  "kbd_service_init = \<lparr>kb = keyboard_init, pending_reader = 0\<rparr>"

section \<open>Bounded queues\<close>

text \<open>A queue of at most \<open>cap\<close> elements; an element that finds it full is dropped.\<close>

locale bounded_queue =
  fixes inv :: "'s \<Rightarrow> bool"
    and contents :: "'s \<Rightarrow> 'a list"
    and push :: "'a \<Rightarrow> 's \<Rightarrow> 's"
    and pop :: "'s \<Rightarrow> 'a \<times> 's"
    and ok :: "'a \<Rightarrow> bool"
    and cap :: nat
  assumes inv_push: "inv s \<Longrightarrow> ok x \<Longrightarrow> inv (push x s)"
    and contents_push: "inv s \<Longrightarrow> ok x \<Longrightarrow> contents (push x s) = (if length (contents s) < cap then contents s @ [x] else contents s)"
    and inv_pop: "inv s \<Longrightarrow> contents s \<noteq> [] \<Longrightarrow> inv (snd (pop s))"
    and contents_pop: "inv s \<Longrightarrow> contents s \<noteq> [] \<Longrightarrow> contents s = fst (pop s) # contents (snd (pop s))"
    and bounded: "inv s \<Longrightarrow> length (contents s) \<le> cap"
begin

lemma take_push: "inv s \<Longrightarrow> ok x \<Longrightarrow> contents (push x s) = take cap (contents s @ [x])"
  using contents_push [of s x] bounded [of s] by (cases "length (contents s) = cap") auto

lemma push_then: "inv s \<Longrightarrow> ok x \<Longrightarrow> take cap (contents (push x s) @ xs) = take cap (contents s @ x # xs)"
  using contents_push [of s x] bounded [of s] by (cases "length (contents s) = cap") auto

end

section \<open>The ring buffer is one\<close>

definition ring_ok :: "keyboard \<Rightarrow> bool" where
  "ring_ok s \<longleftrightarrow> length (ring s) = 256 \<and> unat (ring_head s) < 256 \<and> unat (ring_tail s) < 256"

definition ring_count :: "nat \<Rightarrow> nat \<Rightarrow> nat" where
  "ring_count h t = (if t \<le> h then h - t else h + 256 - t)"

definition ring_contents :: "keyboard \<Rightarrow> u8 list" where
  "ring_contents s = map (\<lambda>i. ring s ! ((unat (ring_tail s) + i) mod 256))
     [0..<ring_count (unat (ring_head s)) (unat (ring_tail s))]"

lemma ring_count_bound: "h < 256 \<Longrightarrow> ring_count h t < 256" if "t < 256"
  using that by (auto simp: ring_count_def)

lemma length_ring_contents [simp]:
  "length (ring_contents s) = ring_count (unat (ring_head s)) (unat (ring_tail s))"
  by (simp add: ring_contents_def)

lemma unat_next: "unat n < 256 \<Longrightarrow> unat ((n + 1) mod KEYBOARD_BUFFER_SIZE) = (unat n + 1) mod 256" for n :: u16
  by (simp add: KEYBOARD_BUFFER_SIZE_def unat_mod unat_word_ariths)

lemma bufferCount_contents:
  assumes "ring_ok s"
  shows "unat (bufferCount s) = length (ring_contents s)"
proof -
  let ?h = "unat (ring_head s)" and ?t = "unat (ring_tail s)"
  have lt: "?h < 256" "?t < 256" using assms by (simp_all add: ring_ok_def)
  have "(uint (ring_head s) - uint (ring_tail s) + uint KEYBOARD_BUFFER_SIZE) mod uint KEYBOARD_BUFFER_SIZE = (int ?h - int ?t + 256) mod 256"
    by (simp add: KEYBOARD_BUFFER_SIZE_def)
  also have "int ?h - int ?t + 256 = int (?h + 256 - ?t)" using lt by simp
  also have "int (?h + 256 - ?t) mod 256 = int ((?h + 256 - ?t) mod 256)" by (simp add: zmod_int)
  also have "(?h + 256 - ?t) mod 256 = ring_count ?h ?t"
  proof (cases "?t \<le> ?h")
    case True
    then have "?h + 256 - ?t = (?h - ?t) + 256" by simp
    then have "(?h + 256 - ?t) mod 256 = (?h - ?t) mod 256" by (simp only: mod_add_self2)
    then show ?thesis using True lt by (simp add: ring_count_def)
  qed (use lt in \<open>simp add: ring_count_def\<close>)
  finally have "bufferCount s = of_nat (ring_count ?h ?t)" by (simp add: bufferCount_def)
  then show ?thesis using ring_count_bound [OF lt(2,1)] by (simp add: unat_of_nat)
qed

lemma ring_push_full:
  assumes "ring_ok s" "ch \<noteq> 0" "ring_count (unat (ring_head s)) (unat (ring_tail s)) = 255"
  shows "ring_push ch s = s"
proof -
  have lt: "unat (ring_head s) < 256" "unat (ring_tail s) < 256" using assms(1) by (simp_all add: ring_ok_def)
  then have "unat (ring_head s) = 255 \<and> unat (ring_tail s) = 0 \<or> unat (ring_tail s) = Suc (unat (ring_head s))"
    using assms(3) unfolding ring_count_def by (simp split: if_splits) linarith+
  then have "unat ((ring_head s + 1) mod KEYBOARD_BUFFER_SIZE) = unat (ring_tail s)"
    using lt unat_next [OF lt(1)] by auto
  then show ?thesis by (simp add: ring_push_def Let_def word_unat_eq_iff)
qed

lemma ring_push_room:
  assumes "ring_ok s" "ch \<noteq> 0" "ring_count (unat (ring_head s)) (unat (ring_tail s)) < 255"
  shows "ring_ok (ring_push ch s) \<and> ring_contents (ring_push ch s) = ring_contents s @ [ch]"
proof -
  let ?h = "unat (ring_head s)" and ?t = "unat (ring_tail s)"
  let ?n = "ring_count ?h ?t"
  have lt: "?h < 256" "?t < 256" "length (ring s) = 256" using assms(1) by (simp_all add: ring_ok_def)
  have ne: "(?h + 1) mod 256 \<noteq> ?t" using assms(3) lt by (cases "?h = 255") (auto simp: ring_count_def split: if_splits)
  have "unat ((ring_head s + 1) mod KEYBOARD_BUFFER_SIZE) \<noteq> unat (ring_tail s)" using ne unat_next [OF lt(1)] by simp
  then have p: "ring_push ch s = s\<lparr>ring := (ring s)[?h := ch], ring_head := (ring_head s + 1) mod KEYBOARD_BUFFER_SIZE\<rparr>"
    using assms(2) by (auto simp: ring_push_def Let_def)
  have n': "ring_count ((?h + 1) mod 256) ?t = ?n + 1"
    using ne lt by (cases "?h = 255") (auto simp: ring_count_def)
  have other: "(?t + i) mod 256 \<noteq> ?h" if "i < ?n" for i
  proof (cases "?t + i < 256")
    case True
    then show ?thesis using that lt by (auto simp: ring_count_def split: if_splits)
  next
    case False
    then have "(?t + i) mod 256 = ?t + i - 256" using that lt assms(3) by (simp add: mod_if)
    then show ?thesis using that False lt by (auto simp: ring_count_def split: if_splits)
  qed
  have new: "(?t + ?n) mod 256 = ?h" using lt by (auto simp: ring_count_def)
  have "ring_contents (ring_push ch s) = ring_contents s @ [ch]"
  proof -
    have "(ring s)[?h := ch] ! ((?t + i) mod 256) = ring s ! ((?t + i) mod 256)" if "i < ?n" for i
      by (rule nth_list_update_neq [OF not_sym [OF other [OF that]]])
    then have "map (\<lambda>i. (ring s)[?h := ch] ! ((?t + i) mod 256)) [0..<?n] = map (\<lambda>i. ring s ! ((?t + i) mod 256)) [0..<?n]"
      by simp
    then show ?thesis using new lt n' by (simp add: ring_contents_def p unat_next)
  qed
  moreover have "ring_ok (ring_push ch s)" using lt by (simp add: ring_ok_def p unat_next)
  ultimately show ?thesis by simp
qed

lemma ring_pop:
  assumes "ring_ok s" "ring_contents s \<noteq> []"
  shows "ring_ok (snd (readBuffer s)) \<and> ring_contents s = fst (readBuffer s) # ring_contents (snd (readBuffer s))"
proof -
  let ?h = "unat (ring_head s)" and ?t = "unat (ring_tail s)"
  have lt: "?h < 256" "?t < 256" "length (ring s) = 256" using assms(1) by (simp_all add: ring_ok_def)
  have n0: "0 < ring_count ?h ?t" using assms(2) by (auto simp: ring_contents_def)
  then have "?h \<noteq> ?t" by (auto simp: ring_count_def)
  then have p: "readBuffer s = (ring s ! ?t, s\<lparr>ring_tail := (ring_tail s + 1) mod KEYBOARD_BUFFER_SIZE\<rparr>)"
    by (auto simp: readBuffer_def)
  have n': "ring_count ?h ?t = Suc (ring_count ?h ((?t + 1) mod 256))"
    using n0 lt by (cases "?t = 255") (auto simp: ring_count_def)
  have "((?t + 1) mod 256 + i) mod 256 = (?t + Suc i) mod 256" for i by (simp add: mod_add_left_eq)
  then have "ring_contents s = fst (readBuffer s) # ring_contents (snd (readBuffer s))"
    using lt unfolding ring_contents_def n' by (simp add: p unat_next upt_conv_Cons map_Suc_upt [symmetric] del: upt_Suc)
  moreover have "ring_ok (snd (readBuffer s))" using lt by (simp add: ring_ok_def p unat_next)
  ultimately show ?thesis by simp
qed

interpretation kq: bounded_queue ring_ok ring_contents ring_push readBuffer "\<lambda>ch. ch \<noteq> 0" 255
proof
  fix s :: keyboard and x :: u8
  assume s: "ring_ok s"
  then have b: "ring_count (unat (ring_head s)) (unat (ring_tail s)) \<le> 255"
    using ring_count_bound [of "unat (ring_tail s)" "unat (ring_head s)"] by (simp add: ring_ok_def)
  show "length (ring_contents s) \<le> 255" using b by simp
  show "x \<noteq> 0 \<Longrightarrow> ring_ok (ring_push x s)"
    using s b ring_push_full [OF s] ring_push_room [OF s] by (cases "length (ring_contents s) = 255") (auto simp: le_less)
  show "x \<noteq> 0 \<Longrightarrow> ring_contents (ring_push x s) = (if length (ring_contents s) < 255 then ring_contents s @ [x] else ring_contents s)"
    using s b ring_push_full [OF s] ring_push_room [OF s] by (cases "length (ring_contents s) = 255") (auto simp: le_less)
  show "ring_contents s \<noteq> [] \<Longrightarrow> ring_ok (snd (readBuffer s))"
    "ring_contents s \<noteq> [] \<Longrightarrow> ring_contents s = fst (readBuffer s) # ring_contents (snd (readBuffer s))"
    using ring_pop [OF s] by auto
qed


section \<open>What the keyboard promises\<close>

text \<open>
  The specification: the keys that are held, the characters typed and not yet read, of which at
  most 255 are kept, and the reader that waits.
\<close>

record kbd_mods =
  m_shift :: bool
  m_ctrl :: bool
  m_alt :: bool
  m_caps :: bool
  m_e0 :: bool

definition mods_after :: "u8 \<Rightarrow> kbd_mods \<Rightarrow> kbd_mods" where
  "mods_after raw m =
     (if raw = 0xE0 then m\<lparr>m_e0 := True\<rparr>
      else if m_e0 m then m\<lparr>m_e0 := False\<rparr>
      else if raw \<in> {0x2A, 0x36} then m\<lparr>m_shift := True\<rparr>
      else if raw \<in> {0xAA, 0xB6} then m\<lparr>m_shift := False\<rparr>
      else if raw = 0x1D then m\<lparr>m_ctrl := True\<rparr>
      else if raw = 0x9D then m\<lparr>m_ctrl := False\<rparr>
      else if raw = 0x38 then m\<lparr>m_alt := True\<rparr>
      else if raw = 0xB8 then m\<lparr>m_alt := False\<rparr>
      else if raw = 0x3A then m\<lparr>m_caps := \<not> m_caps m\<rparr>
      else m)"

text \<open>The character a scancode types, if any: only key presses type, letters follow shift and caps lock.\<close>

definition key_typed :: "kbd_mods \<Rightarrow> u8 \<Rightarrow> u8 list" where
  "key_typed m raw =
     (if 0x80 \<le> raw then []
      else if m_e0 m
      then (if raw = 0x4B then [0x8C] else if raw = 0x4D then [0x8D] else if raw = 0x53 then [0x7F] else [])
      else if 0x59 \<le> raw \<or> scancode_table ! unat raw = 0 then []
      else (let key = scancode_table ! unat raw in
            if 0x61 \<le> key \<and> key \<le> 0x7A then [if m_shift m \<noteq> m_caps m then key - 0x20 else key]
            else [if m_shift m then resolveShift key else key]))"

fun keys_typed :: "kbd_mods \<Rightarrow> u8 list \<Rightarrow> u8 list" where
  "keys_typed m [] = []"
| "keys_typed m (raw # raws) = key_typed m raw @ keys_typed (mods_after raw m) raws"

record kbd_spec =
  sp_mods :: kbd_mods
  sp_queue :: "u8 list"
  sp_reader :: u32

definition spec_step :: "kbd_message \<Rightarrow> i32 \<Rightarrow> kbd_spec \<Rightarrow> kbd_reply list \<times> kbd_spec" where
  "spec_step msg sender a =
     (case msg of
        IrqNotify raws \<Rightarrow>
          (let m = fold mods_after raws (sp_mods a); q = take 255 (sp_queue a @ keys_typed (sp_mods a) raws) in
           if sp_reader a \<noteq> 0 \<and> q \<noteq> []
           then ([(sp_reader a, hd q)], \<lparr>sp_mods = m, sp_queue = tl q, sp_reader = 0\<rparr>)
           else ([], \<lparr>sp_mods = m, sp_queue = q, sp_reader = sp_reader a\<rparr>))
      | KbdRead \<Rightarrow>
          (if \<not> 0 <s sender then ([], a)
           else if sp_queue a = [] then ([], a\<lparr>sp_reader := ucast sender\<rparr>)
           else ([(ucast sender, hd (sp_queue a))], a\<lparr>sp_queue := tl (sp_queue a)\<rparr>))
      | KbdOther \<Rightarrow> (if 0 <s sender then [(ucast sender, 0)] else [], a))"

fun spec_run :: "(kbd_message \<times> i32) list \<Rightarrow> kbd_spec \<Rightarrow> kbd_reply list \<times> kbd_spec" where
  "spec_run [] a = ([], a)"
| "spec_run ((msg, sender) # ms) a =
     (case spec_step msg sender a of (out, a) \<Rightarrow> case spec_run ms a of (outs, a) \<Rightarrow> (out @ outs, a))"

definition mods_of :: "keyboard \<Rightarrow> kbd_mods" where
  "mods_of k = \<lparr>m_shift = shift_held k, m_ctrl = ctrl_held k, m_alt = alt_held k, m_caps = caps_lock_on k, m_e0 = e0_prefix k\<rparr>"

definition kbd_abs :: "kbd_service \<Rightarrow> kbd_spec" where
  "kbd_abs s = \<lparr>sp_mods = mods_of (kb s), sp_queue = ring_contents (kb s), sp_reader = pending_reader s\<rparr>"

section \<open>The refinement\<close>

lemma raw_bits:
  "(raw AND 0x80 \<noteq> 0) = (0x80 \<le> raw)" "raw AND 0x7F = (if 0x80 \<le> raw then raw - 0x80 else raw)" for raw :: u8
proof -
  have lt: "unat raw < 256" using unsigned_less [of raw, where 'a = nat] by simp
  have le: "0x80 \<le> raw \<longleftrightarrow> 128 \<le> unat raw" by (simp add: word_le_nat_alt)
  have "raw AND 0x7F = take_bit 7 raw" by (simp add: take_bit_eq_mask mask_eq_exp_minus_1)
  then have low: "unat (raw AND 0x7F) = unat raw mod 128" by (simp add: take_bit_eq_mod unat_mod)
  have "unat (if 0x80 \<le> raw then raw - 0x80 else raw) = unat raw mod 128"
    using lt by (auto simp: le unat_sub word_le_nat_alt mod_if)
  then show "raw AND 0x7F = (if 0x80 \<le> raw then raw - 0x80 else raw)" using low by (simp only: word_unat_eq_iff)
  have "raw AND 0x80 = 0 \<longleftrightarrow> \<not> bit raw 7" using and_exp_eq_0_iff_not_bit [of raw 7] by simp
  moreover have "bit raw 7 \<longleftrightarrow> odd (unat raw div 128)"
    using bit_unsigned_iff [of raw 7, where 'a = nat] by (simp add: bit_iff_odd)
  moreover have "unat raw div 128 = (if 128 \<le> unat raw then 1 else 0)" using lt by auto
  ultimately show "(raw AND 0x80 \<noteq> 0) = (0x80 \<le> raw)" by (simp add: le)
qed

lemma resolveShift_nonzero: "k \<noteq> 0 \<Longrightarrow> resolveShift k \<noteq> 0"
proof -
  assume k: "k \<noteq> 0"
  have "v \<noteq> 0" if "map_of shifted_keys k = Some v" for v
    using map_of_SomeD [OF that] by (auto simp: shifted_keys_def)
  moreover have "k - 0x20 \<noteq> 0" if "0x61 \<le> k" using that by (auto simp: word_le_nat_alt)
  ultimately show ?thesis using k by (auto simp: resolveShift_def split: option.splits)
qed

lemma push_keyed:
  "ring_ok k \<Longrightarrow> ring_ok (ring_push c k) \<and> mods_of (ring_push c k) = mods_of k \<and>
    ring_contents (ring_push c k) = take 255 (ring_contents k @ (if c = 0 then [] else [c]))"
  using kq.inv_push [of k c] kq.take_push [of k c] kq.bounded [of k]
  by (auto simp: ring_push_def mods_of_def Let_def)

lemma ring_frame:
  "ring_contents (k\<lparr>shift_held := b\<rparr>) = ring_contents k" "ring_contents (k\<lparr>ctrl_held := b\<rparr>) = ring_contents k"
  "ring_contents (k\<lparr>alt_held := b\<rparr>) = ring_contents k" "ring_contents (k\<lparr>caps_lock_on := b\<rparr>) = ring_contents k"
  "ring_contents (k\<lparr>e0_prefix := b\<rparr>) = ring_contents k"
  "ring_ok (k\<lparr>shift_held := b\<rparr>) = ring_ok k" "ring_ok (k\<lparr>ctrl_held := b\<rparr>) = ring_ok k"
  "ring_ok (k\<lparr>alt_held := b\<rparr>) = ring_ok k" "ring_ok (k\<lparr>caps_lock_on := b\<rparr>) = ring_ok k"
  "ring_ok (k\<lparr>e0_prefix := b\<rparr>) = ring_ok k"
  by (simp_all add: ring_contents_def ring_ok_def)


lemma handle_keyed:
  assumes "ring_ok k"
  shows "ring_ok (handleScancode raw k) \<and> mods_of (handleScancode raw k) = mods_after raw (mods_of k) \<and>
    ring_contents (handleScancode raw k) = take 255 (ring_contents k @ key_typed (mods_of k) raw)"
proof -
  have b: "take 255 (ring_contents k) = ring_contents k" using kq.bounded [OF assms] by simp
  let ?k = "k\<lparr>e0_prefix := False\<rparr>"
  have off: "raw - 0x80 = c \<longleftrightarrow> raw = c + 0x80" for c by (auto simp: algebra_simps)
  note p = push_keyed [of ?k, unfolded ring_frame, OF assms] push_keyed [OF assms]
  consider "raw = 0xE0" | "raw \<noteq> 0xE0" "e0_prefix k" | "raw \<noteq> 0xE0" "\<not> e0_prefix k" by blast
  then show ?thesis
  proof cases
    case 1
    then show ?thesis using assms b by (simp add: handleScancode_def mods_after_def key_typed_def mods_of_def ring_frame)
  next
    case 2
    have m: "mods_of ?k = (mods_of k)\<lparr>m_e0 := False\<rparr>" by (simp add: mods_of_def)
    have "handleScancode raw k = (if 0x80 \<le> raw then ?k
        else ring_push (if raw = 0x4B then 0x8C else if raw = 0x4D then 0x8D else if raw = 0x53 then 0x7F else 0) ?k)"
      using 2 by (simp add: handleScancode_def raw_bits)
    then show ?thesis
      using 2 p assms b m by (auto simp: mods_after_def key_typed_def mods_of_def ring_frame)
  next
    case 3
    let ?key = "scancode_table ! unat raw"
    show ?thesis
    proof (cases "0x80 \<le> raw")
      case True
      then have "handleScancode raw k =
          (if raw \<in> {0xAA, 0xB6} then k\<lparr>shift_held := False\<rparr>
           else if raw = 0x9D then k\<lparr>ctrl_held := False\<rparr> else if raw = 0xB8 then k\<lparr>alt_held := False\<rparr> else k)"
        using 3 by (simp add: handleScancode_def raw_bits off Let_def)
      moreover have "raw \<notin> {0x2A, 0x36}" "raw \<noteq> 0x1D" "raw \<noteq> 0x38" "raw \<noteq> 0x3A"
        using True by (auto simp: word_le_nat_alt)
      ultimately show ?thesis using True 3 assms b
        by (simp add: mods_after_def key_typed_def mods_of_def ring_frame)
    next
      case False
      let ?mod = "{0x2A, 0x36, 0x1D, 0x38, 0x3A, 0x45} :: u8 set"
      have rel: "raw \<notin> {0xAA, 0xB6}" "raw \<noteq> 0x9D" "raw \<noteq> 0xB8" using False by (auto simp: word_le_nat_alt)
      show ?thesis
      proof (cases "raw \<in> ?mod")
        case True
        then have "key_typed (mods_of k) raw = []" by (auto simp: key_typed_def scancode_table_def mods_of_def 3(2))
        moreover have "ring_ok (handleScancode raw k) \<and> ring_contents (handleScancode raw k) = ring_contents k \<and>
            mods_of (handleScancode raw k) = mods_after raw (mods_of k)"
          using True False 3 assms by (auto simp: handleScancode_def raw_bits mods_after_def mods_of_def ring_frame)
        ultimately show ?thesis using b by simp
      next
        case nm: False
        define c where "c = (if (if 0x61 \<le> ?key \<and> ?key \<le> 0x7A then shift_held k \<noteq> caps_lock_on k else shift_held k)
            then resolveShift ?key else ?key)"
        have h: "handleScancode raw k = (if raw < 0x59 \<and> ?key \<noteq> 0 then ring_push c k else k)"
          using False nm 3 by (simp add: handleScancode_def raw_bits Let_def c_def)
        have m: "mods_after raw (mods_of k) = mods_of k" using False nm 3 rel by (simp add: mods_after_def mods_of_def)
        have c0: "c \<noteq> 0" if "?key \<noteq> 0" using that resolveShift_nonzero [OF that] by (simp add: c_def)
        have "key_typed (mods_of k) raw = (if raw < 0x59 \<and> ?key \<noteq> 0 then [c] else [])"
          using False 3 by (auto simp: key_typed_def mods_of_def c_def resolveShift_def Let_def not_le)
        then show ?thesis using h m c0 p(2) assms b by auto
      qed
    qed
  qed
qed


lemma take_take_append: "take n (take n (xs @ ys) @ zs) = take n (xs @ ys @ zs)"
  by (simp add: min_def)

lemma handles_keyed:
  "ring_ok k \<Longrightarrow> ring_ok (fold handleScancode raws k) \<and> mods_of (fold handleScancode raws k) = fold mods_after raws (mods_of k) \<and>
    ring_contents (fold handleScancode raws k) = take 255 (ring_contents k @ keys_typed (mods_of k) raws)"
proof (induction raws arbitrary: k)
  case Nil
  then show ?case using kq.bounded [of k] by simp
next
  case (Cons raw raws)
  have h: "ring_ok (handleScancode raw k)" "mods_of (handleScancode raw k) = mods_after raw (mods_of k)"
    "ring_contents (handleScancode raw k) = take 255 (ring_contents k @ key_typed (mods_of k) raw)"
    using handle_keyed [OF Cons.prems, of raw] by blast+
  show ?case using Cons.IH [OF h(1)] by (simp only: fold_simps keys_typed.simps h(2,3) take_take_append)
qed

definition kbd_inv :: "kbd_service \<Rightarrow> bool" where
  "kbd_inv s \<longleftrightarrow> ring_ok (kb s) \<and> (pending_reader s = 0 \<or> ring_contents (kb s) = [])"

lemma count_contents: "ring_ok k \<Longrightarrow> 0 < bufferCount k \<longleftrightarrow> ring_contents k \<noteq> []"
  using bufferCount_contents [of k] by (auto simp: word_less_nat_alt simp del: length_ring_contents)

lemma read_contents_hd:
  assumes "ring_ok k" "ring_contents k \<noteq> []"
  obtains k' where "readBuffer k = (hd (ring_contents k), k')" "ring_ok k'" "ring_contents k' = tl (ring_contents k)"
    "mods_of k' = mods_of k"
proof -
  have "mods_of (snd (readBuffer k)) = mods_of k" by (simp add: readBuffer_def mods_of_def)
  then show ?thesis
    using that [of "snd (readBuffer k)"] kq.inv_pop [OF assms] kq.contents_pop [OF assms]
    by (metis list.sel(1,3) prod.collapse)
qed

lemma kbd_step_refines:
  assumes "kbd_inv s"
  obtains s' where "kbd_step msg sender s = (fst (spec_step msg sender (kbd_abs s)), s')"
    "kbd_abs s' = snd (spec_step msg sender (kbd_abs s))" "kbd_inv s'"
proof (cases msg)
  case (IrqNotify raws)
  let ?k = "fold handleScancode raws (kb s)"
  have k: "ring_ok ?k" "mods_of ?k = fold mods_after raws (mods_of (kb s))"
    "ring_contents ?k = take 255 (ring_contents (kb s) @ keys_typed (mods_of (kb s)) raws)"
    using handles_keyed [of "kb s" raws] assms by (simp_all add: kbd_inv_def)
  show ?thesis
  proof (cases "pending_reader s \<noteq> 0 \<and> ring_contents ?k \<noteq> []")
    case True
    obtain k' where r: "readBuffer ?k = (hd (ring_contents ?k), k')" "ring_ok k'" "ring_contents k' = tl (ring_contents ?k)"
      "mods_of k' = mods_of ?k" by (rule read_contents_hd [OF k(1)]) (use True in blast)
    show ?thesis
      by (rule that [of "s\<lparr>kb := k', pending_reader := 0\<rparr>"])
        (use True r k IrqNotify count_contents [OF k(1)] in
          \<open>simp_all add: kbd_step_def spec_step_def kbd_abs_def kbd_inv_def Let_def k(3) [symmetric]\<close>)
  next
    case False
    show ?thesis
      by (rule that [of "s\<lparr>kb := ?k\<rparr>"])
        (use False k IrqNotify count_contents [OF k(1)] in
          \<open>auto simp: kbd_step_def spec_step_def kbd_abs_def kbd_inv_def Let_def k(3) [symmetric]\<close>)
  qed
next
  case KbdRead
  have k: "ring_ok (kb s)" using assms by (simp add: kbd_inv_def)
  show ?thesis
  proof (cases "0 <s sender \<and> ring_contents (kb s) \<noteq> []")
    case True
    obtain k' where r: "readBuffer (kb s) = (hd (ring_contents (kb s)), k')" "ring_ok k'" "ring_contents k' = tl (ring_contents (kb s))"
      "mods_of k' = mods_of (kb s)" by (rule read_contents_hd [OF k]) (use True in blast)
    show ?thesis
      by (rule that [of "s\<lparr>kb := k'\<rparr>"])
        (use True r assms KbdRead count_contents [OF k] in \<open>auto simp: kbd_step_def spec_step_def kbd_abs_def kbd_inv_def\<close>)
  next
    case False
    show ?thesis
      by (rule that [of "if 0 <s sender then s\<lparr>pending_reader := ucast sender\<rparr> else s"])
        (use False assms KbdRead count_contents [OF k] in \<open>auto simp: kbd_step_def spec_step_def kbd_abs_def kbd_inv_def\<close>)
  qed
next
  case KbdOther
  show ?thesis
    by (rule that [of s]) (use assms KbdOther in \<open>auto simp: kbd_step_def spec_step_def\<close>)
qed

lemma kbd_run_refines:
  assumes "kbd_inv s"
  obtains s' where "kbd_run ms s = (fst (spec_run ms (kbd_abs s)), s')" "kbd_abs s' = snd (spec_run ms (kbd_abs s))" "kbd_inv s'"
  using assms
proof (induction ms arbitrary: s thesis)
  case (Cons m ms)
  obtain msg sender where m: "m = (msg, sender)" by (cases m)
  obtain s1 where s1: "kbd_step msg sender s = (fst (spec_step msg sender (kbd_abs s)), s1)"
    "kbd_abs s1 = snd (spec_step msg sender (kbd_abs s))" "kbd_inv s1" by (rule kbd_step_refines [OF Cons.prems(2)])
  obtain s2 where "kbd_run ms s1 = (fst (spec_run ms (kbd_abs s1)), s2)" "kbd_abs s2 = snd (spec_run ms (kbd_abs s1))" "kbd_inv s2"
    using Cons.IH [OF _ s1(3)] by blast
  then show ?case using Cons.prems(1) [of s2] s1 m by (simp add: case_prod_beta)
qed simp

lemma kbd_inv_init: "kbd_inv kbd_service_init"
  by (simp add: kbd_inv_def kbd_service_init_def keyboard_init_def ring_ok_def ring_contents_def ring_count_def)

lemma kbd_abs_init: "kbd_abs kbd_service_init = \<lparr>sp_mods = \<lparr>m_shift = False, m_ctrl = False, m_alt = False, m_caps = False, m_e0 = False\<rparr>,
    sp_queue = [], sp_reader = 0\<rparr>"
  by (simp add: kbd_abs_def mods_of_def kbd_service_init_def keyboard_init_def ring_contents_def ring_count_def)


end
