(* ===== verification/Gfx.thy ===== *)
theory Gfx
  imports Memory Font
begin

text \<open>
  The 2D primitives of libs/gfx.  A pixel buffer is a window on the byte memory: rows of
  \<^verbatim>\<open>pitch\<close> bytes that start at \<^verbatim>\<open>data\<close>, used as a ring from row \<^verbatim>\<open>scrollOffset\<close> on.
\<close>

section \<open>Operations\<close>

type_synonym color = u32

record pixbuf =
  pb_data :: addr
  pb_width :: u32
  pb_height :: u32
  pb_pitch :: u32
  pb_scroll :: u32

definition pixelBuffer :: "addr \<Rightarrow> u32 \<Rightarrow> u32 \<Rightarrow> u32 \<Rightarrow> pixbuf" where
  "pixelBuffer data width height pitch = \<lparr>pb_data = data, pb_width = width, pb_height = height, pb_pitch = pitch, pb_scroll = 0\<rparr>"

definition FONT_WIDTH :: u32 where "FONT_WIDTH = 8"
definition FONT_HEIGHT :: u32 where "FONT_HEIGHT = 16"

definition wrap :: "pixbuf \<Rightarrow> u32 \<Rightarrow> u32" where
  "wrap pb y = (if pb_height pb > 0 then (y + pb_scroll pb) mod pb_height pb else 0)"

definition row_addr :: "pixbuf \<Rightarrow> u32 \<Rightarrow> addr" where
  "row_addr pb r = pb_data pb + r * pb_pitch pb"

definition pixelAt :: "pixbuf \<Rightarrow> u32 \<Rightarrow> u32 \<Rightarrow> addr" where
  "pixelAt pb x y = row_addr pb (wrap pb y) + 4 * x"

definition drawPixel :: "pixbuf \<Rightarrow> u32 \<Rightarrow> u32 \<Rightarrow> color \<Rightarrow> bmem \<Rightarrow> bmem" where
  "drawPixel pb x y c m = (if x < pb_width pb \<and> y < pb_height pb then store32 m (pixelAt pb x y) c else m)"

definition fill_row :: "addr \<Rightarrow> u32 \<Rightarrow> color \<Rightarrow> bmem \<Rightarrow> bmem" where
  "fill_row dst w c m = fold (\<lambda>col m. store32 m (dst + 4 * of_nat col) c) [0..<unat w] m"

definition fillRect :: "pixbuf \<Rightarrow> u32 \<Rightarrow> u32 \<Rightarrow> u32 \<Rightarrow> u32 \<Rightarrow> color \<Rightarrow> bmem \<Rightarrow> bmem" where
  "fillRect pb x y w h c m =
     (if x \<ge> pb_width pb \<or> y \<ge> pb_height pb then m
      else (let w = (if x + w > pb_width pb then pb_width pb - x else w);
                h = (if y + h > pb_height pb then pb_height pb - y else h)
            in fold (\<lambda>row m. fill_row (pixelAt pb x (y + of_nat row)) w c m) [0..<unat h] m))"

definition drawRect :: "pixbuf \<Rightarrow> u32 \<Rightarrow> u32 \<Rightarrow> u32 \<Rightarrow> u32 \<Rightarrow> color \<Rightarrow> bmem \<Rightarrow> bmem" where
  "drawRect pb x y w h c m =
     (if w = 0 \<or> h = 0 then m
      else (let m = fillRect pb x y w 1 c m; m = fillRect pb x (y + h - 1) w 1 c m in
            if h > 2 then fillRect pb (x + w - 1) (y + 1) 1 (h - 2) c (fillRect pb x (y + 1) 1 (h - 2) c m) else m))"

text \<open>Both loops end at the first row or column outside the buffer.\<close>

definition char_row :: "pixbuf \<Rightarrow> u32 \<Rightarrow> u32 \<Rightarrow> u8 \<Rightarrow> color \<Rightarrow> color \<Rightarrow> bmem \<Rightarrow> bmem" where
  "char_row pb x py bits fg bg m =
     fold (\<lambda>col m. store32 m (pixelAt pb (x + of_nat col) py) (if bits AND drop_bit col 0x80 \<noteq> 0 then fg else bg))
       (takeWhile (\<lambda>col. x + of_nat col < pb_width pb) [0..<8]) m"

definition drawChar :: "pixbuf \<Rightarrow> u32 \<Rightarrow> u32 \<Rightarrow> u8 \<Rightarrow> color \<Rightarrow> color \<Rightarrow> bmem \<Rightarrow> bmem" where
  "drawChar pb x y ch fg bg m =
     (let glyph = font ! unat ch in
      fold (\<lambda>row m. char_row pb x (y + of_nat row) (glyph ! row) fg bg m)
        (takeWhile (\<lambda>row. y + of_nat row < pb_height pb) [0..<16]) m)"

definition drawText :: "pixbuf \<Rightarrow> u32 \<Rightarrow> u32 \<Rightarrow> u8 list \<Rightarrow> color \<Rightarrow> color \<Rightarrow> bmem \<Rightarrow> bmem" where
  "drawText pb x y text fg bg m =
     fold (\<lambda>i m. drawChar pb (x + of_nat i * FONT_WIDTH) y (text ! i) fg bg m) [0..<length text] m"

definition scroll :: "u32 \<Rightarrow> color \<Rightarrow> pixbuf \<times> bmem \<Rightarrow> pixbuf \<times> bmem" where
  "scroll pixels c pm = (case pm of (pb, m) \<Rightarrow>
     (if pixels = 0 \<or> pb_height pb = 0 then (pb, m)
      else if pixels \<ge> pb_height pb
      then (pb\<lparr>pb_scroll := 0\<rparr>,
            fold (\<lambda>row m. fill_row (row_addr pb (of_nat row)) (pb_width pb) c m) [0..<unat (pb_height pb)] m)
      else (pb\<lparr>pb_scroll := (pb_scroll pb + pixels) mod pb_height pb\<rparr>,
            fold (\<lambda>row m. fill_row (row_addr pb ((pb_scroll pb + of_nat row) mod pb_height pb)) (pb_width pb) c m)
              [0..<unat pixels] m)))"

definition blit :: "pixbuf \<Rightarrow> u32 \<Rightarrow> u32 \<Rightarrow> pixbuf \<Rightarrow> u32 \<Rightarrow> u32 \<Rightarrow> u32 \<Rightarrow> u32 \<Rightarrow> bmem \<Rightarrow> bmem" where
  "blit pb dx dy src sx sy w h m =
     (if sx \<ge> pb_width src \<or> sy \<ge> pb_height src then m
      else
       (let w = (if sx + w > pb_width src then pb_width src - sx else w);
            h = (if sy + h > pb_height src then pb_height src - sy else h) in
        if dx \<ge> pb_width pb \<or> dy \<ge> pb_height pb then m
        else
         (let w = (if dx + w > pb_width pb then pb_width pb - dx else w);
              h = (if dy + h > pb_height pb then pb_height pb - dy else h) in
          fold (\<lambda>row m. mem_copy m (pixelAt pb dx (dy + of_nat row)) (pixelAt src sx (sy + of_nat row)) (w * 4))
            [0..<unat h] m)))"

section \<open>The picture a buffer shows\<close>

text \<open>Rows fit in the pitch, the buffer does not run past the end of memory.\<close>

definition pb_ok :: "pixbuf \<Rightarrow> bool" where
  "pb_ok pb \<longleftrightarrow> 4 * unat (pb_width pb) \<le> unat (pb_pitch pb) \<and>
     unat (pb_data pb) + unat (pb_height pb) * unat (pb_pitch pb) \<le> 2 ^ 32 \<and>
     2 * unat (pb_height pb) \<le> 2 ^ 32 \<and> (pb_scroll pb < pb_height pb \<or> pb_scroll pb = 0)"

type_synonym picture = "nat \<Rightarrow> nat \<Rightarrow> color"

definition raw_pixel :: "pixbuf \<Rightarrow> bmem \<Rightarrow> picture" where
  "raw_pixel pb m x r = load32 m (row_addr pb (of_nat r) + 4 * of_nat x)"

definition picture_of :: "pixbuf \<Rightarrow> bmem \<Rightarrow> picture" where
  "picture_of pb m x y = load32 m (pixelAt pb (of_nat x) (of_nat y))"

definition buffer_bytes :: "pixbuf \<Rightarrow> addr set" where
  "buffer_bytes pb = {a. \<exists>r x. r < unat (pb_height pb) \<and> x < 4 * unat (pb_width pb) \<and>
     unat a = unat (pb_data pb) + r * unat (pb_pitch pb) + x}"

lemma raw_addr:
  assumes "pb_ok pb" "r < unat (pb_height pb)" "x < unat (pb_width pb)" "k < 4"
  shows "unat (row_addr pb (of_nat r) + 4 * of_nat x + of_nat k) =
    unat (pb_data pb) + r * unat (pb_pitch pb) + 4 * x + k"
proof -
  let ?n = "r * unat (pb_pitch pb) + 4 * x + k"
  have "r * unat (pb_pitch pb) + unat (pb_pitch pb) \<le> unat (pb_height pb) * unat (pb_pitch pb)"
    using assms(2) by (metis Suc_leI add.commute mult_Suc mult_le_mono1)
  moreover have "4 * x + k < unat (pb_pitch pb)" using assms by (simp add: pb_ok_def)
  ultimately have "unat (pb_data pb) + ?n < 2 ^ 32" using assms(1) by (simp add: pb_ok_def)
  then have n: "unat (pb_data pb + of_nat ?n) = unat (pb_data pb) + ?n" by (rule unat_add_of_nat)
  have "row_addr pb (of_nat r) + 4 * of_nat x + of_nat k = pb_data pb + of_nat ?n"
    by (simp add: row_addr_def)
  then show ?thesis using n by (simp only: add.assoc [symmetric])
qed

lemma pixel_apart:
  assumes "pb_ok pb" "r < unat (pb_height pb)" "x < unat (pb_width pb)" "r' < unat (pb_height pb)" "x' < unat (pb_width pb)"
    and "(x, r) \<noteq> (x', r')" "k < 4" "k' < 4"
  shows "row_addr pb (of_nat r) + 4 * of_nat x + of_nat k \<noteq> row_addr pb (of_nat r') + 4 * of_nat x' + of_nat k'"
proof
  let ?P = "unat (pb_pitch pb)"
  assume "row_addr pb (of_nat r) + 4 * of_nat x + of_nat k = row_addr pb (of_nat r') + 4 * of_nat x' + of_nat k'"
  then have eq: "r * ?P + (4 * x + k) = r' * ?P + (4 * x' + k')"
    using raw_addr [OF assms(1,2,3,7)] raw_addr [OF assms(1,4,5,8)] by simp
  have lt: "4 * x + k < ?P" "4 * x' + k' < ?P" using assms by (simp_all add: pb_ok_def)
  from eq have "(r * ?P + (4 * x + k)) div ?P = (r' * ?P + (4 * x' + k')) div ?P" by simp
  then have "r = r'" using lt by simp
  then show False using eq assms(6-8) by simp
qed

lemma load32_cong: "(\<And>k. k < 4 \<Longrightarrow> m (a + of_nat k) = m' (a + of_nat k)) \<Longrightarrow> load32 m a = load32 m' a"
proof -
  assume *: "\<And>k. k < 4 \<Longrightarrow> m (a + of_nat k) = m' (a + of_nat k)"
  from * [of 0] * [of 1] * [of 2] * [of 3] show ?thesis by (simp add: load32_def)
qed

text \<open>Painting a list of pixels, given by column and row of the memory, with a colour for each.\<close>

definition paint :: "pixbuf \<Rightarrow> picture \<Rightarrow> (nat \<times> nat) list \<Rightarrow> bmem \<Rightarrow> bmem" where
  "paint pb col ps m = fold (\<lambda>(x, r) m. store32 m (row_addr pb (of_nat r) + 4 * of_nat x) (col x r)) ps m"

definition on_buffer :: "pixbuf \<Rightarrow> (nat \<times> nat) list \<Rightarrow> bool" where
  "on_buffer pb ps \<longleftrightarrow> (\<forall>(x, r) \<in> set ps. x < unat (pb_width pb) \<and> r < unat (pb_height pb))"

lemma paint_append: "paint pb col (ps @ qs) m = paint pb col qs (paint pb col ps m)"
  by (simp add: paint_def)

lemma store_pixel:
  assumes "pb_ok pb" "r < unat (pb_height pb)" "x < unat (pb_width pb)" "r' < unat (pb_height pb)" "x' < unat (pb_width pb)"
  shows "raw_pixel pb (store32 m (row_addr pb (of_nat r') + 4 * of_nat x') c) x r =
    (if (x, r) = (x', r') then c else raw_pixel pb m x r)"
proof (cases "(x, r) = (x', r')")
  case True
  then show ?thesis by (simp add: raw_pixel_def load32_store32)
next
  case False
  let ?a = "row_addr pb (of_nat r') + 4 * of_nat x'"
  have "store32 m ?a c (row_addr pb (of_nat r) + 4 * of_nat x + of_nat k) = m (row_addr pb (of_nat r) + 4 * of_nat x + of_nat k)"
    if "k < 4" for k
  proof (rule store32_other)
    note ap = pixel_apart [OF assms False that]
    show "row_addr pb (of_nat r) + 4 * of_nat x + of_nat k \<noteq> ?a" using ap [of 0] by simp
    show "row_addr pb (of_nat r) + 4 * of_nat x + of_nat k \<noteq> ?a + 1" using ap [of 1] by simp
    show "row_addr pb (of_nat r) + 4 * of_nat x + of_nat k \<noteq> ?a + 2" using ap [of 2] by simp
    show "row_addr pb (of_nat r) + 4 * of_nat x + of_nat k \<noteq> ?a + 3" using ap [of 3] by simp
  qed
  then show ?thesis unfolding raw_pixel_def if_not_P [OF False] by (rule load32_cong)
qed

lemma paint_ok:
  assumes "pb_ok pb" "r < unat (pb_height pb)" "x < unat (pb_width pb)" "on_buffer pb ps"
  shows "raw_pixel pb (paint pb col ps m) x r = (if (x, r) \<in> set ps then col x r else raw_pixel pb m x r)"
  using assms(4)
proof (induction ps rule: rev_induct)
  case (snoc p ps)
  obtain x' r' where p: "p = (x', r')" by (cases p)
  then have "x' < unat (pb_width pb)" "r' < unat (pb_height pb)" "on_buffer pb ps"
    using snoc.prems by (auto simp: on_buffer_def)
  then show ?case using store_pixel [OF assms(1,2,3), of r' x'] snoc.IH p
    by (simp add: paint_append) (auto simp: paint_def)
qed (simp add: paint_def)

lemma paint_frame:
  assumes "pb_ok pb" "on_buffer pb ps" "a \<notin> buffer_bytes pb"
  shows "paint pb col ps m a = m a"
  using assms(2)
proof (induction ps rule: rev_induct)
  case (snoc p ps)
  obtain x r where p: "p = (x, r)" by (cases p)
  then have xr: "x < unat (pb_width pb)" "r < unat (pb_height pb)" "on_buffer pb ps"
    using snoc.prems by (auto simp: on_buffer_def)
  have ne: "a \<noteq> row_addr pb (of_nat r) + 4 * of_nat x + of_nat k" if "k < 4" for k
  proof
    assume "a = row_addr pb (of_nat r) + 4 * of_nat x + of_nat k"
    then have "unat a = unat (pb_data pb) + r * unat (pb_pitch pb) + (4 * x + k)"
      using raw_addr [OF assms(1) xr(2,1) that] by simp
    moreover have "4 * x + k < 4 * unat (pb_width pb)" using xr(1) that by simp
    ultimately show False using assms(3) xr(2) by (auto simp: buffer_bytes_def)
  qed
  have "store32 m' (row_addr pb (of_nat r) + 4 * of_nat x) c a = m' a" for m' c
    using ne [of 0] ne [of 1] ne [of 2] ne [of 3] by (intro store32_other) simp_all
  then show ?case using snoc.IH [OF xr(3)] p by (simp add: paint_append) (simp add: paint_def)
qed (simp add: paint_def)


section \<open>The operations on the picture\<close>

text \<open>The logical row \<open>y\<close> is row \<open>ring_row\<close> of the memory.\<close>

definition ring_row :: "pixbuf \<Rightarrow> nat \<Rightarrow> nat" where
  "ring_row pb y = (y + unat (pb_scroll pb)) mod unat (pb_height pb)"

lemma ring_row_lt: "y < unat (pb_height pb) \<Longrightarrow> ring_row pb y < unat (pb_height pb)"
  by (simp add: ring_row_def)

lemma mod_add_inj:
  fixes y y' s h :: nat
  assumes "y < h" "y' < h" "(y + s) mod h = (y' + s) mod h"
  shows "y = y'"
proof -
  have *: "y = y'" if "y \<le> y'" "y' < h" "(y + s) mod h = (y' + s) mod h" for y y' :: nat
  proof -
    have "h dvd (y' + s) - (y + s)" using that(1,3) mod_eq_dvd_iff_nat [of "y + s" "y' + s" h] by simp
    then have "h dvd y' - y" by simp
    moreover have "y' - y < h" using that(2) by simp
    ultimately have "y' - y = 0" by (metis dvd_imp_le not_less neq0_conv)
    then show ?thesis using that(1) by simp
  qed
  show ?thesis using * [of y y'] * [of y' y] assms by (cases "y \<le> y'") auto
qed

lemma ring_row_inj: "y < unat (pb_height pb) \<Longrightarrow> y' < unat (pb_height pb) \<Longrightarrow> ring_row pb y = ring_row pb y' \<longleftrightarrow> y = y'"
  unfolding ring_row_def by (metis mod_add_inj)

lemma scroll_small: "pb_ok pb \<Longrightarrow> 0 < unat (pb_height pb) \<Longrightarrow> unat (pb_scroll pb) < unat (pb_height pb)"
  by (auto simp: pb_ok_def word_less_nat_alt)

lemma unat_row_sum:
  assumes "pb_ok pb" "n \<le> unat (pb_height pb)" "0 < unat (pb_height pb)"
  shows "unat (of_nat n + pb_scroll pb) = n + unat (pb_scroll pb)"
proof -
  have "n + unat (pb_scroll pb) < 2 ^ 32" using scroll_small [OF assms(1,3)] assms(1,2) by (simp add: pb_ok_def)
  then show ?thesis by (simp add: unat_word_ariths)
qed

lemma wrap_row:
  assumes "pb_ok pb" "unat y < unat (pb_height pb)"
  shows "wrap pb y = of_nat (ring_row pb (unat y))"
proof -
  have "unat (y + pb_scroll pb) = unat y + unat (pb_scroll pb)"
    using unat_row_sum [OF assms(1), of "unat y"] assms(2) by simp
  then have "unat ((y + pb_scroll pb) mod pb_height pb) = ring_row pb (unat y)"
    by (simp add: unat_mod ring_row_def)
  moreover have "pb_height pb > 0" using assms(2) by (simp add: word_less_nat_alt)
  ultimately show ?thesis unfolding wrap_def by (metis of_nat_unat ucast_id)
qed

lemma pixelAt_raw:
  assumes "pb_ok pb" "unat y < unat (pb_height pb)"
  shows "pixelAt pb x y = row_addr pb (of_nat (ring_row pb (unat y))) + 4 * of_nat (unat x)"
  by (simp add: pixelAt_def wrap_row [OF assms])

lemma picture_raw:
  assumes "pb_ok pb" "y < unat (pb_height pb)" "x < unat (pb_width pb)"
  shows "picture_of pb m x y = raw_pixel pb m x (ring_row pb y)"
proof -
  have "y < 2 ^ 32" using assms(2) unat_lt_2p32 less_trans by blast
  then have "unat (of_nat y :: u32) = y" by simp
  moreover have "x < 2 ^ 32" using assms(3) unat_lt_2p32 less_trans by blast
  then have "unat (of_nat x :: u32) = x" by simp
  ultimately show ?thesis using pixelAt_raw [of pb "of_nat y" "of_nat x"] assms by (simp add: picture_of_def raw_pixel_def)
qed

text \<open>A step of a drawing operation: the pixels of \<open>S\<close> get the colours \<open>col\<close>, nothing else changes.\<close>

definition drawn :: "pixbuf \<Rightarrow> (nat \<times> nat) set \<Rightarrow> picture \<Rightarrow> bmem \<Rightarrow> bmem \<Rightarrow> bool" where
  "drawn pb S col m m' \<longleftrightarrow> (\<forall>x y. x < unat (pb_width pb) \<longrightarrow> y < unat (pb_height pb) \<longrightarrow>
     picture_of pb m' x y = (if (x, y) \<in> S then col x y else picture_of pb m x y)) \<and>
     (\<forall>a. a \<notin> buffer_bytes pb \<longrightarrow> m' a = m a)"

lemma drawn_refl: "drawn pb {} col m m"
  by (simp add: drawn_def)

lemma drawn_trans:
  "drawn pb S col m m' \<Longrightarrow> drawn pb T col m' m'' \<Longrightarrow> drawn pb (S \<union> T) col m m''"
  by (auto simp: drawn_def)

lemma drawn_cong:
  "drawn pb S col m m' \<Longrightarrow> (\<And>x y. x < unat (pb_width pb) \<Longrightarrow> y < unat (pb_height pb) \<Longrightarrow> (x, y) \<in> S \<longleftrightarrow> (x, y) \<in> T) \<Longrightarrow>
    (\<And>x y. (x, y) \<in> S \<Longrightarrow> col x y = col' x y) \<Longrightarrow> drawn pb T col' m m'"
  by (simp add: drawn_def)

lemma drawn_fold:
  assumes "\<And>i m. i \<in> set is \<Longrightarrow> drawn pb (S i) col m (f i m)"
  shows "drawn pb (\<Union>i \<in> set is. S i) col m (fold f is m)"
  using assms
proof (induction "is" arbitrary: m)
  case (Cons i "is")
  have "drawn pb (S i \<union> (\<Union>i \<in> set is. S i)) col m (fold f is (f i m))"
    by (rule drawn_trans [OF Cons.prems Cons.IH]) (use Cons.prems in auto)
  then show ?case by simp
qed (simp add: drawn_refl)

lemma drawn_pixel:
  assumes "pb_ok pb" "unat x < unat (pb_width pb)" "unat y < unat (pb_height pb)"
  shows "drawn pb {(unat x, unat y)} (\<lambda>_ _. c) m (store32 m (pixelAt pb x y) c)"
proof -
  let ?p = "[(unat x, ring_row pb (unat y))]"
  have on: "on_buffer pb ?p" using assms ring_row_lt by (simp add: on_buffer_def)
  have st: "store32 m (pixelAt pb x y) c = paint pb (\<lambda>_ _. c) ?p m"
    by (simp add: paint_def pixelAt_raw [OF assms(1,3)])
  show ?thesis
    unfolding st drawn_def
    using paint_ok [OF assms(1) ring_row_lt _ on] paint_frame [OF assms(1) on] picture_raw [OF assms(1)] assms(3)
    by (simp add: ring_row_inj)
qed


definition rect :: "nat \<Rightarrow> nat \<Rightarrow> nat \<Rightarrow> nat \<Rightarrow> (nat \<times> nat) set" where
  "rect x y w h = {(px, py). x \<le> px \<and> px < x + w \<and> y \<le> py \<and> py < y + h}"

lemma unat_plus_small: "unat x + n < 2 ^ 32 \<Longrightarrow> unat (x + of_nat n :: u32) = unat x + n"
  by (rule unat_add_of_nat)

lemma fill_row_drawn:
  assumes "pb_ok pb" "unat y < unat (pb_height pb)" "unat x + unat w \<le> unat (pb_width pb)"
  shows "drawn pb (rect (unat x) (unat y) (unat w) 1) (\<lambda>_ _. c) m (fill_row (pixelAt pb x y) w c m)"
proof -
  have *: "unat (x + of_nat i) = unat x + i" if "i < unat w" for i
    using that assms(3) unat_lt_2p32 [of "pb_width pb"] by (intro unat_plus_small) linarith
  have "drawn pb {(unat x + i, unat y)} (\<lambda>_ _. c) m (store32 m (pixelAt pb x y + 4 * of_nat i) c)"
    if "i \<in> set [0..<unat w]" for i m
  proof -
    have i: "i < unat w" using that by simp
    have "pixelAt pb x y + 4 * of_nat i = pixelAt pb (x + of_nat i) y" by (simp add: pixelAt_def algebra_simps)
    then show ?thesis using drawn_pixel [OF assms(1) _ assms(2), of "x + of_nat i" c m] * [OF i] i assms(3) by simp
  qed
  from drawn_fold [of "[0..<unat w]" pb "\<lambda>i. {(unat x + i, unat y)}" "\<lambda>_ _. c", OF this]
  have "drawn pb (\<Union>i \<in> set [0..<unat w]. {(unat x + i, unat y)}) (\<lambda>_ _. c) m (fill_row (pixelAt pb x y) w c m)"
    by (simp add: fill_row_def)
  then show ?thesis
  proof (rule drawn_cong)
    fix px py
    show "((px, py) \<in> (\<Union>i \<in> set [0..<unat w]. {(unat x + i, unat y)})) \<longleftrightarrow> (px, py) \<in> rect (unat x) (unat y) (unat w) 1"
      using le_Suc_ex [of "unat x" px] by (auto simp: rect_def)
  qed simp
qed

lemma fillRect_drawn:
  assumes "pb_ok pb" "unat x + unat w < 2 ^ 32" "unat y + unat h < 2 ^ 32"
  shows "drawn pb (rect (unat x) (unat y) (unat w) (unat h)) (\<lambda>_ _. c) m (fillRect pb x y w h c m)"
proof (cases "x \<ge> pb_width pb \<or> y \<ge> pb_height pb")
  case True
  then have "fillRect pb x y w h c m = m" by (simp add: fillRect_def)
  moreover have "drawn pb (rect (unat x) (unat y) (unat w) (unat h)) (\<lambda>_ _. c) m m"
    by (rule drawn_cong [OF drawn_refl]) (use True in \<open>auto simp: rect_def word_le_nat_alt\<close>)
  ultimately show ?thesis by simp
next
  case False
  define w' where "w' = (if x + w > pb_width pb then pb_width pb - x else w)"
  define h' where "h' = (if y + h > pb_height pb then pb_height pb - y else h)"
  have xy: "unat x < unat (pb_width pb)" "unat y < unat (pb_height pb)" using False by (simp_all add: word_le_nat_alt)
  have s: "unat (x + w) = unat x + unat w" "unat (y + h) = unat y + unat h" using assms(2,3) by (simp_all add: unat_word_ariths)
  have w': "unat w' = min (unat w) (unat (pb_width pb) - unat x)"
    using xy s by (auto simp: w'_def word_less_nat_alt word_le_nat_alt unat_sub min_def)
  have h': "unat h' = min (unat h) (unat (pb_height pb) - unat y)"
    using xy s by (auto simp: h'_def word_less_nat_alt word_le_nat_alt unat_sub min_def)
  have *: "unat (y + of_nat i) = unat y + i" if "i < unat h'" for i
    using that h' xy unat_lt_2p32 [of "pb_height pb"] by (intro unat_plus_small) linarith
  have "drawn pb (rect (unat x) (unat y + i) (unat w') 1) (\<lambda>_ _. c) m (fill_row (pixelAt pb x (y + of_nat i)) w' c m)"
    if "i \<in> set [0..<unat h']" for i m
  proof -
    have i: "i < unat h'" using that by simp
    have "unat y + i < unat (pb_height pb)" "unat x + unat w' \<le> unat (pb_width pb)" using i h' w' xy by linarith+
    then show ?thesis using fill_row_drawn [OF assms(1), of "y + of_nat i" x w' c m] * [OF i] by simp
  qed
  from drawn_fold [of "[0..<unat h']" pb "\<lambda>i. rect (unat x) (unat y + i) (unat w') 1" "\<lambda>_ _. c", OF this]
  have "drawn pb (\<Union>i \<in> set [0..<unat h']. rect (unat x) (unat y + i) (unat w') 1) (\<lambda>_ _. c) m (fillRect pb x y w h c m)"
    using False by (simp add: fillRect_def w'_def [symmetric] h'_def [symmetric])
  then show ?thesis
  proof (rule drawn_cong)
    fix px py
    assume lt: "px < unat (pb_width pb)" "py < unat (pb_height pb)"
    show "((px, py) \<in> (\<Union>i \<in> set [0..<unat h']. rect (unat x) (unat y + i) (unat w') 1)) \<longleftrightarrow>
        (px, py) \<in> rect (unat x) (unat y) (unat w) (unat h)" (is "?l \<longleftrightarrow> ?r")
    proof
      assume ?r
      then have "(px, py) \<in> rect (unat x) (unat y + (py - unat y)) (unat w') 1" "py - unat y < unat h'"
        using lt w' h' by (auto simp: rect_def)
      then show ?l by (intro UN_I [of "py - unat y"]) auto
    qed (use w' h' in \<open>auto simp: rect_def\<close>)
  qed simp
qed

lemma drawRect_drawn:
  assumes "pb_ok pb" "unat x + unat w < 2 ^ 32" "unat y + unat h < 2 ^ 32"
  shows "drawn pb {(px, py) \<in> rect (unat x) (unat y) (unat w) (unat h).
      px = unat x \<or> px + 1 = unat x + unat w \<or> py = unat y \<or> py + 1 = unat y + unat h} (\<lambda>_ _. c) m (drawRect pb x y w h c m)"
proof (cases "w = 0 \<or> h = 0")
  case True
  then have "drawRect pb x y w h c m = m" by (simp add: drawRect_def)
  moreover have "rect (unat x) (unat y) (unat w) (unat h) = {}" using True by (auto simp: rect_def)
  ultimately show ?thesis by (simp add: drawn_refl)
next
  case False
  then have w: "0 < unat w" "0 < unat h" by (simp_all add: unat_gt_0)
  have u: "unat (y + h - 1) = unat y + unat h - 1" "unat (x + w - 1) = unat x + unat w - 1"
  proof -
    have "unat (y + h) = unat y + unat h" "unat (x + w) = unat x + unat w" using assms by (simp_all add: unat_word_ariths)
    moreover have "1 \<le> y + h" "1 \<le> x + w" using calculation w by (simp_all add: word_le_nat_alt)
    ultimately show "unat (y + h - 1) = unat y + unat h - 1" "unat (x + w - 1) = unat x + unat w - 1"
      by (simp_all add: unat_sub)
  qed
  let ?m1 = "fillRect pb x y w 1 c m"
  let ?m2 = "fillRect pb x (y + h - 1) w 1 c ?m1"
  have d1: "drawn pb (rect (unat x) (unat y) (unat w) 1) (\<lambda>_ _. c) m ?m1"
    using fillRect_drawn [OF assms(1,2), of y 1 c m] assms(3) w by simp
  have d2: "drawn pb (rect (unat x) (unat y + unat h - 1) (unat w) 1) (\<lambda>_ _. c) ?m1 ?m2"
    using fillRect_drawn [OF assms(1,2), of "y + h - 1" 1 c ?m1] assms(3) w u by simp
  show ?thesis
  proof (cases "h > 2")
    case hf: False
    then have h2: "unat h \<le> 2" by (simp add: word_less_nat_alt)
    have "drawRect pb x y w h c m = ?m2" using False hf by (simp add: drawRect_def Let_def)
    moreover have "drawn pb {(px, py) \<in> rect (unat x) (unat y) (unat w) (unat h).
      px = unat x \<or> px + 1 = unat x + unat w \<or> py = unat y \<or> py + 1 = unat y + unat h} (\<lambda>_ _. c) m ?m2"
      by (rule drawn_cong [OF drawn_trans [OF d1 d2]]) (use h2 w in \<open>auto simp: rect_def\<close>)
    ultimately show ?thesis by simp
  next
    case True
    then have h2: "2 < unat h" by (simp add: word_less_nat_alt)
    let ?m3 = "fillRect pb x (y + 1) 1 (h - 2) c ?m2"
    let ?m4 = "fillRect pb (x + w - 1) (y + 1) 1 (h - 2) c ?m3"
    have u': "unat (y + 1) = unat y + 1" "unat (h - 2) = unat h - 2"
      using assms(3) h2 by (simp_all add: unat_word_ariths unat_sub word_le_nat_alt)
    have d3: "drawn pb (rect (unat x) (unat y + 1) 1 (unat h - 2)) (\<lambda>_ _. c) ?m2 ?m3"
      using fillRect_drawn [OF assms(1), of x 1 "y + 1" "h - 2" c ?m2] assms(2,3) w h2 u' by simp
    have d4: "drawn pb (rect (unat x + unat w - 1) (unat y + 1) 1 (unat h - 2)) (\<lambda>_ _. c) ?m3 ?m4"
      using fillRect_drawn [OF assms(1), of "x + w - 1" 1 "y + 1" "h - 2" c ?m3] assms(2,3) w h2 u u' by simp
    have "drawRect pb x y w h c m = ?m4" using False True by (simp add: drawRect_def Let_def)
    moreover have "drawn pb {(px, py) \<in> rect (unat x) (unat y) (unat w) (unat h).
      px = unat x \<or> px + 1 = unat x + unat w \<or> py = unat y \<or> py + 1 = unat y + unat h} (\<lambda>_ _. c) m ?m4"
      by (rule drawn_cong [OF drawn_trans [OF drawn_trans [OF drawn_trans [OF d1 d2] d3] d4]])
        (use h2 w in \<open>auto simp: rect_def\<close>)
    ultimately show ?thesis by simp
  qed
qed

text \<open>The pixel of a glyph: bit 7 of a row is its leftmost pixel.\<close>

definition glyph_pixel :: "u8 \<Rightarrow> nat \<Rightarrow> nat \<Rightarrow> bool" where
  "glyph_pixel ch col row \<longleftrightarrow> bit (font ! unat ch ! row) (7 - col)"

definition char_color :: "nat \<Rightarrow> nat \<Rightarrow> u8 \<Rightarrow> color \<Rightarrow> color \<Rightarrow> picture" where
  "char_color x y ch fg bg px py = (if glyph_pixel ch (px - x) (py - y) then fg else bg)"

lemma bit_7: "col < 8 \<Longrightarrow> (bits AND drop_bit col 0x80 \<noteq> 0) = bit bits (7 - col)" for bits :: u8
proof -
  assume c: "col < 8"
  then have "col = 0 \<or> col = 1 \<or> col = 2 \<or> col = 3 \<or> col = 4 \<or> col = 5 \<or> col = 6 \<or> col = 7" by linarith
  then have "drop_bit col (0x80 :: u8) = 2 ^ (7 - col)" by auto
  then show ?thesis using and_exp_eq_0_iff_not_bit [of bits "7 - col"] by simp
qed

lemma takeWhile_upt: "takeWhile (\<lambda>i. i < k) [0..<n] = [0..<min n k]"
proof (cases "k < n")
  case True
  then have "[0..<n] = [0..<k] @ k # [Suc k..<n]" by (metis upt_add_eq_append upt_conv_Cons le0 le_add_diff_inverse less_imp_le)
  then show ?thesis using True by (simp add: takeWhile_append min_def)
next
  case False
  then have "takeWhile (\<lambda>i. i < k) [0..<n] = [0..<n]" by (subst takeWhile_eq_all_conv) auto
  then show ?thesis using False by (simp add: min_def)
qed

text \<open>The loops of a character end at the edge of the buffer.\<close>

lemma takeWhile_edge:
  fixes x n :: u32
  assumes "unat n \<le> 2 ^ 31"
  shows "takeWhile (\<lambda>i. x + of_nat i < n) [0..<16] = [0..<min 16 (unat n - unat x)]"
    "takeWhile (\<lambda>i. x + of_nat i < n) [0..<8] = [0..<min 8 (unat n - unat x)]"
proof -
  have edge: "takeWhile (\<lambda>i. x + of_nat i < n) [0..<l] = [0..<min l (unat n - unat x)]" if l: "0 < l" "l \<le> 16" for l
  proof (cases "unat x < unat n")
    case True
    have "(x + of_nat i < n) = (i < unat n - unat x)" if "i < l" for i
      using that l True assms unat_plus_small [of x i] by (simp add: word_less_nat_alt) linarith
    then have "takeWhile (\<lambda>i. x + of_nat i < n) [0..<l] = takeWhile (\<lambda>i. i < unat n - unat x) [0..<l]"
      by (intro takeWhile_cong) auto
    then show ?thesis by (simp only: takeWhile_upt)
  next
    case False
    then have "\<not> x + of_nat 0 < n" by (simp add: word_less_nat_alt)
    then show ?thesis using False l by (simp add: upt_conv_Cons)
  qed
  show "takeWhile (\<lambda>i. x + of_nat i < n) [0..<16] = [0..<min 16 (unat n - unat x)]"
    "takeWhile (\<lambda>i. x + of_nat i < n) [0..<8] = [0..<min 8 (unat n - unat x)]"
    using edge [of 16] edge [of 8] by simp_all
qed

lemma char_row_drawn:
  assumes ok: "pb_ok pb" and row: "unat py < unat (pb_height pb)" "row < 16" "unat py = unat y + row" and bits: "bits = font ! unat ch ! row"
  shows "drawn pb (rect (unat x) (unat py) 8 1) (char_color (unat x) (unat y) ch fg bg) m (char_row pb x py bits fg bg m)"
proof -
  have W: "unat (pb_width pb) \<le> 2 ^ 31"
    using ok unat_lt_2p32 [of "pb_pitch pb"] by (simp add: pb_ok_def)
  let ?S = "\<lambda>i. {(unat x + i, unat py)}" and ?n = "min 8 (unat (pb_width pb) - unat x)"
  have "drawn pb (?S i) (char_color (unat x) (unat y) ch fg bg) m
      (store32 m (pixelAt pb (x + of_nat i) py) (if bits AND drop_bit i 0x80 \<noteq> 0 then fg else bg))"
    if "i \<in> set [0..<?n]" for i m
  proof -
    have i: "i < 8" "unat x + i < unat (pb_width pb)" using that by auto
    have u: "unat (x + of_nat i) = unat x + i" using i W by (intro unat_plus_small) simp
    show ?thesis
      by (rule drawn_cong [OF drawn_pixel [OF ok _ row(1), of "x + of_nat i"]])
        (use i u row(3) in \<open>auto simp: char_color_def glyph_pixel_def bit_7 bits\<close>)
  qed
  from drawn_fold [of "[0..<?n]" pb ?S, OF this]
  have "drawn pb (\<Union>i \<in> set [0..<?n]. ?S i) (char_color (unat x) (unat y) ch fg bg) m (char_row pb x py bits fg bg m)"
    by (simp add: char_row_def takeWhile_edge [OF W])
  then show ?thesis
  proof (rule drawn_cong)
    fix px qy
    assume lt: "px < unat (pb_width pb)"
    show "((px, qy) \<in> (\<Union>i \<in> set [0..<?n]. ?S i)) \<longleftrightarrow> (px, qy) \<in> rect (unat x) (unat py) 8 1" (is "?l \<longleftrightarrow> ?r")
    proof
      assume ?r
      then have "(px, qy) \<in> ?S (px - unat x)" "px - unat x < ?n" using lt by (auto simp: rect_def)
      then show ?l by (intro UN_I [of "px - unat x"]) auto
    qed (auto simp: rect_def)
  qed simp
qed

lemma drawChar_drawn:
  assumes "pb_ok pb"
  shows "drawn pb (rect (unat x) (unat y) 8 16) (char_color (unat x) (unat y) ch fg bg) m (drawChar pb x y ch fg bg m)"
proof (cases "unat y < unat (pb_height pb)")
  case True
  have H: "2 * unat (pb_height pb) \<le> 2 ^ 32" using assms by (simp add: pb_ok_def)
  then have H': "unat (pb_height pb) \<le> 2 ^ 31" by simp
  let ?n = "min 16 (unat (pb_height pb) - unat y)" and ?S = "\<lambda>i. rect (unat x) (unat y + i) 8 1"
  have *: "unat (y + of_nat i) = unat y + i" if "i < 16" for i using that True H by (intro unat_plus_small) simp
  have "drawn pb (?S i) (char_color (unat x) (unat y) ch fg bg) m (char_row pb x (y + of_nat i) (font ! unat ch ! i) fg bg m)"
    if "i \<in> set [0..<?n]" for i m
  proof -
    have "i < 16" "unat y + i < unat (pb_height pb)" using that by auto
    then show ?thesis using char_row_drawn [OF assms _ _ _ refl, of "y + of_nat i" i y x ch fg bg m] * [of i] by simp
  qed
  from drawn_fold [of "[0..<?n]" pb ?S, OF this]
  have "drawn pb (\<Union>i \<in> set [0..<?n]. ?S i) (char_color (unat x) (unat y) ch fg bg) m (drawChar pb x y ch fg bg m)"
    by (simp add: drawChar_def takeWhile_edge [OF H'])
  then show ?thesis
  proof (rule drawn_cong)
    fix px py
    assume lt: "py < unat (pb_height pb)"
    show "((px, py) \<in> (\<Union>i \<in> set [0..<?n]. ?S i)) \<longleftrightarrow> (px, py) \<in> rect (unat x) (unat y) 8 16" (is "?l \<longleftrightarrow> ?r")
    proof
      assume ?r
      then have "(px, py) \<in> ?S (py - unat y)" "py - unat y < ?n" using lt by (auto simp: rect_def)
      then show ?l by (intro UN_I [of "py - unat y"]) auto
    qed (auto simp: rect_def)
  qed simp
next
  case False
  then have "\<not> y + of_nat 0 < pb_height pb" by (simp add: word_less_nat_alt)
  then have "drawChar pb x y ch fg bg m = m" by (simp add: drawChar_def upt_conv_Cons)
  moreover have "drawn pb (rect (unat x) (unat y) 8 16) (char_color (unat x) (unat y) ch fg bg) m m"
    by (rule drawn_cong [OF drawn_refl]) (use False in \<open>auto simp: rect_def\<close>)
  ultimately show ?thesis by simp
qed


text \<open>Scrolling moves the picture up and clears the rows that come in.\<close>

definition row_pixels :: "pixbuf \<Rightarrow> nat \<Rightarrow> (nat \<times> nat) list" where
  "row_pixels pb r = map (\<lambda>x. (x, r)) [0..<unat (pb_width pb)]"

lemma clear_rows_paint:
  "fold (\<lambda>i m. fill_row (row_addr pb (of_nat (rw i))) (pb_width pb) c m) [0..<n] m =
    paint pb (\<lambda>_ _. c) (concat (map (\<lambda>i. row_pixels pb (rw i)) [0..<n])) m"
proof -
  have one: "fill_row (row_addr pb (of_nat (rw i))) (pb_width pb) c m = paint pb (\<lambda>_ _. c) (row_pixels pb (rw i)) m" for i m
    by (simp add: fill_row_def paint_def fold_map comp_def row_pixels_def)
  show ?thesis
    unfolding one by (induction n arbitrary: m) (simp_all add: paint_append, simp add: paint_def)
qed

lemma clear_rows_on:
  "(\<And>i. i < n \<Longrightarrow> rw i < unat (pb_height pb)) \<Longrightarrow> on_buffer pb (concat (map (\<lambda>i. row_pixels pb (rw i)) [0..<n]))"
  by (auto simp: on_buffer_def row_pixels_def)

lemma clear_rows:
  assumes ok: "pb_ok pb" and rows: "\<And>i. i < n \<Longrightarrow> rw i < unat (pb_height pb)"
    and y: "y < unat (pb_height pb)" and x: "x < unat (pb_width pb)"
  shows "raw_pixel pb (fold (\<lambda>i m. fill_row (row_addr pb (of_nat (rw i))) (pb_width pb) c m) [0..<n] m) x y =
      (if y \<in> rw ` {..<n} then c else raw_pixel pb m x y)"
proof -
  have "(x, y) \<in> set (concat (map (\<lambda>i. row_pixels pb (rw i)) [0..<n])) \<longleftrightarrow> y \<in> rw ` {..<n}"
    using x by (auto simp: row_pixels_def image_iff)
  then show ?thesis
    using paint_ok [OF ok y x clear_rows_on, of n rw "\<lambda>_ _. c" m] rows by (simp add: clear_rows_paint)
qed

lemma clear_rows_frame:
  assumes "pb_ok pb" "\<And>i. i < n \<Longrightarrow> rw i < unat (pb_height pb)" "a \<notin> buffer_bytes pb"
  shows "fold (\<lambda>i m. fill_row (row_addr pb (of_nat (rw i))) (pb_width pb) c m) [0..<n] m a = m a"
  unfolding clear_rows_paint using assms by (intro paint_frame clear_rows_on) auto

definition scrolled :: "nat \<Rightarrow> nat \<Rightarrow> color \<Rightarrow> picture \<Rightarrow> picture" where
  "scrolled h n c f x y = (if y + n < h then f x (y + n) else c)"

lemma pixbuf_frame [simp]:
  "row_addr (pb\<lparr>pb_scroll := s\<rparr>) r = row_addr pb r" "raw_pixel (pb\<lparr>pb_scroll := s\<rparr>) m = raw_pixel pb m"
  "buffer_bytes (pb\<lparr>pb_scroll := s\<rparr>) = buffer_bytes pb"
  by (simp_all add: row_addr_def raw_pixel_def fun_eq_iff buffer_bytes_def)

lemma scroll_ok:
  assumes ok: "pb_ok pb"
  shows "\<exists>s m'. scroll n c (pb, m) = (pb\<lparr>pb_scroll := s\<rparr>, m') \<and> pb_ok (pb\<lparr>pb_scroll := s\<rparr>) \<and>
    (\<forall>x y. x < unat (pb_width pb) \<longrightarrow> y < unat (pb_height pb) \<longrightarrow>
       picture_of (pb\<lparr>pb_scroll := s\<rparr>) m' x y = scrolled (unat (pb_height pb)) (unat n) c (picture_of pb m) x y) \<and>
    (\<forall>a. a \<notin> buffer_bytes pb \<longrightarrow> m' a = m a)"
proof -
  let ?H = "unat (pb_height pb)"
  consider (none) "n = 0 \<or> pb_height pb = 0" | (all) "n \<noteq> 0" "pb_height pb \<noteq> 0" "pb_height pb \<le> n"
    | (some) "n \<noteq> 0" "pb_height pb \<noteq> 0" "\<not> pb_height pb \<le> n" by blast
  then show ?thesis
  proof cases
    case none
    have "pb\<lparr>pb_scroll := pb_scroll pb\<rparr> = pb" by simp
    then show ?thesis using none ok
      by (intro exI [of _ "pb_scroll pb"] exI [of _ m]) (auto simp: scroll_def scrolled_def)
  next
    case all
    let ?m = "fold (\<lambda>i m. fill_row (row_addr pb (of_nat i)) (pb_width pb) c m) [0..<?H] m" and ?pb = "pb\<lparr>pb_scroll := 0\<rparr>"
    have s: "scroll n c (pb, m) = (?pb, ?m)" using all by (simp add: scroll_def)
    have ok': "pb_ok ?pb" using ok by (simp add: pb_ok_def)
    have "picture_of ?pb ?m x y = c" if "x < unat (pb_width pb)" "y < ?H" for x y
    proof -
      have "picture_of ?pb ?m x y = raw_pixel pb ?m x (ring_row ?pb y)" using picture_raw [OF ok', of y x ?m] that by simp
      moreover have "ring_row ?pb y < ?H" using ring_row_lt [of y ?pb] that by simp
      ultimately show ?thesis using clear_rows [OF ok, of ?H "\<lambda>i. i" "ring_row ?pb y" x c m] that by auto
    qed
    moreover have "?H \<le> unat n" using all by (simp add: word_le_nat_alt)
    moreover have "?m a = m a" if "a \<notin> buffer_bytes pb" for a
      using clear_rows_frame [OF ok, of ?H "\<lambda>i. i"] that by simp
    ultimately show ?thesis using s ok' by (intro exI [of _ 0] exI [of _ ?m]) (simp add: scrolled_def)
  next
    case some
    let ?s = "unat (pb_scroll pb)" and ?n = "unat n"
    have H: "0 < ?H" "?n < ?H" "0 < ?n" using some by (simp_all add: unat_gt_0 word_le_nat_alt)
    have sH: "?s < ?H" by (rule scroll_small [OF ok H(1)])
    have row: "(pb_scroll pb + of_nat i) mod pb_height pb = of_nat (ring_row pb i)" if "i < ?H" for i
    proof -
      have "unat (of_nat i :: u32) = i" using that unat_lt_2p32 [of "pb_height pb"] by simp
      moreover have "0 < pb_height pb" using H(1) by (simp add: word_less_nat_alt)
      ultimately show ?thesis using wrap_row [OF ok, of "of_nat i"] that by (simp add: wrap_def add.commute)
    qed
    define m' where "m' = fold (\<lambda>i m. fill_row (row_addr pb (of_nat (ring_row pb i))) (pb_width pb) c m) [0..<?n] m"
    define s' where "s' = (pb_scroll pb + n) mod pb_height pb"
    have us: "unat s' = (?s + ?n) mod ?H"
      using unat_row_sum [OF ok, of ?n] H by (simp add: s'_def unat_mod add.commute)
    have "fold (\<lambda>row m. fill_row (row_addr pb ((pb_scroll pb + of_nat row) mod pb_height pb)) (pb_width pb) c m) [0..<?n] m = m'"
      unfolding m'_def using row H(2) by (intro fold_cong) auto
    then have s: "scroll n c (pb, m) = (pb\<lparr>pb_scroll := s'\<rparr>, m')" using some by (simp add: scroll_def s'_def)
    have ok': "pb_ok (pb\<lparr>pb_scroll := s'\<rparr>)" using ok us H(1) by (simp add: pb_ok_def word_less_nat_alt)
    have "picture_of (pb\<lparr>pb_scroll := s'\<rparr>) m' x y = scrolled ?H ?n c (picture_of pb m) x y"
      if x: "x < unat (pb_width pb)" and y: "y < ?H" for x y
    proof -
      let ?r = "ring_row (pb\<lparr>pb_scroll := s'\<rparr>) y"
      have r: "?r = (y + ?n + ?s) mod ?H"
        using us by (simp add: ring_row_def mod_add_right_eq) (simp add: add.commute add.left_commute)
      then have rH: "?r < ?H" using H(1) by simp
      have "picture_of (pb\<lparr>pb_scroll := s'\<rparr>) m' x y = raw_pixel pb m' x ?r"
        using picture_raw [OF ok', of y x m'] x y by simp
      also have "\<dots> = (if ?r \<in> ring_row pb ` {..<?n} then c else raw_pixel pb m x ?r)"
        unfolding m'_def using clear_rows [OF ok, of ?n "ring_row pb" ?r x c m] ring_row_lt H(2) rH x by auto
      also have "\<dots> = scrolled ?H ?n c (picture_of pb m) x y"
      proof (cases "y + ?n < ?H")
        case True
        then have r': "?r = ring_row pb (y + ?n)" using r by (simp add: ring_row_def)
        have "?r \<notin> ring_row pb ` {..<?n}"
        proof
          assume "?r \<in> ring_row pb ` {..<?n}"
          then obtain i where i: "i < ?n" "ring_row pb (y + ?n) = ring_row pb i" unfolding r' by auto
          then show False using ring_row_inj [OF True, of i] H(2) by simp
        qed
        then show ?thesis using True picture_raw [OF ok True x] r' by (simp add: scrolled_def)
      next
        case False
        let ?i = "y + ?n - ?H"
        have "y + ?n + ?s = ?H + (?i + ?s)" using False by simp
        then have "(y + ?n + ?s) mod ?H = ring_row pb ?i" unfolding ring_row_def by (simp only: mod_add_self1)
        then have "?r = ring_row pb ?i" using r by simp
        moreover have "?i < ?n" using y H(3) by linarith
        ultimately have "?r \<in> ring_row pb ` {..<?n}" by blast
        then show ?thesis using False by (simp add: scrolled_def)
      qed
      finally show ?thesis .
    qed
    moreover have "m' a = m a" if "a \<notin> buffer_bytes pb" for a
      unfolding m'_def using that H(2) ring_row_lt by (intro clear_rows_frame [OF ok]) auto
    ultimately show ?thesis using s ok' by blast
  qed
qed


text \<open>Copying from another buffer.\<close>

lemma row_bytes_in:
  assumes "pb_ok pb" "unat y < unat (pb_height pb)" "unat x + k \<le> unat (pb_width pb)" "j < 4 * k"
  shows "pixelAt pb x y + of_nat j \<in> buffer_bytes pb"
proof -
  let ?q = "j div 4" and ?t = "j mod 4" and ?r = "ring_row pb (unat y)"
  have j: "of_nat j = 4 * of_nat ?q + (of_nat ?t :: u32)"
    by (metis div_mult_mod_eq mult.commute of_nat_add of_nat_mult of_nat_numeral)
  have q: "unat x + ?q < unat (pb_width pb)" "?t < 4" using assms(3,4) by auto
  have r: "?r < unat (pb_height pb)" by (rule ring_row_lt [OF assms(2)])
  have "pixelAt pb x y + of_nat j = row_addr pb (of_nat ?r) + 4 * of_nat (unat x + ?q) + of_nat ?t"
    by (simp add: pixelAt_raw [OF assms(1,2)] j algebra_simps del: of_nat_mod of_nat_div)
  then have "unat (pixelAt pb x y + of_nat j) = unat (pb_data pb) + ?r * unat (pb_pitch pb) + (4 * (unat x + ?q) + ?t)"
    using raw_addr [OF assms(1) r q] by (simp only: add.assoc)
  moreover have "4 * (unat x + ?q) + ?t < 4 * unat (pb_width pb)" using q by simp
  ultimately show ?thesis using r unfolding buffer_bytes_def by blast
qed

lemma picture_frame:
  assumes "pb_ok src" "buffer_bytes src \<inter> B = {}" "\<And>a. a \<notin> B \<Longrightarrow> m' a = m a"
    "x < unat (pb_width src)" "y < unat (pb_height src)"
  shows "picture_of src m' x y = picture_of src m x y"
  unfolding picture_of_def
proof (rule load32_cong)
  fix k :: nat
  assume "k < 4"
  have "unat (of_nat y :: u32) = y" "unat (of_nat x :: u32) = x"
    using assms(4,5) unat_lt_2p32 [of "pb_width src"] unat_lt_2p32 [of "pb_height src"] by simp_all
  then have "pixelAt src (of_nat x) (of_nat y) + of_nat k \<in> buffer_bytes src"
    using assms(4,5) \<open>k < 4\<close> by (intro row_bytes_in [OF assms(1), of _ _ 1]) simp_all
  then show "m' (pixelAt src (of_nat x) (of_nat y) + of_nat k) = m (pixelAt src (of_nat x) (of_nat y) + of_nat k)"
    using assms(2,3) by blast
qed

lemma copy_words_drawn:
  assumes "pb_ok pb" "pb_ok src" "buffer_bytes src \<inter> buffer_bytes pb = {}"
    and "unat y < unat (pb_height pb)" "unat x + k \<le> unat (pb_width pb)"
    and "unat sy < unat (pb_height src)" "unat sx + k \<le> unat (pb_width src)"
    and "\<And>i. i < k \<Longrightarrow> col (unat x + i) (unat y) = picture_of src m (unat sx + i) (unat sy)"
  shows "drawn pb (rect (unat x) (unat y) k 1) col m (copy_words m (pixelAt pb x y) (pixelAt src sx sy) k)"
  using assms(5,7,8)
proof (induction k arbitrary: x sx m)
  case 0
  have "rect (unat x) (unat y) 0 1 = {}" by (auto simp: rect_def)
  then show ?case by (simp add: drawn_refl)
next
  case (Suc k)
  let ?m = "store32 m (pixelAt pb x y) (load32 m (pixelAt src sx sy))"
  have "picture_of src m (unat sx) (unat sy) = load32 m (pixelAt src sx sy)" by (simp add: picture_of_def)
  then have d: "drawn pb {(unat x, unat y)} col m ?m"
    using drawn_cong [OF drawn_pixel [OF assms(1) _ assms(4), of x "load32 m (pixelAt src sx sy)" m], of "{(unat x, unat y)}" col]
      Suc.prems(1) Suc.prems(3) [of 0] by simp
  have u: "unat (x + 1) = unat x + 1" "unat (sx + 1) = unat sx + 1"
    using Suc.prems(1,2) unat_lt_2p32 [of "pb_width pb"] unat_lt_2p32 [of "pb_width src"] by (simp_all add: unat_word_ariths)
  have frame: "?m a = m a" if "a \<notin> buffer_bytes pb" for a using d that by (simp add: drawn_def)
  have "col (unat (x + 1) + i) (unat y) = picture_of src ?m (unat (sx + 1) + i) (unat sy)" if "i < k" for i
  proof -
    have "picture_of src ?m (unat (sx + 1) + i) (unat sy) = picture_of src m (unat (sx + 1) + i) (unat sy)"
      by (rule picture_frame [OF assms(2,3) frame]) (use that u Suc.prems(2) assms(6) in simp_all)
    then show ?thesis using Suc.prems(3) [of "Suc i"] that u by simp
  qed
  then have "drawn pb (rect (unat (x + 1)) (unat y) k 1) col ?m (copy_words ?m (pixelAt pb (x + 1) y) (pixelAt src (sx + 1) sy) k)"
    using Suc.prems(1,2) u by (intro Suc.IH) simp_all
  from drawn_trans [OF d this]
  have "drawn pb ({(unat x, unat y)} \<union> rect (unat x + 1) (unat y) k 1) col m
    (copy_words ?m (pixelAt pb x y + 4) (pixelAt src sx sy + 4) k)"
    using u by (simp add: pixelAt_def algebra_simps)
  then show ?case unfolding copy_words.simps
    by (rule drawn_cong) (auto simp: rect_def)
qed

lemma copy_row_drawn:
  assumes "pb_ok pb" "pb_ok src" "buffer_bytes src \<inter> buffer_bytes pb = {}"
    and "unat y < unat (pb_height pb)" "unat x + unat w \<le> unat (pb_width pb)"
    and "unat sy < unat (pb_height src)" "unat sx + unat w \<le> unat (pb_width src)"
    and "\<And>i. i < unat w \<Longrightarrow> col (unat x + i) (unat y) = picture_of src m (unat sx + i) (unat sy)"
  shows "drawn pb (rect (unat x) (unat y) (unat w) 1) col m (mem_copy m (pixelAt pb x y) (pixelAt src sx sy) (w * 4))"
proof -
  have "4 * unat w < 2 ^ 32" using assms(1,5) unat_lt_2p32 [of "pb_pitch pb"] by (simp add: pb_ok_def)
  then have n: "unat (w * 4) = 4 * unat w" by (simp add: unat_word_ariths)
  have "pixelAt pb x y + of_nat i \<noteq> pixelAt src sx sy + of_nat j" if "i < 4 * unat w" "j < 4 * unat w" for i j
    using row_bytes_in [OF assms(1,4,5) that(1)] row_bytes_in [OF assms(2,6,7) that(2)] assms(3) by auto
  then have "fwd_safe (pixelAt pb x y) (pixelAt src sx sy) (4 * unat w)"
    using \<open>4 * unat w < 2 ^ 32\<close> by (simp add: fwd_safe_def)
  then have "mem_copy m (pixelAt pb x y) (pixelAt src sx sy) (w * 4) = copy_words m (pixelAt pb x y) (pixelAt src sx sy) (unat w)"
    using n by (simp add: mem_copy_fwd copy_words_fwd)
  then show ?thesis using copy_words_drawn [OF assms(1-7), where col = col] assms(8) by simp
qed


definition blit_set :: "pixbuf \<Rightarrow> nat \<Rightarrow> nat \<Rightarrow> nat \<Rightarrow> nat \<Rightarrow> nat \<Rightarrow> nat \<Rightarrow> (nat \<times> nat) set" where
  "blit_set src dx dy sx sy w h = {(px, py) \<in> rect dx dy w h. px - dx + sx < unat (pb_width src) \<and> py - dy + sy < unat (pb_height src)}"

definition blit_color :: "pixbuf \<Rightarrow> bmem \<Rightarrow> nat \<Rightarrow> nat \<Rightarrow> nat \<Rightarrow> nat \<Rightarrow> picture" where
  "blit_color src m dx dy sx sy px py = picture_of src m (px - dx + sx) (py - dy + sy)"

lemma unat_clip:
  fixes x w W :: u32
  assumes "unat x < unat W" "unat x + unat w < 2 ^ 32"
  shows "unat (if x + w > W then W - x else w) = min (unat w) (unat W - unat x)"
proof -
  have "unat (x + w) = unat x + unat w" using assms(2) by (simp add: unat_word_ariths)
  then show ?thesis using assms by (auto simp: word_less_nat_alt word_le_nat_alt unat_sub min_def)
qed

lemma blit_drawn:
  assumes ok: "pb_ok pb" "pb_ok src" "buffer_bytes src \<inter> buffer_bytes pb = {}"
    and nw: "unat dx + unat w < 2 ^ 32" "unat dy + unat h < 2 ^ 32" "unat sx + unat w < 2 ^ 32" "unat sy + unat h < 2 ^ 32"
  shows "drawn pb (blit_set src (unat dx) (unat dy) (unat sx) (unat sy) (unat w) (unat h))
    (blit_color src m (unat dx) (unat dy) (unat sx) (unat sy)) m (blit pb dx dy src sx sy w h m)"
proof (cases "sx \<ge> pb_width src \<or> sy \<ge> pb_height src \<or> dx \<ge> pb_width pb \<or> dy \<ge> pb_height pb")
  case True
  then have "blit pb dx dy src sx sy w h m = m" by (auto simp: blit_def Let_def)
  moreover have "drawn pb (blit_set src (unat dx) (unat dy) (unat sx) (unat sy) (unat w) (unat h))
    (blit_color src m (unat dx) (unat dy) (unat sx) (unat sy)) m m"
    by (rule drawn_cong [OF drawn_refl]) (use True in \<open>auto simp: blit_set_def rect_def word_le_nat_alt\<close>)
  ultimately show ?thesis by simp
next
  case False
  then have lt: "unat sx < unat (pb_width src)" "unat sy < unat (pb_height src)" "unat dx < unat (pb_width pb)" "unat dy < unat (pb_height pb)"
    by (simp_all add: word_le_nat_alt)
  define w1 where "w1 = (if sx + w > pb_width src then pb_width src - sx else w)"
  define h1 where "h1 = (if sy + h > pb_height src then pb_height src - sy else h)"
  define w2 where "w2 = (if dx + w1 > pb_width pb then pb_width pb - dx else w1)"
  define h2 where "h2 = (if dy + h1 > pb_height pb then pb_height pb - dy else h1)"
  have u1: "unat w1 = min (unat w) (unat (pb_width src) - unat sx)" "unat h1 = min (unat h) (unat (pb_height src) - unat sy)"
    unfolding w1_def h1_def by (rule unat_clip [OF lt(1) nw(3)], rule unat_clip [OF lt(2) nw(4)])
  have u2: "unat w2 = min (unat w1) (unat (pb_width pb) - unat dx)" "unat h2 = min (unat h1) (unat (pb_height pb) - unat dy)"
    unfolding w2_def h2_def by (rule unat_clip [OF lt(3)], use nw u1 in simp, rule unat_clip [OF lt(4)], use nw u1 in simp)
  let ?col = "blit_color src m (unat dx) (unat dy) (unat sx) (unat sy)"
  have eq: "blit pb dx dy src sx sy w h m =
    fold (\<lambda>row m. mem_copy m (pixelAt pb dx (dy + of_nat row)) (pixelAt src sx (sy + of_nat row)) (w2 * 4)) [0..<unat h2] m"
    using False by (simp add: blit_def w1_def [symmetric] h1_def [symmetric] w2_def [symmetric] h2_def [symmetric] Let_def)
  have all: "drawn pb (\<Union>i \<in> set [0..<n]. rect (unat dx) (unat dy + i) (unat w2) 1) ?col m
    (fold (\<lambda>row m. mem_copy m (pixelAt pb dx (dy + of_nat row)) (pixelAt src sx (sy + of_nat row)) (w2 * 4)) [0..<n] m)"
    if "n \<le> unat h2" for n
    using that
  proof (induction n)
    case (Suc n)
    let ?m = "fold (\<lambda>row m. mem_copy m (pixelAt pb dx (dy + of_nat row)) (pixelAt src sx (sy + of_nat row)) (w2 * 4)) [0..<n] m"
    have d: "drawn pb (\<Union>i \<in> set [0..<n]. rect (unat dx) (unat dy + i) (unat w2) 1) ?col m ?m" using Suc by simp
    have b: "unat dy + n < unat (pb_height pb)" "unat sy + n < unat (pb_height src)" "unat dx + unat w2 \<le> unat (pb_width pb)"
      "unat sx + unat w2 \<le> unat (pb_width src)"
      using Suc.prems u1 u2 lt by linarith+
    have u: "unat (dy + of_nat n) = unat dy + n" "unat (sy + of_nat n) = unat sy + n"
      using b(1,2) unat_lt_2p32 [of "pb_height pb"] unat_lt_2p32 [of "pb_height src"] by (auto intro!: unat_plus_small)
    have src: "?col (unat dx + i) (unat (dy + of_nat n)) = picture_of src ?m (unat sx + i) (unat (sy + of_nat n))" if "i < unat w2" for i
    proof -
      have "picture_of src ?m (unat sx + i) (unat sy + n) = picture_of src m (unat sx + i) (unat sy + n)"
        by (rule picture_frame [OF ok(2,3)]) (use d b that in \<open>auto simp: drawn_def\<close>)
      then show ?thesis by (simp add: blit_color_def u add.commute)
    qed
    have "drawn pb (rect (unat dx) (unat (dy + of_nat n)) (unat w2) 1) ?col ?m
      (mem_copy ?m (pixelAt pb dx (dy + of_nat n)) (pixelAt src sx (sy + of_nat n)) (w2 * 4))"
      by (rule copy_row_drawn [OF ok]) (use b u src in simp_all)
    from drawn_trans [OF d this]
    have "drawn pb ((\<Union>i \<in> set [0..<n]. rect (unat dx) (unat dy + i) (unat w2) 1) \<union> rect (unat dx) (unat dy + n) (unat w2) 1) ?col m
      (mem_copy ?m (pixelAt pb dx (dy + of_nat n)) (pixelAt src sx (sy + of_nat n)) (w2 * 4))" by (simp only: u)
    moreover have "(\<Union>i \<in> set [0..<Suc n]. rect (unat dx) (unat dy + i) (unat w2) 1) =
      (\<Union>i \<in> set [0..<n]. rect (unat dx) (unat dy + i) (unat w2) 1) \<union> rect (unat dx) (unat dy + n) (unat w2) 1" by auto
    ultimately show ?case by simp
  qed (simp add: drawn_refl)
  have le: "unat w2 \<le> unat w" "unat h2 \<le> unat h" "unat sx + unat w2 \<le> unat (pb_width src)" "unat sy + unat h2 \<le> unat (pb_height src)"
    using u1 u2 lt by linarith+
  have ge: "j < unat w2" if "j < unat w" "j + unat sx < unat (pb_width src)" "j + unat dx < unat (pb_width pb)" for j
    using that u1 u2 by linarith
  have ge': "j < unat h2" if "j < unat h" "j + unat sy < unat (pb_height src)" "j + unat dy < unat (pb_height pb)" for j
    using that u1 u2 by linarith
  show ?thesis
    unfolding eq
  proof (rule drawn_cong [OF all [OF order_refl]])
    fix px py
    assume p: "px < unat (pb_width pb)" "py < unat (pb_height pb)"
    show "((px, py) \<in> (\<Union>i \<in> set [0..<unat h2]. rect (unat dx) (unat dy + i) (unat w2) 1)) \<longleftrightarrow>
      (px, py) \<in> blit_set src (unat dx) (unat dy) (unat sx) (unat sy) (unat w) (unat h)" (is "?l \<longleftrightarrow> ?r")
    proof
      assume ?r
      then have r: "unat dx \<le> px" "px < unat dx + unat w" "unat dy \<le> py" "py < unat dy + unat h"
        "px - unat dx + unat sx < unat (pb_width src)" "py - unat dy + unat sy < unat (pb_height src)"
        by (auto simp: blit_set_def rect_def)
      have "px - unat dx < unat w2" by (rule ge) (use r p in linarith)+
      moreover have h: "py - unat dy < unat h2" by (rule ge') (use r p in linarith)+
      ultimately have "(px, py) \<in> rect (unat dx) (unat dy + (py - unat dy)) (unat w2) 1"
        using r by (simp add: rect_def)
      then show ?l using h by (intro UN_I [of "py - unat dy"]) auto
    next
      assume ?l
      then obtain i where "i < unat h2" "(px, py) \<in> rect (unat dx) (unat dy + i) (unat w2) 1" by auto
      then have "unat dx \<le> px" "px < unat dx + unat w2" "py = unat dy + i" "i < unat h2" by (auto simp: rect_def)
      then show ?r using le by (simp add: blit_set_def rect_def)
    qed
  qed simp
qed

section \<open>All operations\<close>

datatype gfx_op =
    OpPixel u32 u32 color
  | OpFill u32 u32 u32 u32 color
  | OpRect u32 u32 u32 u32 color
  | OpChar u32 u32 u8 color color
  | OpText u32 u32 "u8 list" color color
  | OpScroll u32 color
  | OpBlit u32 u32 pixbuf u32 u32 u32 u32

fun gfx_do :: "gfx_op \<Rightarrow> pixbuf \<times> bmem \<Rightarrow> pixbuf \<times> bmem" where
  "gfx_do (OpPixel x y c) (pb, m) = (pb, drawPixel pb x y c m)"
| "gfx_do (OpFill x y w h c) (pb, m) = (pb, fillRect pb x y w h c m)"
| "gfx_do (OpRect x y w h c) (pb, m) = (pb, drawRect pb x y w h c m)"
| "gfx_do (OpChar x y ch fg bg) (pb, m) = (pb, drawChar pb x y ch fg bg m)"
| "gfx_do (OpText x y text fg bg) (pb, m) = (pb, drawText pb x y text fg bg m)"
| "gfx_do (OpScroll n c) (pb, m) = scroll n c (pb, m)"
| "gfx_do (OpBlit dx dy src sx sy w h) (pb, m) = (pb, blit pb dx dy src sx sy w h m)"

text \<open>
  What each operation does to a picture of the given height; for a copy, \<open>sp\<close> is the picture of
  its source.  The clipping to the buffer is implicit: a picture is only looked at inside it.
\<close>

definition overlay :: "(nat \<times> nat) set \<Rightarrow> picture \<Rightarrow> picture \<Rightarrow> picture" where
  "overlay S col f x y = (if (x, y) \<in> S then col x y else f x y)"

definition char_picture :: "nat \<Rightarrow> nat \<Rightarrow> u8 \<Rightarrow> color \<Rightarrow> color \<Rightarrow> picture \<Rightarrow> picture" where
  "char_picture x y ch fg bg = overlay (rect x y 8 16) (char_color x y ch fg bg)"

definition frame :: "nat \<Rightarrow> nat \<Rightarrow> nat \<Rightarrow> nat \<Rightarrow> (nat \<times> nat) set" where
  "frame x y w h = {(px, py) \<in> rect x y w h. px = x \<or> px + 1 = x + w \<or> py = y \<or> py + 1 = y + h}"

fun op_picture :: "nat \<Rightarrow> gfx_op \<Rightarrow> picture \<Rightarrow> picture \<Rightarrow> picture" where
  "op_picture H (OpPixel x y c) sp f = overlay {(unat x, unat y)} (\<lambda>_ _. c) f"
| "op_picture H (OpFill x y w h c) sp f = overlay (rect (unat x) (unat y) (unat w) (unat h)) (\<lambda>_ _. c) f"
| "op_picture H (OpRect x y w h c) sp f = overlay (frame (unat x) (unat y) (unat w) (unat h)) (\<lambda>_ _. c) f"
| "op_picture H (OpChar x y ch fg bg) sp f = char_picture (unat x) (unat y) ch fg bg f"
| "op_picture H (OpText x y text fg bg) sp f =
     fold (\<lambda>i. char_picture (unat (x + of_nat i * 8)) (unat y) (text ! i) fg bg) [0..<length text] f"
| "op_picture H (OpScroll n c) sp f = scrolled H (unat n) c f"
| "op_picture H (OpBlit dx dy src sx sy w h) sp f =
     overlay (blit_set src (unat dx) (unat dy) (unat sx) (unat sy) (unat w) (unat h))
       (\<lambda>px py. sp (px - unat dx + unat sx) (py - unat dy + unat sy)) f"

text \<open>Sums of coordinates must not wrap, and a copy needs a well-formed source that is apart.\<close>

fun op_ok :: "pixbuf \<Rightarrow> gfx_op \<Rightarrow> bool" where
  "op_ok pb (OpFill x y w h c) = (unat x + unat w < 2 ^ 32 \<and> unat y + unat h < 2 ^ 32)"
| "op_ok pb (OpRect x y w h c) = (unat x + unat w < 2 ^ 32 \<and> unat y + unat h < 2 ^ 32)"
| "op_ok pb (OpBlit dx dy src sx sy w h) = (pb_ok src \<and> buffer_bytes src \<inter> buffer_bytes pb = {} \<and>
     unat dx + unat w < 2 ^ 32 \<and> unat dy + unat h < 2 ^ 32 \<and> unat sx + unat w < 2 ^ 32 \<and> unat sy + unat h < 2 ^ 32)"
| "op_ok pb _ = True"

fun op_source :: "gfx_op \<Rightarrow> bmem \<Rightarrow> picture" where
  "op_source (OpBlit dx dy src sx sy w h) m = picture_of src m"
| "op_source _ m = (\<lambda>_ _. 0)"

definition agree :: "pixbuf \<Rightarrow> picture \<Rightarrow> picture \<Rightarrow> bool" where
  "agree pb f g \<longleftrightarrow> (\<forall>x y. x < unat (pb_width pb) \<longrightarrow> y < unat (pb_height pb) \<longrightarrow> f x y = g x y)"

lemma drawn_overlay: "drawn pb S col m m' \<longleftrightarrow> agree pb (picture_of pb m') (overlay S col (picture_of pb m)) \<and>
    (\<forall>a. a \<notin> buffer_bytes pb \<longrightarrow> m' a = m a)"
  by (auto simp: drawn_def agree_def overlay_def)

lemma drawText_ok:
  assumes "pb_ok pb"
  shows "agree pb (picture_of pb (fold (\<lambda>i m. drawChar pb (x + of_nat i * 8) y (text ! i) fg bg m) is m))
      (fold (\<lambda>i. char_picture (unat (x + of_nat i * 8)) (unat y) (text ! i) fg bg) is (picture_of pb m)) \<and>
    (\<forall>a. a \<notin> buffer_bytes pb \<longrightarrow> fold (\<lambda>i m. drawChar pb (x + of_nat i * 8) y (text ! i) fg bg m) is m a = m a)"
proof (induction "is" rule: rev_induct)
  case (snoc i "is")
  let ?m = "fold (\<lambda>i m. drawChar pb (x + of_nat i * 8) y (text ! i) fg bg m) is m"
  from drawChar_drawn [OF assms, of "x + of_nat i * 8" y "text ! i" fg bg ?m, unfolded drawn_overlay] snoc
  show ?case by (auto simp: agree_def char_picture_def overlay_def)
qed (simp add: agree_def)

lemma gfx_do_ok:
  assumes ok: "pb_ok pb" "op_ok pb op"
  shows "\<exists>s m'. gfx_do op (pb, m) = (pb\<lparr>pb_scroll := s\<rparr>, m') \<and> pb_ok (pb\<lparr>pb_scroll := s\<rparr>) \<and>
    agree pb (picture_of (pb\<lparr>pb_scroll := s\<rparr>) m') (op_picture (unat (pb_height pb)) op (op_source op m) (picture_of pb m)) \<and>
    (\<forall>a. a \<notin> buffer_bytes pb \<longrightarrow> m' a = m a)"
proof -
  have same: ?thesis if "gfx_do op (pb, m) = (pb, m')" "drawn pb S col m m'"
    "op_picture (unat (pb_height pb)) op (op_source op m) (picture_of pb m) = overlay S col (picture_of pb m)" for m' S col
  proof -
    have "pb\<lparr>pb_scroll := pb_scroll pb\<rparr> = pb" by simp
    then show ?thesis using that ok(1) by (intro exI [of _ "pb_scroll pb"] exI [of _ m']) (simp add: drawn_overlay)
  qed
  show ?thesis
  proof (cases op)
    case (OpPixel x y c)
    show ?thesis
    proof (cases "x < pb_width pb \<and> y < pb_height pb")
      case True
      then show ?thesis using drawn_pixel [OF ok(1), of x y c m] OpPixel
        by (intro same) (simp_all add: drawPixel_def word_less_nat_alt)
    next
      case False
      have "drawn pb {(unat x, unat y)} (\<lambda>_ _. c) m m"
        by (rule drawn_cong [OF drawn_refl]) (use False in \<open>auto simp: word_less_nat_alt\<close>)
      then show ?thesis using False OpPixel by (intro same) (auto simp: drawPixel_def)
    qed
  next
    case (OpFill x y w h c)
    then show ?thesis using fillRect_drawn [OF ok(1), of x w y h c m] ok(2) by (intro same) auto
  next
    case (OpRect x y w h c)
    then show ?thesis using drawRect_drawn [OF ok(1), of x w y h c m] ok(2)
      by (intro same) (auto simp: frame_def)
  next
    case (OpChar x y ch fg bg)
    then show ?thesis using drawChar_drawn [OF ok(1), of x y ch fg bg m] by (intro same) (auto simp: char_picture_def)
  next
    case (OpText x y tx fg bg)
    have "pb\<lparr>pb_scroll := pb_scroll pb\<rparr> = pb" by simp
    then show ?thesis using OpText ok(1) drawText_ok [OF ok(1), of x y tx fg bg "[0..<length tx]" m]
      by (intro exI [of _ "pb_scroll pb"] exI [of _ "drawText pb x y tx fg bg m"]) (simp add: drawText_def FONT_WIDTH_def)
  next
    case (OpScroll n c)
    then show ?thesis using scroll_ok [OF ok(1), of n c m] by (auto simp: agree_def)
  next
    case (OpBlit dx dy src sx sy w h)
    then show ?thesis using blit_drawn [OF ok(1), of src dx w dy h sx sy m] ok(2)
      by (intro same) (auto simp: blit_color_def [abs_def] fun_eq_iff)
  qed
qed


definition demo_pb :: pixbuf where
  "demo_pb = (pixelBuffer 0x1000 8 4 32)\<lparr>pb_scroll := 3\<rparr>"


end
