(* ===== verification/Display.thy ===== *)
theory Display
  imports Gfx
begin

text \<open>
  The display service of userspace/drivers/display: all drawing goes to a back buffer that is a
  ring of rows; a flush copies it to the linear framebuffer.
\<close>

section \<open>Operations\<close>

record display =
  framebuffer :: addr
  backBuf :: pixbuf
  dirty :: bool

type_synonym screen = "display \<times> bmem"

definition display_new :: "addr \<Rightarrow> addr \<Rightarrow> u32 \<Rightarrow> u32 \<Rightarrow> u32 \<Rightarrow> display" where
  "display_new fb back width height pitch = \<lparr>framebuffer = fb, backBuf = pixelBuffer back width height pitch, dirty = False\<rparr>"

definition disp_fillRect :: "u32 \<Rightarrow> u32 \<Rightarrow> u32 \<Rightarrow> u32 \<Rightarrow> color \<Rightarrow> screen \<Rightarrow> screen" where
  "disp_fillRect x y w h c dm = (case dm of (d, m) \<Rightarrow> (d\<lparr>dirty := True\<rparr>, fillRect (backBuf d) x y w h c m))"

definition disp_drawRect :: "u32 \<Rightarrow> u32 \<Rightarrow> u32 \<Rightarrow> u32 \<Rightarrow> color \<Rightarrow> screen \<Rightarrow> screen" where
  "disp_drawRect x y w h c dm = (case dm of (d, m) \<Rightarrow> (d\<lparr>dirty := True\<rparr>, drawRect (backBuf d) x y w h c m))"

definition disp_blit :: "u32 \<Rightarrow> u32 \<Rightarrow> u32 \<Rightarrow> u32 \<Rightarrow> addr \<Rightarrow> screen \<Rightarrow> screen" where
  "disp_blit x y w h pixels dm = (case dm of (d, m) \<Rightarrow>
     (d\<lparr>dirty := True\<rparr>, blit (backBuf d) x y (pixelBuffer pixels w h (w * 4)) 0 0 w h m))"

definition disp_drawChar :: "u32 \<Rightarrow> u32 \<Rightarrow> u8 \<Rightarrow> color \<Rightarrow> color \<Rightarrow> screen \<Rightarrow> screen" where
  "disp_drawChar x y ch fg bg dm = (case dm of (d, m) \<Rightarrow> (d\<lparr>dirty := True\<rparr>, drawChar (backBuf d) x y ch fg bg m))"

definition disp_scroll :: "u32 \<Rightarrow> color \<Rightarrow> screen \<Rightarrow> screen" where
  "disp_scroll n c dm = (case dm of (d, m) \<Rightarrow>
     (case scroll n c (backBuf d, m) of (pb, m) \<Rightarrow> (d\<lparr>dirty := True, backBuf := pb\<rparr>, m)))"

definition flush :: "screen \<Rightarrow> screen" where
  "flush dm = (case dm of (d, m) \<Rightarrow>
     (if \<not> dirty d then (d, m)
      else
       (let offset = pb_scroll (backBuf d); height = pb_height (backBuf d); pitch = pb_pitch (backBuf d);
            src = pb_data (backBuf d); dst = framebuffer d;
            firstRows = height - offset;
            m = mem_copy m dst (src + offset * pitch) (firstRows * pitch);
            m = (if offset > 0 then mem_copy m (dst + firstRows * pitch) src (offset * pitch) else m)
        in (d\<lparr>dirty := False\<rparr>, m))))"

datatype disp_msg =
    DisplayFillRect u32 u32 u32 u32 u32
  | DisplayDrawRect u32 u32 u32 u32 u32
  | DisplayBlit u32 u32 u32 u32
  | DisplayDrawChar u32 u32 u32 u32 u32
  | DisplayScroll u32 u32
  | DisplayFlush
  | DisplayGetInfo
  | DisplayOther

definition DATABUF_SIZE :: nat where "DATABUF_SIZE = 1024"

definition disp_handle :: "addr \<Rightarrow> disp_msg \<Rightarrow> screen \<Rightarrow> screen" where
  "disp_handle dataBuf msg dm =
     (case msg of
        DisplayFillRect x y w h c \<Rightarrow> disp_fillRect x y w h c dm
      | DisplayDrawRect x y w h c \<Rightarrow> disp_drawRect x y w h c dm
      | DisplayBlit x y w h \<Rightarrow> disp_blit x y w h dataBuf dm
      | DisplayDrawChar x y ch fg bg \<Rightarrow> disp_drawChar x y (ucast ch) fg bg dm
      | DisplayScroll n c \<Rightarrow> disp_scroll n c dm
      | DisplayFlush \<Rightarrow> flush dm
      | DisplayGetInfo \<Rightarrow> dm
      | DisplayOther \<Rightarrow> dm)"

text \<open>One turn of the message loop: receive stores the data, the reply tells the geometry.\<close>

definition disp_step :: "addr \<Rightarrow> disp_msg \<times> u8 list \<times> i32 \<Rightarrow> screen \<Rightarrow> (u32 \<times> u32 list) list \<times> screen" where
  "disp_step dataBuf r dm = (case r of (msg, data, sender) \<Rightarrow> case dm of (d, m) \<Rightarrow>
     (let (d, m) = disp_handle dataBuf msg (d, store_bytes m dataBuf (take DATABUF_SIZE data)); b = backBuf d in
      (if 0 <s sender then [(ucast sender, [pb_width b, pb_height b, pb_pitch b, 32])] else [], (d, m))))"

fun disp_run :: "addr \<Rightarrow> (disp_msg \<times> u8 list \<times> i32) list \<Rightarrow> screen \<Rightarrow> (u32 \<times> u32 list) list \<times> screen" where
  "disp_run dataBuf [] dm = ([], dm)"
| "disp_run dataBuf (r # rs) dm =
     (case disp_step dataBuf r dm of (out, dm) \<Rightarrow> case disp_run dataBuf rs dm of (outs, dm) \<Rightarrow> (out @ outs, dm))"

definition disp_start :: "addr \<Rightarrow> addr \<Rightarrow> u32 \<Rightarrow> u32 \<Rightarrow> u32 \<Rightarrow> bmem \<Rightarrow> screen" where
  "disp_start fb back width height pitch m =
     flush (disp_fillRect 0 0 width height 0 (display_new fb back width height pitch, m))"

section \<open>What the screen shows\<close>

definition area :: "addr \<Rightarrow> nat \<Rightarrow> addr set" where
  "area a n = {x. unat a \<le> unat x \<and> unat x < unat a + n}"

definition buffer_size :: "pixbuf \<Rightarrow> nat" where
  "buffer_size pb = unat (pb_height pb) * unat (pb_pitch pb)"

text \<open>The three areas of memory are apart.\<close>

definition disp_ok :: "addr \<Rightarrow> display \<Rightarrow> bool" where
  "disp_ok dataBuf d \<longleftrightarrow> pb_ok (backBuf d) \<and> buffer_size (backBuf d) < 2 ^ 32 \<and>
     unat (framebuffer d) + buffer_size (backBuf d) \<le> 2 ^ 32 \<and> unat dataBuf + DATABUF_SIZE \<le> 2 ^ 32 \<and>
     area (framebuffer d) (buffer_size (backBuf d)) \<inter> area (pb_data (backBuf d)) (buffer_size (backBuf d)) = {} \<and>
     area dataBuf DATABUF_SIZE \<inter> area (pb_data (backBuf d)) (buffer_size (backBuf d)) = {} \<and>
     area dataBuf DATABUF_SIZE \<inter> area (framebuffer d) (buffer_size (backBuf d)) = {}"

definition shown :: "display \<Rightarrow> bmem \<Rightarrow> picture" where
  "shown d m x y = load32 m (framebuffer d + of_nat y * pb_pitch (backBuf d) + 4 * of_nat x)"

lemma area_of_nat: "unat a + n \<le> 2 ^ 32 \<Longrightarrow> i < n \<Longrightarrow> a + of_nat i \<in> area a n"
  using unat_add_of_nat [of a i] by (simp add: area_def)

lemma area_cases: "x \<in> area a n \<Longrightarrow> \<exists>i < n. x = a + of_nat i"
proof -
  assume x: "x \<in> area a n"
  then have le: "a \<le> x" by (simp add: area_def word_le_nat_alt)
  have "unat (x - a) = unat x - unat a" using le by (rule unat_sub)
  moreover have "x = a + of_nat (unat (x - a))" by simp
  ultimately show ?thesis using x by (intro exI [of _ "unat (x - a)"]) (auto simp: area_def)
qed

lemma buffer_bytes_area: "pb_ok pb \<Longrightarrow> buffer_bytes pb \<subseteq> area (pb_data pb) (buffer_size pb)"
proof
  fix a
  assume ok: "pb_ok pb" and "a \<in> buffer_bytes pb"
  then obtain r x where r: "r < unat (pb_height pb)" "x < 4 * unat (pb_width pb)"
    "unat a = unat (pb_data pb) + r * unat (pb_pitch pb) + x" by (auto simp: buffer_bytes_def)
  have "Suc r * unat (pb_pitch pb) \<le> buffer_size pb" using r(1) unfolding buffer_size_def by (intro mult_le_mono1) simp
  then show "a \<in> area (pb_data pb) (buffer_size pb)" using r ok by (simp add: area_def pb_ok_def)
qed

text \<open>Copying between areas that are apart.\<close>

lemma mem_copy_apart:
  assumes "unat d + N \<le> 2 ^ 32" "unat s + N \<le> 2 ^ 32" "area d N \<inter> area s N = {}" "i + unat n \<le> N" "j + unat n \<le> N"
  shows "mem_copy m (d + of_nat i) (s + of_nat j) n =
    store_bytes m (d + of_nat i) (load_bytes m (s + of_nat j) (unat n))"
proof (rule mem_copy_spec)
  have "d + of_nat i + of_nat p \<noteq> s + of_nat j + of_nat q" if "p < unat n" "q < unat n" for p q
  proof -
    have "d + of_nat (i + p) \<in> area d N" "s + of_nat (j + q) \<in> area s N"
      by (rule area_of_nat, use assms that in simp, use assms that in simp)+
    then show ?thesis using assms(3) by (auto simp: add.assoc)
  qed
  then show "fwd_safe (d + of_nat i) (s + of_nat j) (unat n)"
    using unat_lt_2p32 [of n] by (simp add: fwd_safe_def)
qed

lemma flush_bytes:
  assumes ok: "disp_ok dataBuf d" and dirty: "dirty d" and H: "0 < unat (pb_height (backBuf d))"
  shows "\<exists>m'. flush (d, m) = (d\<lparr>dirty := False\<rparr>, m') \<and>
    (\<forall>a. a \<notin> area (framebuffer d) (buffer_size (backBuf d)) \<longrightarrow> m' a = m a) \<and>
    (\<forall>r j. r < unat (pb_height (backBuf d)) \<longrightarrow> j < unat (pb_pitch (backBuf d)) \<longrightarrow>
       m' (framebuffer d + of_nat (r * unat (pb_pitch (backBuf d)) + j)) =
       m (pb_data (backBuf d) + of_nat (ring_row (backBuf d) r * unat (pb_pitch (backBuf d)) + j)))"
proof -
  let ?b = "backBuf d" and ?A = "framebuffer d" and ?S = "pb_data (backBuf d)"
  let ?P = "unat (pb_pitch ?b)" and ?H = "unat (pb_height ?b)" and ?o = "unat (pb_scroll ?b)" and ?N = "buffer_size ?b"
  have pb: "pb_ok ?b" using ok by (simp add: disp_ok_def)
  have o: "?o < ?H" by (rule scroll_small [OF pb H])
  define n1 where "n1 = (?H - ?o) * ?P"
  define n2 where "n2 = ?o * ?P"
  have N: "n1 + n2 = ?N" using o unfolding n1_def n2_def buffer_size_def
    by (metis add.commute add_mult_distrib le_add_diff_inverse less_imp_le)
  have lim: "?N < 2 ^ 32" "unat ?A + ?N \<le> 2 ^ 32" "unat ?S + ?N \<le> 2 ^ 32"
    and dis: "area ?A ?N \<inter> area ?S ?N = {}"
    using ok pb by (simp_all add: disp_ok_def pb_ok_def buffer_size_def)
  have fr: "unat (pb_height ?b - pb_scroll ?b) = ?H - ?o" using o by (simp add: unat_sub word_le_nat_alt)
  have u1: "unat ((pb_height ?b - pb_scroll ?b) * pb_pitch ?b) = n1" "unat (pb_scroll ?b * pb_pitch ?b) = n2"
    using N lim(1) fr by (simp_all add: unat_word_ariths n1_def n2_def)
  have w1: "(pb_height ?b - pb_scroll ?b) * pb_pitch ?b = of_nat n1" "pb_scroll ?b * pb_pitch ?b = of_nat n2"
    using u1 by (metis of_nat_unat ucast_id)+
  define m1 where "m1 = store_bytes m ?A (load_bytes m (?S + of_nat n2) n1)"
  define m2 where "m2 = store_bytes m1 (?A + of_nat n1) (load_bytes m1 ?S n2)"
  have c1: "mem_copy m ?A (?S + of_nat n2) (of_nat n1) = m1"
    using mem_copy_apart [OF lim(2,3) dis, of 0 "of_nat n1" n2 m] N lim(1) by (simp add: m1_def)
  have c2: "mem_copy m1 (?A + of_nat n1) ?S (of_nat n2) = m2"
    using mem_copy_apart [OF lim(2,3) dis, of n1 "of_nat n2" 0 m1] N lim(1) by (simp add: m2_def)
  have off0: "m2 = m1" if "pb_scroll ?b = 0" using that by (simp add: m2_def n2_def)
  have fl: "flush (d, m) = (d\<lparr>dirty := False\<rparr>, m2)"
  proof (cases "pb_scroll ?b = 0")
    case True
    have "pb_height ?b * pb_pitch ?b = of_nat n1" using w1(1) unfolding True by simp
    then show ?thesis using dirty c1 w1(2) True off0 by (simp add: flush_def Let_def n2_def)
  next
    case False
    then show ?thesis using dirty c1 c2 by (simp add: flush_def Let_def w1 word_gt_0)
  qed
  have out: "m2 a = m a" if a: "a \<notin> area ?A ?N" for a
  proof -
    have "a \<noteq> ?A + of_nat i" if "i < ?N" for i using area_of_nat [OF lim(2) that] a by auto
    then have "m1 a = m a" "m2 a = m1 a"
      unfolding m1_def m2_def using N by (intro store_bytes_other; simp add: add.assoc flip: of_nat_add)+
    then show ?thesis by simp
  qed
  have lo: "m2 (?A + of_nat i) = m (?S + of_nat (n2 + i))" if i: "i < n1" for i
  proof -
    have "m2 (?A + of_nat i) = m1 (?A + of_nat i)"
      unfolding m2_def
    proof (rule store_bytes_other)
      fix k
      assume "k < length (load_bytes m1 ?S n2)"
      then have "i < 2 ^ 32" "n1 + k < 2 ^ 32" "i \<noteq> n1 + k" using i N lim(1) by auto
      then show "?A + of_nat i \<noteq> ?A + of_nat n1 + of_nat k"
        using add_of_nat_inj [of i "n1 + k" ?A] by (simp add: add.assoc)
    qed
    also have "\<dots> = load_bytes m (?S + of_nat n2) n1 ! i"
      unfolding m1_def using i N lim(1) by (intro store_bytes_same) simp_all
    finally show ?thesis using i by (simp add: add.assoc)
  qed
  have hi: "m2 (?A + of_nat (n1 + i)) = m (?S + of_nat i)" if i: "i < n2" for i
  proof -
    have "m2 (?A + of_nat n1 + of_nat i) = load_bytes m1 ?S n2 ! i"
      unfolding m2_def using i N lim(1) by (intro store_bytes_same) simp_all
    also have "\<dots> = m1 (?S + of_nat i)" using i by simp
    also have "\<dots> = m (?S + of_nat i)"
      unfolding m1_def
    proof (rule store_bytes_other)
      fix k
      assume "k < length (load_bytes m (?S + of_nat n2) n1)"
      then have "?A + of_nat k \<in> area ?A ?N" "?S + of_nat i \<in> area ?S ?N"
        using i N by (auto intro!: area_of_nat lim)
      then show "?S + of_nat i \<noteq> ?A + of_nat k" using dis by auto
    qed
    finally show ?thesis by (simp add: add.assoc)
  qed
  have "m2 (?A + of_nat (r * ?P + j)) = m (?S + of_nat (ring_row ?b r * ?P + j))" if r: "r < ?H" "j < ?P" for r j
  proof (cases "r < ?H - ?o")
    case True
    then have row: "ring_row ?b r = ?o + r" by (simp add: ring_row_def)
    have "Suc r * ?P \<le> n1" unfolding n1_def using True by (intro mult_le_mono1) simp
    then have "r * ?P + j < n1" using r(2) by simp
    from lo [OF this] show ?thesis by (simp add: row n2_def add_mult_distrib add.assoc)
  next
    case False
    then have "?H \<le> r + ?o" "r + ?o - ?H < ?H" using r(1) o by linarith+
    then have row: "ring_row ?b r = r + ?o - ?H" by (simp add: ring_row_def le_mod_geq)
    let ?i = "(r + ?o - ?H) * ?P + j"
    have s: "r = (?H - ?o) + (r + ?o - ?H)" using False o by simp
    have "Suc (r + ?o - ?H) * ?P \<le> n2" unfolding n2_def using r(1) False by (intro mult_le_mono1) simp
    then have i: "?i < n2" using r(2) by simp
    have "n1 + ?i = ((?H - ?o) + (r + ?o - ?H)) * ?P + j" by (simp only: n1_def add_mult_distrib add.assoc)
    then have "n1 + ?i = r * ?P + j" by (simp only: s [symmetric])
    then show ?thesis using hi [OF i] by (simp only: row)
  qed
  then show ?thesis using fl out by blast
qed


lemma load32_move: "(\<And>k. k < 4 \<Longrightarrow> m (a + of_nat k) = m' (b + of_nat k)) \<Longrightarrow> load32 m a = load32 m' b"
proof -
  assume *: "\<And>k. k < 4 \<Longrightarrow> m (a + of_nat k) = m' (b + of_nat k)"
  from * [of 0] * [of 1] * [of 2] * [of 3] show ?thesis by (simp add: load32_def)
qed

text \<open>A flush shows the picture of the back buffer.\<close>

lemma flush_shows:
  assumes ok: "disp_ok dataBuf d" and dirty: "dirty d"
  shows "\<exists>m'. flush (d, m) = (d\<lparr>dirty := False\<rparr>, m') \<and>
    (\<forall>a. a \<notin> area (framebuffer d) (buffer_size (backBuf d)) \<longrightarrow> m' a = m a) \<and>
    agree (backBuf d) (shown d m') (picture_of (backBuf d) m)"
proof (cases "0 < unat (pb_height (backBuf d))")
  case True
  have pb: "pb_ok (backBuf d)" using ok by (simp add: disp_ok_def)
  obtain m' where m': "flush (d, m) = (d\<lparr>dirty := False\<rparr>, m')"
    "\<forall>a. a \<notin> area (framebuffer d) (buffer_size (backBuf d)) \<longrightarrow> m' a = m a"
    "\<And>r j. r < unat (pb_height (backBuf d)) \<Longrightarrow> j < unat (pb_pitch (backBuf d)) \<Longrightarrow>
       m' (framebuffer d + of_nat (r * unat (pb_pitch (backBuf d)) + j)) =
       m (pb_data (backBuf d) + of_nat (ring_row (backBuf d) r * unat (pb_pitch (backBuf d)) + j))"
    using flush_bytes [OF ok dirty True, of m] by blast
  have "shown d m' x y = picture_of (backBuf d) m x y" if xy: "x < unat (pb_width (backBuf d))" "y < unat (pb_height (backBuf d))" for x y
  proof -
    let ?r = "ring_row (backBuf d) y" and ?P = "unat (pb_pitch (backBuf d))"
    have "m' (framebuffer d + of_nat y * pb_pitch (backBuf d) + 4 * of_nat x + of_nat k) =
      m (row_addr (backBuf d) (of_nat ?r) + 4 * of_nat x + of_nat k)" if "k < 4" for k
    proof -
      have "4 * x + k < ?P" using xy(1) that pb by (simp add: pb_ok_def)
      from m'(3) [OF xy(2) this] show ?thesis by (simp add: row_addr_def algebra_simps)
    qed
    then have "shown d m' x y = load32 m (row_addr (backBuf d) (of_nat ?r) + 4 * of_nat x)"
      unfolding shown_def by (rule load32_move)
    then show ?thesis using picture_raw [OF pb xy(2,1), of m] by (simp add: raw_pixel_def)
  qed
  then show ?thesis using m'(1,2) unfolding agree_def by blast
next
  case False
  then have z: "pb_height (backBuf d) = 0" by (simp add: unat_eq_0)
  moreover from this have "pb_scroll (backBuf d) = 0" using ok by (simp add: disp_ok_def pb_ok_def)
  ultimately have "flush (d, m) = (d\<lparr>dirty := False\<rparr>, m)"
    using dirty mem_copy_spec [of _ _ 0 m] by (simp add: flush_def Let_def fwd_safe_def)
  then show ?thesis using z by (auto simp: agree_def)
qed

section \<open>The service\<close>

text \<open>
  The specification keeps two pictures, the one drawn and the one on the screen; a pixel sent
  with a message is four bytes of its data.
\<close>

definition data_pixel :: "u8 list \<Rightarrow> nat \<Rightarrow> picture" where
  "data_pixel data w x y = load32 (\<lambda>a. data ! unat a) (of_nat (4 * (y * w + x)))"

definition msg_picture :: "nat \<Rightarrow> disp_msg \<Rightarrow> u8 list \<Rightarrow> picture \<Rightarrow> picture" where
  "msg_picture H msg data f =
     (case msg of
        DisplayFillRect x y w h c \<Rightarrow> overlay (rect (unat x) (unat y) (unat w) (unat h)) (\<lambda>_ _. c) f
      | DisplayDrawRect x y w h c \<Rightarrow> overlay (frame (unat x) (unat y) (unat w) (unat h)) (\<lambda>_ _. c) f
      | DisplayBlit x y w h \<Rightarrow> overlay (rect (unat x) (unat y) (unat w) (unat h))
          (\<lambda>px py. data_pixel data (unat w) (px - unat x) (py - unat y)) f
      | DisplayDrawChar x y ch fg bg \<Rightarrow> char_picture (unat x) (unat y) (ucast ch) fg bg f
      | DisplayScroll n c \<Rightarrow> scrolled H (unat n) c f
      | _ \<Rightarrow> f)"

definition msg_shown :: "disp_msg \<Rightarrow> picture \<Rightarrow> picture \<Rightarrow> picture" where
  "msg_shown msg f g = (case msg of DisplayFlush \<Rightarrow> f | _ \<Rightarrow> g)"

fun spec_screen :: "nat \<Rightarrow> (disp_msg \<times> u8 list \<times> i32) list \<Rightarrow> picture \<times> picture \<Rightarrow> picture \<times> picture" where
  "spec_screen H [] fg = fg"
| "spec_screen H ((msg, data, sender) # rs) (f, g) = spec_screen H rs (msg_picture H msg data f, msg_shown msg f g)"

text \<open>What a client must see to: sums that do not wrap, and the pixels of a copy in its data.\<close>

definition msg_ok :: "disp_msg \<Rightarrow> u8 list \<Rightarrow> bool" where
  "msg_ok msg data \<longleftrightarrow>
     (case msg of
        DisplayFillRect x y w h c \<Rightarrow> unat x + unat w < 2 ^ 32 \<and> unat y + unat h < 2 ^ 32
      | DisplayDrawRect x y w h c \<Rightarrow> unat x + unat w < 2 ^ 32 \<and> unat y + unat h < 2 ^ 32
      | DisplayBlit x y w h \<Rightarrow> unat x + unat w < 2 ^ 32 \<and> unat y + unat h < 2 ^ 32 \<and> 0 < unat w \<and> 0 < unat h \<and>
          4 * (unat h * unat w) \<le> length data \<and> length data \<le> DATABUF_SIZE
      | _ \<Rightarrow> True)"

lemma data_source:
  assumes b: "unat dataBuf + DATABUF_SIZE \<le> 2 ^ 32" and wh: "0 < unat w" "0 < unat h"
    and len: "4 * (unat h * unat w) \<le> length data" "length data \<le> DATABUF_SIZE"
  shows "pb_ok (pixelBuffer dataBuf w h (w * 4))" "buffer_bytes (pixelBuffer dataBuf w h (w * 4)) \<subseteq> area dataBuf DATABUF_SIZE"
    "x < unat w \<Longrightarrow> y < unat h \<Longrightarrow>
      picture_of (pixelBuffer dataBuf w h (w * 4)) (store_bytes m dataBuf data) x y = data_pixel data (unat w) x y"
proof -
  let ?src = "pixelBuffer dataBuf w h (w * 4)"
  have sz: "unat h * unat w \<le> 256" using len by (simp add: DATABUF_SIZE_def)
  have "unat w \<le> unat h * unat w" "unat h \<le> unat h * unat w" using wh by simp_all
  then have small: "unat w \<le> 256" "unat h \<le> 256" using sz by linarith+
  then have w4: "unat (w * 4) = 4 * unat w" by (simp add: unat_word_ariths)
  have bs: "buffer_size ?src = 4 * (unat h * unat w)" by (simp add: buffer_size_def pixelBuffer_def w4)
  have hp: "unat h * (4 * unat w) \<le> 1024" using sz by simp
  show ok: "pb_ok ?src" using b hp small by (simp add: pb_ok_def pixelBuffer_def w4 DATABUF_SIZE_def)
  have "area dataBuf (buffer_size ?src) \<subseteq> area dataBuf DATABUF_SIZE" using bs len by (auto simp: area_def)
  moreover have "pb_data ?src = dataBuf" by (simp add: pixelBuffer_def)
  ultimately show "buffer_bytes ?src \<subseteq> area dataBuf DATABUF_SIZE" using buffer_bytes_area [OF ok] by auto
  assume xy: "x < unat w" "y < unat h"
  have row: "ring_row ?src y = y" using xy(2) by (simp add: ring_row_def pixelBuffer_def)
  have "picture_of ?src (store_bytes m dataBuf data) x y = raw_pixel ?src (store_bytes m dataBuf data) x y"
    using picture_raw [OF ok, of y x] xy row by (simp add: pixelBuffer_def)
  also have "\<dots> = data_pixel data (unat w) x y"
    unfolding raw_pixel_def data_pixel_def
  proof (rule load32_move)
    fix k :: nat
    assume k: "k < 4"
    have "Suc y * unat w \<le> unat h * unat w" using xy(2) by (intro mult_le_mono1) simp
    then have i: "4 * (y * unat w + x) + k < length data" using xy(1) k len(1) by simp
    have a: "row_addr ?src (of_nat y) + 4 * of_nat x + of_nat k = dataBuf + of_nat (4 * (y * unat w + x) + k)"
      by (simp add: row_addr_def pixelBuffer_def algebra_simps)
    have "store_bytes m dataBuf data (dataBuf + of_nat (4 * (y * unat w + x) + k)) = data ! (4 * (y * unat w + x) + k)"
      using i len(2) by (intro store_bytes_same) (simp_all add: DATABUF_SIZE_def)
    moreover have "unat (of_nat (4 * (y * unat w + x)) + of_nat k :: u32) = 4 * (y * unat w + x) + k"
      using i len(2) unat_of_nat_small [of "4 * (y * unat w + x) + k"] by (simp add: DATABUF_SIZE_def)
    ultimately show "store_bytes m dataBuf data (row_addr ?src (of_nat y) + 4 * of_nat x + of_nat k) =
      data ! unat (of_nat (4 * (y * unat w + x)) + of_nat k :: u32)" by (simp only: a)
  qed
  finally show "picture_of ?src (store_bytes m dataBuf data) x y = data_pixel data (unat w) x y" .
qed


text \<open>The three areas, and the relation between the service and its specification.\<close>

definition areas :: "addr \<Rightarrow> display \<Rightarrow> addr set" where
  "areas dataBuf d = area (framebuffer d) (buffer_size (backBuf d)) \<union> area (pb_data (backBuf d)) (buffer_size (backBuf d)) \<union>
     area dataBuf DATABUF_SIZE"

definition same_display :: "display \<Rightarrow> display \<Rightarrow> bool" where
  "same_display d0 d \<longleftrightarrow> framebuffer d = framebuffer d0 \<and> (\<exists>s. backBuf d = (backBuf d0)\<lparr>pb_scroll := s\<rparr>)"

definition disp_rel :: "addr \<Rightarrow> display \<Rightarrow> bmem \<Rightarrow> display \<Rightarrow> bmem \<Rightarrow> picture \<Rightarrow> picture \<Rightarrow> bool" where
  "disp_rel dataBuf d0 m0 d m f g \<longleftrightarrow> disp_ok dataBuf d \<and> same_display d0 d \<and>
     agree (backBuf d) (picture_of (backBuf d) m) f \<and> (dirty d \<or> agree (backBuf d) (shown d m) (picture_of (backBuf d) m)) \<and>
     agree (backBuf d) (shown d m) g \<and> (\<forall>a. a \<notin> areas dataBuf d0 \<longrightarrow> m a = m0 a)"

lemma same_display_areas: "same_display d0 d \<Longrightarrow> areas dataBuf d = areas dataBuf d0"
  by (auto simp: same_display_def areas_def buffer_size_def)

lemma agree_refl [simp]: "agree pb f f"
  by (simp add: agree_def)

lemma agree_trans: "agree pb f g \<Longrightarrow> agree pb g h \<Longrightarrow> agree pb f h"
  by (simp add: agree_def)

lemma agree_sym: "agree pb f g \<Longrightarrow> agree pb g f"
  by (simp add: agree_def)

lemma agree_scroll [simp]: "agree (pb\<lparr>pb_scroll := s\<rparr>) = agree pb"
  by (auto simp: agree_def fun_eq_iff)

lemma shown_frame:
  assumes "disp_ok dataBuf d" "area (framebuffer d) (buffer_size (backBuf d)) \<inter> B = {}" "\<And>a. a \<notin> B \<Longrightarrow> m' a = m a"
  shows "agree (backBuf d) (shown d m') (shown d m)"
  unfolding agree_def
proof (intro allI impI)
  fix x y
  assume xy: "x < unat (pb_width (backBuf d))" "y < unat (pb_height (backBuf d))"
  show "shown d m' x y = shown d m x y"
    unfolding shown_def
  proof (rule load32_cong)
    fix k :: nat
    assume "k < 4"
    let ?P = "unat (pb_pitch (backBuf d))"
    let ?j = "y * ?P + (4 * x + k)"
    have "4 * x + k < ?P" using xy(1) \<open>k < 4\<close> assms(1) by (simp add: disp_ok_def pb_ok_def)
    moreover have "Suc y * ?P \<le> buffer_size (backBuf d)" using xy(2) unfolding buffer_size_def by (intro mult_le_mono1) simp
    ultimately have "?j < buffer_size (backBuf d)" by simp
    then have "framebuffer d + of_nat ?j \<in> area (framebuffer d) (buffer_size (backBuf d))"
      using assms(1) by (intro area_of_nat) (simp_all add: disp_ok_def)
    then have "framebuffer d + of_nat ?j \<notin> B" using assms(2) by auto
    moreover have "framebuffer d + of_nat y * pb_pitch (backBuf d) + 4 * of_nat x + of_nat k = framebuffer d + of_nat ?j"
      by (simp add: algebra_simps)
    ultimately show "m' (framebuffer d + of_nat y * pb_pitch (backBuf d) + 4 * of_nat x + of_nat k) =
      m (framebuffer d + of_nat y * pb_pitch (backBuf d) + 4 * of_nat x + of_nat k)"
      using assms(3) by metis
  qed
qed

lemma picture_frame_agree:
  assumes "pb_ok pb" "area (pb_data pb) (buffer_size pb) \<inter> B = {}" "\<And>a. a \<notin> B \<Longrightarrow> m' a = m a"
  shows "agree pb (picture_of pb m') (picture_of pb m)"
  unfolding agree_def using buffer_bytes_area [OF assms(1)] assms(2)
  by (intro allI impI picture_frame [OF assms(1) _ assms(3)]) auto

lemma rel_receive:
  assumes "disp_rel dataBuf d0 m0 d m f g" "length data \<le> DATABUF_SIZE"
  shows "disp_rel dataBuf d0 m0 d (store_bytes m dataBuf data) f g"
proof -
  let ?B = "area dataBuf DATABUF_SIZE" and ?m = "store_bytes m dataBuf data"
  have ok: "disp_ok dataBuf d" using assms(1) by (simp add: disp_rel_def)
  have fr: "?m a = m a" if "a \<notin> ?B" for a
  proof (rule store_bytes_other)
    fix i
    assume "i < length data"
    then have "dataBuf + of_nat i \<in> ?B" using ok assms(2) by (intro area_of_nat) (simp_all add: disp_ok_def)
    then show "a \<noteq> dataBuf + of_nat i" using that by auto
  qed
  have p: "agree (backBuf d) (picture_of (backBuf d) ?m) (picture_of (backBuf d) m)"
    using ok by (intro picture_frame_agree [where B = ?B] fr) (auto simp: disp_ok_def)
  have s: "agree (backBuf d) (shown d ?m) (shown d m)"
    using ok by (intro shown_frame [OF ok, where B = ?B] fr) (auto simp: disp_ok_def)
  have out: "\<forall>a. a \<notin> areas dataBuf d0 \<longrightarrow> ?m a = m0 a"
    using assms(1) fr by (auto simp: disp_rel_def areas_def)
  have "dirty d \<or> agree (backBuf d) (shown d ?m) (picture_of (backBuf d) ?m)"
    using assms(1) agree_trans [OF s] agree_trans [OF _ agree_sym [OF p]] unfolding disp_rel_def by blast
  then show ?thesis
    using assms(1) out agree_trans [OF p] agree_trans [OF s] unfolding disp_rel_def by blast
qed

lemma op_picture_cong:
  assumes "agree pb f f'"
  shows "agree pb (op_picture (unat (pb_height pb)) op sp f) (op_picture (unat (pb_height pb)) op sp f')"
proof -
  have "agree pb (fold (\<lambda>i. char_picture (xs i) y (ch i) fg bg) is f) (fold (\<lambda>i. char_picture (xs i) y (ch i) fg bg) is f')"
    for xs y ch fg bg "is"
    using assms by (induction "is" arbitrary: f f') (auto simp: agree_def char_picture_def overlay_def)
  note texts = this
  show ?thesis
  proof (cases op)
    case (OpText x y tx fg bg)
    then show ?thesis using texts [of "\<lambda>i. unat (x + of_nat i * 8)" "unat y" "\<lambda>i. tx ! i" fg bg "[0..<length tx]"] by simp
  qed (use assms in \<open>auto simp: agree_def overlay_def char_picture_def scrolled_def\<close>)
qed

lemma rel_draw:
  assumes rel: "disp_rel dataBuf d0 m0 d m f g" and ok: "op_ok (backBuf d) op" and do_op: "gfx_do op (backBuf d, m) = (pb, m')"
    and f': "agree (backBuf d) (op_picture (unat (pb_height (backBuf d))) op (op_source op m) f) f'"
  shows "disp_rel dataBuf d0 m0 (d\<lparr>dirty := True, backBuf := pb\<rparr>) m' f' g"
proof -
  let ?b = "backBuf d"
  have dok: "disp_ok dataBuf d" and bok: "pb_ok ?b" using rel by (simp_all add: disp_rel_def disp_ok_def)
  obtain s where s: "pb = ?b\<lparr>pb_scroll := s\<rparr>" "pb_ok pb"
    "agree ?b (picture_of pb m') (op_picture (unat (pb_height ?b)) op (op_source op m) (picture_of ?b m))"
    "\<And>a. a \<notin> buffer_bytes ?b \<Longrightarrow> m' a = m a"
    using gfx_do_ok [OF bok ok, of m] do_op by auto
  have fr: "m' a = m a" if "a \<notin> area (pb_data ?b) (buffer_size ?b)" for a
    using s(4) buffer_bytes_area [OF bok] that by blast
  have "agree ?b (op_picture (unat (pb_height ?b)) op (op_source op m) (picture_of ?b m))
      (op_picture (unat (pb_height ?b)) op (op_source op m) f)"
    using rel by (intro op_picture_cong) (simp add: disp_rel_def)
  then have p: "agree ?b (picture_of pb m') f'" using s(3) f' agree_trans by blast
  have sh: "agree ?b (shown d m') (shown d m)"
    using dok by (intro shown_frame [OF dok _ fr]) (auto simp: disp_ok_def)
  have sd: "shown (d\<lparr>dirty := True, backBuf := pb\<rparr>) m' = shown d m'" using s(1) by (simp add: shown_def fun_eq_iff)
  have dok': "disp_ok dataBuf (d\<lparr>dirty := True, backBuf := pb\<rparr>)"
    using dok s(1,2) by (simp add: disp_ok_def buffer_size_def)
  have same: "same_display d0 d" using rel by (simp add: disp_rel_def)
  then have same': "same_display d0 (d\<lparr>dirty := True, backBuf := pb\<rparr>)" using s(1) by (auto simp: same_display_def)
  have "m' a = m0 a" if "a \<notin> areas dataBuf d0" for a
  proof -
    have "a \<notin> areas dataBuf d" using that same_display_areas [OF same] by simp
    then show ?thesis using fr rel that by (auto simp: areas_def disp_rel_def)
  qed
  moreover have "agree ?b (shown d m') g" using sh rel agree_trans unfolding disp_rel_def by blast
  ultimately show ?thesis using dok' same' p sd s(1) by (simp add: disp_rel_def)
qed

lemma rel_flush:
  assumes "disp_rel dataBuf d0 m0 d m f g" "flush (d, m) = (d', m')"
  shows "disp_rel dataBuf d0 m0 d' m' f f"
proof (cases "dirty d")
  case False
  then show ?thesis using assms agree_trans unfolding disp_rel_def by (auto simp: flush_def intro: agree_trans)
next
  case True
  have ok: "disp_ok dataBuf d" and same: "same_display d0 d" using assms(1) by (simp_all add: disp_rel_def)
  have d': "d' = d\<lparr>dirty := False\<rparr>"
    and fr: "\<And>a. a \<notin> area (framebuffer d) (buffer_size (backBuf d)) \<Longrightarrow> m' a = m a"
    and sh: "agree (backBuf d) (shown d m') (picture_of (backBuf d) m)"
    using flush_shows [OF ok True, of m] assms(2) by auto
  have p: "agree (backBuf d) (picture_of (backBuf d) m') (picture_of (backBuf d) m)"
    using ok by (intro picture_frame_agree [OF _ _ fr]) (auto simp: disp_ok_def)
  have f: "agree (backBuf d) (picture_of (backBuf d) m) f" using assms(1) by (simp add: disp_rel_def)
  have "m' a = m0 a" if "a \<notin> areas dataBuf d0" for a
    using that fr assms(1) same_display_areas [OF same, of dataBuf] by (auto simp: areas_def disp_rel_def)
  moreover have "shown (d\<lparr>dirty := False\<rparr>) m' = shown d m'" by (simp add: shown_def fun_eq_iff)
  moreover have "disp_ok dataBuf (d\<lparr>dirty := False\<rparr>)" using ok by (simp add: disp_ok_def)
  moreover have "same_display d0 (d\<lparr>dirty := False\<rparr>)" using same by (simp add: same_display_def)
  ultimately show ?thesis
    using agree_trans [OF p f] agree_trans [OF sh f] agree_trans [OF sh agree_sym [OF p]] by (simp add: disp_rel_def d')
qed


lemma rel_handle:
  assumes rel: "disp_rel dataBuf d0 m0 d m f g" and ok: "msg_ok msg data"
    and src: "\<exists>m1. m = store_bytes m1 dataBuf (take DATABUF_SIZE data)" and h: "disp_handle dataBuf msg (d, m) = (d', m')"
  shows "disp_rel dataBuf d0 m0 d' m' (msg_picture (unat (pb_height (backBuf d0))) msg data f) (msg_shown msg f g)"
proof -
  let ?b = "backBuf d"
  have H: "pb_height ?b = pb_height (backBuf d0)" using rel by (auto simp: disp_rel_def same_display_def)
  have same: "d\<lparr>dirty := True, backBuf := backBuf d\<rparr> = d\<lparr>dirty := True\<rparr>" by simp
  have dok: "disp_ok dataBuf d" using rel by (simp add: disp_rel_def)
  have draw: ?thesis
    if "op_ok ?b op" "gfx_do op (?b, m) = (backBuf d', m')" "d' = d\<lparr>dirty := True, backBuf := backBuf d'\<rparr>"
      "agree ?b (op_picture (unat (pb_height ?b)) op (op_source op m) f) (msg_picture (unat (pb_height ?b)) msg data f)"
      "msg_shown msg f g = g" for op
    using rel_draw [OF rel that(1,2,4)] that(3,5) H by simp
  show ?thesis
  proof (cases msg)
    case (DisplayFillRect x y w hh c)
    then show ?thesis using h ok
      by (intro draw [of "OpFill x y w hh c"])
        (auto simp: disp_handle_def disp_fillRect_def msg_ok_def msg_picture_def msg_shown_def)
  next
    case (DisplayDrawRect x y w hh c)
    then show ?thesis using h ok
      by (intro draw [of "OpRect x y w hh c"])
        (auto simp: disp_handle_def disp_drawRect_def msg_ok_def msg_picture_def msg_shown_def)
  next
    case (DisplayDrawChar x y ch fg bg)
    then show ?thesis using h
      by (intro draw [of "OpChar x y (ucast ch) fg bg"])
        (auto simp: disp_handle_def disp_drawChar_def msg_picture_def msg_shown_def)
  next
    case (DisplayScroll n c)
    then show ?thesis using h
      by (intro draw [of "OpScroll n c"])
        (auto simp: disp_handle_def disp_scroll_def msg_picture_def msg_shown_def split: prod.splits)
  next
    case DisplayFlush
    then show ?thesis using rel_flush [OF rel] h by (simp add: disp_handle_def msg_picture_def msg_shown_def)
  next
    case (DisplayBlit x y w hh)
    let ?src = "pixelBuffer dataBuf w hh (w * 4)"
    have mo: "unat x + unat w < 2 ^ 32" "unat y + unat hh < 2 ^ 32" "0 < unat w" "0 < unat hh"
      "4 * (unat hh * unat w) \<le> length data" "length data \<le> DATABUF_SIZE"
      using ok DisplayBlit by (simp_all add: msg_ok_def)
    obtain m1 where m1: "m = store_bytes m1 dataBuf data" using src mo(6) by auto
    have b: "unat dataBuf + DATABUF_SIZE \<le> 2 ^ 32" using dok by (simp add: disp_ok_def)
    note ds = data_source [OF b mo(3-6)]
    have apart: "buffer_bytes ?src \<inter> buffer_bytes ?b = {}"
      using ds(2) buffer_bytes_area [of ?b] dok by (auto simp: disp_ok_def)
    have oo: "op_ok ?b (OpBlit x y ?src 0 0 w hh)"
      using ds(1) apart mo unat_lt_2p32 [of w] unat_lt_2p32 [of hh] by simp
    have wh: "pb_width ?src = w" "pb_height ?src = hh" by (simp_all add: pixelBuffer_def)
    have pic: "agree ?b (op_picture (unat (pb_height ?b)) (OpBlit x y ?src 0 0 w hh) (picture_of ?src m) f)
        (msg_picture (unat (pb_height ?b)) msg data f)"
    proof -
      have "picture_of ?src m (px - unat x) (py - unat y) = data_pixel data (unat w) (px - unat x) (py - unat y)"
        if "(px, py) \<in> rect (unat x) (unat y) (unat w) (unat hh)" for px py
        unfolding m1 using that by (intro ds(3)) (auto simp: rect_def)
      moreover have "blit_set ?src (unat x) (unat y) 0 0 (unat w) (unat hh) = rect (unat x) (unat y) (unat w) (unat hh)"
        by (auto simp: blit_set_def rect_def wh)
      ultimately show ?thesis using DisplayBlit by (simp add: agree_def msg_picture_def overlay_def)
    qed
    then show ?thesis using h DisplayBlit oo
      by (intro draw [OF oo]) (auto simp: disp_handle_def disp_blit_def msg_shown_def)
  qed (use rel h in \<open>simp_all add: disp_handle_def msg_picture_def msg_shown_def\<close>)
qed

lemma rel_step:
  assumes rel: "disp_rel dataBuf d0 m0 d m f g" and ok: "msg_ok msg data"
  obtains d' m' where "disp_step dataBuf (msg, data, sender) (d, m) =
      (if 0 <s sender then [(ucast sender, [pb_width (backBuf d0), pb_height (backBuf d0), pb_pitch (backBuf d0), 32])] else [], (d', m'))"
    "disp_rel dataBuf d0 m0 d' m' (msg_picture (unat (pb_height (backBuf d0))) msg data f) (msg_shown msg f g)"
proof -
  let ?m = "store_bytes m dataBuf (take DATABUF_SIZE data)"
  have r: "disp_rel dataBuf d0 m0 d ?m f g" by (rule rel_receive [OF rel]) simp
  obtain d' m' where h: "disp_handle dataBuf msg (d, ?m) = (d', m')" by (cases "disp_handle dataBuf msg (d, ?m)")
  have r': "disp_rel dataBuf d0 m0 d' m' (msg_picture (unat (pb_height (backBuf d0))) msg data f) (msg_shown msg f g)"
    by (rule rel_handle [OF r ok _ h]) blast
  then have "pb_width (backBuf d') = pb_width (backBuf d0)" "pb_height (backBuf d') = pb_height (backBuf d0)"
    "pb_pitch (backBuf d') = pb_pitch (backBuf d0)"
    by (auto simp: disp_rel_def same_display_def)
  then show ?thesis using that r' h by (simp add: disp_step_def)
qed

lemma rel_run:
  assumes "disp_rel dataBuf d0 m0 d m f g" "\<forall>(msg, data, sender) \<in> set rs. msg_ok msg data"
  shows "\<exists>outs d' m' f' g'. disp_run dataBuf rs (d, m) = (outs, (d', m')) \<and>
    spec_screen (unat (pb_height (backBuf d0))) rs (f, g) = (f', g') \<and> disp_rel dataBuf d0 m0 d' m' f' g' \<and>
    map fst outs = filter (\<lambda>s. 0 <s s) (map (snd \<circ> snd) rs) \<and>
    (\<forall>r \<in> set (map snd outs). r = [pb_width (backBuf d0), pb_height (backBuf d0), pb_pitch (backBuf d0), 32])"
  using assms
proof (induction rs arbitrary: d m f g)
  case (Cons r rs)
  obtain msg data sender where r: "r = (msg, data, sender)" by (cases r)
  obtain d1 m1 where s: "disp_step dataBuf (msg, data, sender) (d, m) =
      (if 0 <s sender then [(ucast sender, [pb_width (backBuf d0), pb_height (backBuf d0), pb_pitch (backBuf d0), 32])] else [], (d1, m1))"
    "disp_rel dataBuf d0 m0 d1 m1 (msg_picture (unat (pb_height (backBuf d0))) msg data f) (msg_shown msg f g)"
    by (rule rel_step [OF Cons.prems(1)]) (use Cons.prems(2) r in auto)
  have ok: "\<forall>(msg, data, sender) \<in> set rs. msg_ok msg data" using Cons.prems(2) by simp
  obtain outs d2 m2 f2 g2 where i: "disp_run dataBuf rs (d1, m1) = (outs, (d2, m2))"
    "spec_screen (unat (pb_height (backBuf d0))) rs (msg_picture (unat (pb_height (backBuf d0))) msg data f, msg_shown msg f g) = (f2, g2)"
    "disp_rel dataBuf d0 m0 d2 m2 f2 g2"
    "map fst outs = filter (\<lambda>s. 0 <s s) (map (snd \<circ> snd) rs)"
    "\<forall>r \<in> set (map snd outs). r = [pb_width (backBuf d0), pb_height (backBuf d0), pb_pitch (backBuf d0), 32]"
    using Cons.IH [OF s(2) ok] by blast
  then show ?case using s(1) r by (simp add: comp_def)
qed simp


lemma rel_start:
  assumes ok: "disp_ok dataBuf (display_new fb back width height pitch)"
  obtains d m' where "disp_start fb back width height pitch m = (d, m')"
    "disp_rel dataBuf (display_new fb back width height pitch) m d m' (\<lambda>_ _. 0) (\<lambda>_ _. 0)"
proof -
  let ?d = "display_new fb back width height pitch"
  let ?f = "picture_of (backBuf ?d) m" and ?g = "shown ?d m"
  have same: "same_display ?d (?d\<lparr>dirty := True\<rparr>)"
    unfolding same_display_def by (intro conjI exI [of _ "pb_scroll (backBuf ?d)"]) simp_all
  have b: "pb_width (backBuf ?d) = width" "pb_height (backBuf ?d) = height" by (simp_all add: display_new_def pixelBuffer_def)
  have r0: "disp_rel dataBuf ?d m (?d\<lparr>dirty := True\<rparr>) m ?f ?g"
    using ok same by (simp add: disp_rel_def disp_ok_def shown_def agree_def)
  have "disp_rel dataBuf ?d m (?d\<lparr>dirty := True\<rparr>\<lparr>dirty := True, backBuf := backBuf ?d\<rparr>)
      (fillRect (backBuf ?d) 0 0 width height 0 m) (\<lambda>_ _. 0) ?g"
    by (rule rel_draw [OF r0, of "OpFill 0 0 width height 0"])
      (use unat_lt_2p32 [of width] unat_lt_2p32 [of height] in \<open>auto simp: agree_def overlay_def rect_def b\<close>)
  then have r1: "disp_rel dataBuf ?d m (?d\<lparr>dirty := True\<rparr>) (fillRect (backBuf ?d) 0 0 width height 0 m) (\<lambda>_ _. 0) ?g" by simp
  obtain d m' where f: "flush (?d\<lparr>dirty := True\<rparr>, fillRect (backBuf ?d) 0 0 width height 0 m) = (d, m')" by fastforce
  then have "disp_start fb back width height pitch m = (d, m')" by (simp add: disp_start_def disp_fillRect_def)
  then show ?thesis using that rel_flush [OF r1 f] by blast
qed

lemma display_run_ok:
  assumes "disp_ok dataBuf (display_new fb back width height pitch)" "\<forall>(msg, data, sender) \<in> set rs. msg_ok msg data"
  shows "\<exists>outs d m' f g. disp_run dataBuf rs (disp_start fb back width height pitch m) = (outs, (d, m')) \<and>
    spec_screen (unat height) rs (\<lambda>_ _. 0, \<lambda>_ _. 0) = (f, g) \<and>
    (\<forall>x y. x < unat width \<longrightarrow> y < unat height \<longrightarrow> picture_of (backBuf d) m' x y = f x y \<and> shown d m' x y = g x y) \<and>
    map fst outs = filter (\<lambda>s. 0 <s s) (map (snd \<circ> snd) rs) \<and>
    (\<forall>r \<in> set (map snd outs). r = [width, height, pitch, 32]) \<and>
    (\<forall>a. a \<notin> areas dataBuf (display_new fb back width height pitch) \<longrightarrow> m' a = m a)"
proof -
  let ?d0 = "display_new fb back width height pitch"
  have b: "pb_width (backBuf ?d0) = width" "pb_height (backBuf ?d0) = height" "pb_pitch (backBuf ?d0) = pitch"
    by (simp_all add: display_new_def pixelBuffer_def)
  obtain d1 m1 where s: "disp_start fb back width height pitch m = (d1, m1)"
    "disp_rel dataBuf ?d0 m d1 m1 (\<lambda>_ _. 0) (\<lambda>_ _. 0)" by (rule rel_start [OF assms(1)])
  obtain outs d m' f g where r: "disp_run dataBuf rs (d1, m1) = (outs, (d, m'))"
    "spec_screen (unat height) rs (\<lambda>_ _. 0, \<lambda>_ _. 0) = (f, g)" "disp_rel dataBuf ?d0 m d m' f g"
    "map fst outs = filter (\<lambda>s. 0 <s s) (map (snd \<circ> snd) rs)"
    "\<forall>r \<in> set (map snd outs). r = [width, height, pitch, 32]"
    using rel_run [OF s(2) assms(2)] unfolding b by blast
  have "pb_width (backBuf d) = width" "pb_height (backBuf d) = height"
    using r(3) b by (auto simp: disp_rel_def same_display_def)
  then show ?thesis using s(1) r by (auto simp: disp_rel_def agree_def)
qed


definition demo_requests :: "(disp_msg \<times> u8 list \<times> i32) list" where
  "demo_requests = [(DisplayFillRect 1 1 2 2 7, [], 3), (DisplayScroll 1 9, [], 0), (DisplayFlush, [], 0)]"


end
