(* ===== verification/Nameserver.thy ===== *)
theory Nameserver
  imports Str
begin

text \<open>
  The name server (userspace/core/ns) and its client (libs/ns): names travel packed into the four
  argument words of a message, the table is a list of heap entries with the newest first.
  A fixed array of characters is a function; its contents are the bytes before the first NUL.
\<close>

unbundle bit_operations_syntax

section \<open>Names in messages\<close>

definition NS_MAX_NAME_LEN :: nat where "NS_MAX_NAME_LEN = 16"
definition NS_PID :: u32 where "NS_PID = 1"

type_synonym chars = "nat \<Rightarrow> u8"

definition chars_string :: "nat \<Rightarrow> chars \<Rightarrow> u8 list" where
  "chars_string n f = takeWhile (\<lambda>c. c \<noteq> 0) (map f [0..<n])"

text \<open>The name is a C string: the bytes before its NUL.\<close>

definition pack_byte :: "u8 list \<Rightarrow> nat \<Rightarrow> u32 list \<Rightarrow> u32 list" where
  "pack_byte name i words = words[i div 4 := words ! (i div 4) OR push_bit (i mod 4 * 8) (ucast (name ! i))]"

definition packName :: "u8 list \<Rightarrow> u32 list" where
  "packName name = fold (pack_byte name) [0..<min (length name) NS_MAX_NAME_LEN] [0, 0, 0, 0]"

definition unpackName :: "u32 list \<Rightarrow> chars" where
  "unpackName words i =
     (if i < NS_MAX_NAME_LEN then ucast (drop_bit (i mod 4 * 8) (words ! (i div 4)) AND 0xFF) else 0)"

section \<open>The table\<close>

record ns_entry =
  ne_name :: chars
  ne_pid :: u32

text \<open>The results of the heap to come: the old bytes of a block, or no memory.\<close>

record ns_table =
  entries :: "ns_entry list"
  ns_allocs :: "chars option list"

definition ns_alloc :: "ns_table \<Rightarrow> chars option \<times> ns_table" where
  "ns_alloc t = (case ns_allocs t of [] \<Rightarrow> (Some (\<lambda>_. 0), t) | r # rs \<Rightarrow> (r, t\<lparr>ns_allocs := rs\<rparr>))"

definition entry_string :: "ns_entry \<Rightarrow> sview" where
  "entry_string e = chars_string (NS_MAX_NAME_LEN + 1) (ne_name e)"

definition ns_lookup :: "sview \<Rightarrow> ns_table \<Rightarrow> u32" where
  "ns_lookup name t = (case List.find (\<lambda>e. sv_eq (entry_string e) name) (entries t) of Some e \<Rightarrow> ne_pid e | None \<Rightarrow> 0)"

definition ns_register :: "sview \<Rightarrow> u32 \<Rightarrow> ns_table \<Rightarrow> u32 \<times> ns_table" where
  "ns_register name pid t =
     (if ns_lookup name t \<noteq> 0 then (0, t)
      else (case ns_alloc t of
              (None, t) \<Rightarrow> (0, t)
            | (Some mem, t) \<Rightarrow>
                (1, t\<lparr>entries := \<lparr>ne_name = sv_copyTo name (NS_MAX_NAME_LEN + 1) mem, ne_pid = pid\<rparr> # entries t\<rparr>)))"

text \<open>The entries of the reply; the arrays of the buffer are uninitialised.\<close>

definition ns_listAll :: "nat \<Rightarrow> chars \<Rightarrow> ns_table \<Rightarrow> (chars \<times> u32) list" where
  "ns_listAll maxEntries old t = map (\<lambda>e. (sv_copyTo (entry_string e) 20 old, ne_pid e)) (take maxEntries (entries t))"

section \<open>The service\<close>

datatype ns_msg = NsRegister "u32 list" | NsLookup "u32 list" | NsListAll | NsOther

type_synonym ns_reply = "u32 \<times> u32 \<times> (chars \<times> u32) list"

definition ns_step :: "chars \<Rightarrow> ns_msg \<times> i32 \<Rightarrow> ns_table \<Rightarrow> ns_reply list \<times> ns_table" where
  "ns_step old r t = (case r of (msg, sender) \<Rightarrow>
     (if \<not> 0 <s sender then ([], t)
      else
       (case msg of
          NsRegister words \<Rightarrow>
            (case ns_register (chars_string (NS_MAX_NAME_LEN + 1) (unpackName words)) (ucast sender) t of
               (a, t) \<Rightarrow> ([(ucast sender, a, [])], t))
        | NsLookup words \<Rightarrow>
            ([(ucast sender, ns_lookup (chars_string (NS_MAX_NAME_LEN + 1) (unpackName words)) t, [])], t)
        | NsListAll \<Rightarrow> (let buf = ns_listAll 16 old t in ([(ucast sender, of_nat (length buf), buf)], t))
        | NsOther \<Rightarrow> ([(ucast sender, 0, [])], t))))"

fun ns_run :: "chars \<Rightarrow> (ns_msg \<times> i32) list \<Rightarrow> ns_table \<Rightarrow> ns_reply list \<times> ns_table" where
  "ns_run old [] t = ([], t)"
| "ns_run old (r # rs) t = (case ns_step old r t of (out, t) \<Rightarrow> case ns_run old rs t of (outs, t) \<Rightarrow> (out @ outs, t))"

definition ns_start :: "chars option list \<Rightarrow> ns_table" where
  "ns_start allocs = snd (ns_register [110, 115] NS_PID \<lparr>entries = [], ns_allocs = allocs\<rparr>)"

section \<open>Packing\<close>

lemma pack_words:
  assumes "n \<le> 16" "n \<le> length name"
  shows "length (fold (pack_byte name) [0..<n] [0, 0, 0, 0]) = 4 \<and>
    (\<forall>w < 4. \<forall>b. bit (fold (pack_byte name) [0..<n] [0, 0, 0, 0] ! w) b =
      (b < 32 \<and> 4 * w + b div 8 < n \<and> bit (name ! (4 * w + b div 8)) (b mod 8)))"
  using assms
proof (induction n)
  case 0
  have "[0, 0, 0, 0 :: u32] ! w = 0" if "w < 4" for w using that by (auto simp: less_Suc_eq numeral_eq_Suc)
  then show ?case by auto
next
  case (Suc n)
  let ?ws = "fold (pack_byte name) [0..<n] [0, 0, 0, 0] :: u32 list"
  have ih: "length ?ws = 4" "\<And>w b. w < 4 \<Longrightarrow> bit (?ws ! w) b = (b < 32 \<and> 4 * w + b div 8 < n \<and> bit (name ! (4 * w + b div 8)) (b mod 8))"
    using Suc.IH Suc.prems by simp_all
  have "n div 4 < 4" using Suc.prems by simp
  have "bit (?ws[n div 4 := ?ws ! (n div 4) OR push_bit (n mod 4 * 8) (ucast (name ! n))] ! w) b =
      (b < 32 \<and> 4 * w + b div 8 < Suc n \<and> bit (name ! (4 * w + b div 8)) (b mod 8))" if w: "w < 4" for w b
  proof (cases "w = n div 4")
    case False
    then have "4 * w + b div 8 \<noteq> n \<or> \<not> b < 32" by auto
    then show ?thesis using ih w False by (auto simp: less_Suc_eq)
  next
    case True
    have len: "n div 4 < length ?ws" using ih(1) \<open>n div 4 < 4\<close> by simp
    have byte: "bit (push_bit (n mod 4 * 8) (ucast (name ! n) :: u32)) b = (b < 32 \<and> 4 * w + b div 8 = n \<and> bit (name ! n) (b mod 8))"
    proof (cases "n mod 4 * 8 \<le> b \<and> b < n mod 4 * 8 + 8")
      case in_byte: True
      then obtain k where "b = n mod 4 * 8 + k" "k < 8" by (metis add_less_cancel_left le_Suc_ex)
      then have "b div 8 = n mod 4" "b mod 8 = b - n mod 4 * 8" "b < 32" by auto
      moreover have "b - n mod 4 * 8 < 32" using in_byte by linarith
      ultimately show ?thesis using in_byte True by (auto simp: bit_simps)
    next
      case out: False
      then have "b div 8 \<noteq> n mod 4" by auto
      moreover have "\<not> bit (push_bit (n mod 4 * 8) (ucast (name ! n) :: u32)) b" using out by (auto simp: bit_simps dest: bit_imp_le_length)
      moreover have "n = 4 * (n div 4) + n mod 4" by simp
      ultimately show ?thesis using True by (metis add_left_cancel)
    qed
    have "?ws[n div 4 := v] ! w = v" for v using len True by simp
    then have "bit (?ws[n div 4 := ?ws ! (n div 4) OR push_bit (n mod 4 * 8) (ucast (name ! n))] ! w) b =
        (bit (?ws ! w) b \<or> bit (push_bit (n mod 4 * 8) (ucast (name ! n) :: u32)) b)"
      using True by (simp only: bit_or_iff)
    then show ?thesis unfolding byte ih(2) [OF w] by (auto simp: less_Suc_eq)
  qed
  moreover have "fold (pack_byte name) [0..<Suc n] [0, 0, 0, 0] = ?ws[n div 4 := ?ws ! (n div 4) OR push_bit (n mod 4 * 8) (ucast (name ! n))]"
    by (simp add: pack_byte_def)
  ultimately show ?case using ih(1) by (metis length_list_update)
qed


lemma unpack_pack:
  "unpackName (packName name) i = (if i < min (length name) 16 then name ! i else 0)"
proof (cases "i < 16")
  case True
  let ?n = "min (length name) 16" and ?w = "i div 4"
  have w: "?w < 4" using True by simp
  have pk: "bit (packName name ! ?w) b = (b < 32 \<and> 4 * ?w + b div 8 < ?n \<and> bit (name ! (4 * ?w + b div 8)) (b mod 8))" for b
    using pack_words [of ?n name] w by (simp add: packName_def NS_MAX_NAME_LEN_def)
  have "bit (unpackName (packName name) i) b = bit (if i < ?n then name ! i else 0) b" if b: "b < 8" for b
  proof -
    let ?b = "i mod 4 * 8 + b"
    have d: "?b div 8 = i mod 4" "?b mod 8 = b" "?b < 32" using b by auto
    have "(0xFF :: u32) = mask 8" by (simp add: mask_eq_exp_minus_1)
    then have "bit (0xFF :: u32) b" using b by (simp only: bit_mask_iff) simp
    then have "bit (unpackName (packName name) i) b = bit (packName name ! ?w) ?b"
      using True b by (simp add: unpackName_def NS_MAX_NAME_LEN_def bit_simps add.commute)
    also have "\<dots> = (i < ?n \<and> bit (name ! i) b)" unfolding pk d using d(3) by simp
    finally show ?thesis by auto
  qed
  then show ?thesis using True by (intro bit_word_eqI) (auto dest: bit_imp_le_length)
qed (simp add: unpackName_def NS_MAX_NAME_LEN_def)

lemma chars_string_at:
  assumes "\<And>i. i < length s \<Longrightarrow> f i = s ! i" "f (length s) = 0" "length s < n" "0 \<notin> set s"
  shows "chars_string n f = s"
proof -
  have "[0..<n] = [0..<length s] @ [length s..<n]"
    using upt_add_eq_append [of 0 "length s" "n - length s"] assms(3) by simp
  then have "map f [0..<n] = map f [0..<length s] @ map f [length s..<n]" by simp
  also have "map f [0..<length s] = s" using assms(1) by (intro nth_equalityI) auto
  also have "map f [length s..<n] = 0 # map f [Suc (length s)..<n]"
    using assms(2,3) by (simp add: upt_conv_Cons)
  finally show ?thesis using assms(4) by (simp add: chars_string_def takeWhile_append)
qed

lemma unpacked_string:
  assumes "0 \<notin> set name"
  shows "chars_string (NS_MAX_NAME_LEN + 1) (unpackName (packName name)) = take 16 name"
  using assms by (intro chars_string_at) (auto simp: unpack_pack NS_MAX_NAME_LEN_def dest: in_set_takeD)

lemma copied_string:
  assumes "length s < n" "n \<le> k" "0 \<notin> set s"
  shows "chars_string k (sv_copyTo s n old) = s"
proof -
  have "sv_copyTo s n old j = (if j < length s then s ! j else if j = length s then 0 else old j)" for j
    using assms(1) by (auto simp: sv_copyTo_def Let_def copyTo_loop)
  then show ?thesis using assms by (intro chars_string_at) auto
qed

section \<open>The directory of names\<close>

text \<open>
  The specification: a list of names with their processes, the newest first, in which no name
  occurs twice.  A client's request carries the first sixteen bytes of the name.
\<close>

type_synonym ns_dir = "(u8 list \<times> u32) list"

datatype ns_request = RegisterName "u8 list" | LookupName "u8 list" | ListAll | OtherRequest

fun request_msg :: "ns_request \<Rightarrow> ns_msg" where
  "request_msg (RegisterName name) = NsRegister (packName name)"
| "request_msg (LookupName name) = NsLookup (packName name)"
| "request_msg ListAll = NsListAll"
| "request_msg OtherRequest = NsOther"

fun request_ok :: "ns_request \<Rightarrow> bool" where
  "request_ok (RegisterName name) = (0 \<notin> set name)"
| "request_ok (LookupName name) = (0 \<notin> set name)"
| "request_ok _ = True"

definition dir_lookup :: "ns_dir \<Rightarrow> u8 list \<Rightarrow> u32" where
  "dir_lookup d name = (case map_of d (take 16 name) of Some pid \<Rightarrow> pid | None \<Rightarrow> 0)"

text \<open>\<open>mem\<close> tells whether there is memory for one more entry.\<close>

definition dir_register :: "ns_dir \<Rightarrow> u8 list \<Rightarrow> u32 \<Rightarrow> bool \<Rightarrow> u32 \<times> ns_dir" where
  "dir_register d name pid mem =
     (if take 16 name \<in> fst ` set d \<or> \<not> mem then (0, d) else (1, (take 16 name, pid) # d))"

definition table_dir :: "ns_table \<Rightarrow> ns_dir" where
  "table_dir t = map (\<lambda>e. (entry_string e, ne_pid e)) (entries t)"

text \<open>Every entry holds a string and a process.\<close>

definition table_ok :: "ns_table \<Rightarrow> bool" where
  "table_ok t \<longleftrightarrow> distinct (map fst (table_dir t)) \<and>
     (\<forall>e \<in> set (entries t). ne_pid e \<noteq> 0 \<and> length (entry_string e) \<le> 16 \<and> 0 \<notin> set (entry_string e))"

lemma lookup_dir: "ns_lookup s t = (case map_of (table_dir t) s of Some pid \<Rightarrow> pid | None \<Rightarrow> 0)"
proof -
  have "(case List.find (\<lambda>e. sv_eq (entry_string e) s) es of Some e \<Rightarrow> ne_pid e | None \<Rightarrow> 0) =
      (case map_of (map (\<lambda>e. (entry_string e, ne_pid e)) es) s of Some pid \<Rightarrow> pid | None \<Rightarrow> 0)" for es
    by (induction es) (auto simp: sv_eq_iff)
  then show ?thesis by (simp add: ns_lookup_def table_dir_def)
qed

lemma lookup_zero: "table_ok t \<Longrightarrow> ns_lookup s t = 0 \<longleftrightarrow> s \<notin> fst ` set (table_dir t)"
proof -
  assume ok: "table_ok t"
  have "pid \<noteq> 0" if "map_of (table_dir t) s = Some pid" for pid
    using map_of_SomeD [OF that] ok by (auto simp: table_ok_def table_dir_def)
  then show ?thesis
    by (auto simp: lookup_dir map_of_eq_None_iff image_iff split: option.splits dest!: map_of_SomeD) force
qed

definition has_memory :: "ns_table \<Rightarrow> bool" where
  "has_memory t \<longleftrightarrow> (case ns_allocs t of None # _ \<Rightarrow> False | _ \<Rightarrow> True)"

lemma register_dir:
  assumes ok: "table_ok t" and name: "0 \<notin> set name" and pid: "pid \<noteq> 0"
  obtains t' where "ns_register (take 16 name) pid t = (fst (dir_register (table_dir t) name pid (has_memory t)), t')"
    "table_ok t'" "table_dir t' = snd (dir_register (table_dir t) name pid (has_memory t))"
proof (cases "ns_lookup (take 16 name) t = 0")
  case False
  then show ?thesis using that [of t] ok lookup_zero [OF ok] by (simp add: ns_register_def dir_register_def)
next
  case True
  then have new: "take 16 name \<notin> fst ` set (table_dir t)" using lookup_zero [OF ok] by simp
  obtain r t1 where al: "ns_alloc t = (r, t1)" "entries t1 = entries t" "r = None \<longleftrightarrow> \<not> has_memory t"
    by (cases "ns_alloc t") (auto simp: ns_alloc_def has_memory_def split: list.splits option.splits)
  show ?thesis
  proof (cases r)
    case None
    then show ?thesis using that [of t1] True al ok
      by (simp add: ns_register_def dir_register_def table_ok_def table_dir_def)
  next
    case (Some mem)
    let ?e = "\<lparr>ne_name = sv_copyTo (take 16 name) (NS_MAX_NAME_LEN + 1) mem, ne_pid = pid\<rparr>"
    have s: "entry_string ?e = take 16 name"
      using name by (simp add: entry_string_def NS_MAX_NAME_LEN_def) (intro copied_string; auto dest: in_set_takeD)
    let ?t = "t1\<lparr>entries := ?e # entries t1\<rparr>"
    have "ns_register (take 16 name) pid t = (1, ?t)" using True al Some by (simp add: ns_register_def)
    moreover have dir: "table_dir ?t = (take 16 name, pid) # table_dir t" using s al by (simp add: table_dir_def)
    moreover have "table_ok ?t"
      using ok new name pid s al dir by (auto simp: table_ok_def dest: in_set_takeD)
    ultimately show ?thesis using that [of ?t] new al(3) Some by (simp add: dir_register_def)
  qed
qed


section \<open>The refinement\<close>

text \<open>Replies of the specification: the entries of a list are strings.\<close>

type_synonym dir_reply = "u32 \<times> u32 \<times> ns_dir"

fun dir_step :: "(ns_request \<times> i32) \<times> bool \<Rightarrow> ns_dir \<Rightarrow> dir_reply list \<times> ns_dir" where
  "dir_step ((req, sender), mem) d =
     (if \<not> 0 <s sender then ([], d)
      else
       (case req of
          RegisterName name \<Rightarrow> (case dir_register d name (ucast sender) mem of (a, d) \<Rightarrow> ([(ucast sender, a, [])], d))
        | LookupName name \<Rightarrow> ([(ucast sender, dir_lookup d name, [])], d)
        | ListAll \<Rightarrow> ([(ucast sender, of_nat (min (length d) 16), take 16 d)], d)
        | OtherRequest \<Rightarrow> ([(ucast sender, 0, [])], d)))"

definition reply_strings :: "ns_reply \<Rightarrow> dir_reply" where
  "reply_strings r = (case r of (to, a, es) \<Rightarrow> (to, a, map (\<lambda>(f, pid). (chars_string 20 f, pid)) es))"

lemma step_refines:
  assumes ok: "table_ok t" and req: "request_ok req"
  obtains out t' where "ns_step old (request_msg req, sender) t = (out, t')" "table_ok t'"
    "dir_step ((req, sender), has_memory t) (table_dir t) = (map reply_strings out, table_dir t')"
proof (cases "0 <s sender")
  case False
  then show ?thesis using that [of "[]" t] ok by (simp add: ns_step_def)
next
  case True
  then have s0: "(ucast sender :: u32) \<noteq> 0" by (auto simp: word_sless_alt)
  show ?thesis
  proof (cases req)
    case (RegisterName name)
    then have name: "0 \<notin> set name" using req by simp
    obtain t' where r: "ns_register (take 16 name) (ucast sender) t = (fst (dir_register (table_dir t) name (ucast sender) (has_memory t)), t')"
      "table_ok t'" "table_dir t' = snd (dir_register (table_dir t) name (ucast sender) (has_memory t))"
      by (rule register_dir [OF ok name s0])
    let ?r = "dir_register (table_dir t) name (ucast sender) (has_memory t)"
    have "ns_step old (request_msg req, sender) t = ([(ucast sender, fst ?r, [])], t')"
      using RegisterName True r(1) unpacked_string [OF name] by (simp add: ns_step_def)
    moreover have "dir_step ((req, sender), has_memory t) (table_dir t) = (map reply_strings [(ucast sender, fst ?r, [])], table_dir t')"
      using RegisterName True r(3) by (simp add: reply_strings_def case_prod_beta)
    ultimately show ?thesis using r(2) by (blast intro: that)
  next
    case (LookupName name)
    then have name: "0 \<notin> set name" using req by simp
    let ?out = "[(ucast sender, ns_lookup (take 16 name) t, [])]"
    have "ns_step old (request_msg req, sender) t = (?out, t)"
      using LookupName True unpacked_string [OF name] by (simp add: ns_step_def)
    moreover have "dir_step ((req, sender), has_memory t) (table_dir t) = (map reply_strings ?out, table_dir t)"
      using LookupName True by (simp add: reply_strings_def lookup_dir dir_lookup_def)
    ultimately show ?thesis by (rule that [OF _ ok])
  next
    case ListAll
    have e: "chars_string 20 (sv_copyTo (entry_string e) 20 old) = entry_string e" if "e \<in> set (take 16 (entries t))" for e
      using ok in_set_takeD [OF that] by (intro copied_string) (auto simp: table_ok_def)
    then have "map (\<lambda>(f, pid). (chars_string 20 f, pid)) (ns_listAll 16 old t) = take 16 (table_dir t)"
      by (simp add: ns_listAll_def table_dir_def take_map comp_def cong: map_cong)
    moreover have "length (ns_listAll 16 old t) = min (length (table_dir t)) 16" by (simp add: ns_listAll_def table_dir_def)
    ultimately show ?thesis using that ListAll True ok by (simp add: ns_step_def reply_strings_def Let_def)
  next
    case OtherRequest
    then show ?thesis using that True ok by (simp add: ns_step_def reply_strings_def)
  qed
qed

text \<open>The specification is told, at every request, whether the heap of the service has memory.\<close>

fun ns_memory :: "chars \<Rightarrow> (ns_request \<times> i32) list \<Rightarrow> ns_table \<Rightarrow> bool list" where
  "ns_memory old [] t = []"
| "ns_memory old ((req, sender) # rs) t =
     has_memory t # ns_memory old rs (snd (ns_step old (request_msg req, sender) t))"

fun dir_run :: "((ns_request \<times> i32) \<times> bool) list \<Rightarrow> ns_dir \<Rightarrow> dir_reply list \<times> ns_dir" where
  "dir_run [] d = ([], d)"
| "dir_run (r # rs) d = (case dir_step r d of (out, d) \<Rightarrow> case dir_run rs d of (outs, d) \<Rightarrow> (out @ outs, d))"

lemma run_refines:
  assumes "table_ok t" "\<forall>(req, sender) \<in> set rs. request_ok req"
  shows "\<exists>outs t'. ns_run old (map (\<lambda>(req, sender). (request_msg req, sender)) rs) t = (outs, t') \<and> table_ok t' \<and>
    dir_run (zip rs (ns_memory old rs t)) (table_dir t) = (map reply_strings outs, table_dir t')"
  using assms
proof (induction rs arbitrary: t)
  case (Cons r rs)
  obtain req sender where r: "r = (req, sender)" by (cases r)
  have req: "request_ok req" and rs: "\<forall>(req, sender) \<in> set rs. request_ok req" using Cons.prems(2) r by simp_all
  obtain out t1 where s: "ns_step old (request_msg req, sender) t = (out, t1)" "table_ok t1"
    "dir_step ((req, sender), has_memory t) (table_dir t) = (map reply_strings out, table_dir t1)"
    by (rule step_refines [OF Cons.prems(1) req])
  then show ?case using Cons.IH [OF s(2) rs] r by (auto simp del: dir_step.simps)
qed simp

lemma start_ok: "table_ok (ns_start allocs)"
  "table_dir (ns_start allocs) = (if has_memory \<lparr>entries = [], ns_allocs = allocs\<rparr> then [([110, 115], 1)] else [])"
proof -
  let ?t = "\<lparr>entries = [], ns_allocs = allocs\<rparr>"
  have t: "table_ok ?t" by (simp add: table_ok_def table_dir_def)
  obtain t' where "ns_register (take 16 [110, 115]) NS_PID ?t = (fst (dir_register (table_dir ?t) [110, 115] NS_PID (has_memory ?t)), t')"
    "table_ok t'" "table_dir t' = snd (dir_register (table_dir ?t) [110, 115] NS_PID (has_memory ?t))"
    by (rule register_dir [OF t, where name = "[110, 115]" and pid = NS_PID]) (auto simp: NS_PID_def)
  then show "table_ok (ns_start allocs)"
    "table_dir (ns_start allocs) = (if has_memory ?t then [([110, 115], 1)] else [])"
    by (simp_all add: ns_start_def dir_register_def table_dir_def NS_PID_def)
qed

text \<open>
  C36. The name server, with the packing of names into messages on the client's side and their
  unpacking on its own, refines a directory of names: a name is bound to the first process that
  registers it while there is memory and stays bound, a lookup gives that process or 0, names
  count with their first sixteen bytes, a listing gives the newest sixteen bindings, and every
  sender gets exactly one reply.
\<close>

theorem nameserver_refines:
  assumes "\<forall>(req, sender) \<in> set rs. request_ok req"
  shows "\<exists>outs t. ns_run old (map (\<lambda>(req, sender). (request_msg req, sender)) rs) (ns_start allocs) = (outs, t) \<and>
    dir_run (zip rs (ns_memory old rs (ns_start allocs))) (table_dir (ns_start allocs)) = (map reply_strings outs, table_dir t) \<and>
    distinct (map fst (table_dir t))"
  using run_refines [OF start_ok(1) assms, of old allocs] unfolding table_ok_def by blast

definition demo_lookups :: "(ns_request \<times> i32) list" where
  "demo_lookups = [(LookupName [107, 98, 100], 5), (RegisterName [107, 98, 100], 7), (LookupName [107, 98, 100], 5), (LookupName [110, 115], 5)]"

theorem nameserver_refines_witness:
  "\<exists>outs t. ns_run (\<lambda>_. 0) (map (\<lambda>(req, sender). (request_msg req, sender)) demo_lookups) (ns_start []) = (outs, t) \<and>
     map reply_strings outs = [(5, 0, []), (7, 1, []), (5, 7, []), (5, 1, [])]"
proof -
  have ok: "\<forall>(req, sender) \<in> set demo_lookups. request_ok req" by (simp add: demo_lookups_def)
  have mem: "has_memory t" if "ns_allocs t = []" for t using that by (simp add: has_memory_def)
  have keep: "ns_allocs (snd (ns_step old r t)) = []" if "ns_allocs t = []" for old r t
    using that by (auto simp: ns_step_def ns_register_def ns_alloc_def Let_def split: prod.splits ns_msg.splits)
  have n0: "ns_allocs (ns_start []) = []" by (simp add: ns_start_def ns_register_def ns_alloc_def)
  have all: "ns_memory old rs t = replicate (length rs) True" if "ns_allocs t = []" for old rs t
    using that by (induction old rs t rule: ns_memory.induct) (simp_all add: mem keep)
  obtain outs t where w: "ns_run (\<lambda>_. 0) (map (\<lambda>(req, sender). (request_msg req, sender)) demo_lookups) (ns_start []) = (outs, t)"
    "dir_run (zip demo_lookups (ns_memory (\<lambda>_. 0) demo_lookups (ns_start []))) (table_dir (ns_start [])) = (map reply_strings outs, table_dir t)"
    using nameserver_refines [OF ok, of "\<lambda>_. 0" "[]"] by blast
  have "map reply_strings outs = [(5, 0, []), (7, 1, []), (5, 7, []), (5, 1, [])]"
    using w(2) unfolding all [OF n0] start_ok(2)
    by (simp add: demo_lookups_def has_memory_def dir_lookup_def dir_register_def word_sless_alt numeral_eq_Suc)
  then show ?thesis using w(1) by (intro exI conjI)
qed

end
