(* ===== verification/Terminal.thy ===== *)
theory Terminal
  imports Display
begin

text \<open>
  The terminal of userspace/core/terminal: a grid of characters, drawn through the client of the
  display service.  Line feeds on the last line are collected and scrolled at the next drawing.
\<close>

unbundle bit_operations_syntax

section \<open>Operations\<close>

text \<open>\<open>sent\<close> are the messages sent to the display service so far; the cells are the block of \<^verbatim>\<open>sbrk\<close>.\<close>

record terminal =
  t_cols :: u32
  t_rows :: u32
  t_x :: u8
  t_y :: u8
  t_fg :: color
  t_bg :: color
  t_cells :: "u8 list option"
  pendingScroll :: u32
  sent :: "disp_msg list"

definition tell :: "disp_msg \<Rightarrow> terminal \<Rightarrow> terminal" where
  "tell msg t = t\<lparr>sent := sent t @ [msg]\<rparr>"

definition cells_set :: "u8 list \<Rightarrow> nat \<Rightarrow> u8 \<Rightarrow> nat \<Rightarrow> u8 list" where
  "cells_set cs i c n = take i cs @ replicate n c @ drop (i + n) cs"

definition cells_move :: "u8 list \<Rightarrow> nat \<Rightarrow> nat \<Rightarrow> nat \<Rightarrow> u8 list" where
  "cells_move cs d s n = take d cs @ take n (drop s cs) @ drop (d + n) cs"

definition terminal_new :: "u32 \<Rightarrow> u32 \<Rightarrow> terminal" where
  "terminal_new screenWidth screenHeight =
     (let cols = screenWidth div FONT_WIDTH; rows = screenHeight div FONT_HEIGHT; gridSize = cols * rows in
      \<lparr>t_cols = cols, t_rows = rows, t_x = 0, t_y = 0, t_fg = 0x00AAAAAA, t_bg = 0x00000000,
       t_cells = (if gridSize > 0 then Some (replicate (unat gridSize) 32) else None), pendingScroll = 0, sent = []\<rparr>)"

definition cellAt :: "u32 \<Rightarrow> u32 \<Rightarrow> terminal \<Rightarrow> u8" where
  "cellAt col row t = (case t_cells t of None \<Rightarrow> 32 | Some cs \<Rightarrow>
     (if col \<ge> t_cols t \<or> row \<ge> t_rows t then 32 else cs ! unat (row * t_cols t + col)))"

definition setCellAt :: "u32 \<Rightarrow> u32 \<Rightarrow> u8 \<Rightarrow> terminal \<Rightarrow> terminal" where
  "setCellAt col row ch t = (case t_cells t of None \<Rightarrow> t | Some cs \<Rightarrow>
     (if col < t_cols t \<and> row < t_rows t then t\<lparr>t_cells := Some (cs[unat (row * t_cols t + col) := ch])\<rparr> else t))"

definition scroll_cells :: "terminal \<Rightarrow> u8 list \<Rightarrow> u8 list" where
  "scroll_cells t cs =
     (let scrollRows = pendingScroll t; rows = t_rows t; cols = t_cols t in
      if scrollRows \<ge> rows then cells_set cs 0 32 (unat (cols * rows))
      else (let cs = cells_move cs 0 (unat (scrollRows * cols)) (unat ((rows - scrollRows) * cols))
            in cells_set cs (unat ((rows - scrollRows) * cols)) 32 (unat (scrollRows * cols))))"

definition flushScroll :: "terminal \<Rightarrow> terminal" where
  "flushScroll t =
     (if pendingScroll t > 0
      then (tell (DisplayScroll (pendingScroll t * FONT_HEIGHT) (t_bg t)) t)
             \<lparr>t_cells := map_option (scroll_cells t) (t_cells t), pendingScroll := 0\<rparr>
      else t)"

definition drawGlyph :: "u8 \<Rightarrow> u32 \<Rightarrow> u32 \<Rightarrow> terminal \<Rightarrow> terminal" where
  "drawGlyph ch col row t =
     tell (DisplayDrawChar (col * FONT_WIDTH) (row * FONT_HEIGHT) (ucast ch) (t_fg t) (t_bg t)) (setCellAt col row ch (flushScroll t))"

definition clearCell :: "u32 \<Rightarrow> u32 \<Rightarrow> terminal \<Rightarrow> terminal" where
  "clearCell col row t =
     tell (DisplayFillRect (col * FONT_WIDTH) (row * FONT_HEIGHT) FONT_WIDTH FONT_HEIGHT (t_bg t)) (setCellAt col row 32 (flushScroll t))"

text \<open>The cursor's coordinates are bytes.\<close>

abbreviation cur_col :: "terminal \<Rightarrow> u32" where "cur_col t \<equiv> ucast (t_x t)"
abbreviation cur_row :: "terminal \<Rightarrow> u32" where "cur_row t \<equiv> ucast (t_y t)"

lemma setCellAt_fields [simp]:
  "t_cols (setCellAt c r ch t) = t_cols t" "t_rows (setCellAt c r ch t) = t_rows t" "t_x (setCellAt c r ch t) = t_x t"
  "t_y (setCellAt c r ch t) = t_y t" "t_fg (setCellAt c r ch t) = t_fg t" "t_bg (setCellAt c r ch t) = t_bg t"
  "pendingScroll (setCellAt c r ch t) = pendingScroll t" "sent (setCellAt c r ch t) = sent t"
  by (simp_all add: setCellAt_def split: option.splits)

lemma tell_fields [simp]:
  "t_cols (tell m t) = t_cols t" "t_rows (tell m t) = t_rows t" "t_x (tell m t) = t_x t" "t_y (tell m t) = t_y t"
  "t_fg (tell m t) = t_fg t" "t_bg (tell m t) = t_bg t" "t_cells (tell m t) = t_cells t"
  "pendingScroll (tell m t) = pendingScroll t" "sent (tell m t) = sent t @ [m]"
  by (simp_all add: tell_def)

lemma flushScroll_fields [simp]:
  "t_cols (flushScroll t) = t_cols t" "t_rows (flushScroll t) = t_rows t" "t_x (flushScroll t) = t_x t" "t_y (flushScroll t) = t_y t"
  "t_fg (flushScroll t) = t_fg t" "t_bg (flushScroll t) = t_bg t" "pendingScroll (flushScroll t) = 0"
  by (auto simp: flushScroll_def word_gt_0)

lemma clearCell_x: "t_x (clearCell c r t) = t_x t"
  by (simp add: clearCell_def)

text \<open>The loop of the tab.\<close>

lemma unat_Suc_u8: "x < n \<Longrightarrow> unat (x + 1) = Suc (unat x)" for x n :: u8
proof -
  assume "x < n"
  then have "unat x < unat n" by (simp add: word_less_nat_alt)
  moreover have "unat n < 256" using unsigned_less [of n, where 'a = nat] by simp
  ultimately show ?thesis by (simp add: unat_word_ariths)
qed

lemma tab_decreases: "x < n \<Longrightarrow> unat n - unat (x + 1) < unat n - unat x" for x n :: u8
  using unat_Suc_u8 [of x n] by (auto simp: word_less_nat_alt)

function tab_loop :: "u8 \<Rightarrow> terminal \<Rightarrow> terminal" where
  "tab_loop stop t =
     (if t_x t < stop then tab_loop stop ((clearCell (cur_col t) (cur_row t) t)\<lparr>t_x := t_x t + 1\<rparr>) else t)"
  by pat_completeness auto
termination
  by (relation "measure (\<lambda>(stop, t). unat stop - unat (t_x t))") (auto intro: tab_decreases)

declare tab_loop.simps [simp del]

definition term_tab :: "terminal \<Rightarrow> terminal" where
  "term_tab t =
     (let stop = (t_x t + 8) AND NOT 7; stop = (if (ucast stop :: u32) \<ge> t_cols t then ucast (t_cols t) else stop)
      in tab_loop stop t)"

text \<open>The end of \<^verbatim>\<open>putchar\<close>: the end of the line, the end of the grid.\<close>

definition term_wrap :: "terminal \<Rightarrow> terminal" where
  "term_wrap t =
     (let t = (if cur_col t \<ge> t_cols t then t\<lparr>t_y := t_y t + 1, t_x := 0\<rparr> else t) in
      if cur_row t \<ge> t_rows t
      then t\<lparr>pendingScroll := pendingScroll t + (cur_row t - t_rows t + 1), t_y := ucast (t_rows t - 1)\<rparr> else t)"

definition term_putchar :: "u8 \<Rightarrow> terminal \<Rightarrow> terminal" where
  "term_putchar ch t =
     (if t_cols t = 0 \<or> t_rows t = 0 then t
      else term_wrap
       (if ch = 10 then t\<lparr>t_y := t_y t + 1, t_x := 0\<rparr>
        else if ch = 8
        then (let t = (if t_x t > 0 then t\<lparr>t_x := t_x t - 1\<rparr>
                       else if t_y t > 0 then t\<lparr>t_y := t_y t - 1, t_x := ucast (t_cols t - 1)\<rparr> else t)
              in clearCell (cur_col t) (cur_row t) t)
        else if ch = 0x7F then clearCell (cur_col t) (cur_row t) t
        else if ch = 9 then term_tab t
        else (let t = drawGlyph ch (cur_col t) (cur_row t) t in t\<lparr>t_x := t_x t + 1\<rparr>)))"

definition term_clear :: "terminal \<Rightarrow> terminal" where
  "term_clear t =
     (tell (DisplayFillRect 0 0 (t_cols t * FONT_WIDTH) (t_rows t * FONT_HEIGHT) (t_bg t)) t)
       \<lparr>pendingScroll := 0, t_cells := map_option (\<lambda>cs. cells_set cs 0 32 (unat (t_cols t * t_rows t))) (t_cells t), t_x := 0, t_y := 0\<rparr>"

definition draw_cell :: "color \<Rightarrow> color \<Rightarrow> terminal \<Rightarrow> terminal" where
  "draw_cell fg bg t = (let t = flushScroll t in
     tell (DisplayDrawChar (cur_col t * FONT_WIDTH) (cur_row t * FONT_HEIGHT) (ucast (cellAt (cur_col t) (cur_row t) t)) fg bg) t)"

definition drawCursor :: "terminal \<Rightarrow> terminal" where
  "drawCursor t = draw_cell (t_bg t) (t_fg t) t"

definition eraseCursor :: "terminal \<Rightarrow> terminal" where
  "eraseCursor t = draw_cell (t_fg t) (t_bg t) t"

definition term_setCursor :: "u8 \<Rightarrow> u8 \<Rightarrow> terminal \<Rightarrow> terminal" where
  "term_setCursor col row t = t\<lparr>t_x := col, t_y := row\<rparr>"

section \<open>The service\<close>

text \<open>A write comes with the contents of the data buffer after the receive.\<close>

datatype term_msg =
    TerminalPutchar u32
  | TerminalWrite u32 "u8 list"
  | TerminalClear
  | TerminalSetCursor u32 u32
  | TerminalGetCursor
  | TerminalFlush
  | TerminalOther

definition term_handle :: "term_msg \<Rightarrow> terminal \<Rightarrow> terminal" where
  "term_handle msg t =
     (case msg of
        TerminalPutchar c \<Rightarrow> term_putchar (ucast c) t
      | TerminalWrite len dataBuf \<Rightarrow> fold (\<lambda>i. term_putchar (dataBuf ! i)) [0..<unat (if len > 256 then 256 else len)] t
      | TerminalClear \<Rightarrow> term_clear t
      | TerminalSetCursor col row \<Rightarrow> term_setCursor (ucast col) (ucast row) t
      | TerminalGetCursor \<Rightarrow> t
      | TerminalFlush \<Rightarrow> eraseCursor (tell DisplayFlush (drawCursor t))
      | TerminalOther \<Rightarrow> t)"

definition term_step :: "term_msg \<times> i32 \<Rightarrow> terminal \<Rightarrow> (u32 \<times> u32 \<times> u32) list \<times> terminal" where
  "term_step r t = (case r of (msg, sender) \<Rightarrow> let t = term_handle msg t in
     (if 0 <s sender then [(ucast sender, cur_col t, cur_row t)] else [], t))"

fun term_run :: "(term_msg \<times> i32) list \<Rightarrow> terminal \<Rightarrow> (u32 \<times> u32 \<times> u32) list \<times> terminal" where
  "term_run [] t = ([], t)"
| "term_run (r # rs) t = (case term_step r t of (out, t) \<Rightarrow> case term_run rs t of (outs, t) \<Rightarrow> (out @ outs, t))"

definition welcome_text :: "u8 list" where
  "welcome_text = map of_char (''Welcome to the Cassio Operating System!'' @ [CHR 0x0A])"

definition term_start :: "u32 \<Rightarrow> u32 \<Rightarrow> terminal" where
  "term_start width height = tell DisplayFlush (drawCursor (fold term_putchar welcome_text (terminal_new width height)))"

section \<open>The specification\<close>

text \<open>
  A screen of characters, each plain or inverted, that scrolls at once. \<open>on_screen\<close> is the
  grid as of the last flush.
\<close>

type_synonym char_grid = "nat \<Rightarrow> nat \<Rightarrow> u8 \<times> bool"

record char_screen =
  cs_x :: nat
  cs_y :: nat
  grid :: char_grid
  on_screen :: char_grid

definition put_cell :: "nat \<Rightarrow> nat \<Rightarrow> u8 \<times> bool \<Rightarrow> char_grid \<Rightarrow> char_grid" where
  "put_cell c r v g = (\<lambda>c' r'. if c' = c \<and> r' = r then v else g c' r')"

definition shift_up :: "nat \<Rightarrow> nat \<Rightarrow> char_grid \<Rightarrow> char_grid" where
  "shift_up R n g = (\<lambda>c r. if r + n < R then g c (r + n) else (32, False))"

definition at_cursor :: "u8 \<times> bool \<Rightarrow> char_screen \<Rightarrow> char_screen" where
  "at_cursor v s = s\<lparr>grid := put_cell (cs_x s) (cs_y s) v (grid s)\<rparr>"

text \<open>The end of a line continues on the next one, the end of the last line scrolls.\<close>

definition settle :: "nat \<Rightarrow> nat \<Rightarrow> char_screen \<Rightarrow> char_screen" where
  "settle C R s =
     (let s = (if cs_x s = C then s\<lparr>cs_x := 0, cs_y := cs_y s + 1\<rparr> else s) in
      if cs_y s = R then s\<lparr>cs_y := R - 1, grid := shift_up R 1 (grid s)\<rparr> else s)"

definition step_back :: "nat \<Rightarrow> char_screen \<Rightarrow> char_screen" where
  "step_back C s =
     (if cs_x s > 0 then s\<lparr>cs_x := cs_x s - 1\<rparr> else if cs_y s > 0 then s\<lparr>cs_x := C - 1, cs_y := cs_y s - 1\<rparr> else s)"

definition spec_tab :: "nat \<Rightarrow> char_screen \<Rightarrow> char_screen" where
  "spec_tab C s = (let stop = min C (8 * (cs_x s div 8 + 1)) in
     s\<lparr>grid := (\<lambda>c r. if r = cs_y s \<and> cs_x s \<le> c \<and> c < stop then (32, False) else grid s c r), cs_x := stop\<rparr>)"

definition spec_char :: "nat \<Rightarrow> nat \<Rightarrow> u8 \<Rightarrow> char_screen \<Rightarrow> char_screen" where
  "spec_char C R ch s = settle C R
     (if ch = 10 then s\<lparr>cs_x := 0, cs_y := cs_y s + 1\<rparr>
      else if ch = 8 then at_cursor (32, False) (step_back C s)
      else if ch = 0x7F then at_cursor (32, False) s
      else if ch = 9 then spec_tab C s
      else (at_cursor (ch, False) s)\<lparr>cs_x := cs_x s + 1\<rparr>)"

definition invert_cursor :: "bool \<Rightarrow> char_screen \<Rightarrow> char_screen" where
  "invert_cursor b s = at_cursor (fst (grid s (cs_x s) (cs_y s)), b) s"

definition show_screen :: "char_screen \<Rightarrow> char_screen" where
  "show_screen s = s\<lparr>on_screen := grid s\<rparr>"

definition spec_term :: "nat \<Rightarrow> nat \<Rightarrow> term_msg \<Rightarrow> char_screen \<Rightarrow> char_screen" where
  "spec_term C R msg s =
     (case msg of
        TerminalPutchar c \<Rightarrow> spec_char C R (ucast c) s
      | TerminalWrite len dataBuf \<Rightarrow> fold (spec_char C R) (take (unat len) dataBuf) s
      | TerminalClear \<Rightarrow> s\<lparr>grid := \<lambda>_ _. (32, False), cs_x := 0, cs_y := 0\<rparr>
      | TerminalSetCursor c r \<Rightarrow> s\<lparr>cs_x := unat (ucast c :: u8), cs_y := unat (ucast r :: u8)\<rparr>
      | TerminalFlush \<Rightarrow> invert_cursor False (show_screen (invert_cursor True s))
      | _ \<Rightarrow> s)"

fun spec_terms :: "nat \<Rightarrow> nat \<Rightarrow> (term_msg \<times> i32) list \<Rightarrow> char_screen \<Rightarrow> (u32 \<times> nat \<times> nat) list \<times> char_screen" where
  "spec_terms C R [] s = ([], s)"
| "spec_terms C R ((msg, sender) # rs) s =
     (let s = spec_term C R msg s; (outs, s') = spec_terms C R rs s in
      ((if 0 <s sender then [(ucast sender, cs_x s, cs_y s)] else []) @ outs, s'))"

definition spec_begin :: "nat \<Rightarrow> nat \<Rightarrow> char_screen" where
  "spec_begin C R = show_screen (invert_cursor True (fold (spec_char C R) welcome_text
     \<lparr>cs_x = 0, cs_y = 0, grid = \<lambda>_ _. (32, False), on_screen = \<lambda>_ _. (32, False)\<rparr>))"

text \<open>The pixels of a grid; outside of it the background.\<close>

definition render :: "nat \<Rightarrow> nat \<Rightarrow> char_grid \<Rightarrow> picture" where
  "render C R g px py =
     (if px div 8 < C \<and> py div 16 < R
      then (case g (px div 8) (py div 16) of (ch, inverted) \<Rightarrow>
              if glyph_pixel ch (px mod 8) (py mod 16) \<noteq> inverted then 0x00AAAAAA else 0)
      else 0)"

section \<open>Cells and pixels\<close>

lemma blank_glyph: "row < 16 \<Longrightarrow> \<not> glyph_pixel 32 col row"
proof -
  assume "row < 16"
  moreover have "font ! 32 = replicate 16 0" by (simp add: font_def font_low_def font_high_def numeral_eq_Suc)
  ultimately show ?thesis by (simp add: glyph_pixel_def)
qed

lemma in_cell: "(px, py) \<in> rect (8 * c) (16 * r) 8 16 \<longleftrightarrow> px div 8 = c \<and> py div 16 = r"
  by (auto simp: rect_def)

lemma render_char:
  assumes "c < C" "r < R" "(fg, bg) = (if inverted then (0, 0x00AAAAAA) else (0x00AAAAAA, 0))"
  shows "char_picture (8 * c) (16 * r) ch fg bg (render C R g) = render C R (put_cell c r (ch, inverted) g)"
proof (intro ext)
  fix px py
  show "char_picture (8 * c) (16 * r) ch fg bg (render C R g) px py = render C R (put_cell c r (ch, inverted) g) px py"
  proof (cases "px div 8 = c \<and> py div 16 = r")
    case True
    then have "px - 8 * c = px mod 8" "py - 16 * r = py mod 16" by (auto simp: modulo_nat_def)
    then show ?thesis using True assms
      by (auto simp: char_picture_def overlay_def in_cell char_color_def render_def put_cell_def split: if_splits)
  qed (auto simp: char_picture_def overlay_def in_cell render_def put_cell_def)
qed

lemma render_blank:
  assumes "c < C" "r < R"
  shows "overlay (rect (8 * c) (16 * r) 8 16) (\<lambda>_ _. 0) (render C R g) = render C R (put_cell c r (32, False) g)"
  using assms blank_glyph by (auto simp: fun_eq_iff overlay_def in_cell render_def put_cell_def)

lemma render_clear: "overlay (rect 0 0 (8 * C) (16 * R)) (\<lambda>_ _. 0) (render C R g) = render C R (\<lambda>_ _. (32, False))"
  using blank_glyph by (auto simp: fun_eq_iff overlay_def rect_def render_def less_mult_imp_div_less)

lemma render_scroll:
  assumes "py < h"
  shows "scrolled h (16 * n) 0 (render C (h div 16) g) px py = render C (h div 16) (shift_up (h div 16) n g) px py"
proof -
  have d: "(py + 16 * n) div 16 = py div 16 + n" "(py + 16 * n) mod 16 = py mod 16" by simp_all
  have "py + 16 * n < h" if "py div 16 + n < h div 16"
    using that d(1) by (metis div_le_mono not_less)
  then show ?thesis using blank_glyph by (auto simp: scrolled_def render_def shift_up_def d)
qed

lemma shift_shift: "shift_up R m (shift_up R n g) = shift_up R (m + n) g"
  by (auto simp: shift_up_def fun_eq_iff add.assoc)

section \<open>The relation\<close>

definition notices :: "disp_msg list \<Rightarrow> (disp_msg \<times> u8 list \<times> i32) list" where
  "notices ms = map (\<lambda>m. (m, [], 0)) ms"

definition drawn_by :: "u32 \<Rightarrow> disp_msg list \<Rightarrow> picture \<times> picture" where
  "drawn_by h ms = spec_screen (unat h) (notices ms) (\<lambda>_ _. 0, \<lambda>_ _. 0)"

lemma spec_screen_append: "spec_screen H (xs @ ys) fg = spec_screen H ys (spec_screen H xs fg)"
  by (induction H xs fg rule: spec_screen.induct) simp_all

lemma drawn_by_snoc:
  "drawn_by h (ms @ [m]) = (msg_picture (unat h) m [] (fst (drawn_by h ms)), msg_shown m (fst (drawn_by h ms)) (snd (drawn_by h ms)))"
  by (cases "drawn_by h ms") (simp add: drawn_by_def notices_def spec_screen_append)

definition same_pixels :: "u32 \<Rightarrow> u32 \<Rightarrow> picture \<Rightarrow> picture \<Rightarrow> bool" where
  "same_pixels w h f f' \<longleftrightarrow> (\<forall>px py. px < unat w \<longrightarrow> py < unat h \<longrightarrow> f px py = f' px py)"

definition dims :: "u32 \<Rightarrow> u32 \<Rightarrow> nat \<Rightarrow> nat \<Rightarrow> bool" where
  "dims w h C R \<longleftrightarrow> C = unat w div 8 \<and> R = unat h div 16 \<and> 0 < C \<and> C \<le> 248 \<and> 0 < R \<and> R < 256"

definition cells_rel :: "nat \<Rightarrow> nat \<Rightarrow> u8 list \<Rightarrow> char_grid \<Rightarrow> bool" where
  "cells_rel C R cs g \<longleftrightarrow> length cs = C * R \<and> (\<forall>c r. c < C \<longrightarrow> r < R \<longrightarrow> cs ! (r * C + c) = fst (g c r))"

text \<open>The cells hold the characters of a grid, the messages sent so far draw it.\<close>

definition pic_rel :: "u32 \<Rightarrow> u32 \<Rightarrow> terminal \<Rightarrow> char_grid \<Rightarrow> bool" where
  "pic_rel w h t g \<longleftrightarrow> t_cols t = w div 8 \<and> t_rows t = h div 16 \<and> t_fg t = 0x00AAAAAA \<and> t_bg t = 0 \<and>
     (\<exists>cs. t_cells t = Some cs \<and> cells_rel (unat w div 8) (unat h div 16) cs g) \<and>
     same_pixels w h (fst (drawn_by h (sent t))) (render (unat w div 8) (unat h div 16) g) \<and> (\<forall>m \<in> set (sent t). msg_ok m [])"

lemma pic_rel_tell:
  assumes "pic_rel w h t g" "dims w h C R" "msg_ok m []" "cells_rel C R cs g'"
    and "\<And>f. same_pixels w h f (render C R g) \<Longrightarrow> same_pixels w h (msg_picture (unat h) m [] f) (render C R g')"
  shows "pic_rel w h ((tell m t)\<lparr>t_cells := Some cs\<rparr>) g'"
  using assms by (simp add: pic_rel_def drawn_by_snoc dims_def)

lemma cell_index:
  fixes c C r R :: nat
  assumes "c < C" "r < R"
  shows "r * C + c < C * R" "r' < R \<Longrightarrow> c' < C \<Longrightarrow> r * C + c = r' * C + c' \<longleftrightarrow> r = r' \<and> c = c'"
proof -
  have "Suc r * C \<le> R * C" using assms(2) by (intro mult_le_mono1) simp
  then show "r * C + c < C * R" using assms(1) by (simp add: mult.commute)
next
  assume "r' < R" "c' < C"
  have "(r * C + c) div C = r" "(r' * C + c') div C = r'" using assms(1) \<open>c' < C\<close> by simp_all
  then show "r * C + c = r' * C + c' \<longleftrightarrow> r = r' \<and> c = c'" by (metis add_left_cancel)
qed

lemma cells_put:
  assumes "cells_rel C R cs g" "c < C" "r < R"
  shows "cells_rel C R (cs[r * C + c := ch]) (put_cell c r (ch, b) g)"
  using assms cell_index [OF assms(2,3)] by (auto simp: cells_rel_def put_cell_def nth_list_update)

lemma cells_same: "cells_rel C R cs g \<Longrightarrow> cells_rel C R cs (put_cell c r (fst (g c r), b) g)"
  by (auto simp: cells_rel_def put_cell_def)

lemma unat_mult_small: "unat a * unat b < 2 ^ 32 \<Longrightarrow> unat (a * b) = unat a * unat b" for a b :: u32
  by (simp add: unat_word_ariths)

lemma unat_cell:
  assumes "dims w h C R" "unat c < C" "unat r < R"
  shows "unat (r * (w div 8) + c) = unat r * C + unat c" "unat (c * FONT_WIDTH) = 8 * unat c" "unat (r * FONT_HEIGHT) = 16 * unat r"
proof -
  have C: "unat (w div 8) = C" "C \<le> 248" "R < 256" using assms(1) by (simp_all add: dims_def unat_div)
  have le: "unat r * C \<le> 256 * 248" using C(2,3) assms(3) by (intro mult_le_mono) auto
  then have m: "unat (r * (w div 8)) = unat r * C" unfolding C(1) [symmetric] using C(1) by (intro unat_mult_small) simp
  then show "unat (r * (w div 8) + c) = unat r * C + unat c"
    using le C(2) assms(2) by (simp add: unat_word_ariths m)
  show "unat (c * FONT_WIDTH) = 8 * unat c" using C(2) assms(2) unat_mult_small [of c 8] by (simp add: FONT_WIDTH_def)
  show "unat (r * FONT_HEIGHT) = 16 * unat r" using C(3) assms(3) unat_mult_small [of r 16] by (simp add: FONT_HEIGHT_def)
qed

lemma scroll_cells_rel:
  assumes d: "dims w h C R" and t: "t_cols t = w div 8" "t_rows t = h div 16" and cs: "cells_rel C R cs g"
  shows "cells_rel C R (scroll_cells t cs) (shift_up R (unat (pendingScroll t)) g)"
proof (cases "pendingScroll t \<ge> t_rows t")
  case True
  have C: "unat (w div 8) = C" "C \<le> 248" "R < 256" "unat (h div 16) = R" using d by (simp_all add: dims_def unat_div)
  have "C * R \<le> 248 * 256" using C(2,3) by (intro mult_le_mono) auto
  then have m: "unat (w div 8 * (h div 16)) = C * R" using C(1,4) unat_mult_small [of "w div 8" "h div 16"] by simp
  have "R \<le> unat (pendingScroll t)" using True t C by (simp add: word_le_nat_alt)
  then show ?thesis using True cs t
    by (auto simp: scroll_cells_def cells_set_def cells_rel_def shift_up_def m cell_index(1))
next
  case False
  let ?p = "unat (pendingScroll t)"
  have C: "unat (w div 8) = C" "C \<le> 248" "R < 256" "unat (h div 16) = R" using d by (simp_all add: dims_def unat_div)
  have p: "?p < R" using False t C by (simp add: word_le_nat_alt)
  have "?p * C \<le> 256 * 248" "(R - ?p) * C \<le> 256 * 248" using C(2,3) p by (intro mult_le_mono, simp, simp)+
  moreover have rp: "unat (h div 16 - pendingScroll t) = R - ?p" using p C(4) False t(2) by (simp add: unat_sub)
  ultimately have m: "unat (pendingScroll t * (w div 8)) = ?p * C" "unat ((h div 16 - pendingScroll t) * (w div 8)) = (R - ?p) * C"
    using C(1) unat_mult_small [of "pendingScroll t" "w div 8"] unat_mult_small [of "h div 16 - pendingScroll t" "w div 8"] by simp_all
  have len: "length cs = C * R" using cs by (simp add: cells_rel_def)
  have split: "(R - ?p) * C + ?p * C = C * R" using p by (metis add_mult_distrib le_add_diff_inverse2 less_imp_le mult.commute)
  have eq: "scroll_cells t cs = drop (?p * C) cs @ replicate (?p * C) 32"
    using False len split unfolding scroll_cells_def Let_def t m cells_move_def cells_set_def
    by (simp add: min_def)
  show ?thesis unfolding eq cells_rel_def
  proof (intro conjI allI impI)
    show "length (drop (?p * C) cs @ replicate (?p * C) 32) = C * R" using len split by simp
    fix c r assume cr: "c < C" "r < R"
    have len2: "length (drop (?p * C) cs) = (R - ?p) * C" using len split by simp
    show "(drop (?p * C) cs @ replicate (?p * C) 32) ! (r * C + c) = fst (shift_up R ?p g c r)"
    proof (cases "r + ?p < R")
      case True
      then have "r * C + c < C * (R - ?p)" using cell_index(1) [OF cr(1), of r "R - ?p"] by simp
      then have "(drop (?p * C) cs @ replicate (?p * C) 32) ! (r * C + c) = cs ! (?p * C + (r * C + c))"
        using len2 len p by (simp add: nth_append mult.commute)
      also have "?p * C + (r * C + c) = (r + ?p) * C + c" by (simp add: algebra_simps)
      finally show ?thesis using True cs cr(1) by (simp add: cells_rel_def shift_up_def)
    next
      case False
      then have "(R - ?p) * C \<le> r * C" by (intro mult_le_mono1) simp
      then have "\<not> r * C + c < (R - ?p) * C" by linarith
      moreover have "r * C + c < (R - ?p) * C + ?p * C" using cell_index(1) [OF cr] split by simp
      ultimately show ?thesis using False len2 by (simp add: nth_append shift_up_def)
    qed
  qed
qed

lemma same_pixels_overlay:
  "same_pixels w h f f' \<Longrightarrow> same_pixels w h (overlay S col f) (overlay S col f')"
  "same_pixels w h f f' \<Longrightarrow> same_pixels w h (char_picture x y ch fg bg f) (char_picture x y ch fg bg f')"
  by (auto simp: same_pixels_def overlay_def char_picture_def)

lemma pic_rel_flush:
  assumes d: "dims w h C R" and rel: "pic_rel w h t g" and p: "unat (pendingScroll t) < 2 ^ 28"
  shows "pic_rel w h (flushScroll t) (if pendingScroll t = 0 then g else shift_up R (unat (pendingScroll t)) g)"
    "snd (drawn_by h (sent (flushScroll t))) = snd (drawn_by h (sent t))"
proof -
  obtain cs where cs: "t_cells t = Some cs" "cells_rel C R cs g" using rel d by (auto simp: pic_rel_def dims_def)
  have t: "t_cols t = w div 8" "t_rows t = h div 16" "t_bg t = 0" using rel by (simp_all add: pic_rel_def)
  let ?msg = "DisplayScroll (pendingScroll t * FONT_HEIGHT) 0"
  have n: "unat (pendingScroll t * FONT_HEIGHT) = 16 * unat (pendingScroll t)"
    using p unat_mult_small [of "pendingScroll t" 16] by (simp add: FONT_HEIGHT_def)
  have "pic_rel w h ((tell ?msg t)\<lparr>t_cells := Some (scroll_cells t cs)\<rparr>) (shift_up R (unat (pendingScroll t)) g)"
  proof (rule pic_rel_tell [OF rel d _ scroll_cells_rel [OF d t(1,2) cs(2)]])
    fix f
    assume f: "same_pixels w h f (render C R g)"
    have "scrolled (unat h) k 0 f px py = scrolled (unat h) k 0 (render C R g) px py" if "px < unat w" for px py k
      using f that by (simp add: scrolled_def same_pixels_def)
    then show "same_pixels w h (msg_picture (unat h) ?msg [] f) (render C R (shift_up R (unat (pendingScroll t)) g))"
      using render_scroll [of _ "unat h" "unat (pendingScroll t)" C g] d by (simp add: msg_picture_def n same_pixels_def dims_def)
  qed (simp add: msg_ok_def)
  then show "pic_rel w h (flushScroll t) (if pendingScroll t = 0 then g else shift_up R (unat (pendingScroll t)) g)"
    using rel cs(1) t(3) by (simp add: flushScroll_def word_gt_0 pic_rel_def)
  show "snd (drawn_by h (sent (flushScroll t))) = snd (drawn_by h (sent t))"
    by (simp add: flushScroll_def drawn_by_snoc msg_shown_def)
qed

text \<open>The screen of the specification is scrolled already.\<close>

definition term_rel :: "u32 \<Rightarrow> u32 \<Rightarrow> nat \<Rightarrow> nat \<Rightarrow> nat \<Rightarrow> terminal \<Rightarrow> char_screen \<Rightarrow> bool" where
  "term_rel w h C R n t s \<longleftrightarrow>
     (\<exists>g. pic_rel w h t g \<and> shift_up R 0 g = g \<and> grid s = shift_up R (unat (pendingScroll t)) g) \<and>
     unat (t_x t) = cs_x s \<and> unat (t_y t) = cs_y s \<and> unat (pendingScroll t) \<le> n \<and>
     same_pixels w h (snd (drawn_by h (sent t))) (render C R (on_screen s))"

definition in_grid :: "nat \<Rightarrow> nat \<Rightarrow> char_screen \<Rightarrow> bool" where
  "in_grid C R s \<longleftrightarrow> cs_x s < C \<and> cs_y s < R"

lemma shift_0_shift: "shift_up R 0 (shift_up R n g) = shift_up R n g"
  by (simp add: shift_shift)

lemma term_rel_flush:
  assumes "dims w h C R" "term_rel w h C R n t s" "n < 2 ^ 28"
  shows "term_rel w h C R 0 (flushScroll t) s" "pic_rel w h (flushScroll t) (grid s)" "shift_up R 0 (grid s) = grid s"
proof -
  obtain g where g: "pic_rel w h t g" "shift_up R 0 g = g" "grid s = shift_up R (unat (pendingScroll t)) g"
    using assms(2) by (auto simp: term_rel_def)
  have "unat (pendingScroll t) < 2 ^ 28" using assms(2,3) by (simp add: term_rel_def)
  note f = pic_rel_flush [OF assms(1) g(1) this]
  have "grid s = (if pendingScroll t = 0 then g else shift_up R (unat (pendingScroll t)) g)" using g by auto
  then show p: "pic_rel w h (flushScroll t) (grid s)" using f(1) by simp
  show z: "shift_up R 0 (grid s) = grid s" unfolding g(3) by (rule shift_0_shift)
  show "term_rel w h C R 0 (flushScroll t) s" using assms(2) p z f(2) by (auto simp: term_rel_def)
qed

lemma cells_of:
  assumes "dims w h C R" "pic_rel w h t g"
  obtains cs where "t_cells t = Some cs" "cells_rel C R cs g"
  using assms by (auto simp: pic_rel_def dims_def)

lemma pic_rel_cursor [simp]:
  "pic_rel w h (t\<lparr>t_x := x\<rparr>) = pic_rel w h t" "pic_rel w h (t\<lparr>t_y := y\<rparr>) = pic_rel w h t"
  "pic_rel w h (t\<lparr>pendingScroll := p\<rparr>) = pic_rel w h t"
  by (simp_all add: pic_rel_def fun_eq_iff)

text \<open>Drawing at the cursor.\<close>

lemma unat_byte_up [simp]: "unat (ucast x :: u32) = unat x" for x :: u8
proof -
  have "unat x < 256" using unsigned_less [of x, where 'a = nat] by simp
  then show ?thesis by (simp add: unsigned_ucast_eq take_bit_nat_eq_self_iff)
qed

lemma byte_up_down [simp]: "ucast (ucast x :: u32) = x" for x :: u8
proof -
  have "unat x < 256" using unsigned_less [of x, where 'a = nat] by simp
  then have "unat (ucast (ucast x :: u32) :: u8) = unat x" by (simp add: unsigned_ucast_eq [of "ucast x :: u32"] take_bit_nat_eq_self_iff)
  then show ?thesis by (simp add: word_unat_eq_iff)
qed

lemma cursor_small:
  assumes "dims w h C R" "term_rel w h C R n t s" "in_grid C R s"
  shows "unat (cur_col t) = cs_x s" "unat (cur_row t) = cs_y s" "unat (cur_col t) < C" "unat (cur_row t) < R"
  using assms by (simp_all add: term_rel_def in_grid_def)

lemma shift_0: "shift_up R 0 g = g \<longleftrightarrow> (\<forall>c r. R \<le> r \<longrightarrow> g c r = (32, False))"
proof -
  have "shift_up R 0 g c r = (if R \<le> r then (32, False) else g c r)" for c r by (simp add: shift_up_def)
  then show ?thesis unfolding fun_eq_iff by (metis (full_types))
qed

lemma put_cell_shift: "r < R \<Longrightarrow> shift_up R 0 g = g \<Longrightarrow> shift_up R 0 (put_cell c r v g) = put_cell c r v g"
  unfolding shift_0 by (auto simp: put_cell_def)

lemma tell_rel:
  assumes d: "dims w h C R" and rel: "term_rel w h C R n t s" and n: "n < 2 ^ 28" and cur: "cs_y s < R"
    and m: "msg_ok m []" "\<And>f g. msg_shown m f g = g"
    and cs: "\<And>cs. cells_rel C R cs (grid s) \<Longrightarrow> t_cells (flushScroll t) = Some cs \<Longrightarrow> cells_rel C R (upd cs) (put_cell (cs_x s) (cs_y s) v (grid s))"
    and pic: "\<And>f. same_pixels w h f (render C R (grid s)) \<Longrightarrow>
      same_pixels w h (msg_picture (unat h) m [] f) (render C R (put_cell (cs_x s) (cs_y s) v (grid s)))"
  shows "term_rel w h C R 0 ((tell m (flushScroll t))\<lparr>t_cells := map_option upd (t_cells (flushScroll t))\<rparr>) (at_cursor v s)"
proof -
  note f = term_rel_flush [OF d rel n]
  obtain cells where c: "t_cells (flushScroll t) = Some cells" "cells_rel C R cells (grid s)" by (rule cells_of [OF d f(2)])
  have "pic_rel w h ((tell m (flushScroll t))\<lparr>t_cells := Some (upd cells)\<rparr>) (put_cell (cs_x s) (cs_y s) v (grid s))"
    by (rule pic_rel_tell [OF f(2) d m(1) cs [OF c(2,1)] pic])
  moreover have "shift_up R 0 (put_cell (cs_x s) (cs_y s) v (grid s)) = put_cell (cs_x s) (cs_y s) v (grid s)"
    by (rule put_cell_shift [OF cur f(3)])
  ultimately show ?thesis
    using f(1) c m(2) unfolding term_rel_def at_cursor_def
    by (intro conjI exI [of _ "put_cell (cs_x s) (cs_y s) v (grid s)"]) (simp_all add: drawn_by_snoc)
qed

lemma flush_consts:
  assumes "dims w h C R" "term_rel w h C R n t s"
  shows "t_cols t = w div 8" "t_rows t = h div 16" "t_fg t = 0x00AAAAAA" "t_bg t = 0" "unat (t_cols t) = C" "unat (t_rows t) = R"
  using assms by (auto simp: term_rel_def pic_rel_def dims_def unat_div)

lemma drawGlyph_rel:
  assumes d: "dims w h C R" and rel: "term_rel w h C R n t s" and n: "n < 2 ^ 28" and cur: "in_grid C R s"
  shows "term_rel w h C R 0 (drawGlyph ch (cur_col t) (cur_row t) t) (at_cursor (ch, False) s)"
proof -
  note cc = cursor_small [OF d rel cur] and k = flush_consts [OF d rel]
  note u = unat_cell [OF d cc(3,4), unfolded cc(1,2)]
  let ?m = "DisplayDrawChar (cur_col t * FONT_WIDTH) (cur_row t * FONT_HEIGHT) (ucast ch) (t_fg t) (t_bg t)"
  let ?upd = "\<lambda>cs. cs[unat (cur_row t * t_cols t + cur_col t) := ch]"
  have fb: "(0x00AAAAAA, 0) = (if False then (0, 0x00AAAAAA) else (0x00AAAAAA :: color, 0 :: color))" by simp
  have xy: "cs_x s < C" "cs_y s < R" using cur by (simp_all add: in_grid_def)
  have "term_rel w h C R 0 ((tell ?m (flushScroll t))\<lparr>t_cells := map_option ?upd (t_cells (flushScroll t))\<rparr>) (at_cursor (ch, False) s)"
  proof (rule tell_rel [OF d rel n xy(2)])
    show "cells_rel C R (?upd cs) (put_cell (cs_x s) (cs_y s) (ch, False) (grid s))" if "cells_rel C R cs (grid s)" for cs
      using cells_put [OF that xy] by (simp only: k(1) u(1))
    show "same_pixels w h (msg_picture (unat h) ?m [] f) (render C R (put_cell (cs_x s) (cs_y s) (ch, False) (grid s)))"
      if "same_pixels w h f (render C R (grid s))" for f
      using same_pixels_overlay(2) [OF that, of "8 * cs_x s" "16 * cs_y s" ch "0xAAAAAA" 0] render_char [OF xy fb, of ch] u k
      by (simp add: msg_picture_def)
  qed (simp_all add: msg_ok_def msg_shown_def)
  moreover have "(tell ?m (flushScroll t))\<lparr>t_cells := map_option ?upd (t_cells (flushScroll t))\<rparr> = drawGlyph ch (cur_col t) (cur_row t) t"
    using cc(3,4) k by (simp add: drawGlyph_def setCellAt_def tell_def word_less_nat_alt split: option.splits)
  ultimately show ?thesis by simp
qed

lemma clearCell_rel:
  assumes d: "dims w h C R" and rel: "term_rel w h C R n t s" and n: "n < 2 ^ 28" and cur: "in_grid C R s"
  shows "term_rel w h C R 0 (clearCell (cur_col t) (cur_row t) t) (at_cursor (32, False) s)"
proof -
  note cc = cursor_small [OF d rel cur] and k = flush_consts [OF d rel]
  note u = unat_cell [OF d cc(3,4), unfolded cc(1,2)]
  let ?m = "DisplayFillRect (cur_col t * FONT_WIDTH) (cur_row t * FONT_HEIGHT) FONT_WIDTH FONT_HEIGHT (t_bg t)"
  let ?upd = "\<lambda>cs. cs[unat (cur_row t * t_cols t + cur_col t) := 32]"
  have xy: "cs_x s < C" "cs_y s < R" using cur by (simp_all add: in_grid_def)
  have "term_rel w h C R 0 ((tell ?m (flushScroll t))\<lparr>t_cells := map_option ?upd (t_cells (flushScroll t))\<rparr>) (at_cursor (32, False) s)"
  proof (rule tell_rel [OF d rel n xy(2)])
    show "cells_rel C R (?upd cs) (put_cell (cs_x s) (cs_y s) (32, False) (grid s))" if "cells_rel C R cs (grid s)" for cs
      using cells_put [OF that xy] by (simp only: k(1) u(1))
    show "same_pixels w h (msg_picture (unat h) ?m [] f) (render C R (put_cell (cs_x s) (cs_y s) (32, False) (grid s)))"
      if "same_pixels w h f (render C R (grid s))" for f
      using same_pixels_overlay(1) [OF that, of "rect (8 * cs_x s) (16 * cs_y s) 8 16" "\<lambda>_ _. 0"] render_blank [OF xy] u k
      by (simp add: msg_picture_def FONT_WIDTH_def FONT_HEIGHT_def)
    show "msg_ok ?m []" using u xy d by (simp add: msg_ok_def FONT_WIDTH_def FONT_HEIGHT_def dims_def)
  qed (simp_all add: msg_shown_def)
  moreover have "(tell ?m (flushScroll t))\<lparr>t_cells := map_option ?upd (t_cells (flushScroll t))\<rparr> = clearCell (cur_col t) (cur_row t) t"
    using cc(3,4) k by (simp add: clearCell_def setCellAt_def tell_def word_less_nat_alt split: option.splits)
  ultimately show ?thesis by simp
qed

lemma draw_cell_rel:
  assumes d: "dims w h C R" and rel: "term_rel w h C R n t s" and n: "n < 2 ^ 28" and cur: "in_grid C R s"
    and fb: "(fg, bg) = (if b then (0, 0x00AAAAAA) else (0x00AAAAAA, 0))"
  shows "term_rel w h C R 0 (draw_cell fg bg t) (invert_cursor b s)"
proof -
  note cc = cursor_small [OF d rel cur] and k = flush_consts [OF d rel]
  note u = unat_cell [OF d cc(3,4), unfolded cc(1,2)]
  have xy: "cs_x s < C" "cs_y s < R" using cur by (simp_all add: in_grid_def)
  note f = term_rel_flush [OF d rel n]
  obtain cs where c: "t_cells (flushScroll t) = Some cs" "cells_rel C R cs (grid s)" by (rule cells_of [OF d f(2)])
  let ?ch = "fst (grid s (cs_x s) (cs_y s))"
  have ch: "cellAt (cur_col t) (cur_row t) (flushScroll t) = ?ch"
    using c xy cc k u(1) by (simp add: cellAt_def cells_rel_def word_le_nat_alt)
  let ?m = "DisplayDrawChar (cur_col t * FONT_WIDTH) (cur_row t * FONT_HEIGHT) (ucast ?ch) fg bg"
  have "term_rel w h C R 0 ((tell ?m (flushScroll t))\<lparr>t_cells := map_option (\<lambda>cs. cs) (t_cells (flushScroll t))\<rparr>) (at_cursor (?ch, b) s)"
  proof (rule tell_rel [OF d rel n xy(2)])
    show "cells_rel C R cs (put_cell (cs_x s) (cs_y s) (?ch, b) (grid s))" if "cells_rel C R cs (grid s)" for cs
      by (rule cells_same [OF that])
    show "same_pixels w h (msg_picture (unat h) ?m [] f) (render C R (put_cell (cs_x s) (cs_y s) (?ch, b) (grid s)))"
      if "same_pixels w h f (render C R (grid s))" for f
      using same_pixels_overlay(2) [OF that, of "8 * cs_x s" "16 * cs_y s" ?ch fg bg] render_char [OF xy fb, of ?ch] u
      by (simp add: msg_picture_def)
  qed (simp_all add: msg_ok_def msg_shown_def)
  moreover have "(tell ?m (flushScroll t))\<lparr>t_cells := map_option (\<lambda>cs. cs) (t_cells (flushScroll t))\<rparr> = tell ?m (flushScroll t)"
    by (simp add: option.map_ident)
  ultimately show ?thesis using ch by (simp add: draw_cell_def Let_def invert_cursor_def)
qed

section \<open>Characters\<close>

lemma term_rel_mono: "term_rel w h C R n t s \<Longrightarrow> n \<le> k \<Longrightarrow> term_rel w h C R k t s"
  by (auto simp: term_rel_def)

lemma term_rel_move:
  assumes "term_rel w h C R n t s"
  shows "term_rel w h C R n (t\<lparr>t_x := x\<rparr>) (s\<lparr>cs_x := unat x\<rparr>)" "term_rel w h C R n (t\<lparr>t_y := y\<rparr>) (s\<lparr>cs_y := unat y\<rparr>)"
    "term_rel w h C R n (t\<lparr>t_y := y, t_x := x\<rparr>) (s\<lparr>cs_x := unat x, cs_y := unat y\<rparr>)"
  using assms by (simp_all add: term_rel_def)

lemma unat_inc: "unat x < 255 \<Longrightarrow> unat (x + 1) = unat x + 1" for x :: u8
  by (simp add: unat_word_ariths)

lemma unat_dec: "0 < unat x \<Longrightarrow> unat (x - 1) = unat x - 1" for x :: u8
proof -
  assume "0 < unat x"
  then have "1 \<le> x" by (simp add: word_le_nat_alt)
  then show ?thesis by (simp add: unat_sub)
qed

lemma unat_last:
  assumes "dims w h C R"
  shows "unat (ucast (w div 8 - 1) :: u8) = C - 1" "unat (ucast (h div 16 - 1) :: u8) = R - 1"
proof -
  have u: "unat (w div 8) = C" "unat (h div 16) = R" "0 < C" "C \<le> 248" "0 < R" "R < 256"
    using assms by (simp_all add: dims_def unat_div)
  then have "1 \<le> w div 8" "1 \<le> h div 16" by (simp_all add: word_le_nat_alt)
  then have "unat (w div 8 - 1) = C - 1" "unat (h div 16 - 1) = R - 1" using u by (simp_all add: unat_sub)
  then show "unat (ucast (w div 8 - 1) :: u8) = C - 1" "unat (ucast (h div 16 - 1) :: u8) = R - 1"
    using u by (simp_all add: unsigned_ucast_eq take_bit_nat_eq_self_iff)
qed

lemma term_wrap_rel:
  assumes d: "dims w h C R" and rel: "term_rel w h C R n t s" and n: "n < 2 ^ 28"
    and cur: "cs_x s \<le> C" "cs_y s \<le> R" "cs_x s = C \<longrightarrow> cs_y s < R"
  shows "term_rel w h C R (Suc n) (term_wrap t) (settle C R s) \<and> in_grid C R (settle C R s)"
proof -
  have lim: "0 < C" "C \<le> 248" "0 < R" "R < 256" using d by (simp_all add: dims_def)
  define t1 s1 where "t1 = (if cur_col t \<ge> t_cols t then t\<lparr>t_y := t_y t + 1, t_x := 0\<rparr> else t)"
    and "s1 = (if cs_x s = C then s\<lparr>cs_x := 0, cs_y := cs_y s + 1\<rparr> else s)"
  have xy: "unat (t_x t) = cs_x s" "unat (t_y t) = cs_y s" using rel by (simp_all add: term_rel_def)
  have col: "cur_col t \<ge> t_cols t \<longleftrightarrow> cs_x s = C"
    using flush_consts(5) [OF d rel] xy cur(1) by (auto simp: word_le_nat_alt)
  have rel1: "term_rel w h C R n t1 s1"
  proof (cases "cs_x s = C")
    case True
    then have "unat (t_y t + 1) = cs_y s + 1" using unat_inc [of "t_y t"] xy cur(3) lim by simp
    then show ?thesis using term_rel_move(3) [OF rel, where y = "t_y t + 1" and x = 0] True col by (simp add: t1_def s1_def)
  qed (use rel col in \<open>simp add: t1_def s1_def\<close>)
  have cur1: "cs_x s1 < C" "cs_y s1 \<le> R" using cur lim by (auto simp: s1_def)
  have xy1: "unat (t_y t1) = cs_y s1" using rel1 by (simp add: term_rel_def)
  note k = flush_consts [OF d rel1]
  have row: "cur_row t1 \<ge> t_rows t1 \<longleftrightarrow> cs_y s1 = R" using k(6) xy1 cur1(2) by (auto simp: word_le_nat_alt)
  have w: "term_wrap t = (if cs_y s1 = R then t1\<lparr>pendingScroll := pendingScroll t1 + (cur_row t1 - t_rows t1 + 1), t_y := ucast (t_rows t1 - 1)\<rparr> else t1)"
    using row unfolding term_wrap_def t1_def [symmetric] Let_def by simp
  have st: "settle C R s = (if cs_y s1 = R then s1\<lparr>cs_y := R - 1, grid := shift_up R 1 (grid s1)\<rparr> else s1)"
    by (simp add: settle_def s1_def)
  show ?thesis
  proof (cases "cs_y s1 = R")
    case True
    have "cur_row t1 = t_rows t1" using True xy1 k(6) by (simp add: word_unat_eq_iff)
    then have one: "cur_row t1 - t_rows t1 + 1 = 1" by simp
    obtain g where g: "pic_rel w h t1 g" "shift_up R 0 g = g" "grid s1 = shift_up R (unat (pendingScroll t1)) g"
      "unat (pendingScroll t1) \<le> n" using rel1 by (auto simp: term_rel_def)
    have p: "unat (pendingScroll t1 + 1) = unat (pendingScroll t1) + 1" using g(4) n by (simp add: unat_word_ariths)
    have "unat (ucast (t_rows t1 - 1) :: u8) = R - 1" using unat_last(2) [OF d] k(2) by simp
    moreover have "pic_rel w h (term_wrap t) g" using g(1) True by (simp add: w one pic_rel_def)
    moreover have "shift_up R 1 (grid s1) = shift_up R (unat (pendingScroll t1 + 1)) g" unfolding p g(3) shift_shift by simp
    ultimately show ?thesis using rel1 True g(2,4) p cur1 lim unfolding st w one
      by (auto simp: term_rel_def in_grid_def)
  next
    case False
    then show ?thesis using term_rel_mono [OF rel1, of "Suc n"] cur1 by (simp add: st w in_grid_def)
  qed
qed

lemma tab_stop:
  fixes x :: u8
  assumes "unat x < 248"
  shows "unat ((x + 8) AND NOT 7) = 8 * (unat x div 8 + 1)"
proof -
  have "unat (x + 8) = unat x + 8" using assms by (simp add: unat_word_ariths)
  moreover have "(7 :: u8) = mask 3" by (simp add: mask_eq_exp_minus_1)
  have "(x + 8) AND NOT (mask 3) = push_bit 3 (drop_bit 3 (x + 8))" by (rule bit_word_eqI) (auto simp: bit_simps)
  then have "(x + 8) AND NOT 7 = push_bit 3 (drop_bit 3 (x + 8))" by (simp only: \<open>7 = mask 3\<close>)
  then have "unat ((x + 8) AND NOT 7) = (8 * (unat (x + 8) div 8)) mod 256"
    by (simp only: unsigned_push_bit_eq unat_drop_bit_eq) (simp add: take_bit_eq_mod push_bit_eq_mult drop_bit_eq_div mult.commute)
  moreover have "(unat x + 8) div 8 = unat x div 8 + 1" by simp
  ultimately show ?thesis using assms by simp
qed

definition blank_to :: "nat \<Rightarrow> char_screen \<Rightarrow> char_screen" where
  "blank_to k s = s\<lparr>grid := (\<lambda>c r. if r = cs_y s \<and> cs_x s \<le> c \<and> c < k then (32, False) else grid s c r), cs_x := k\<rparr>"

lemma blank_to_step: "cs_x s < k \<Longrightarrow> blank_to k ((at_cursor (32, False) s)\<lparr>cs_x := cs_x s + 1\<rparr>) = blank_to k s"
  by (auto simp: blank_to_def at_cursor_def put_cell_def fun_eq_iff)

lemma tab_loop_rel:
  assumes d: "dims w h C R" and n: "n < 2 ^ 28"
  shows "term_rel w h C R n t s \<Longrightarrow> cs_x s \<le> unat stop \<Longrightarrow> unat stop \<le> C \<Longrightarrow> cs_y s < R \<Longrightarrow>
    term_rel w h C R n (tab_loop stop t) (blank_to (unat stop) s)"
proof (induction stop t arbitrary: s rule: tab_loop.induct)
  case (1 stop t)
  have x: "unat (t_x t) = cs_x s" using "1.prems"(1) by (simp add: term_rel_def)
  show ?case
  proof (cases "t_x t < stop")
    case True
    then have lt: "cs_x s < unat stop" using x by (simp add: word_less_nat_alt)
    have cell: "term_rel w h C R n (clearCell (cur_col t) (cur_row t) t) (at_cursor (32, False) s)"
      using "1.prems" lt by (intro term_rel_mono [OF clearCell_rel [OF d "1.prems"(1) n]]) (simp_all add: in_grid_def)
    have "unat (t_x t + 1) = cs_x s + 1" using unat_Suc_u8 [OF True] x by simp
    then have "term_rel w h C R n ((clearCell (cur_col t) (cur_row t) t)\<lparr>t_x := t_x t + 1\<rparr>) ((at_cursor (32, False) s)\<lparr>cs_x := cs_x s + 1\<rparr>)"
      using term_rel_move(1) [OF cell, of "t_x t + 1"] by simp
    from "1.IH" [OF True this] show ?thesis using "1.prems" lt True blank_to_step [OF lt]
      by (simp add: tab_loop.simps [of stop t] at_cursor_def)
  next
    case False
    then have "cs_x s = unat stop" using "1.prems"(2) x by (simp add: word_less_nat_alt)
    then have "blank_to (unat stop) s = s" by (cases s) (auto simp: blank_to_def fun_eq_iff)
    then show ?thesis using "1.prems"(1) False by (simp add: tab_loop.simps [of stop t])
  qed
qed

lemma term_tab_rel:
  assumes d: "dims w h C R" and rel: "term_rel w h C R n t s" and n: "n < 2 ^ 28" and cur: "in_grid C R s"
  shows "term_rel w h C R n (term_tab t) (spec_tab C s)"
proof -
  have lim: "C \<le> 248" using d by (simp add: dims_def)
  have x: "unat (t_x t) = cs_x s" using rel by (simp add: term_rel_def)
  then have "unat (t_x t) < 248" using cur lim by (simp add: in_grid_def)
  note st = tab_stop [OF this, unfolded x]
  have C: "unat (t_cols t) = C" by (rule flush_consts(5) [OF d rel])
  let ?stop = "(t_x t + 8) AND NOT 7"
  define stop where "stop = (if (ucast ?stop :: u32) \<ge> t_cols t then ucast (t_cols t) else ?stop)"
  have ge: "(ucast ?stop :: u32) \<ge> t_cols t \<longleftrightarrow> C \<le> 8 * (cs_x s div 8 + 1)"
    unfolding word_le_nat_alt unat_byte_up st C by simp
  have "unat (ucast (t_cols t) :: u8) = C" using C lim by (simp add: unsigned_ucast_eq take_bit_nat_eq_self_iff)
  then have u: "unat stop = min C (8 * (cs_x s div 8 + 1))" unfolding stop_def ge using st by (simp add: min_def)
  have "cs_x s \<le> unat stop" "unat stop \<le> C" "cs_y s < R" unfolding u using cur by (auto simp: in_grid_def)
  then have "term_rel w h C R n (tab_loop stop t) (blank_to (unat stop) s)" by (rule tab_loop_rel [OF d n rel])
  then show ?thesis unfolding term_tab_def Let_def stop_def [symmetric] spec_tab_def blank_to_def u .
qed

lemma at_cursor_fields [simp]:
  "cs_x (at_cursor v s) = cs_x s" "cs_y (at_cursor v s) = cs_y s" "on_screen (at_cursor v s) = on_screen s"
  by (simp_all add: at_cursor_def)

lemma spec_tab_fields [simp]: "cs_y (spec_tab C s) = cs_y s" "cs_x (spec_tab C s) = min C (8 * (cs_x s div 8 + 1))"
  by (simp_all add: spec_tab_def Let_def)

lemma step_back_rel:
  assumes d: "dims w h C R" and rel: "term_rel w h C R n t s" and cur: "in_grid C R s"
  defines "t' \<equiv> (if t_x t > 0 then t\<lparr>t_x := t_x t - 1\<rparr>
    else if t_y t > 0 then t\<lparr>t_y := t_y t - 1, t_x := ucast (t_cols t - 1)\<rparr> else t)"
  shows "term_rel w h C R n t' (step_back C s)" "in_grid C R (step_back C s)"
proof -
  have xy: "unat (t_x t) = cs_x s" "unat (t_y t) = cs_y s" using rel by (simp_all add: term_rel_def)
  have last: "unat (ucast (t_cols t - 1) :: u8) = C - 1" using unat_last(1) [OF d] flush_consts(1) [OF d rel] by simp
  have pos: "t_x t > 0 \<longleftrightarrow> cs_x s > 0" "t_y t > 0 \<longleftrightarrow> cs_y s > 0" using xy by (simp_all add: word_less_nat_alt)
  show "term_rel w h C R n t' (step_back C s)"
    using term_rel_move(1) [OF rel, of "t_x t - 1"] term_rel_move(3) [OF rel, where y = "t_y t - 1" and x = "ucast (t_cols t - 1)"]
      unat_dec [of "t_x t"] unat_dec [of "t_y t"] rel unfolding t'_def pos step_back_def last by (auto simp: xy)
  show "in_grid C R (step_back C s)" using cur by (auto simp: in_grid_def step_back_def)
qed

lemma putchar_rel:
  assumes d: "dims w h C R" and rel: "term_rel w h C R n t s" and n: "n < 2 ^ 28" and cur: "in_grid C R s"
  shows "term_rel w h C R (Suc n) (term_putchar ch t) (spec_char C R ch s) \<and> in_grid C R (spec_char C R ch s)"
proof -
  have lim: "0 < C" "C \<le> 248" "0 < R" "R < 256" using d by (simp_all add: dims_def)
  have xy: "unat (t_x t) = cs_x s" "unat (t_y t) = cs_y s" using rel by (simp_all add: term_rel_def)
  have k: "t_cols t \<noteq> 0" "t_rows t \<noteq> 0" using flush_consts(5,6) [OF d rel] lim by auto
  have c: "cs_x s < C" "cs_y s < R" using cur by (simp_all add: in_grid_def)
  define t' s' where "t' = (if ch = 10 then t\<lparr>t_y := t_y t + 1, t_x := 0\<rparr>
        else if ch = 8
        then (let t = (if t_x t > 0 then t\<lparr>t_x := t_x t - 1\<rparr>
                       else if t_y t > 0 then t\<lparr>t_y := t_y t - 1, t_x := ucast (t_cols t - 1)\<rparr> else t)
              in clearCell (cur_col t) (cur_row t) t)
        else if ch = 0x7F then clearCell (cur_col t) (cur_row t) t
        else if ch = 9 then term_tab t
        else (let t = drawGlyph ch (cur_col t) (cur_row t) t in t\<lparr>t_x := t_x t + 1\<rparr>))"
    and "s' = (if ch = 10 then s\<lparr>cs_x := 0, cs_y := cs_y s + 1\<rparr>
      else if ch = 8 then at_cursor (32, False) (step_back C s)
      else if ch = 0x7F then at_cursor (32, False) s
      else if ch = 9 then spec_tab C s
      else (at_cursor (ch, False) s)\<lparr>cs_x := cs_x s + 1\<rparr>)"
  have "term_rel w h C R n t' s' \<and> cs_x s' \<le> C \<and> cs_y s' \<le> R \<and> (cs_x s' = C \<longrightarrow> cs_y s' < R)"
  proof -
    consider "ch = 10" | "ch = 8" | "ch = 0x7F" | "ch = 9" | "ch \<notin> {10, 8, 0x7F, 9}" by auto
    then show ?thesis
    proof cases
      case 1
      have "unat (t_y t + 1) = cs_y s + 1" using unat_inc [of "t_y t"] xy c lim by simp
      then show ?thesis using term_rel_move(3) [OF rel, where y = "t_y t + 1" and x = 0] 1 c lim by (simp add: t'_def s'_def)
    next
      case 2
      note b = step_back_rel [OF d rel cur]
      show ?thesis using term_rel_mono [OF clearCell_rel [OF d b(1) n b(2)], of n] b(2) 2
        by (simp add: t'_def s'_def Let_def in_grid_def)
    next
      case 3
      then show ?thesis using term_rel_mono [OF clearCell_rel [OF d rel n cur], of n] c by (simp add: t'_def s'_def)
    next
      case 4
      then show ?thesis using term_tab_rel [OF d rel n cur] c by (simp add: t'_def s'_def)
    next
      case 5
      let ?t = "drawGlyph ch (cur_col t) (cur_row t) t"
      have g: "term_rel w h C R n ?t (at_cursor (ch, False) s)" using term_rel_mono [OF drawGlyph_rel [OF d rel n cur], of n] by simp
      have "unat (t_x ?t + 1) = cs_x s + 1" using g unat_inc [of "t_x ?t"] c lim by (simp add: term_rel_def)
      then show ?thesis using term_rel_move(1) [OF g, of "t_x ?t + 1"] 5 c by (simp add: t'_def s'_def Let_def)
    qed
  qed
  moreover have "term_putchar ch t = term_wrap t'" unfolding term_putchar_def t'_def using k by simp
  moreover have "spec_char C R ch s = settle C R s'" by (simp add: spec_char_def s'_def)
  ultimately show ?thesis using term_wrap_rel [OF d _ n, of t' s'] by simp
qed

section \<open>Requests\<close>

lemma puts_rel:
  assumes d: "dims w h C R"
  shows "term_rel w h C R n t s \<Longrightarrow> in_grid C R s \<Longrightarrow> n + length cs \<le> 2 ^ 28 \<Longrightarrow>
    term_rel w h C R (n + length cs) (fold term_putchar cs t) (fold (spec_char C R) cs s) \<and> in_grid C R (fold (spec_char C R) cs s)"
proof (induction cs arbitrary: n t s)
  case (Cons ch cs)
  then have "n < 2 ^ 28" by simp
  note p = putchar_rel [OF d Cons.prems(1) this Cons.prems(2), of ch]
  show ?case using Cons.IH [OF p [THEN conjunct1] p [THEN conjunct2]] Cons.prems(3) by simp
qed simp

lemma clear_rel:
  assumes d: "dims w h C R" and rel: "term_rel w h C R n t s"
  shows "term_rel w h C R 0 (term_clear t) (s\<lparr>grid := \<lambda>_ _. (32, False), cs_x := 0, cs_y := 0\<rparr>)"
proof -
  obtain g where g: "pic_rel w h t g" using rel by (auto simp: term_rel_def)
  obtain cs where c: "t_cells t = Some cs" "cells_rel C R cs g" by (rule cells_of [OF d g])
  note k = flush_consts [OF d rel]
  have lim: "C \<le> 248" "R < 256" using d by (simp_all add: dims_def)
  have u: "unat (t_cols t * FONT_WIDTH) = 8 * C" "unat (t_rows t * FONT_HEIGHT) = 16 * R"
    using lim k(5,6) unat_mult_small [of "t_cols t" 8] unat_mult_small [of "t_rows t" 16] by (simp_all add: FONT_WIDTH_def FONT_HEIGHT_def)
  have "C * R \<le> 248 * 256" using lim by (intro mult_le_mono) auto
  then have size: "unat (t_cols t * t_rows t) = C * R" using k(5,6) unat_mult_small [of "t_cols t" "t_rows t"] by simp
  let ?m = "DisplayFillRect 0 0 (t_cols t * FONT_WIDTH) (t_rows t * FONT_HEIGHT) (t_bg t)"
  let ?cs = "cells_set cs 0 32 (unat (t_cols t * t_rows t))"
  have "pic_rel w h ((tell ?m t)\<lparr>t_cells := Some ?cs\<rparr>) (\<lambda>_ _. (32, False))"
  proof (rule pic_rel_tell [OF g d])
    show "cells_rel C R ?cs (\<lambda>_ _. (32, False))"
      using c(2) unfolding size by (auto simp: cells_set_def cells_rel_def cell_index(1))
    show "same_pixels w h (msg_picture (unat h) ?m [] f) (render C R (\<lambda>_ _. (32, False)))" if "same_pixels w h f (render C R g)" for f
      using same_pixels_overlay(1) [OF that, of "rect 0 0 (8 * C) (16 * R)" "\<lambda>_ _. 0"] u k(4) render_clear by (simp add: msg_picture_def)
  qed (use u lim in \<open>simp add: msg_ok_def\<close>)
  then have "pic_rel w h (term_clear t) (\<lambda>_ _. (32, False))" using c(1) k(1,2,4) by (simp add: term_clear_def pic_rel_def)
  then show ?thesis using rel
    by (auto simp: term_rel_def term_clear_def drawn_by_snoc msg_shown_def shift_0 fun_eq_iff shift_up_def intro!: exI [of _ "\<lambda>_ _. (32, False)"])
qed

lemma invert_cursor_fields [simp]:
  "cs_x (invert_cursor b s) = cs_x s" "cs_y (invert_cursor b s) = cs_y s" "in_grid C R (invert_cursor b s) = in_grid C R s"
  "in_grid C R (show_screen s) = in_grid C R s"
  by (simp_all add: invert_cursor_def in_grid_def show_screen_def)

text \<open>A flush shows the grid; the scroll is done by then.\<close>

lemma show_rel:
  assumes d: "dims w h C R" and rel: "term_rel w h C R 0 t s"
  shows "term_rel w h C R 0 (tell DisplayFlush t) (show_screen s)"
proof -
  obtain g where g: "pic_rel w h t g" "shift_up R 0 g = g" "grid s = shift_up R 0 g" "unat (pendingScroll t) = 0"
    using rel by (auto simp: term_rel_def)
  then have "pic_rel w h (tell DisplayFlush t) g" by (simp add: pic_rel_def drawn_by_snoc msg_picture_def msg_ok_def)
  moreover have "same_pixels w h (fst (drawn_by h (sent t))) (render C R g)" using g(1) d by (simp add: pic_rel_def dims_def)
  ultimately show ?thesis using rel g by (auto simp: term_rel_def show_screen_def drawn_by_snoc msg_shown_def)
qed

lemma cursor_rel:
  assumes d: "dims w h C R" and rel: "term_rel w h C R n t s" and n: "n < 2 ^ 28" and cur: "in_grid C R s"
  shows "term_rel w h C R 0 (drawCursor t) (invert_cursor True s)" "term_rel w h C R 0 (eraseCursor t) (invert_cursor False s)"
  unfolding drawCursor_def eraseCursor_def using flush_consts(3,4) [OF d rel]
  by (auto intro!: draw_cell_rel [OF d rel n cur])

text \<open>What a client must see to: cursors inside the grid, at most 256 bytes in the buffer.\<close>

definition request_in_grid :: "nat \<Rightarrow> nat \<Rightarrow> term_msg \<Rightarrow> bool" where
  "request_in_grid C R msg \<longleftrightarrow>
     (case msg of
        TerminalWrite len dataBuf \<Rightarrow> length dataBuf = 256
      | TerminalSetCursor c r \<Rightarrow> unat (ucast c :: u8) < C \<and> unat (ucast r :: u8) < R
      | _ \<Rightarrow> True)"

text \<open>Scrolls that are not drawn yet add up; fewer than a million requests come between two flushes.\<close>

definition lines_after :: "nat \<Rightarrow> term_msg \<Rightarrow> nat" where
  "lines_after n msg = (case msg of TerminalClear \<Rightarrow> 0 | TerminalFlush \<Rightarrow> 0 | _ \<Rightarrow> n + 256)"

fun paced :: "nat \<Rightarrow> (term_msg \<times> i32) list \<Rightarrow> bool" where
  "paced n [] = True"
| "paced n ((msg, sender) # rs) = (n + 256 \<le> 2 ^ 28 \<and> paced (lines_after n msg) rs)"

lemma handle_rel:
  assumes d: "dims w h C R" and rel: "term_rel w h C R n t s" and cur: "in_grid C R s"
    and n: "n + 256 \<le> 2 ^ 28" and msg: "request_in_grid C R msg"
  shows "term_rel w h C R (lines_after n msg) (term_handle msg t) (spec_term C R msg s) \<and> in_grid C R (spec_term C R msg s)"
proof -
  have n': "n < 2 ^ 28" and lim: "0 < C" "0 < R" using n d by (simp_all add: dims_def)
  show ?thesis
  proof (cases msg)
    case (TerminalPutchar c)
    then show ?thesis using putchar_rel [OF d rel n' cur, of "ucast c"] term_rel_mono [of w h C R "Suc n" _ _ "n + 256"]
      by (simp add: term_handle_def spec_term_def lines_after_def)
  next
    case (TerminalWrite len buf)
    then have len: "length buf = 256" using msg by (simp add: request_in_grid_def)
    let ?k = "if len > 256 then 256 else len"
    have k: "unat ?k \<le> 256" by (simp add: word_le_nat_alt not_less)
    have "map (\<lambda>i. buf ! i) [0..<unat ?k] = take (unat ?k) buf" using k len by (intro nth_equalityI) auto
    then have f: "fold (\<lambda>i. term_putchar (buf ! i)) [0..<unat ?k] t = fold term_putchar (take (unat ?k) buf) t"
      using fold_map [of term_putchar "\<lambda>i. buf ! i" "[0..<unat ?k]"] by (simp add: comp_def)
    have tk: "take (unat ?k) buf = take (unat len) buf" using len by (simp add: word_less_nat_alt)
    have "n + length (take (unat len) buf) \<le> 2 ^ 28" using n len by simp
    note p = puts_rel [OF d rel cur this]
    then show ?thesis using TerminalWrite f tk term_rel_mono [OF p [THEN conjunct1], of "n + 256"] len
      by (simp add: term_handle_def spec_term_def lines_after_def)
  next
    case TerminalClear
    then show ?thesis using clear_rel [OF d rel] lim by (simp add: term_handle_def spec_term_def lines_after_def in_grid_def)
  next
    case (TerminalSetCursor c r)
    then have "term_setCursor (ucast c) (ucast r) t = t\<lparr>t_y := ucast r, t_x := ucast c\<rparr>" by (simp add: term_setCursor_def)
    then show ?thesis using TerminalSetCursor msg term_rel_move(3) [OF term_rel_mono [OF rel, of "n + 256"], where x = "ucast c" and y = "ucast r"]
      by (simp add: term_handle_def spec_term_def lines_after_def in_grid_def request_in_grid_def)
  next
    case TerminalFlush
    note c1 = cursor_rel(1) [OF d rel n' cur]
    note c2 = show_rel [OF d c1]
    have "term_rel w h C R 0 (eraseCursor (tell DisplayFlush (drawCursor t))) (invert_cursor False (show_screen (invert_cursor True s)))"
      by (rule cursor_rel(2) [OF d c2]) (use cur in simp_all)
    then show ?thesis using TerminalFlush cur by (simp add: term_handle_def spec_term_def lines_after_def)
  qed (use term_rel_mono [OF rel, of "n + 256"] cur in \<open>simp_all add: term_handle_def spec_term_def lines_after_def\<close>)
qed

definition reply_nat :: "u32 \<times> u32 \<times> u32 \<Rightarrow> u32 \<times> nat \<times> nat" where
  "reply_nat r = (case r of (p, x, y) \<Rightarrow> (p, unat x, unat y))"

lemma run_rel:
  assumes d: "dims w h C R"
  shows "term_rel w h C R n t s \<Longrightarrow> in_grid C R s \<Longrightarrow> paced n rs \<Longrightarrow> \<forall>(msg, sender) \<in> set rs. request_in_grid C R msg \<Longrightarrow>
    \<exists>outs t' s' k. term_run rs t = (outs, t') \<and> spec_terms C R rs s = (map reply_nat outs, s') \<and> term_rel w h C R k t' s'"
proof (induction rs arbitrary: n t s)
  case (Cons r rs)
  obtain msg sender where r: "r = (msg, sender)" by (cases r)
  have p: "n + 256 \<le> 2 ^ 28" "paced (lines_after n msg) rs" "request_in_grid C R msg" using Cons.prems r by simp_all
  note h = handle_rel [OF d Cons.prems(1,2) p(1,3)]
  obtain outs t' s' k where i: "term_run rs (term_handle msg t) = (outs, t')"
    "spec_terms C R rs (spec_term C R msg s) = (map reply_nat outs, s')" "term_rel w h C R k t' s'"
    using Cons.IH [OF h [THEN conjunct1] h [THEN conjunct2] p(2)] Cons.prems(4) by auto
  have "unat (t_x (term_handle msg t)) = cs_x (spec_term C R msg s)" "unat (t_y (term_handle msg t)) = cs_y (spec_term C R msg s)"
    using h by (simp_all add: term_rel_def)
  then show ?case using i r by (auto simp: term_step_def Let_def reply_nat_def)
qed (auto simp: reply_nat_def)

lemma dims_screen:
  assumes "8 \<le> unat w" "unat w < 1992" "16 \<le> unat h" "unat h < 4096"
  shows "dims w h (unat w div 8) (unat h div 16)"
  using assms by (auto simp: dims_def)

lemma length_welcome: "length welcome_text = 40"
  by (simp add: welcome_text_def)

lemma start_rel:
  assumes d: "dims w h C R"
  shows "term_rel w h C R 0 (term_start w h) (spec_begin C R)" "in_grid C R (spec_begin C R)"
proof -
  let ?s = "\<lparr>cs_x = 0, cs_y = 0, grid = \<lambda>_ _. (32, False), on_screen = \<lambda>_ _. (32, False)\<rparr>"
  have lim: "0 < C" "0 < R" "C \<le> 248" "R < 256" "unat (w div 8) = C" "unat (h div 16) = R" using d by (simp_all add: dims_def unat_div)
  have "C * R \<le> 248 * 256" using lim by (intro mult_le_mono) auto
  then have size: "unat (w div 8 * (h div 16)) = C * R" using lim unat_mult_small [of "w div 8" "h div 16"] by simp
  then have pos: "0 < w div 8 * (h div 16)" using lim by (simp add: word_less_nat_alt)
  have blank: "render C R (\<lambda>_ _. (32, False)) px py = 0" for px py using blank_glyph by (simp add: render_def)
  have r0: "term_rel w h C R 0 (terminal_new w h) ?s"
    using d pos size blank cell_index(1)
    by (auto simp: term_rel_def terminal_new_def pic_rel_def dims_def cells_rel_def drawn_by_def notices_def same_pixels_def
        FONT_WIDTH_def FONT_HEIGHT_def Let_def shift_up_def fun_eq_iff intro!: exI [of _ "\<lambda>_ _. (32, False)"])
  have "in_grid C R ?s" using lim by (simp add: in_grid_def)
  note p = puts_rel [OF d r0 this, of welcome_text]
  have p1: "term_rel w h C R 40 (fold term_putchar welcome_text (terminal_new w h)) (fold (spec_char C R) welcome_text ?s)"
    "in_grid C R (fold (spec_char C R) welcome_text ?s)" using p by (simp_all add: length_welcome)
  note c = cursor_rel(1) [OF d p1(1) _ p1(2)]
  show "term_rel w h C R 0 (term_start w h) (spec_begin C R)"
    unfolding term_start_def spec_begin_def by (rule show_rel [OF d c]) simp
  show "in_grid C R (spec_begin C R)" unfolding spec_begin_def using p1(2) by simp
qed

section \<open>The terminal on the screen\<close>


definition demo_terms :: "(term_msg \<times> i32) list" where
  "demo_terms = [(TerminalClear, 0), (TerminalPutchar 65, 0), (TerminalFlush, 5)]"


end
