(* ===== verification/Shell.thy ===== *)
theory Shell
  imports Terminal Nameserver Fmt Fat_Write
begin

text \<open>
  The shell, userspace/core/shell, with the clients of the terminal (libs/terminal) and of the
  file system (libs/vfs).  A message to the terminal or to the file system is handled by the
  modelled service before the shell goes on: a client's notifications and sends arrive in the
  order in which it makes them.  What the kernel replies to a command is an argument.  No result
  stands for a call that does not return.
\<close>

unbundle bit_operations_syntax

section \<open>State and clients\<close>

definition SHELL_MAX_INPUT :: u8 where "SHELL_MAX_INPUT = 78"
definition SHELL_MAX_ARGS :: nat where "SHELL_MAX_ARGS = 16"
definition SHELL_MAX_PATH :: nat where "SHELL_MAX_PATH = 64"

record shell =
  sh_buffer :: chars
  sh_length :: u8
  sh_cursor :: u8
  promptCol :: u8
  promptRow :: u8
  cwd :: chars
  sh_term :: terminal
  sh_vfs :: fs

text \<open>What the kernel and the name server reply during a command.\<close>

record os_replies =
  os_memInfo :: "u32 \<times> u32 \<times> u32"
  os_procList :: "(u32 \<times> u32 \<times> u32) list"
  os_names :: "(sview \<times> u32) list"
  os_uptime :: i32
  os_heap :: bool
  os_exec :: "u8 list \<Rightarrow> u32"

definition str :: "string \<Rightarrow> sview" where
  "str s = map of_char s"

definition term_send :: "term_msg \<Rightarrow> shell \<Rightarrow> shell" where
  "term_send msg s = s\<lparr>sh_term := term_handle msg (sh_term s)\<rparr>"

text \<open>The service receives at most 256 bytes of a text.\<close>

definition term_write :: "sview \<Rightarrow> shell \<Rightarrow> shell" where
  "term_write w s = term_send (TerminalWrite (of_nat (length w)) (take 256 (w @ replicate 256 0))) s"

definition sh_print :: "string \<Rightarrow> shell \<Rightarrow> shell" where
  "sh_print s = term_write (str s)"

definition sh_putchar :: "u8 \<Rightarrow> shell \<Rightarrow> shell" where
  "sh_putchar ch = term_send (TerminalPutchar (ucast ch))"

definition sh_setCursor :: "u8 \<Rightarrow> u8 \<Rightarrow> shell \<Rightarrow> shell" where
  "sh_setCursor col row = term_send (TerminalSetCursor (ucast col) (ucast row))"

definition sh_flush :: "shell \<Rightarrow> shell" where
  "sh_flush = term_send TerminalFlush"

text \<open>A call of the file system; the bytes of its buffer behind the message are not read.\<close>

definition vfs_send :: "vfs_request \<Rightarrow> u8 list \<Rightarrow> shell \<Rightarrow> (u32 \<times> u8 list \<times> shell) option" where
  "vfs_send req data s =
     (case vfs_handle req (data @ replicate (unat BUF_SIZE - length data) 0) (sh_vfs s) of
        None \<Rightarrow> None | Some (a, out, v) \<Rightarrow> Some (a, out, s\<lparr>sh_vfs := v\<rparr>))"

definition vfs_path_call :: "vfs_request \<Rightarrow> sview \<Rightarrow> shell \<Rightarrow> (u32 \<times> shell) option" where
  "vfs_path_call req path s = (case vfs_send req (path @ [0]) s of None \<Rightarrow> None | Some (a, out, s) \<Rightarrow> Some (a, s))"

definition vfs_mkdir :: "sview \<Rightarrow> shell \<Rightarrow> (u32 \<times> shell) option" where "vfs_mkdir = vfs_path_call VfsMkdir"
definition vfs_remove :: "sview \<Rightarrow> shell \<Rightarrow> (u32 \<times> shell) option" where "vfs_remove = vfs_path_call VfsRemove"
definition vfs_stat :: "sview \<Rightarrow> shell \<Rightarrow> (u32 \<times> shell) option" where "vfs_stat = vfs_path_call VfsStat"

definition vfs_open :: "sview \<Rightarrow> bool \<Rightarrow> shell \<Rightarrow> (u32 \<times> shell) option" where
  "vfs_open path create = vfs_path_call (VfsOpen (if create then 1 else 0)) path"

text \<open>The result and the buffer, zero behind what was read.\<close>

definition vfs_read :: "u32 \<Rightarrow> u32 \<Rightarrow> u32 \<Rightarrow> shell \<Rightarrow> (i32 \<times> u8 list \<times> shell) option" where
  "vfs_read handle offset len s =
     (let zeros = replicate (unat len) 0 in
      case vfs_send (VfsRead handle offset len) zeros s of None \<Rightarrow> None
      | Some (a, out, s) \<Rightarrow> Some (a, buf_put zeros 0 (take (unat len) out), s))"

definition vfs_write :: "u32 \<Rightarrow> u8 list \<Rightarrow> shell \<Rightarrow> (u32 \<times> shell) option" where
  "vfs_write handle data s =
     (case vfs_send (VfsWrite handle (of_nat (length data))) data s of None \<Rightarrow> None | Some (a, out, s) \<Rightarrow> Some (a, s))"

definition vfs_list :: "sview \<Rightarrow> u32 \<Rightarrow> nat \<Rightarrow> shell \<Rightarrow> (sview option \<times> shell) option" where
  "vfs_list path index nameMax s =
     (let buf = take 64 (path @ [0]); buf = buf @ replicate (65 - length buf) 0 in
      case vfs_send (VfsList index) buf s of None \<Rightarrow> None
      | Some (a, out, s) \<Rightarrow>
          Some (if a = 0 then None else Some (takeWhile (\<lambda>c. c \<noteq> 0) (take (nameMax - 1) (buf_put buf 0 (take 65 out)))), s))"

section \<open>Prompt and redrawing\<close>

definition printPrompt :: "shell \<Rightarrow> shell" where
  "printPrompt s = (let s = sh_flush (sh_print ''$ '' s); s = term_send TerminalGetCursor s in
     s\<lparr>promptCol := t_x (sh_term s), promptRow := t_y (sh_term s)\<rparr>)"

definition redrawLine :: "shell \<Rightarrow> shell" where
  "redrawLine s =
     (let s = sh_setCursor (promptCol s) (promptRow s) s;
          s = (if sh_length s > 0 then term_write (map (sh_buffer s) [0..<unat (sh_length s)]) s else s);
          s = sh_putchar 32 s;
          s = sh_setCursor (promptCol s + sh_cursor s) (promptRow s) s
      in sh_flush s)"

section \<open>Words and paths\<close>

definition parse_step :: "nat \<Rightarrow> nat \<Rightarrow> chars \<times> nat list \<times> bool \<Rightarrow> chars \<times> nat list \<times> bool" where
  "parse_step maxArgs i st = (case st of (buf, args, in_word) \<Rightarrow>
     (if buf i = 32 \<or> buf i = 0 then (buf(i := 0), args, False)
      else if \<not> in_word then (buf, if length args < maxArgs then args @ [i] else args, True)
      else st))"

text \<open>The arguments are pointers into the buffer, given by their offsets.\<close>

definition parseArgs :: "chars \<Rightarrow> nat \<Rightarrow> nat \<Rightarrow> chars \<times> nat list" where
  "parseArgs buf len maxArgs =
     (case fold (parse_step maxArgs) [0..<Suc len] (buf, [], False) of (buf, args, in_word) \<Rightarrow> (buf, args))"

text \<open>The C string at an offset of a buffer of \<open>n\<close> bytes.\<close>

definition cstr_at :: "chars \<Rightarrow> nat \<Rightarrow> nat \<Rightarrow> sview" where
  "cstr_at buf n i = takeWhile (\<lambda>c. c \<noteq> 0) (map buf [i..<n])"

definition put_path :: "nat \<Rightarrow> u8 \<Rightarrow> chars \<times> nat \<Rightarrow> chars \<times> nat" where
  "put_path maxLen c op = (case op of (out, pos) \<Rightarrow> if pos < maxLen - 1 then (out(pos := c), pos + 1) else (out, pos))"

definition sv_at :: "sview \<Rightarrow> nat \<Rightarrow> u8" where
  "sv_at s i = (if i < length s then s ! i else 0)"

definition sh_resolvePath :: "sview \<Rightarrow> sview \<Rightarrow> nat \<Rightarrow> chars \<Rightarrow> chars" where
  "sh_resolvePath cwdPath inp maxLen out =
     (if sv_at inp 0 = 47 then sv_copyTo inp maxLen out
      else (let op = fold (put_path maxLen) cwdPath (out, 0);
                op = (if length cwdPath > 1 then put_path maxLen 47 op else op);
                (out, pos) = fold (put_path maxLen) inp op
            in out(pos := 0)))"

function sh_last_slash :: "chars \<Rightarrow> nat \<Rightarrow> nat" where
  "sh_last_slash path k = (if k > 0 \<and> path k \<noteq> 47 then sh_last_slash path (k - 1) else k)"
  by pat_completeness auto
termination by (relation "measure snd") auto

declare sh_last_slash.simps [simp del]

definition parentDir :: "nat \<Rightarrow> chars \<Rightarrow> chars" where
  "parentDir n path =
     (let sv = chars_string n path in
      if length sv \<le> 1 then path
      else (let k = sh_last_slash path (length sv - 1) in if k = 0 then path(1 := 0) else path(k := 0)))"

definition sh_cwd :: "shell \<Rightarrow> sview" where
  "sh_cwd s = chars_string SHELL_MAX_PATH (cwd s)"

definition path_arg :: "sview \<Rightarrow> shell \<Rightarrow> sview" where
  "path_arg arg s = chars_string SHELL_MAX_PATH (sh_resolvePath (sh_cwd s) arg SHELL_MAX_PATH (\<lambda>_. 0))"

section \<open>Commands\<close>

definition sh_line :: "string \<Rightarrow> sview \<Rightarrow> shell \<Rightarrow> shell" where
  "sh_line msg arg s = sh_putchar 10 (term_write arg (sh_print msg s))"

definition newline :: string where "newline = [CHR 0x0A]"

definition help_lines :: "string list" where
  "help_lines =
    [''Available commands:'', ''  help        - Show this help'', ''  clear       - Clear the screen'',
     ''  echo        - Print text'', ''  mem         - Show memory statistics'', ''  ps          - List running processes'',
     ''  uptime      - Show time since boot'', ''  reboot      - Reboot the system'', ''  shutdown    - Halt the system'',
     ''  ls          - List directory'', ''  cd          - Change directory'', ''  pwd         - Print working directory'',
     ''  mkdir       - Create directory'', ''  rmdir       - Remove directory'', ''  touch       - Create empty file'',
     ''  rm          - Remove file'', ''  cat         - Print file contents'', ''  write       - Write text to file'',
     ''  exec        - Execute a program'']"

definition cmdHelp :: "shell \<Rightarrow> shell" where
  "cmdHelp = fold (\<lambda>l. sh_print (l @ newline)) help_lines"

definition cmdClear :: "shell \<Rightarrow> shell" where
  "cmdClear s = sh_flush (term_send TerminalClear s)"

definition cmdEcho :: "sview list \<Rightarrow> shell \<Rightarrow> shell" where
  "cmdEcho args s =
     sh_putchar 10 (fold (\<lambda>i s. term_write (args ! i) (if i > 1 then sh_putchar 32 s else s)) [1..<length args] s)"

text \<open>A line of output through the formatter and a buffer of \<open>n\<close> bytes.\<close>

definition print_format :: "u32 \<Rightarrow> string \<Rightarrow> arg list \<Rightarrow> shell \<Rightarrow> shell" where
  "print_format n f args = term_write (chars_string (unat n) (snd (format (\<lambda>_. 0) n (str f) args)))"

definition cmdMem :: "os_replies \<Rightarrow> shell \<Rightarrow> shell" where
  "cmdMem r s = (case os_memInfo r of (tot, used, fr) \<Rightarrow>
     print_format 48 (''  Free:  {} KiB ({} frames)'' @ newline) [ArgU32 (fr * 4), ArgU32 fr]
      (print_format 48 (''  Used:  {} KiB ({} frames)'' @ newline) [ArgU32 (used * 4), ArgU32 used]
       (print_format 48 (''  Total: {} KiB ({} frames)'' @ newline) [ArgU32 (tot * 4), ArgU32 tot]
        (sh_print (''Physical memory:'' @ newline) s))))"

definition stateStr :: "u32 \<Rightarrow> string" where
  "stateStr state =
     (if state = 1 then ''Ready'' else if state = 2 then ''Running'' else if state = 3 then ''SendBlocked''
      else if state = 4 then ''ReceiveBlocked'' else if state = 5 then ''WaitBlocked'' else ''Unknown'')"

definition cmdPs :: "os_replies \<Rightarrow> shell \<Rightarrow> shell" where
  "cmdPs r s =
     (let procs = take 16 (os_procList r); names = take 16 (os_names r) in
      fold (\<lambda>(p, state, heapSize).
          let name = (case List.find (\<lambda>(n, q). q = p) names of Some (n, q) \<Rightarrow> n | None \<Rightarrow> str ''<unknown>'') in
          print_format 64 (''{:3}  {:<9}  {:<14}  {} KB'' @ newline)
            [ArgU32 p, ArgStr (Some name), ArgStr (Some (str (stateStr state))), ArgU32 (heapSize div 1024)])
        procs (sh_print (''PID  NAME       STATE           HEAP'' @ newline) s))"

definition TICK_FREQUENCY :: u32 where "TICK_FREQUENCY = 1000"

definition cmdUptime :: "os_replies \<Rightarrow> shell \<Rightarrow> shell" where
  "cmdUptime r s =
     (let ticks_ms = (ucast (os_uptime r) * 1000) div TICK_FREQUENCY; seconds = ticks_ms div 1000; ms = ticks_ms mod 1000
      in print_format 32 (''Up {}.{:03}s'' @ newline) [ArgU32 seconds, ArgU32 ms] s)"

definition cmdMkdir :: "sview list \<Rightarrow> shell \<Rightarrow> shell option" where
  "cmdMkdir args s =
     (if length args < 2 then Some (sh_print (''mkdir: usage: mkdir <path>'' @ newline) s)
      else do { (result, s) \<leftarrow> vfs_mkdir (path_arg (args ! 1) s) s;
                Some (if result \<noteq> 0 then sh_line ''mkdir: cannot create directory: '' (args ! 1) s else s) })"

definition cmdRmdir :: "sview list \<Rightarrow> shell \<Rightarrow> shell option" where
  "cmdRmdir args s =
     (if length args < 2 then Some (sh_print (''rmdir: usage: rmdir <path>'' @ newline) s)
      else do { (result, s) \<leftarrow> vfs_remove (path_arg (args ! 1) s) s;
                Some (if result \<noteq> 0 then sh_line ''rmdir: cannot remove: '' (args ! 1) s else s) })"

definition cmdTouch :: "sview list \<Rightarrow> shell \<Rightarrow> shell option" where
  "cmdTouch args s =
     (if length args < 2 then Some (sh_print (''touch: usage: touch <path>'' @ newline) s)
      else do { (handle, s) \<leftarrow> vfs_open (path_arg (args ! 1) s) True s;
                Some (if handle = 0 then sh_line ''touch: cannot create file: '' (args ! 1) s else s) })"

definition cmdRm :: "sview list \<Rightarrow> shell \<Rightarrow> shell option" where
  "cmdRm args s =
     (if length args < 2 then Some (sh_print (''rm: usage: rm <path>'' @ newline) s)
      else do { (result, s) \<leftarrow> vfs_remove (path_arg (args ! 1) s) s;
                Some (if result \<noteq> 0 then sh_line ''rm: cannot remove: '' (args ! 1) s else s) })"

text \<open>The loop of \<^verbatim>\<open>cat\<close> ends when the file system has nothing more to give.\<close>

partial_function (option) cat_loop :: "u32 \<Rightarrow> u32 \<Rightarrow> shell \<Rightarrow> shell option" where
  "cat_loop handle offset s =
     do { (n, buf, s) \<leftarrow> vfs_read handle offset 256 s;
          if n <=s 0 then Some s
          else cat_loop handle (offset + n) (term_write (take (unat n) buf) s) }"

definition cmdCat :: "sview list \<Rightarrow> shell \<Rightarrow> shell option" where
  "cmdCat args s =
     (if length args < 2 then Some (sh_print (''cat: usage: cat <filename>'' @ newline) s)
      else do { (handle, s) \<leftarrow> vfs_open (path_arg (args ! 1) s) False s;
                if handle = 0 then Some (sh_line ''cat: no such file: '' (args ! 1) s)
                else do { s \<leftarrow> cat_loop handle 0 s; Some (sh_putchar 10 s) } })"

text \<open>The text of \<^verbatim>\<open>write\<close>: the words after the second with blanks between, in 64 bytes.\<close>

definition write_text :: "sview list \<Rightarrow> u8 list" where
  "write_text args =
     fold (\<lambda>i t. if length t < 64
                  then (let t = (if i > 2 then t @ [32] else t) in t @ take (64 - length t) (args ! i)) else t)
       [2..<length args] []"

definition cmdWrite :: "sview list \<Rightarrow> shell \<Rightarrow> shell option" where
  "cmdWrite args s =
     (if length args < 3 then Some (sh_print (''write: usage: write <filename> <text>'' @ newline) s)
      else do { (handle, s) \<leftarrow> vfs_open (path_arg (args ! 1) s) True s;
                if handle = 0 then Some (sh_line ''write: cannot create file: '' (args ! 1) s)
                else do { (result, s) \<leftarrow> vfs_write handle (write_text args) s; Some s } })"

partial_function (option) ls_loop :: "sview \<Rightarrow> u32 \<Rightarrow> shell \<Rightarrow> shell option" where
  "ls_loop path i s =
     do { (name, s) \<leftarrow> vfs_list path i 32 s;
          (case name of None \<Rightarrow> Some s | Some n \<Rightarrow> ls_loop path (i + 1) (sh_putchar 10 (term_write n s))) }"

definition cmdLs :: "sview list \<Rightarrow> shell \<Rightarrow> shell option" where
  "cmdLs args s =
     (let path = (if length args > 1 then path_arg (args ! 1) s else sh_cwd s) in
      do { (kind, s) \<leftarrow> vfs_stat path s;
           if kind \<noteq> 2 then Some (sh_line ''ls: no such directory: '' path s) else ls_loop path 0 s })"

definition cmdCd :: "sview list \<Rightarrow> shell \<Rightarrow> shell option" where
  "cmdCd args s =
     (if length args < 2 then Some (s\<lparr>cwd := (cwd s)(0 := 47, 1 := 0)\<rparr>)
      else if sv_eq (args ! 1) (str ''..'') then Some (s\<lparr>cwd := parentDir SHELL_MAX_PATH (cwd s)\<rparr>)
      else (let path = path_arg (args ! 1) s in
            do { (kind, s) \<leftarrow> vfs_stat path s;
                 Some (if kind \<noteq> 2 then sh_line ''cd: no such directory: '' (args ! 1) s
                       else s\<lparr>cwd := sv_copyTo path SHELL_MAX_PATH (cwd s)\<rparr>) }))"

definition cmdPwd :: "shell \<Rightarrow> shell" where
  "cmdPwd s = sh_putchar 10 (term_write (sh_cwd s) s)"

definition MAX_ELF_SIZE :: u32 where "MAX_ELF_SIZE = 65536"

partial_function (option) exec_loop :: "u32 \<Rightarrow> u32 \<Rightarrow> u8 list \<Rightarrow> shell \<Rightarrow> (u8 list \<times> shell) option" where
  "exec_loop handle pos elf s =
     (if pos < MAX_ELF_SIZE
      then do { (n, buf, s) \<leftarrow> vfs_read handle pos 512 s;
                if n <=s 0 then Some (elf, s) else exec_loop handle (pos + n) (elf @ take (unat n) buf) s }
      else Some (elf, s))"

text \<open>What the new process does while the shell waits for it is not a part of the shell.\<close>

definition cmdExec :: "os_replies \<Rightarrow> sview list \<Rightarrow> shell \<Rightarrow> shell option" where
  "cmdExec r args s =
     (if length args < 2 then Some (sh_print (''exec: usage: exec <path>'' @ newline) s)
      else do { (handle, s) \<leftarrow> vfs_open (path_arg (args ! 1) s) False s;
                if handle = 0 then Some (sh_line ''exec: no such file: '' (args ! 1) s)
                else if \<not> os_heap r then Some (sh_print (''exec: out of memory'' @ newline) s)
                else do { (elf, s) \<leftarrow> exec_loop handle 0 [] s;
                          Some (if elf = [] then sh_print (''exec: empty file'' @ newline) s
                                else if os_exec r elf = 0 then sh_print (''exec: failed to load program'' @ newline) s
                                else s) } })"

definition run_command :: "os_replies \<Rightarrow> sview list \<Rightarrow> shell \<Rightarrow> shell option" where
  "run_command r args s =
     (let cmd = args ! 0 in
      if sv_eq cmd (str ''help'') then Some (cmdHelp s)
      else if sv_eq cmd (str ''clear'') then Some (cmdClear s)
      else if sv_eq cmd (str ''echo'') then Some (cmdEcho args s)
      else if sv_eq cmd (str ''mem'') then Some (cmdMem r s)
      else if sv_eq cmd (str ''ps'') then Some (cmdPs r s)
      else if sv_eq cmd (str ''uptime'') then Some (cmdUptime r s)
      else if sv_eq cmd (str ''reboot'') then None
      else if sv_eq cmd (str ''shutdown'') then None
      else if sv_eq cmd (str ''ls'') then cmdLs args s
      else if sv_eq cmd (str ''cd'') then cmdCd args s
      else if sv_eq cmd (str ''pwd'') then Some (cmdPwd s)
      else if sv_eq cmd (str ''mkdir'') then cmdMkdir args s
      else if sv_eq cmd (str ''rmdir'') then cmdRmdir args s
      else if sv_eq cmd (str ''touch'') then cmdTouch args s
      else if sv_eq cmd (str ''rm'') then cmdRm args s
      else if sv_eq cmd (str ''cat'') then cmdCat args s
      else if sv_eq cmd (str ''write'') then cmdWrite args s
      else if sv_eq cmd (str ''exec'') then cmdExec r args s
      else Some (sh_line ''Unknown command: '' cmd s))"

section \<open>The line\<close>

definition execute :: "os_replies \<Rightarrow> shell \<Rightarrow> shell option" where
  "execute r s =
     (let s = s\<lparr>sh_buffer := (sh_buffer s)(unat (sh_length s) := 0)\<rparr>; s = sh_putchar 10 s in
      if sh_length s = 0 then Some (printPrompt s)
      else (case parseArgs (sh_buffer s) (unat (sh_length s)) SHELL_MAX_ARGS of (copy, args) \<Rightarrow>
        if args = [] then Some (printPrompt s)
        else do { s \<leftarrow> run_command r (map (cstr_at copy (unat (sh_length s) + 1)) args) s;
                  Some (printPrompt (s\<lparr>sh_length := 0, sh_cursor := 0\<rparr>)) }))"

definition shift_down :: "nat \<Rightarrow> nat \<Rightarrow> chars \<Rightarrow> chars" where
  "shift_down from to buf = fold (\<lambda>i b. b(i := b (i + 1))) [from..<to] buf"

definition shift_up_by_one :: "nat \<Rightarrow> nat \<Rightarrow> chars \<Rightarrow> chars" where
  "shift_up_by_one from to buf = fold (\<lambda>i b. b(i := b (i - 1))) (rev [Suc to..<Suc from]) buf"

definition shell_key :: "os_replies \<Rightarrow> u8 \<Rightarrow> shell \<Rightarrow> shell option" where
  "shell_key r key s =
     (if key = 0 then Some s
      else if key = 0x0D then execute r s
      else if key = 0x08
      then Some
       (if sh_cursor s > 0
        then (let s = s\<lparr>sh_buffer := shift_down (unat (sh_cursor s) - 1) (unat (sh_length s) - 1) (sh_buffer s),
                        sh_length := sh_length s - 1, sh_cursor := sh_cursor s - 1\<rparr>
              in if sh_cursor s = sh_length s then sh_flush (sh_putchar 8 (sh_putchar 32 (sh_putchar 8 s))) else redrawLine s)
        else s)
      else if key = 0x7F
      then Some
       (if sh_cursor s < sh_length s
        then redrawLine (s\<lparr>sh_buffer := shift_down (unat (sh_cursor s)) (unat (sh_length s) - 1) (sh_buffer s),
                           sh_length := sh_length s - 1\<rparr>)
        else s)
      else if key = 0x8C
      then Some
       (if sh_cursor s > 0
        then (let s = s\<lparr>sh_cursor := sh_cursor s - 1\<rparr> in sh_flush (sh_setCursor (promptCol s + sh_cursor s) (promptRow s) s))
        else s)
      else if key = 0x8D
      then Some
       (if sh_cursor s < sh_length s
        then (let s = s\<lparr>sh_cursor := sh_cursor s + 1\<rparr> in sh_flush (sh_setCursor (promptCol s + sh_cursor s) (promptRow s) s))
        else s)
      else if 0x20 \<le> key \<and> key \<le> 0x7E \<and> sh_length s < SHELL_MAX_INPUT
      then (let s = s\<lparr>sh_buffer := (shift_up_by_one (unat (sh_length s)) (unat (sh_cursor s)) (sh_buffer s))(unat (sh_cursor s) := key),
                      sh_length := sh_length s + 1, sh_cursor := sh_cursor s + 1\<rparr>
            in Some (if sh_cursor s = sh_length s then sh_flush (sh_putchar key s) else redrawLine s))
      else Some s)"

fun shell_keys :: "(u8 \<times> os_replies) list \<Rightarrow> shell \<Rightarrow> shell option" where
  "shell_keys [] s = Some s"
| "shell_keys ((key, r) # ks) s = (case shell_key r key s of None \<Rightarrow> None | Some s \<Rightarrow> shell_keys ks s)"

text \<open>The constructor and the first prompt, on a started terminal and a mounted file system.\<close>

definition shell_start :: "terminal \<Rightarrow> fs \<Rightarrow> shell" where
  "shell_start t v = printPrompt
     \<lparr>sh_buffer = \<lambda>_. 0, sh_length = 0, sh_cursor = 0, promptCol = 0, promptRow = 0,
      cwd = (\<lambda>_. 0)(0 := 47, 1 := 0), sh_term = t, sh_vfs = v\<rparr>"

end
