(* ===== verification/Shell_Line.thy ===== *)
theory Shell_Line
  imports Shell
begin

text \<open>
  What the shell does with a line: the words of a command, the editing of the line and what the
  terminal shows of it, and the output of \<^verbatim>\<open>cat\<close>.
\<close>

section \<open>Words\<close>

text \<open>The words of a text, inside a word or not.\<close>

fun words_from :: "bool \<Rightarrow> sview \<Rightarrow> sview list" where
  "words_from b [] = []"
| "words_from b (c # cs) =
     (if c = 32 then words_from False cs
      else if b then words_from True cs
      else (c # takeWhile (\<lambda>x. x \<noteq> 32) cs) # words_from True cs)"

definition words :: "sview \<Rightarrow> sview list" where
  "words = words_from False"

lemma parse_loop:
  assumes "length text_of = len" "0 \<notin> set text_of"
  shows "k + n = len \<Longrightarrow> \<forall>i. k \<le> i \<longrightarrow> i < len \<longrightarrow> buf i = text_of ! i \<Longrightarrow> buf len = 0 \<Longrightarrow> length args \<le> m \<Longrightarrow>
    \<exists>buf' new b'. fold (parse_step m) [k..<Suc len] (buf, args, b) = (buf', take m (args @ new), b') \<and>
      (\<forall>i. buf' i = (if k \<le> i \<and> i \<le> len \<and> buf i = 32 then 0 else buf i)) \<and> (\<forall>i \<in> set new. i < len) \<and>
      map (\<lambda>i. takeWhile (\<lambda>c. c \<noteq> 32) (drop i text_of)) new = words_from b (drop k text_of)"
proof (induction n arbitrary: k buf args b)
  case 0
  then have "fold (parse_step m) [k..<Suc len] (buf, args, b) = (buf(len := 0), take m (args @ []), False)"
    by (simp add: parse_step_def)
  then show ?case using "0.prems" assms(1) by (intro exI [of _ "buf(len := 0)"] exI [of _ "[]"] exI [of _ False]) auto
next
  case (Suc n)
  let ?c = "text_of ! k"
  have k: "k < len" and bk: "buf k = ?c" using Suc.prems by simp_all
  have dr: "drop k text_of = ?c # drop (Suc k) text_of" using k assms(1) by (simp add: Cons_nth_drop_Suc)
  have c0: "?c \<noteq> 0" using k assms by (metis nth_mem)
  have up: "[k..<Suc len] = k # [Suc k..<Suc len]" using k by (simp add: upt_conv_Cons)
  show ?case
  proof (cases "?c = 32")
    case True
    have h: "\<forall>i. Suc k \<le> i \<longrightarrow> i < len \<longrightarrow> (buf(k := 0)) i = text_of ! i" "(buf(k := 0)) len = 0" "Suc k + n = len" using Suc.prems k by simp_all
    obtain buf' new b' where i: "fold (parse_step m) [Suc k..<Suc len] (buf(k := 0), args, False) = (buf', take m (args @ new), b')"
      "\<forall>i. buf' i = (if Suc k \<le> i \<and> i \<le> len \<and> (buf(k := 0)) i = 32 then 0 else (buf(k := 0)) i)" "\<forall>i \<in> set new. i < len"
      "map (\<lambda>i. takeWhile (\<lambda>c. c \<noteq> 32) (drop i text_of)) new = words_from False (drop (Suc k) text_of)"
      using Suc.IH [OF h(3,1,2) Suc.prems(4), of False] by blast
    have "fold (parse_step m) [k..<Suc len] (buf, args, b) = (buf', take m (args @ new), b')"
    proof -
      have "parse_step m k (buf, args, b) = (buf(k := 0), args, False)" using True bk by (simp add: parse_step_def)
      then show ?thesis unfolding up using i(1) by (simp del: upt_Suc)
    qed
    moreover have "\<forall>i. buf' i = (if k \<le> i \<and> i \<le> len \<and> buf i = 32 then 0 else buf i)" using i(2) True bk k by auto
    ultimately show ?thesis using i(3,4) True dr by auto
  next
    case False
    define args' where "args' = (if b \<or> \<not> length args < m then args else args @ [k])"
    have len': "length args' \<le> m" using Suc.prems(4) by (auto simp: args'_def)
    have h: "\<forall>i. Suc k \<le> i \<longrightarrow> i < len \<longrightarrow> buf i = text_of ! i" "buf len = 0" "Suc k + n = len" using Suc.prems by simp_all
    obtain buf' new b' where i: "fold (parse_step m) [Suc k..<Suc len] (buf, args', True) = (buf', take m (args' @ new), b')"
      "\<forall>i. buf' i = (if Suc k \<le> i \<and> i \<le> len \<and> buf i = 32 then 0 else buf i)" "\<forall>i \<in> set new. i < len"
      "map (\<lambda>i. takeWhile (\<lambda>c. c \<noteq> 32) (drop i text_of)) new = words_from True (drop (Suc k) text_of)"
      using Suc.IH [OF h(3,1,2) len', of True] by blast
    have st: "fold (parse_step m) [k..<Suc len] (buf, args, b) = (buf', take m (args' @ new), b')"
    proof -
      have "parse_step m k (buf, args, b) = (buf, args', True)" using False c0 bk by (simp add: parse_step_def args'_def)
      then show ?thesis unfolding up using i(1) by (simp del: upt_Suc)
    qed
    have tk: "take m (args' @ new) = take m (args @ (if b then [] else [k]) @ new)"
      using Suc.prems(4) by (auto simp: args'_def not_less)
    have "\<forall>i. buf' i = (if k \<le> i \<and> i \<le> len \<and> buf i = 32 then 0 else buf i)" using i(2) False bk k by (auto simp: Suc_le_eq)
    moreover have "map (\<lambda>i. takeWhile (\<lambda>c. c \<noteq> 32) (drop i text_of)) ((if b then [] else [k]) @ new) = words_from b (drop k text_of)"
      using i(4) False dr by simp
    moreover have "\<forall>i \<in> set ((if b then [] else [k]) @ new). i < len" using i(3) k by simp
    ultimately show ?thesis unfolding st tk by (intro exI [of _ buf'] exI [of _ "(if b then [] else [k]) @ new"] exI [of _ b'] conjI) auto
  qed
qed

lemma takeWhile_blank:
  "takeWhile (\<lambda>c. c \<noteq> 0) (map (\<lambda>c. if c = 32 then 0 else c) cs @ [0]) = takeWhile (\<lambda>c. c \<noteq> 32) cs" if "0 \<notin> set cs" for cs :: "u8 list"
  using that by (induction cs) auto

lemma parse_words:
  assumes "0 \<notin> set w" "\<forall>i < length w. buf i = w ! i" "buf (length w) = 0" "parseArgs buf (length w) m = (buf', args)"
  shows "map (cstr_at buf' (length w + 1)) args = take m (words w)"
proof -
  obtain buf'' new b' where p: "fold (parse_step m) [0..<Suc (length w)] (buf, [], False) = (buf'', take m ([] @ new), b')"
    "\<forall>i. buf'' i = (if 0 \<le> i \<and> i \<le> length w \<and> buf i = 32 then 0 else buf i)" "\<forall>i \<in> set new. i < length w"
    "map (\<lambda>i. takeWhile (\<lambda>c. c \<noteq> 32) (drop i w)) new = words_from False (drop 0 w)"
    using parse_loop [OF refl assms(1), of 0 "length w" buf "[]" m False] assms(2,3) by auto
  have e: "buf' = buf''" "args = take m new" using p(1) assms(4) by (simp_all add: parseArgs_def del: upt_Suc)
  have "cstr_at buf'' (length w + 1) i = takeWhile (\<lambda>c. c \<noteq> 32) (drop i w)" if "i < length w" for i
  proof -
    have "map buf'' [i..<length w + 1] = map (\<lambda>c. if c = 32 then 0 else c) (drop i w) @ [0]"
      using that assms(2,3) p(2) by (intro nth_equalityI) (auto simp: nth_append less_Suc_eq)
    then show ?thesis using takeWhile_blank [of "drop i w"] assms(1) in_set_dropD [of 0 i w] by (auto simp: cstr_at_def simp del: upt_Suc)
  qed
  then have "map (cstr_at buf'' (length w + 1)) new = words w" using p(3,4) by (auto simp: words_def cong: map_cong)
  then show ?thesis unfolding e by (metis take_map)
qed

section \<open>Editing\<close>

text \<open>A line is the text before and after the cursor; \<open>edit\<close> is a key other than Enter.\<close>

type_synonym line = "sview \<times> sview"

definition printable :: "u8 \<Rightarrow> bool" where
  "printable c \<longleftrightarrow> 0x20 \<le> c \<and> c \<le> 0x7E"

fun edit :: "u8 \<Rightarrow> line \<Rightarrow> line" where
  "edit key (l, r) =
     (if key = 0x08 then (if l = [] then (l, r) else (butlast l, r))
      else if key = 0x7F then (l, tl r)
      else if key = 0x8C then (if l = [] then (l, r) else (butlast l, last l # r))
      else if key = 0x8D then (if r = [] then (l, r) else (l @ [hd r], tl r))
      else if printable key \<and> length l + length r < 78 then (l @ [key], r)
      else (l, r))"

definition line_text :: "line \<Rightarrow> sview" where
  "line_text lr = fst lr @ snd lr"

text \<open>The buffer holds the line.\<close>

definition editing :: "shell \<Rightarrow> line \<Rightarrow> bool" where
  "editing s lr \<longleftrightarrow> unat (sh_length s) = length (line_text lr) \<and> length (line_text lr) \<le> 78 \<and>
     unat (sh_cursor s) = length (fst lr) \<and> (\<forall>i < length (line_text lr). sh_buffer s i = line_text lr ! i) \<and>
     (\<forall>c \<in> set (line_text lr). printable c)"

lemma shift_down_at: "shift_down a b buf i = (if a \<le> i \<and> i < b then buf (i + 1) else buf i)"
proof -
  have "fold (\<lambda>i b. b(i := b (i + 1))) [a..<b] buf i = (if a \<le> i \<and> i < b then buf (i + 1) else buf i)" for i
    by (induction b arbitrary: i) (auto simp: less_Suc_eq)
  then show ?thesis by (simp add: shift_down_def)
qed

lemma shift_up_at: "shift_up_by_one b a buf i = (if a < i \<and> i \<le> b then buf (i - 1) else buf i)"
proof -
  have "fold (\<lambda>i b. b(i := b (i - 1))) (rev [Suc a..<Suc b]) buf i = (if a < i \<and> i \<le> b then buf (i - 1) else buf i)" for i
  proof (induction b arbitrary: i buf)
    case (Suc b)
    show ?case
    proof (cases "a \<le> b")
      case True
      then have "rev [Suc a..<Suc (Suc b)] = Suc b # rev [Suc a..<Suc b]" by simp
      then have "fold (\<lambda>i b. b(i := b (i - 1))) (rev [Suc a..<Suc (Suc b)]) buf i =
          fold (\<lambda>i b. b(i := b (i - 1))) (rev [Suc a..<Suc b]) (buf(Suc b := buf b)) i" by simp
      also have "\<dots> = (if a < i \<and> i \<le> Suc b then buf (i - 1) else buf i)" unfolding Suc.IH using True by (auto simp: le_Suc_eq)
      finally show ?thesis .
    qed auto
  qed simp
  then show ?thesis by (simp add: shift_up_by_one_def)
qed

lemma unat_u8: "unat (x :: u8) < 256"
  using unsigned_less [of x, where 'a = nat] by simp

text \<open>The buffer of the shell after each kind of key.\<close>

lemma editing_left:
  assumes "editing s (l @ [c], r)"
  shows "editing (s\<lparr>sh_cursor := sh_cursor s - 1\<rparr>) (l, c # r)"
  using assms unat_dec [of "sh_cursor s"] by (simp add: editing_def line_text_def)

lemma editing_right:
  assumes "editing s (l, c # r)"
  shows "editing (s\<lparr>sh_cursor := sh_cursor s + 1\<rparr>) (l @ [c], r)"
  using assms unat_inc [of "sh_cursor s"] by (simp add: editing_def line_text_def)

lemma editing_delete:
  assumes "editing s (l, c # r)"
  shows "editing (s\<lparr>sh_buffer := shift_down (unat (sh_cursor s)) (unat (sh_length s) - 1) (sh_buffer s), sh_length := sh_length s - 1\<rparr>) (l, r)"
proof -
  have e: "unat (sh_cursor s) = length l" "unat (sh_length s) = Suc (length l + length r)" "length l + length r < 78"
    "\<forall>i < Suc (length l + length r). sh_buffer s i = (l @ c # r) ! i" "\<forall>c \<in> set (l @ r). printable c"
    using assms by (auto simp: editing_def line_text_def)
  have "shift_down (length l) (length l + length r) (sh_buffer s) i = (l @ r) ! i" if "i < length l + length r" for i
    using that e(4) by (auto simp: shift_down_at nth_append Suc_diff_le)
  then show ?thesis using e unat_dec [of "sh_length s"] by (simp add: editing_def line_text_def)
qed

lemma editing_backspace:
  assumes "editing s (l @ [c], r)"
  shows "editing (s\<lparr>sh_buffer := shift_down (unat (sh_cursor s) - 1) (unat (sh_length s) - 1) (sh_buffer s),
      sh_length := sh_length s - 1, sh_cursor := sh_cursor s - 1\<rparr>) (l, r)"
proof -
  have c: "unat (sh_cursor s) = Suc (length l)" using assms by (simp add: editing_def)
  then have "unat (sh_cursor s - 1) = unat (sh_cursor s) - 1" using unat_dec [of "sh_cursor s"] by simp
  then show ?thesis using c editing_delete [OF editing_left [OF assms]] by (simp add: editing_def)
qed

lemma editing_insert:
  assumes "editing s (l, r)" "length l + length r < 78" "printable key"
  shows "editing (s\<lparr>sh_buffer := (shift_up_by_one (unat (sh_length s)) (unat (sh_cursor s)) (sh_buffer s))(unat (sh_cursor s) := key),
      sh_length := sh_length s + 1, sh_cursor := sh_cursor s + 1\<rparr>) (l @ [key], r)"
proof -
  have e: "unat (sh_cursor s) = length l" "unat (sh_length s) = length l + length r"
    "\<forall>i < length l + length r. sh_buffer s i = (l @ r) ! i" "\<forall>c \<in> set (l @ r). printable c"
    using assms(1) by (auto simp: editing_def line_text_def)
  have "((shift_up_by_one (length l + length r) (length l) (sh_buffer s))(length l := key)) i = (l @ [key] @ r) ! i"
    if "i < Suc (length l + length r)" for i
  proof -
    consider "i < length l" | "i = length l" | "length l < i" by linarith
    then show ?thesis
    proof cases
      case 3
      then have "sh_buffer s (i - 1) = (l @ r) ! (i - 1)" using e(3) that by simp
      moreover have "\<not> i - 1 < length l" "i - 1 - length l = i - length l - 1" using 3 by linarith+
      ultimately show ?thesis using 3 that by (simp add: shift_up_at nth_append nth_Cons')
    qed (use e(3) that in \<open>simp_all add: shift_up_at nth_append\<close>)
  qed
  then show ?thesis using e assms(2,3) unat_inc [of "sh_length s"] unat_inc [of "sh_cursor s"]
    by (simp add: editing_def line_text_def)
qed

section \<open>What the terminal shows of the line\<close>

text \<open>A row of the grid from a column on: a text and blanks.\<close>

definition row_is :: "nat \<Rightarrow> nat \<Rightarrow> nat \<Rightarrow> sview \<Rightarrow> char_grid \<Rightarrow> bool" where
  "row_is C x y w g \<longleftrightarrow> (\<forall>c < C. x \<le> c \<longrightarrow> g c y = (if c < x + length w then (w ! (c - x), False) else (32, False)))"

definition line_shown :: "nat \<Rightarrow> nat \<Rightarrow> nat \<Rightarrow> nat \<Rightarrow> char_screen \<Rightarrow> line \<Rightarrow> bool" where
  "line_shown C R x y cs lr \<longleftrightarrow> x + 80 \<le> C \<and> y < R \<and> cs_x cs = x + length (fst lr) \<and> cs_y cs = y \<and>
     row_is C x y (line_text lr) (grid cs) \<and>
     on_screen cs = put_cell (cs_x cs) y (fst (grid cs (cs_x cs) y), True) (grid cs)"

lemma printable_not: "printable c \<Longrightarrow> c \<noteq> 10 \<and> c \<noteq> 8 \<and> c \<noteq> 0x7F \<and> c \<noteq> 9"
  by (auto simp: printable_def)

lemma spec_put:
  assumes "printable ch" "Suc (cs_x cs) < C" "cs_y cs < R"
  shows "spec_char C R ch cs = cs\<lparr>grid := put_cell (cs_x cs) (cs_y cs) (ch, False) (grid cs), cs_x := Suc (cs_x cs)\<rparr>"
  using assms printable_not [OF assms(1)] by (simp add: spec_char_def settle_def at_cursor_def)

lemma spec_puts:
  assumes "\<forall>c \<in> set w. printable c" "cs_x cs + length w < C" "cs_y cs < R"
  shows "fold (spec_char C R) w cs =
    cs\<lparr>grid := \<lambda>c r. if r = cs_y cs \<and> cs_x cs \<le> c \<and> c < cs_x cs + length w then (w ! (c - cs_x cs), False) else grid cs c r,
       cs_x := cs_x cs + length w\<rparr>"
  using assms
proof (induction w arbitrary: cs)
  case Nil
  then show ?case by (cases cs) (auto simp: fun_eq_iff)
next
  case (Cons ch w)
  let ?cs = "cs\<lparr>grid := put_cell (cs_x cs) (cs_y cs) (ch, False) (grid cs), cs_x := Suc (cs_x cs)\<rparr>"
  have "spec_char C R ch cs = ?cs" using Cons.prems by (intro spec_put) simp_all
  moreover have "fold (spec_char C R) w ?cs =
    ?cs\<lparr>grid := \<lambda>c r. if r = cs_y ?cs \<and> cs_x ?cs \<le> c \<and> c < cs_x ?cs + length w then (w ! (c - cs_x ?cs), False) else grid ?cs c r,
       cs_x := cs_x ?cs + length w\<rparr>"
    using Cons.prems by (intro Cons.IH) simp_all
  ultimately show ?case by (cases cs) (auto simp: fun_eq_iff put_cell_def nth_Cons')
qed

lemma flush_row:
  assumes "row_is C x y w (grid cs)" "x \<le> cs_x cs" "cs_x cs < C" "cs_y cs = y"
  shows "spec_term C R TerminalFlush cs = cs\<lparr>on_screen := put_cell (cs_x cs) y (fst (grid cs (cs_x cs) y), True) (grid cs)\<rparr>"
proof -
  have "snd (grid cs (cs_x cs) y) = False" using assms by (auto simp: row_is_def)
  then have f: "put_cell (cs_x cs) y (fst (grid cs (cs_x cs) y), False) (grid cs) = grid cs"
    by (auto simp: put_cell_def fun_eq_iff prod_eq_iff)
  have p: "put_cell c r v (put_cell c r u g) = put_cell c r v g" for c r u v g by (auto simp: put_cell_def fun_eq_iff)
  have at: "put_cell c r v g c r = v" for c r v g by (simp add: put_cell_def)
  show ?thesis using f assms(4) by (cases cs) (simp add: spec_term_def invert_cursor_def show_screen_def at_cursor_def p at)
qed

text \<open>The state of the shell over the specification of the terminal.\<close>

definition shell_rel :: "u32 \<Rightarrow> u32 \<Rightarrow> nat \<Rightarrow> nat \<Rightarrow> nat \<Rightarrow> shell \<Rightarrow> char_screen \<Rightarrow> bool" where
  "shell_rel w h C R n s cs \<longleftrightarrow> term_rel w h C R n (sh_term s) cs \<and> in_grid C R cs"

lemma term_send_rel:
  assumes "dims w h C R" "shell_rel w h C R n s cs" "n + 256 \<le> 2 ^ 28" "request_in_grid C R msg"
  shows "shell_rel w h C R (lines_after n msg) (term_send msg s) (spec_term C R msg cs)"
  using handle_rel [OF assms(1) _ _ assms(3,4), of "sh_term s" cs] assms(2) by (simp add: shell_rel_def term_send_def)

lemma shell_rel_cong: "sh_term s = sh_term s' \<Longrightarrow> shell_rel w h C R n s cs = shell_rel w h C R n s' cs"
  by (simp add: shell_rel_def)

lemma putchar_send:
  assumes "dims w h C R" "shell_rel w h C R n s cs" "n + 256 \<le> 2 ^ 28"
  shows "shell_rel w h C R (n + 256) (sh_putchar ch s) (spec_char C R ch cs)"
  using term_send_rel [OF assms, of "TerminalPutchar (ucast ch)"]
  by (simp add: sh_putchar_def request_in_grid_def lines_after_def spec_term_def)

lemma setCursor_send:
  assumes "dims w h C R" "shell_rel w h C R n s cs" "n + 256 \<le> 2 ^ 28" "unat col < C" "unat row < R"
  shows "shell_rel w h C R (n + 256) (sh_setCursor col row s) (cs\<lparr>cs_x := unat col, cs_y := unat row\<rparr>)"
  using term_send_rel [OF assms(1-3), of "TerminalSetCursor (ucast col) (ucast row)"] assms(4,5)
  by (simp add: sh_setCursor_def request_in_grid_def lines_after_def spec_term_def)

lemma flush_send:
  assumes "dims w h C R" "shell_rel w h C R n s cs" "n + 256 \<le> 2 ^ 28"
  shows "shell_rel w h C R 0 (sh_flush s) (spec_term C R TerminalFlush cs)"
  using term_send_rel [OF assms, of TerminalFlush] by (simp add: sh_flush_def request_in_grid_def lines_after_def)

lemma write_send:
  assumes "dims w h C R" "shell_rel w h C R n s cs" "n + 256 \<le> 2 ^ 28" "length w' \<le> 256"
  shows "shell_rel w h C R (n + 256) (term_write w' s) (fold (spec_char C R) w' cs)"
proof -
  have "unat (of_nat (length w') :: u32) = length w'" using assms(4) by simp
  moreover have "take (length w') (take 256 (w' @ replicate 256 0)) = w'" using assms(4) by simp
  ultimately show ?thesis using term_send_rel [OF assms(1-3), of "TerminalWrite (of_nat (length w')) (take 256 (w' @ replicate 256 0))"]
    by (simp add: term_write_def request_in_grid_def lines_after_def spec_term_def)
qed

lemma send_fields [simp]:
  "sh_buffer (term_send m s) = sh_buffer s" "sh_length (term_send m s) = sh_length s" "sh_cursor (term_send m s) = sh_cursor s"
  "promptCol (term_send m s) = promptCol s" "promptRow (term_send m s) = promptRow s" "cwd (term_send m s) = cwd s"
  "sh_vfs (term_send m s) = sh_vfs s"
  by (simp_all add: term_send_def)

lemmas client_defs = sh_putchar_def sh_setCursor_def sh_flush_def term_write_def

lemma client_fields [simp]:
  "editing (sh_putchar c s) = editing s" "editing (sh_setCursor a b s) = editing s" "editing (sh_flush s) = editing s"
  "editing (term_write w s) = editing s"
  "promptCol (sh_putchar c s) = promptCol s" "promptCol (sh_setCursor a b s) = promptCol s" "promptCol (sh_flush s) = promptCol s"
  "promptCol (term_write w s) = promptCol s"
  "promptRow (sh_putchar c s) = promptRow s" "promptRow (sh_setCursor a b s) = promptRow s" "promptRow (sh_flush s) = promptRow s"
  "promptRow (term_write w s) = promptRow s"
  by (simp_all add: client_defs editing_def fun_eq_iff)

text \<open>Between two keys: the buffer holds the line, the terminal shows it behind the prompt.\<close>

definition session :: "u32 \<Rightarrow> u32 \<Rightarrow> nat \<Rightarrow> nat \<Rightarrow> nat \<Rightarrow> nat \<Rightarrow> shell \<Rightarrow> line \<Rightarrow> bool" where
  "session w h C R x y s lr \<longleftrightarrow> editing s lr \<and> unat (promptCol s) = x \<and> unat (promptRow s) = y \<and>
     (\<exists>cs. shell_rel w h C R 0 s cs \<and> line_shown C R x y cs lr)"

lemma session_flush:
  assumes d: "dims w h C R" and rel: "shell_rel w h C R n s cs" and n: "n + 256 \<le> 2 ^ 28"
    and e: "editing s lr" "unat (promptCol s) = x" "unat (promptRow s) = y"
    and cs: "cs_x cs = x + length (fst lr)" "cs_y cs = y" "x + 80 \<le> C" "y < R" "row_is C x y (line_text lr) (grid cs)"
  shows "session w h C R x y (sh_flush s) lr"
proof -
  have "length (fst lr) \<le> 78" using e(1) by (auto simp: editing_def line_text_def)
  then have x: "x \<le> cs_x cs" "cs_x cs < C" using cs(1,3) by simp_all
  let ?cs = "cs\<lparr>on_screen := put_cell (cs_x cs) y (fst (grid cs (cs_x cs) y), True) (grid cs)\<rparr>"
  have "shell_rel w h C R 0 (sh_flush s) ?cs"
    using flush_send [OF d rel n] flush_row [OF cs(5) x cs(2)] by simp
  then show ?thesis using e cs unfolding session_def line_shown_def by auto
qed

lemma row_isD: "row_is C x y w g \<Longrightarrow> c < C \<Longrightarrow> x \<le> c \<Longrightarrow> g c y = (if c < x + length w then (w ! (c - x), False) else (32, False))"
  by (simp add: row_is_def)

lemma redraw_session:
  assumes d: "dims w h C R" and rel: "shell_rel w h C R 0 s cs"
    and e: "editing s lr" "unat (promptCol s) = x" "unat (promptRow s) = y"
    and cs: "x + 80 \<le> C" "y < R" "\<And>c. x + length (line_text lr) < c \<Longrightarrow> c < C \<Longrightarrow> grid cs c y = (32, False)"
  shows "session w h C R x y (redrawLine s) lr"
proof -
  let ?w = "line_text lr"
  have len: "length ?w \<le> 78" "unat (sh_length s) = length ?w" "unat (sh_cursor s) = length (fst lr)" "length (fst lr) \<le> length ?w"
    "\<forall>c \<in> set ?w. printable c" using e(1) by (auto simp: editing_def line_text_def)
  have C: "C \<le> 248" using d by (simp add: dims_def)
  define s1 where "s1 = sh_setCursor (promptCol s) (promptRow s) s"
  have r1: "shell_rel w h C R 256 s1 (cs\<lparr>cs_x := x, cs_y := y\<rparr>)"
    using setCursor_send [OF d rel, of "promptCol s" "promptRow s"] e cs(1,2) by (simp add: s1_def)
  define s2 where "s2 = (if sh_length s > 0 then term_write (map (sh_buffer s) [0..<unat (sh_length s)]) s1 else s1)"
  have wtxt: "map (sh_buffer s) [0..<unat (sh_length s)] = ?w" using e(1) len(2) by (intro nth_equalityI) (auto simp: editing_def)
  define cs2 where "cs2 = fold (spec_char C R) ?w (cs\<lparr>cs_x := x, cs_y := y\<rparr>)"
  have r2: "shell_rel w h C R 512 s2 cs2"
  proof (cases "sh_length s > 0")
    case True
    then show ?thesis using write_send [OF d r1, of ?w] len(1) by (simp add: s2_def cs2_def wtxt)
  next
    case False
    then have "?w = []" using len(2) by (simp add: word_less_nat_alt)
    then show ?thesis using False term_rel_mono [of w h C R 256 _ _ 512] r1 by (simp add: s2_def cs2_def shell_rel_def)
  qed
  have cs2: "cs2 = cs\<lparr>cs_x := x + length ?w, cs_y := y,
      grid := \<lambda>c r. if r = y \<and> x \<le> c \<and> c < x + length ?w then (?w ! (c - x), False) else grid cs c r\<rparr>"
    unfolding cs2_def using spec_puts [of ?w "cs\<lparr>cs_x := x, cs_y := y\<rparr>" C R] len cs(1,2)
    by (cases cs) (simp cong del: if_weak_cong)
  have r3: "shell_rel w h C R 768 (sh_putchar 32 s2) (spec_char C R 32 cs2)" using putchar_send [OF d r2, of 32] by simp
  have p32: "printable 32" by (simp add: printable_def)
  have xC: "Suc (x + length ?w) < C" using cs(1) len(1) by linarith
  have cs3: "spec_char C R 32 cs2 = cs2\<lparr>grid := put_cell (x + length ?w) y (32, False) (grid cs2), cs_x := Suc (x + length ?w)\<rparr>"
    using spec_put [OF p32, of cs2 C R] cs(2) xC by (simp add: cs2)
  define s3 where "s3 = sh_putchar 32 s2"
  have f: "promptCol s3 = promptCol s" "promptRow s3 = promptRow s" "sh_cursor s3 = sh_cursor s" "editing s3 lr"
    using e(1) by (simp_all add: s3_def s2_def s1_def client_defs editing_def)
  have col: "unat (promptCol s + sh_cursor s) = x + length (fst lr)"
    using e(2) len cs(1) C by (simp add: unat_word_ariths)
  then have c4: "unat (promptCol s3 + sh_cursor s3) < C" using f(1,3) len cs(1) by simp
  have r4: "shell_rel w h C R 1024 (sh_setCursor (promptCol s3 + sh_cursor s3) (promptRow s3) s3)
      ((spec_char C R 32 cs2)\<lparr>cs_x := x + length (fst lr), cs_y := y\<rparr>)"
    using setCursor_send [OF d r3 [folded s3_def] _ c4, of "promptRow s3"] f col e(3) cs(2) by simp
  have row: "row_is C x y ?w (grid ((spec_char C R 32 cs2)\<lparr>cs_x := x + length (fst lr), cs_y := y\<rparr>))"
    using cs(3) unfolding cs3 by (auto simp: row_is_def put_cell_def cs2)
  have "session w h C R x y (sh_flush (sh_setCursor (promptCol s3 + sh_cursor s3) (promptRow s3) s3)) lr"
    by (rule session_flush [OF d r4 _ _ _ _ _ _ cs(1,2) row]) (use f e in simp_all)
  moreover have "redrawLine s = sh_flush (sh_setCursor (promptCol s3 + sh_cursor s3) (promptRow s3) s3)"
    unfolding redrawLine_def Let_def s3_def s2_def s1_def by (simp add: client_defs)
  ultimately show ?thesis by simp
qed

section \<open>Keys\<close>

lemma line_cases:
  assumes "editing s (l, r)"
  shows "0 < sh_cursor s \<longleftrightarrow> l \<noteq> []" "sh_cursor s < sh_length s \<longleftrightarrow> r \<noteq> []" "sh_cursor s = sh_length s \<longleftrightarrow> r = []"
    "sh_length s < SHELL_MAX_INPUT \<longleftrightarrow> length l + length r < 78"
  using assms by (auto simp: editing_def line_text_def word_less_nat_alt word_unat_eq_iff SHELL_MAX_INPUT_def)

lemma session_cursor:
  assumes d: "dims w h C R" and rel: "shell_rel w h C R 0 s cs" and e: "editing s lr" "unat (promptCol s) = x" "unat (promptRow s) = y"
    and cs: "x + 80 \<le> C" "y < R" "row_is C x y (line_text lr) (grid cs)"
  shows "session w h C R x y (sh_flush (sh_setCursor (promptCol s + sh_cursor s) (promptRow s) s)) lr"
proof -
  have C: "C \<le> 248" using d by (simp add: dims_def)
  have len: "unat (sh_cursor s) = length (fst lr)" "length (fst lr) \<le> 78" using e(1) by (auto simp: editing_def line_text_def)
  then have col: "unat (promptCol s + sh_cursor s) = x + length (fst lr)" using e(2) cs(1) C by (simp add: unat_word_ariths)
  then have c: "unat (promptCol s + sh_cursor s) < C" using len(2) cs(1) by simp
  have r: "shell_rel w h C R 256 (sh_setCursor (promptCol s + sh_cursor s) (promptRow s) s) (cs\<lparr>cs_x := x + length (fst lr), cs_y := y\<rparr>)"
    using setCursor_send [OF d rel _ c, of "promptRow s"] e(3) cs(2) col by simp
  show ?thesis by (rule session_flush [OF d r _ _ _ _ _ _ cs(1,2)]) (use e cs in simp_all)
qed

lemma session_rel_cong:
  "session w h C R x y (s\<lparr>sh_buffer := b, sh_length := n, sh_cursor := k\<rparr>) lr =
     (editing (s\<lparr>sh_buffer := b, sh_length := n, sh_cursor := k\<rparr>) lr \<and> unat (promptCol s) = x \<and> unat (promptRow s) = y \<and>
      (\<exists>cs. shell_rel w h C R 0 s cs \<and> line_shown C R x y cs lr))"
  by (simp add: session_def shell_rel_def)

lemma session_key:
  assumes d: "dims w h C R" and s: "session w h C R x y s (l, r)" and key: "key \<noteq> 0x0D"
  shows "\<exists>s'. shell_key os key s = Some s' \<and> session w h C R x y s' (edit key (l, r))"
proof -
  have e: "editing s (l, r)" "unat (promptCol s) = x" "unat (promptRow s) = y" using s by (simp_all add: session_def)
  obtain cs where rel: "shell_rel w h C R 0 s cs" and sh: "line_shown C R x y cs (l, r)" using s by (auto simp: session_def)
  have cs: "x + 80 \<le> C" "y < R" "row_is C x y (l @ r) (grid cs)" "cs_x cs = x + length l" "cs_y cs = y"
    using sh by (simp_all add: line_shown_def line_text_def)
  have C: "C \<le> 248" using d by (simp add: dims_def)
  have row: "grid cs c y = (if c < x + length (l @ r) then ((l @ r) ! (c - x), False) else (32, False))" if "x \<le> c" "c < C" for c
    by (rule row_isD [OF cs(3) that(2,1)])
  have len78: "length l + length r \<le> 78" using e(1) by (simp add: editing_def line_text_def)
  note cs' = rel [unfolded shell_rel_def]
  consider "key = 0" | "key = 0x08" | "key = 0x7F" | "key = 0x8C" | "key = 0x8D" | "key \<notin> {0, 0x0D, 0x08, 0x7F, 0x8C, 0x8D}" using key by auto
  then show ?thesis
  proof cases
    case 1
    then show ?thesis using s by (simp add: shell_key_def printable_def)
  next
    case 2
    show ?thesis
    proof (cases "l = []")
      case True
      then show ?thesis using 2 s line_cases(1) [OF e(1)] by (simp add: shell_key_def)
    next
      case False
      then obtain l0 c where l: "l = l0 @ [c]" by (metis append_butlast_last_id)
      define s1 where "s1 = s\<lparr>sh_buffer := shift_down (unat (sh_cursor s) - 1) (unat (sh_length s) - 1) (sh_buffer s),
        sh_length := sh_length s - 1, sh_cursor := sh_cursor s - 1\<rparr>"
      have e1: "editing s1 (l0, r)" unfolding s1_def by (rule editing_backspace) (use e(1) l in simp)
      have p1: "unat (promptCol s1) = x" "unat (promptRow s1) = y" using e by (simp_all add: s1_def)
      have rel1: "shell_rel w h C R 0 s1 cs" using rel by (simp add: s1_def shell_rel_def)
      have k: "shell_key os key s = Some (if r = [] then sh_flush (sh_putchar 8 (sh_putchar 32 (sh_putchar 8 s1))) else redrawLine s1)"
        using 2 False line_cases(1) [OF e(1)] line_cases(3) [OF e1] by (simp add: shell_key_def Let_def s1_def)
      have "session w h C R x y (if r = [] then sh_flush (sh_putchar 8 (sh_putchar 32 (sh_putchar 8 s1))) else redrawLine s1) (l0, r)"
      proof (cases "r = []")
        case True
        let ?x = "x + length l0"
        have xC: "Suc ?x < C" using cs(1) len78 l by simp
        define g1 where "g1 = put_cell ?x y (32, False) (grid cs)"
        have a1: "spec_char C R 8 cs = cs\<lparr>cs_x := ?x, grid := g1\<rparr>"
          using cs xC l by (simp add: spec_char_def settle_def step_back_def at_cursor_def g1_def)
        have p: "printable 32" by (simp add: printable_def)
        have a2: "spec_char C R 32 (cs\<lparr>cs_x := ?x, grid := g1\<rparr>) = cs\<lparr>cs_x := Suc ?x, grid := put_cell ?x y (32, False) g1\<rparr>"
          using spec_put [OF p, of "cs\<lparr>cs_x := ?x, grid := g1\<rparr>" C R] xC cs(2,5) by simp
        have a3: "spec_char C R 8 (cs\<lparr>cs_x := Suc ?x, grid := put_cell ?x y (32, False) g1\<rparr>) =
            cs\<lparr>cs_x := ?x, grid := put_cell ?x y (32, False) (put_cell ?x y (32, False) g1)\<rparr>"
          using cs(2,5) xC by (simp add: spec_char_def settle_def step_back_def at_cursor_def)
        have b1: "shell_rel w h C R 256 (sh_putchar 8 s1) (cs\<lparr>cs_x := ?x, grid := g1\<rparr>)"
          using putchar_send [OF d rel1, of 8] a1 by simp
        have b2: "shell_rel w h C R 512 (sh_putchar 32 (sh_putchar 8 s1)) (cs\<lparr>cs_x := Suc ?x, grid := put_cell ?x y (32, False) g1\<rparr>)"
          using putchar_send [OF d b1, of 32] a2 by simp
        have b3: "shell_rel w h C R 768 (sh_putchar 8 (sh_putchar 32 (sh_putchar 8 s1)))
            (cs\<lparr>cs_x := ?x, grid := put_cell ?x y (32, False) (put_cell ?x y (32, False) g1)\<rparr>)"
          using putchar_send [OF d b2, of 8] a3 by simp
        have "session w h C R x y (sh_flush (sh_putchar 8 (sh_putchar 32 (sh_putchar 8 s1)))) (l0, r)"
        proof (rule session_flush [OF d b3])
          show "row_is C x y (line_text (l0, r)) (grid (cs\<lparr>cs_x := ?x, grid := put_cell ?x y (32, False) (put_cell ?x y (32, False) g1)\<rparr>))"
            using row True l by (auto simp: row_is_def g1_def put_cell_def line_text_def nth_append)
        qed (use e1 p1 cs in simp_all)
        then show ?thesis using True by simp
      next
        case False
        have "session w h C R x y (redrawLine s1) (l0, r)"
          by (rule redraw_session [OF d rel1 e1 p1 cs(1,2)]) (use row l in \<open>auto simp: line_text_def\<close>)
        then show ?thesis using False by simp
      qed
      then show ?thesis using k 2 l by simp
    qed
  next
    case 3
    show ?thesis
    proof (cases r)
      case Nil
      then show ?thesis using 3 s line_cases(2) [OF e(1)] by (simp add: shell_key_def)
    next
      case (Cons c r0)
      define s1 where "s1 = s\<lparr>sh_buffer := shift_down (unat (sh_cursor s)) (unat (sh_length s) - 1) (sh_buffer s), sh_length := sh_length s - 1\<rparr>"
      have e1: "editing s1 (l, r0)" unfolding s1_def by (rule editing_delete) (use e(1) Cons in simp)
      have rel1: "shell_rel w h C R 0 s1 cs" using rel by (simp add: s1_def shell_rel_def)
      have "session w h C R x y (redrawLine s1) (l, r0)"
        by (rule redraw_session [OF d rel1 e1 _ _ cs(1,2)]) (use row Cons e in \<open>auto simp: line_text_def s1_def\<close>)
      then show ?thesis using 3 Cons line_cases(2) [OF e(1)] by (simp add: shell_key_def s1_def)
    qed
  next
    case 4
    show ?thesis
    proof (cases "l = []")
      case True
      then show ?thesis using 4 s line_cases(1) [OF e(1)] by (simp add: shell_key_def)
    next
      case False
      then obtain l0 c where l: "l = l0 @ [c]" by (metis append_butlast_last_id)
      define s1 where "s1 = s\<lparr>sh_cursor := sh_cursor s - 1\<rparr>"
      have e1: "editing s1 (l0, c # r)" unfolding s1_def by (rule editing_left) (use e(1) l in simp)
      have rel1: "shell_rel w h C R 0 s1 cs" using rel by (simp add: s1_def shell_rel_def)
      have "session w h C R x y (sh_flush (sh_setCursor (promptCol s1 + sh_cursor s1) (promptRow s1) s1)) (l0, c # r)"
        by (rule session_cursor [OF d rel1 e1 _ _ cs(1,2)]) (use e cs(3) l in \<open>simp_all add: s1_def line_text_def\<close>)
      then show ?thesis using 4 l line_cases(1) [OF e(1)] by (simp add: shell_key_def Let_def s1_def)
    qed
  next
    case 5
    show ?thesis
    proof (cases r)
      case Nil
      then show ?thesis using 5 s line_cases(2) [OF e(1)] by (simp add: shell_key_def)
    next
      case (Cons c r0)
      define s1 where "s1 = s\<lparr>sh_cursor := sh_cursor s + 1\<rparr>"
      have e1: "editing s1 (l @ [c], r0)" unfolding s1_def by (rule editing_right) (use e(1) Cons in simp)
      have rel1: "shell_rel w h C R 0 s1 cs" using rel by (simp add: s1_def shell_rel_def)
      have "session w h C R x y (sh_flush (sh_setCursor (promptCol s1 + sh_cursor s1) (promptRow s1) s1)) (l @ [c], r0)"
        by (rule session_cursor [OF d rel1 e1 _ _ cs(1,2)]) (use e cs(3) Cons in \<open>simp_all add: s1_def line_text_def\<close>)
      then show ?thesis using 5 Cons line_cases(2) [OF e(1)] by (simp add: shell_key_def Let_def s1_def)
    qed
  next
    case 6
    show ?thesis
    proof (cases "printable key \<and> length l + length r < 78")
      case False
      then show ?thesis using 6 s line_cases(4) [OF e(1)] by (auto simp: shell_key_def printable_def)
    next
      case True
      define s1 where "s1 = s\<lparr>sh_buffer := (shift_up_by_one (unat (sh_length s)) (unat (sh_cursor s)) (sh_buffer s))(unat (sh_cursor s) := key),
        sh_length := sh_length s + 1, sh_cursor := sh_cursor s + 1\<rparr>"
      have e1: "editing s1 (l @ [key], r)" unfolding s1_def by (rule editing_insert [OF e(1)]) (use True in simp_all)
      have rel1: "shell_rel w h C R 0 s1 cs" using rel by (simp add: s1_def shell_rel_def)
      have p1: "unat (promptCol s1) = x" "unat (promptRow s1) = y" using e by (simp_all add: s1_def)
      have k: "shell_key os key s = Some (if r = [] then sh_flush (sh_putchar key s1) else redrawLine s1)"
        using 6 True line_cases(4) [OF e(1)] line_cases(3) [OF e1] by (simp add: shell_key_def Let_def printable_def s1_def)
      have "session w h C R x y (if r = [] then sh_flush (sh_putchar key s1) else redrawLine s1) (l @ [key], r)"
      proof (cases "r = []")
        case nil: True
        have xC: "Suc (cs_x cs) < C" using cs True by simp
        have b: "shell_rel w h C R 256 (sh_putchar key s1) (cs\<lparr>grid := put_cell (cs_x cs) (cs_y cs) (key, False) (grid cs), cs_x := Suc (cs_x cs)\<rparr>)"
          using putchar_send [OF d rel1, of key] spec_put [of key cs C R] True xC cs(2,5) by simp
        have "session w h C R x y (sh_flush (sh_putchar key s1)) (l @ [key], r)"
        proof (rule session_flush [OF d b])
          show "row_is C x y (line_text (l @ [key], r)) (grid (cs\<lparr>grid := put_cell (cs_x cs) (cs_y cs) (key, False) (grid cs), cs_x := Suc (cs_x cs)\<rparr>))"
            using row nil cs(4,5) by (auto simp: row_is_def put_cell_def line_text_def nth_append)
        qed (use e1 p1 cs in simp_all)
        then show ?thesis using nil by simp
      next
        case False
        have "session w h C R x y (redrawLine s1) (l @ [key], r)"
          by (rule redraw_session [OF d rel1 e1 p1 cs(1,2)]) (use row in \<open>auto simp: line_text_def\<close>)
        then show ?thesis using False by simp
      qed
      then show ?thesis using k 6 True by simp
    qed
  qed
qed

section \<open>The output of cat\<close>

text \<open>Reading takes no memory away while the heap has enough.\<close>

definition enough :: "fs \<Rightarrow> bool" where
  "enough s \<longleftrightarrow> fs_allocs s = []"

lemma enough_simps [simp]:
  "enough (set_entry i f s) = enough s" "enough (fill_entry i l d b s) = enough s" "enough (s\<lparr>cacheAge := a\<rparr>) = enough s"
  "enough (s\<lparr>cache := c\<rparr>) = enough s" "enough (snd (ata_writeSector l d s)) = enough s"
  by (simp_all add: enough_def set_entry_def fill_entry_def Let_def ata_writeSector_def split: if_splits)

lemma enough_alloc: "heap_alloc n s = (r, s') \<Longrightarrow> enough s \<Longrightarrow> enough s'"
  by (auto simp: heap_alloc_def enough_def)

lemma enough_lookup: "cacheLookup l s = (r, s') \<Longrightarrow> enough s \<Longrightarrow> enough s'"
  by (auto simp: cacheLookup_def Let_def split: option.splits)

lemma enough_evict: "cacheEvict s = (r, s') \<Longrightarrow> enough s \<Longrightarrow> enough s'"
  by (auto simp: cacheEvict_def Let_def split: option.splits prod.splits dest: enough_alloc)

lemma enough_readSector: "readSector l s = (r, s') \<Longrightarrow> enough s \<Longrightarrow> enough s'"
  by (auto simp: readSector_def cacheRead_def split: option.splits prod.splits dest!: enough_lookup enough_evict)

lemma enough_read_sectors: "read_sectors l is b s = (ok, b', s') \<Longrightarrow> enough s \<Longrightarrow> enough s'"
  by (induction l "is" b s rule: read_sectors.induct) (auto split: option.splits prod.splits dest: enough_readSector)

lemma enough_readCluster: "readCluster c b s = (ok, b', s') \<Longrightarrow> enough s \<Longrightarrow> enough s'"
  unfolding readCluster_def by (rule enough_read_sectors)

lemma enough_fatGet: "fatGet c s = (r, s') \<Longrightarrow> enough s \<Longrightarrow> enough s'"
  by (auto simp: fatGet_def split: option.splits prod.splits if_splits dest: enough_readSector)

lemma enough_skip: "skip_clusters n c s = (v, s') \<Longrightarrow> enough s \<Longrightarrow> enough s'"
  by (induction n c s rule: skip_clusters.induct) (auto split: prod.splits if_splits dest: enough_fatGet)

lemma enough_at: "clusterAtOffset c off s = Some (r, s') \<Longrightarrow> enough s \<Longrightarrow> enough s'"
  by (auto simp: clusterAtOffset_def split: if_splits dest: enough_skip)

lemma enough_read_loop: "read_loop st off n k out buf s = Some (r, b, s') \<Longrightarrow> enough s \<Longrightarrow> enough s'"
proof (drule read_loop.raw_induct [where P = "\<lambda>st off n k out buf s y. enough s \<longrightarrow> enough (snd (snd y))", rotated], goal_cases)
  case (1 f st off n k out buf s y)
  then show ?case
    by (auto simp: Let_def split: if_splits prod.splits elim!: bind_SomeE) (blast dest: enough_at enough_readCluster 1(2) [rule_format])+
qed simp

lemma enough_fs_read: "fs_read h off n s = Some (r, b, s') \<Longrightarrow> enough s \<Longrightarrow> enough s'"
  by (auto simp: fs_read_def Let_def split: prod.splits option.splits if_splits dest: enough_alloc enough_read_loop)

lemma handle_same: "same_fs X s s' \<Longrightarrow> handle_of h s' = handle_of h s"
  by (simp add: handle_of_def same_fs_def)

lemma file_same:
  assumes "same_fs X s s'" "vol_ok X s" "file_ok s fh cs"
  shows "file_ok s' fh cs" "contents s' fh cs = contents s fh cs"
proof -
  have "fat_ok X s" using assms(2) by (simp add: vol_ok_def)
  then have "fat_chain s' cs = fat_chain s cs" by (rule same_fs_chain [OF assms(1)])
  moreover have "bytesPerCluster s' = bytesPerCluster s" using layout_fields [of s' s] assms(1) by (simp add: same_fs_def)
  ultimately show "file_ok s' fh cs" using assms(3) by (simp add: file_ok_def)
  show "contents s' fh cs = contents s fh cs"
    using same_fs_file [OF assms(1,2)] assms(3) by (simp add: contents_def file_ok_def)
qed

text \<open>One read of the client: the next bytes of the file.\<close>

lemma sint_small: "unat x < 2147483648 \<Longrightarrow> sint x = int (unat x)" for x :: u32
proof -
  assume "unat x < 2147483648"
  then have "int (unat x) < 2147483648" by linarith
  then have "uint x < 2 ^ 31" by simp
  moreover have "- (2 ^ 31) \<le> uint x" by (rule order_trans [of _ 0]) simp_all
  ultimately have "signed_take_bit 31 (uint x) = uint x" by (intro signed_take_bit_int_eq_self)
  then show ?thesis by (simp add: sint_uint)
qed

lemma buf_put_front: "length d \<le> length b \<Longrightarrow> take (length d) (buf_put b 0 d) = d"
  by (simp add: buf_put_def)

lemma vfs_read_file:
  fixes off :: u32
  assumes v: "vol_ok X (sh_vfs s)" "enough (sh_vfs s)" "handle_of h (sh_vfs s) = Some fh" "file_ok (sh_vfs s) fh cs"
  defines "part \<equiv> take 256 (drop (unat off) (contents (sh_vfs s) fh cs))"
  obtains v' buf where "vfs_read h off 256 s = Some (of_nat (length part), buf, s\<lparr>sh_vfs := v'\<rparr>)" "take (length part) buf = part"
    "same_fs X (sh_vfs s) v'" "vol_ok X v'" "enough v'"
proof -
  have al: "fs_allocs (sh_vfs s) = []" using v(2) by (simp add: enough_def)
  obtain v' where r: "fs_read h off 256 (sh_vfs s) = Some (of_nat (length part), part, v')" "same_fs X (sh_vfs s) v'" "vol_ok X v'"
    using read_contents [OF v(1) al v(3,4), of off 256] unfolding part_def by auto
  have len: "length part \<le> 256" by (simp add: part_def)
  have n: "unat (of_nat (length part) :: u32) = length part" using len by simp
  have s0: "(0 :: u32) \<le>s of_nat (length part)" "(0 :: u32) <s of_nat (length part) \<longleftrightarrow> part \<noteq> []"
    using len n sint_small [of "of_nat (length part)"] by (simp_all add: word_sle_eq word_sless_alt)
  let ?buf = "replicate 256 (0 :: u8) @ replicate 3840 0"
  have out: "(if (0 :: u32) <s of_nat (length part) then take (length part) (buf_put ?buf 0 part) else []) = part"
    using s0(2) buf_put_front [of part ?buf] len by auto
  have "vfs_handle (VfsRead h off 256) ?buf (sh_vfs s) = Some (of_nat (length part), part, v')"
    using r(1) s0(1) out by (cases "part = []") (simp_all add: vfs_handle_def BUF_SIZE_def n s0(2))
  then have "vfs_read h off 256 s = Some (of_nat (length part), buf_put (replicate 256 0) 0 part, s\<lparr>sh_vfs := v'\<rparr>)"
    using len by (simp add: vfs_read_def vfs_send_def Let_def BUF_SIZE_def)
  then show ?thesis using that r(2,3) enough_fs_read [OF r(1) v(2)] buf_put_front [of part "replicate 256 0"] len by simp
qed

lemma handle_write:
  assumes "length w \<le> 256"
  shows "sh_term (term_write w s) = fold term_putchar w (sh_term s)"
proof -
  have u: "unat (of_nat (length w) :: u32) = length w" using assms by simp
  then have le: "\<not> (256 :: u32) < of_nat (length w)" using assms by (simp add: word_less_nat_alt)
  let ?b = "take 256 (w @ replicate 256 0)"
  have "map (\<lambda>i. ?b ! i) [0..<length w] = w" using assms by (intro nth_equalityI) (auto simp: nth_append)
  then have "fold (\<lambda>i. term_putchar (?b ! i)) [0..<length w] t = fold term_putchar w t" for t
    using fold_map [of term_putchar "\<lambda>i. ?b ! i" "[0..<length w]"] by (simp add: comp_def)
  then show ?thesis using le u by (simp add: term_write_def term_send_def term_handle_def)
qed

lemma cat_loop_text:
  assumes "vol_ok X (sh_vfs s)" "enough (sh_vfs s)" "handle_of h (sh_vfs s) = Some fh" "file_ok (sh_vfs s) fh cs"
    and "unat off \<le> length (contents (sh_vfs s) fh cs)"
  shows "\<exists>s'. cat_loop h off s = Some s' \<and> sh_term s' = fold term_putchar (drop (unat off) (contents (sh_vfs s) fh cs)) (sh_term s) \<and>
    same_fs X (sh_vfs s) (sh_vfs s')"
  using assms
proof (induction "length (contents (sh_vfs s) fh cs) - unat off" arbitrary: off s rule: less_induct)
  case less
  let ?F = "contents (sh_vfs s) fh cs"
  define part where "part = take 256 (drop (unat off) ?F)"
  obtain v' buf where r: "vfs_read h off 256 s = Some (of_nat (length part), buf, s\<lparr>sh_vfs := v'\<rparr>)" "take (length part) buf = part"
    "same_fs X (sh_vfs s) v'" "vol_ok X v'" "enough v'"
    unfolding part_def by (rule vfs_read_file [OF less.prems(1-4), of off]) blast
  have len: "length part \<le> 256" by (simp add: part_def)
  have n: "unat (of_nat (length part) :: u32) = length part" using len by simp
  have le0: "of_nat (length part) <=s (0 :: u32) \<longleftrightarrow> part = []"
    using len n sint_small [of "of_nat (length part)"] by (simp add: word_sle_eq)
  show ?case
  proof (cases "part = []")
    case True
    then have "drop (unat off) ?F = []" by (simp add: part_def)
    then show ?thesis using True r(1,3) by (simp add: cat_loop.simps [of h off s])
  next
    case False
    then have lt: "unat off < length ?F" by (auto simp: part_def)
    have F32: "length ?F < 2 ^ 32" using unat_lt_2p32 [of "fh_size fh"] by (simp add: contents_def)
    have up: "unat (off + of_nat (length part)) = unat off + length part"
      using F32 lt by (intro unat_add_of_nat) (simp add: part_def)
    let ?s = "term_write part (s\<lparr>sh_vfs := v'\<rparr>)"
    have vf: "sh_vfs ?s = v'" by (simp add: term_write_def)
    note same = file_same [OF r(3) less.prems(1,4)]
    have hd: "handle_of h v' = Some fh" using handle_same [OF r(3)] less.prems(3) by simp
    have l0: "0 < length part" using False by simp
    obtain s' where i: "cat_loop h (off + of_nat (length part)) ?s = Some s'"
      "sh_term s' = fold term_putchar (drop (unat (off + of_nat (length part))) (contents v' fh cs)) (sh_term ?s)" "same_fs X v' (sh_vfs s')"
    proof -
      have "length (contents (sh_vfs ?s) fh cs) - unat (off + of_nat (length part)) < length ?F - unat off"
        unfolding up vf same(2) using l0 lt by linarith
      moreover have "unat (off + of_nat (length part)) \<le> length (contents (sh_vfs ?s) fh cs)"
        using up lt same(2) vf by (simp add: part_def)
      ultimately show ?thesis using that less.hyps [of ?s "off + of_nat (length part)"] r(4,5) hd same(1) unfolding vf by blast
    qed
    have "cat_loop h off s = Some s'" using r(1,2) le0 False n i(1) by (simp add: cat_loop.simps [of h off s])
    moreover have "part @ drop (length part) (drop (unat off) ?F) = drop (unat off) ?F"
      unfolding part_def by (cases "256 \<le> length (drop (unat off) ?F)") (simp_all del: drop_drop)
    then have split: "part @ drop (unat off + length part) ?F = drop (unat off) ?F" by (simp add: add.commute)
    have "sh_term ?s = fold term_putchar part (sh_term s)" using handle_write [OF len, of "s\<lparr>sh_vfs := v'\<rparr>"] by simp
    then have "sh_term s' = fold term_putchar (part @ drop (unat off + length part) ?F) (sh_term s)"
      using i(2) same(2) up by simp
    then have "sh_term s' = fold term_putchar (drop (unat off) ?F) (sh_term s)" unfolding split .
    ultimately show ?thesis using same_fs_trans [OF r(3) i(3)] by blast
  qed
qed

section \<open>The first prompt\<close>

lemma welcome_split: "welcome_text = map of_char ''Welcome to the Cassio Operating System!'' @ [10]"
  by (simp add: welcome_text_def)

lemma welcome_printable: "\<forall>c \<in> set (map of_char ''Welcome to the Cassio Operating System!'' :: u8 list). printable c"
  by (simp add: printable_def)

lemma prompt_text: "str ''$ '' = [36, 32]"
  by (simp add: str_def)

lemma spec_begin_state:
  assumes "82 \<le> C" "2 \<le> R"
  shows "cs_x (spec_begin C R) = 0 \<and> cs_y (spec_begin C R) = 1 \<and> (\<forall>c. 2 \<le> c \<longrightarrow> grid (spec_begin C R) c 1 = (32, False))"
proof -
  let ?w = "map of_char ''Welcome to the Cassio Operating System!'' :: u8 list"
  let ?s = "\<lparr>cs_x = 0, cs_y = 0, grid = \<lambda>_ _. (32, False), on_screen = \<lambda>_ _. (32, False)\<rparr>"
  have len: "length ?w = 39" by simp
  have 1: "fold (spec_char C R) ?w ?s = ?s\<lparr>grid := \<lambda>c r. if r = cs_y ?s \<and> cs_x ?s \<le> c \<and> c < cs_x ?s + length ?w then (?w ! (c - cs_x ?s), False) else grid ?s c r,
      cs_x := cs_x ?s + length ?w\<rparr>"
    by (rule spec_puts [OF welcome_printable]) (use assms len in simp_all)
  define s1 where "s1 = fold (spec_char C R) ?w ?s"
  have s1: "cs_x s1 = 39" "cs_y s1 = 0" "\<And>c. grid s1 c 1 = (32, False)" unfolding s1_def 1 len by simp_all
  have 2: "spec_char C R 10 s1 = s1\<lparr>cs_x := 0, cs_y := 1\<rparr>" using assms s1 by (simp add: spec_char_def settle_def)
  have "fold (spec_char C R) welcome_text ?s = s1\<lparr>cs_x := 0, cs_y := 1\<rparr>" unfolding welcome_split fold_append using 2 by (simp add: s1_def)
  then show ?thesis using s1 by (simp add: spec_begin_def show_screen_def invert_cursor_def at_cursor_def put_cell_def)
qed

lemma first_prompt:
  assumes d: "dims w h C R" and "82 \<le> C" "2 \<le> R"
  shows "session w h C R 2 1 (shell_start (term_start w h) v) ([], [])"
proof -
  let ?s = "\<lparr>sh_buffer = \<lambda>_. 0, sh_length = 0, sh_cursor = 0, promptCol = 0, promptRow = 0,
      cwd = (\<lambda>_. 0)(0 := 47, 1 := 0), sh_term = term_start w h, sh_vfs = v\<rparr>"
  let ?cs = "spec_begin C R"
  note b = spec_begin_state [OF assms(2,3)]
  have r0: "shell_rel w h C R 0 ?s ?cs" using start_rel [OF d] by (simp add: shell_rel_def)
  have pr: "\<forall>c \<in> set [36, 32 :: u8]. printable c" by (simp add: printable_def)
  let ?cs1 = "?cs\<lparr>grid := \<lambda>c r. if r = 1 \<and> c < 2 then ([36, 32] ! c, False) else grid ?cs c r, cs_x := 2\<rparr>"
  have "fold (spec_char C R) [36, 32] ?cs = ?cs1" using spec_puts [OF pr, of ?cs C R] b assms(2,3)
    by (simp add: numeral_2_eq_2 cong del: if_weak_cong)
  then have r1: "shell_rel w h C R 256 (sh_print ''$ '' ?s) ?cs1"
    using write_send [OF d r0, of "[36, 32]"] by (simp add: sh_print_def prompt_text)
  define s1 where "s1 = sh_print ''$ '' ?s"
  have row: "row_is C 2 1 [] (grid ?cs1)" using b by (auto simp: row_is_def)
  have r2: "shell_rel w h C R 0 (sh_flush s1) (spec_term C R TerminalFlush ?cs1)"
    using flush_send [OF d r1] by (simp add: s1_def)
  have f: "spec_term C R TerminalFlush ?cs1 = ?cs1\<lparr>on_screen := put_cell 2 1 (fst (grid ?cs1 2 1), True) (grid ?cs1)\<rparr>"
    using flush_row [OF row] b assms(2) by simp
  have g: "term_send TerminalGetCursor s = s" for s by (simp add: term_send_def term_handle_def)
  let ?s2 = "sh_flush s1"
  have xy: "unat (t_x (sh_term ?s2)) = 2" "unat (t_y (sh_term ?s2)) = 1"
    using r2 b unfolding f by (simp_all add: shell_rel_def term_rel_def)
  have "shell_start (term_start w h) v = ?s2\<lparr>promptCol := t_x (sh_term ?s2), promptRow := t_y (sh_term ?s2)\<rparr>"
    by (simp add: shell_start_def printPrompt_def Let_def g s1_def)
  moreover have "editing (?s2\<lparr>promptCol := t_x (sh_term ?s2), promptRow := t_y (sh_term ?s2)\<rparr>) ([], [])"
    by (simp add: editing_def line_text_def s1_def sh_print_def client_defs)
  moreover have "line_shown C R 2 1 (spec_term C R TerminalFlush ?cs1) ([], [])"
    unfolding f using b row assms(2,3) by (auto simp: line_shown_def line_text_def)
  moreover have "shell_rel w h C R 0 (?s2\<lparr>promptCol := t_x (sh_term ?s2), promptRow := t_y (sh_term ?s2)\<rparr>) (spec_term C R TerminalFlush ?cs1)"
    using r2 by (simp add: shell_rel_def)
  ultimately show ?thesis using xy by (auto simp: session_def)
qed

lemma session_keys:
  assumes "dims w h C R"
  shows "session w h C R x y s lr \<Longrightarrow> \<forall>(key, os) \<in> set keys. key \<noteq> 0x0D \<Longrightarrow>
    \<exists>s'. shell_keys keys s = Some s' \<and> session w h C R x y s' (fold edit (map fst keys) lr)"
proof (induction keys arbitrary: s lr)
  case (Cons k ks)
  obtain key os where k: "k = (key, os)" by (cases k)
  obtain l r where lr: "lr = (l, r)" by (cases lr)
  obtain s1 where s1: "shell_key os key s = Some s1" "session w h C R x y s1 (edit key (l, r))"
    using session_key [OF assms Cons.prems(1) [unfolded lr], of key os] Cons.prems(2) k by auto
  then show ?case using Cons.IH [OF s1(2)] Cons.prems(2) k lr by (simp del: edit.simps)
qed simp


text \<open>Five keys: l, s, left, x, right.\<close>

definition no_replies :: os_replies where
  "no_replies = \<lparr>os_memInfo = (0, 0, 0), os_procList = [], os_names = [], os_uptime = 0, os_heap = True, os_exec = \<lambda>_. 0\<rparr>"


section \<open>Enter\<close>

lemma words_empty: "words w = [] \<longleftrightarrow> set w \<subseteq> {32}"
proof -
  have "words_from False w = [] \<longleftrightarrow> set w \<subseteq> {32}" by (induction w) auto
  then show ?thesis by (simp add: words_def)
qed

lemma execute_words:
  assumes e: "editing s lr"
  defines "sh \<equiv> sh_putchar 10 (s\<lparr>sh_buffer := (sh_buffer s)(unat (sh_length s) := 0)\<rparr>)"
  shows "execute os s =
      (if words (line_text lr) = [] then Some (printPrompt sh)
       else case run_command os (take 16 (words (line_text lr))) sh of
              None \<Rightarrow> None | Some s' \<Rightarrow> Some (printPrompt (s'\<lparr>sh_length := 0, sh_cursor := 0\<rparr>)))"
proof -
  let ?w = "line_text lr"
  have len: "unat (sh_length s) = length ?w" "\<forall>i < length ?w. sh_buffer s i = ?w ! i" "\<forall>c \<in> set ?w. printable c"
    using e by (simp_all add: editing_def)
  have nz: "0 \<notin> set ?w" using len(3) by (auto simp: printable_def)
  have f: "sh_length sh = sh_length s" "sh_buffer sh = (sh_buffer s)(length ?w := 0)"
    using len(1) by (simp_all add: sh_def sh_putchar_def)
  obtain copy args where p: "parseArgs (sh_buffer sh) (length ?w) SHELL_MAX_ARGS = (copy, args)" by fastforce
  have a: "map (cstr_at copy (length ?w + 1)) args = take 16 (words ?w)"
    using parse_words [OF nz _ _ p] len(2) f(2) by (simp add: SHELL_MAX_ARGS_def)
  show ?thesis
  proof (cases "sh_length s = 0")
    case True
    then have "?w = []" using len(1) by simp
    then show ?thesis using True f(1) by (simp add: execute_def Let_def sh_def words_def)
  next
    case False
    then have "execute os s = (if args = [] then Some (printPrompt sh)
        else case run_command os (map (cstr_at copy (length ?w + 1)) args) sh of
          None \<Rightarrow> None | Some s' \<Rightarrow> Some (printPrompt (s'\<lparr>sh_length := 0, sh_cursor := 0\<rparr>)))"
      using f(1) p len(1) unfolding execute_def Let_def sh_def [symmetric]
      by (simp add: sh_def [symmetric] split: option.splits Option.bind_splits)
    moreover have "args = [] \<longleftrightarrow> words ?w = []" using a by (metis map_is_Nil_conv take_eq_Nil zero_neq_numeral)
    ultimately show ?thesis using a by simp
  qed
qed


definition demo_shell :: "terminal \<Rightarrow> shell" where
  "demo_shell t = (shell_start t demo_vol)\<lparr>sh_buffer := (\<lambda>_. 0)(0 := 112, 1 := 119, 2 := 100), sh_length := 3, sh_cursor := 3\<rparr>"


text \<open>
  C40. The loop of \<^verbatim>\<open>cat\<close> over the file system service: for an open file on a
  well-formed volume it ends, the terminal has then received exactly the bytes of the file, in
  order and once each, whatever the size, and no sector of the drive has changed.
\<close>

theorem cat_prints_file:
  assumes "vol_ok X (sh_vfs s)" "fs_allocs (sh_vfs s) = []" "handle_of h (sh_vfs s) = Some fh" "file_ok (sh_vfs s) fh cs"
  shows "\<exists>s'. cat_loop h 0 s = Some s' \<and> sh_term s' = fold term_putchar (contents (sh_vfs s) fh cs) (sh_term s) \<and>
    same_fs X (sh_vfs s) (sh_vfs s')"
  using cat_loop_text [OF assms(1) _ assms(3,4), of 0] assms(2) by (simp add: enough_def)

theorem cat_prints_file_witness:
  "\<exists>s'. cat_loop 1 0 (demo_shell (term_start 1024 768)) = Some s' \<and>
     sh_term s' = fold term_putchar [104, 101, 108, 108, 111] (sh_term (demo_shell (term_start 1024 768)))"
proof -
  have v: "sh_vfs (demo_shell (term_start 1024 768)) = demo_vol"
    by (simp add: demo_shell_def shell_start_def printPrompt_def Let_def client_defs sh_print_def)
  show ?thesis
    using cat_prints_file [of "{l. l \<ge> 64}" "demo_shell (term_start 1024 768)" 1 demo_file "[3]"] demo_vol_facts demo_vol_file demo_vol_contents
    unfolding v by auto
qed

end
