(* ===== verification/Spec2Isabelle.thy ===== *)
theory Spec2Isabelle
  imports Memory Linked_List Allocator Physical Paging Kernel_Heap Gdt Elf
    Kernel_State Processes Scheduler Irq Syscalls Kernel_Inv User_Memory Kernel_Own
    Destroy Kernel_Steps Kernel Kernel_Ipc Str Fmt Fat_Cache Fat_Table
    Fat_Names Fat_Dir Fat_Files Fat_Inv Fat_Rw Fat_Write Keyboard Font
    Gfx Display Nameserver Terminal Shell Shell_Line
begin

text \<open>
  CassiOS is a small microkernel for i386: a kernel with paging, preemptive processes,
  synchronous message passing and interrupt forwarding, freestanding C++ libraries that the
  kernel and the programs share, and user-space services (name server, file system, terminal,
  shell, drivers).  This library models its own logic as HOL functions, one theory per part,
  and proves what makes each part correct.  A function of a theory has the name of the C++
  function it translates; source paths below are under \<^verbatim>\<open>src/\<close>.

  \<^bold>\<open>How the code is modelled.\<close>  Machine integers are words of their width (\<^verbatim>\<open>u32\<close> is
  \<^typ>\<open>32 word\<close>), with the wrap-around of C++; loops are recursion, total where a measure
  exists and \<^theory_text>\<open>partial_function (option)\<close> where the code can loop for ever; state is a
  record that is passed and returned.  \<open>None\<close> at the outermost level stands for an execution
  that does not return or whose C++ behaviour is undefined, so that a theorem that gives
  \<open>Some\<close> excludes both; an error the code reports is an ordinary value.

  \<^bold>\<open>Libraries.\<close>  \<open>Memory\<close> (libs/mem): copy, move, set and compare on byte memory, with the
  word-sized loops.  \<open>Linked_List\<close> (libs/collections): the intrusive list on pointers,
  with the interface \<open>node_queue\<close> that the scheduler and the queues rely on.
  \<open>Allocator\<close> (libs/alloc): the first-fit heap with coalescing, interface
  \<open>heap_allocator\<close>.  \<open>Str\<close> (libs/str): string views.  \<open>Fmt\<close> (libs/fmt): the formatter.

  \<^bold>\<open>Kernel.\<close>  \<open>Physical\<close> (memory/physical): the frame bitmap, interface
  \<open>frame_source\<close>.  \<open>Paging\<close> (memory/paging): page directories and tables in
  physical memory.  \<open>Kernel_Heap\<close> (memory/heap, operators).  \<open>Gdt\<close> (core/gdt):
  segment descriptors and selectors.  \<open>Elf\<close> (core/elf): the loader.  \<open>Kernel_State\<close>,
  \<open>Processes\<close>, \<open>Scheduler\<close>, \<open>Irq\<close>, \<open>Syscalls\<close> (core/process, core/scheduler,
  hardware/irq, hardware/pit, core/syscall): the process table, its queues, the round-robin
  scheduler, interrupt forwarding and every system call.  Over these stand the proofs about
  the running kernel: \<open>Kernel_Inv\<close> (the invariant of the process table), \<open>User_Memory\<close>
  (user buffers through the page tables), \<open>Kernel_Own\<close> (who owns which heap block),
  \<open>Destroy\<close> (the end of a process), \<open>Kernel_Steps\<close> (the kernel as a transition system,
  a step being one system call or one interrupt), \<open>Kernel\<close> (core/kernel: boot, modules,
  reachable states, fairness) and \<open>Kernel_Ipc\<close> (what the message primitives deliver).

  \<^bold>\<open>File system service\<close> (userspace/core/vfs).  \<open>Fat_Cache\<close>: state, sector cache, sectors
  and clusters.  \<open>Fat_Table\<close>: the allocation table.  \<open>Fat_Names\<close>: directory entries, short
  and long names.  \<open>Fat_Dir\<close>: listing, lookup, paths, creation and removal.  \<open>Fat_Files\<close>:
  mounting, the public operations and the service's dispatch.  \<open>Fat_Inv\<close>: what every operation
  keeps, and runs of the service.  \<open>Fat_Rw\<close>: the meaning of reading and writing a file.  The
  ATA client is the interface to the drive, a function from sectors to bytes with a set of
  sectors it refuses.

  \<^bold>\<open>What is shown.\<close>  For the data structures: functional behaviour of every operation, refinement
  of the pointer structures to sequences and sets, safety (no overlap, no double free), round
  trips (allocate and free, encode and decode, write and read).  For the kernel: the invariant
  of every reachable state, termination of the scheduler's search and of exit, bounded waiting
  of ready processes, delivery, order and wake-up of messages, no lost interrupt, bounds of the
  heap break, and that the chunked transfer between address spaces is one copy.  For the file
  system: the cache is transparent, the table is read back as written, freeing a chain ends on
  every table, names survive their encoding, files read back as they were written, and runs of
  the service keep its invariant.

  \<^bold>\<open>Bounds and fuel.\<close>  No fuel is used.  Loops bounded by a counter recurse on it; loops along a
  pointer chain or a cluster chain are partial functions, and the theorems about them prove
  that they return.  Small volumes and memories in the witnesses have a few dozen sectors or
  frames; nothing in the theorems depends on these sizes.

  \<^bold>\<open>Not modelled.\<close>  Assembly stubs (the context switch and interrupt entry appear as the saved
  register frame), the translation lookaside buffer, the port I/O of devices other than the
  interrupt controller and the timer, the serial log, tests and the test framework.  System calls are
  atomic steps although the system call gate leaves interrupts enabled, and user pointers are
  taken as the kernel takes them, unchecked.  User programs without logic of their own, and the
  parts listed as not modelled in the manifest, are left out.
\<close>

end
